(* ===== verification/Prelude.thy ===== *)
theory Prelude
  imports Main "HOL-Library.Word" "HOL-Library.Monad_Syntax"
begin

text \<open>
  Shared vocabulary of the development: the C++ integer types as words, the error
  convention of the models, the theorem collections the component theories extend, and
  the generic lemmas about words that several components use.

  A C++ value of type \<open>int64\<close> and one of type \<open>uint64\<close> are both a 64-bit word; the
  operations say how they read it (\<open>sint\<close> or \<open>uint\<close>). An operation that can fail
  (a \<open>CHECK_FATAL\<close>, a failed \<open>ASSERT\<close>, an operation whose C++ behaviour is undefined)
  returns an \<open>option\<close>, with \<open>None\<close> for the failure. One exception: where the constant folder adds
  or negates an \<open>int64\<close> without a check, the word wraps around, although C++ leaves the overflow
  undefined (and a build with \<open>-ftrapv\<close> stops there); FoldConst and FoldExpr name the places.
\<close>

unbundle bit_operations_syntax

type_synonym i64 = "64 word"
type_synonym u64 = "64 word"
type_synonym i32 = "32 word"
type_synonym u32 = "32 word"
type_synonym u16 = "16 word"
type_synonym byte = "8 word"

named_theorems norm_simps "how the canonical form of a value absorbs operations"
named_theorems fold_defs "the defining equations of the folding steps"

definition bool_word :: "bool \<Rightarrow> 'a::len word" where
  "bool_word b = (if b then 1 else 0)"

lemma bool_word_simps [simp]: "bool_word True = 1" "bool_word False = 0"
  by (simp_all add: bool_word_def)

lemma bool_word_eq_0 [simp]: "bool_word b = (0 :: 'a::len word) \<longleftrightarrow> \<not> b"
  by (simp add: bool_word_def)

lemma ucast_bool_word [simp]: "(ucast (bool_word b :: 32 word) :: 64 word) = bool_word b"
  by (simp add: bool_word_def)

text \<open>The bytes of a \<open>std::string\<close>.\<close>

definition bytes_of_string :: "string \<Rightarrow> byte list" where
  "bytes_of_string s = map (\<lambda>c. of_nat (of_char c)) s"

section \<open>Agreement of two words on their low bits\<close>

lemma take_bit_word_add: "take_bit n (take_bit n a + take_bit n b) = take_bit n (a + b)"
  for a b :: "'a::len word"
  by transfer (simp add: take_bit_add)

lemma take_bit_word_diff: "take_bit n (take_bit n a - take_bit n b) = take_bit n (a - b)"
  for a b :: "'a::len word"
  by transfer (simp add: take_bit_diff)

lemma take_bit_word_mult: "take_bit n (take_bit n a * take_bit n b) = take_bit n (a * b)"
  for a b :: "'a::len word"
  by transfer (simp add: take_bit_mult)

lemma take_bit_word_minus: "take_bit n (- take_bit n a) = take_bit n (- a)"
  for a :: "'a::len word"
  by transfer (simp add: take_bit_minus)

lemma take_bit_cong_add:
  fixes a b c d :: "'a::len word"
  assumes "take_bit n a = take_bit n c" and "take_bit n b = take_bit n d"
  shows "take_bit n (a + b) = take_bit n (c + d)"
  by (subst (1 2) take_bit_word_add [symmetric]) (simp add: assms)

lemma take_bit_cong_diff:
  fixes a b c d :: "'a::len word"
  assumes "take_bit n a = take_bit n c" and "take_bit n b = take_bit n d"
  shows "take_bit n (a - b) = take_bit n (c - d)"
  by (subst (1 2) take_bit_word_diff [symmetric]) (simp add: assms)

lemma take_bit_cong_mult:
  fixes a b c d :: "'a::len word"
  assumes "take_bit n a = take_bit n c" and "take_bit n b = take_bit n d"
  shows "take_bit n (a * b) = take_bit n (c * d)"
  by (subst (1 2) take_bit_word_mult [symmetric]) (simp add: assms)

lemma take_bit_cong_minus:
  fixes a c :: "'a::len word"
  assumes "take_bit n a = take_bit n c"
  shows "take_bit n (- a) = take_bit n (- c)"
  by (subst (1 2) take_bit_word_minus [symmetric]) (simp add: assms)

lemma take_bit_cong_le:
  fixes a c :: "'a::len word"
  assumes "take_bit n a = take_bit n c" and "m \<le> n"
  shows "take_bit m a = take_bit m c"
  using assms by (metis min.absorb1 take_bit_take_bit)

lemma take_bit_32_ucast: "take_bit 32 (ucast (ucast (a :: 64 word) :: 32 word) :: 64 word) = take_bit 32 a"
  by (rule bit_word_eqI) (auto simp: bit_simps)

lemma ucast_ucast_32: "(ucast (ucast (a :: 64 word) :: 32 word) :: 64 word) = take_bit 32 a"
  by (rule bit_word_eqI) (auto simp: bit_simps)

lemma ucast_32_eq_iff:
  "(ucast (a :: 64 word) :: 32 word) = ucast b \<longleftrightarrow> take_bit 32 a = take_bit 32 b"
proof
  assume "(ucast a :: 32 word) = ucast b"
  then have "(ucast (ucast a :: 32 word) :: 64 word) = ucast (ucast b :: 32 word)" by simp
  then show "take_bit 32 a = take_bit 32 b" by (simp add: ucast_ucast_32)
next
  assume eq: "take_bit 32 a = take_bit 32 b"
  show "(ucast a :: 32 word) = ucast b"
  proof (rule bit_word_eqI)
    fix n assume "n < LENGTH(32)"
    moreover from eq have "bit (take_bit 32 a) n = bit (take_bit 32 b) n" by simp
    ultimately show "bit (ucast a :: 32 word) n = bit (ucast b :: 32 word) n"
      by (simp add: bit_simps)
  qed
qed

section \<open>Splitting a word at a bit\<close>

lemma take_or_drop: "take_bit n v OR push_bit n (drop_bit n v) = (v :: 'a::len word)"
proof (rule bit_word_eqI)
  fix m
  assume "m < LENGTH('a)"
  then show "bit (take_bit n v OR push_bit n (drop_bit n v)) m = bit v m"
    by (cases "m < n") (simp_all add: bit_simps)
qed

lemma push_take_or_drop:
  "push_bit s (take_bit n v) OR push_bit (s + n) (drop_bit n v) = push_bit s (v :: 'a::len word)"
  by (metis push_bit_or push_bit_push_bit take_or_drop)

lemma bits_above: "(v :: 'a::len word) < 2 ^ n \<Longrightarrow> n < LENGTH('a) \<Longrightarrow> bit v m \<Longrightarrow> m < n"
  using less_mask_eq [of v n] by (metis bit_and_iff bit_mask_iff)

end
