(* ===== verification/PrimTypes.thy ===== *)
theory PrimTypes
  imports Prelude
begin

text \<open>
  The primitive types of Maple IR: the enumeration \<open>PrimType\<close> and its property table
  (maple_ir/include/prim_types.def, with DYNAMICLANG, as BUILDCONFIG.gn sets it), the
  classification functions of mir_type.cpp and the predicates of mir_type.h. Pointers are
  8 bytes wide (TARGAARCH64). A function whose default branch is a failed \<open>ASSERT\<close> or
  \<open>CHECK_FATAL\<close> returns an option.
\<close>

section \<open>The enumeration and its property table\<close>

datatype (plugins only: code) prim_type =
  PTY_begin | PTY_void | PTY_i8 | PTY_i16 | PTY_i32 | PTY_i64 | PTY_i128 | PTY_u8
    | PTY_u16 | PTY_u32 | PTY_u64 | PTY_u128 | PTY_u1 | PTY_ptr | PTY_ref | PTY_a32
    | PTY_a64 | PTY_f32 | PTY_f64 | PTY_f128 | PTY_c64 | PTY_c128 | PTY_simplestr
    | PTY_simpleobj | PTY_dynany | PTY_dynundef | PTY_dynnull | PTY_dynbool | PTY_dyni32
    | PTY_dynstr | PTY_dynobj | PTY_dynf64 | PTY_dynf32 | PTY_dynnone | PTY_constStr
    | PTY_gen | PTY_agg | PTY_v2i64 | PTY_v4i32 | PTY_v8i16 | PTY_v16i8 | PTY_v2u64
    | PTY_v4u32 | PTY_v8u16 | PTY_v16u8 | PTY_v2f64 | PTY_v4f32 | PTY_v2i32 | PTY_v4i16
    | PTY_v8i8 | PTY_v2u32 | PTY_v4u16 | PTY_v8u8 | PTY_v2f32 | PTY_reservedpty1
    | PTY_reservedpty2 | PTY_reservedpty3 | PTY_reservedpty4 | PTY_reservedpty5
    | PTY_reservedpty6 | PTY_reservedpty7 | PTY_reservedpty8 | PTY_reservedpty9
    | PTY_reservedpty10 | PTY_unknown | PTY_end

record prim_property =
  isInteger :: bool
  isUnsigned :: bool
  isAddress :: bool
  isFloat :: bool
  isPointer :: bool
  isSimple :: bool
  isDynamic :: bool
  isDynamicAny :: bool
  isDynamicNone :: bool
  isVector :: bool

definition no_property :: prim_property where
  "no_property = \<lparr>isInteger = False, isUnsigned = False, isAddress = False, isFloat = False, isPointer = False,
     isSimple = False, isDynamic = False, isDynamicAny = False, isDynamicNone = False, isVector = False\<rparr>"

definition GetPrimitiveTypeProperty :: "prim_type \<Rightarrow> prim_property" where
  "GetPrimitiveTypeProperty p = (case p of
      PTY_i8 \<Rightarrow> no_property\<lparr>isInteger := True\<rparr>
    | PTY_i16 \<Rightarrow> no_property\<lparr>isInteger := True\<rparr>
    | PTY_i32 \<Rightarrow> no_property\<lparr>isInteger := True\<rparr>
    | PTY_i64 \<Rightarrow> no_property\<lparr>isInteger := True\<rparr>
    | PTY_i128 \<Rightarrow> no_property\<lparr>isInteger := True\<rparr>
    | PTY_u8 \<Rightarrow> no_property\<lparr>isInteger := True, isUnsigned := True\<rparr>
    | PTY_u16 \<Rightarrow> no_property\<lparr>isInteger := True, isUnsigned := True\<rparr>
    | PTY_u32 \<Rightarrow> no_property\<lparr>isInteger := True, isUnsigned := True\<rparr>
    | PTY_u64 \<Rightarrow> no_property\<lparr>isInteger := True, isUnsigned := True, isAddress := True, isPointer := True\<rparr>
    | PTY_u128 \<Rightarrow> no_property\<lparr>isInteger := True, isUnsigned := True\<rparr>
    | PTY_u1 \<Rightarrow> no_property\<lparr>isInteger := True, isUnsigned := True\<rparr>
    | PTY_ptr \<Rightarrow> no_property\<lparr>isInteger := True, isUnsigned := True, isAddress := True, isPointer := True\<rparr>
    | PTY_ref \<Rightarrow> no_property\<lparr>isInteger := True, isUnsigned := True, isAddress := True, isPointer := True\<rparr>
    | PTY_a32 \<Rightarrow> no_property\<lparr>isInteger := True, isUnsigned := True, isAddress := True, isPointer := True\<rparr>
    | PTY_a64 \<Rightarrow> no_property\<lparr>isInteger := True, isUnsigned := True, isAddress := True, isPointer := True\<rparr>
    | PTY_f32 \<Rightarrow> no_property\<lparr>isFloat := True\<rparr>
    | PTY_f64 \<Rightarrow> no_property\<lparr>isFloat := True\<rparr>
    | PTY_f128 \<Rightarrow> no_property\<lparr>isFloat := True\<rparr>
    | PTY_simplestr \<Rightarrow> no_property\<lparr>isAddress := True, isSimple := True\<rparr>
    | PTY_simpleobj \<Rightarrow> no_property\<lparr>isAddress := True, isSimple := True\<rparr>
    | PTY_dynany \<Rightarrow> no_property\<lparr>isDynamic := True, isDynamicAny := True\<rparr>
    | PTY_dynundef \<Rightarrow> no_property\<lparr>isDynamic := True\<rparr>
    | PTY_dynnull \<Rightarrow> no_property\<lparr>isDynamic := True\<rparr>
    | PTY_dynbool \<Rightarrow> no_property\<lparr>isInteger := True, isDynamic := True\<rparr>
    | PTY_dyni32 \<Rightarrow> no_property\<lparr>isInteger := True, isDynamic := True\<rparr>
    | PTY_dynstr \<Rightarrow> no_property\<lparr>isDynamic := True\<rparr>
    | PTY_dynobj \<Rightarrow> no_property\<lparr>isDynamic := True\<rparr>
    | PTY_dynf64 \<Rightarrow> no_property\<lparr>isFloat := True, isDynamic := True\<rparr>
    | PTY_dynf32 \<Rightarrow> no_property\<lparr>isFloat := True, isDynamic := True\<rparr>
    | PTY_dynnone \<Rightarrow> no_property\<lparr>isDynamic := True, isDynamicNone := True\<rparr>
    | PTY_constStr \<Rightarrow> no_property\<lparr>isPointer := True\<rparr>
    | PTY_v2i64 \<Rightarrow> no_property\<lparr>isInteger := True, isVector := True\<rparr>
    | PTY_v4i32 \<Rightarrow> no_property\<lparr>isInteger := True, isVector := True\<rparr>
    | PTY_v8i16 \<Rightarrow> no_property\<lparr>isInteger := True, isVector := True\<rparr>
    | PTY_v16i8 \<Rightarrow> no_property\<lparr>isInteger := True, isVector := True\<rparr>
    | PTY_v2u64 \<Rightarrow> no_property\<lparr>isInteger := True, isUnsigned := True, isVector := True\<rparr>
    | PTY_v4u32 \<Rightarrow> no_property\<lparr>isInteger := True, isUnsigned := True, isVector := True\<rparr>
    | PTY_v8u16 \<Rightarrow> no_property\<lparr>isInteger := True, isUnsigned := True, isVector := True\<rparr>
    | PTY_v16u8 \<Rightarrow> no_property\<lparr>isInteger := True, isUnsigned := True, isVector := True\<rparr>
    | PTY_v2f64 \<Rightarrow> no_property\<lparr>isFloat := True, isVector := True\<rparr>
    | PTY_v4f32 \<Rightarrow> no_property\<lparr>isFloat := True, isVector := True\<rparr>
    | PTY_v2i32 \<Rightarrow> no_property\<lparr>isInteger := True, isVector := True\<rparr>
    | PTY_v4i16 \<Rightarrow> no_property\<lparr>isInteger := True, isVector := True\<rparr>
    | PTY_v8i8 \<Rightarrow> no_property\<lparr>isInteger := True, isVector := True\<rparr>
    | PTY_v2u32 \<Rightarrow> no_property\<lparr>isInteger := True, isUnsigned := True, isVector := True\<rparr>
    | PTY_v4u16 \<Rightarrow> no_property\<lparr>isInteger := True, isUnsigned := True, isVector := True\<rparr>
    | PTY_v8u8 \<Rightarrow> no_property\<lparr>isInteger := True, isUnsigned := True, isVector := True\<rparr>
    | PTY_v2f32 \<Rightarrow> no_property\<lparr>isFloat := True, isVector := True\<rparr>
    | PTY_end \<Rightarrow> no_property\<lparr>isVector := True\<rparr>
    | _ \<Rightarrow> no_property)"

definition IsAddress :: "prim_type \<Rightarrow> bool" where
  "IsAddress p = isAddress (GetPrimitiveTypeProperty p)"

definition IsPossible64BitAddress :: "prim_type \<Rightarrow> bool" where
  "IsPossible64BitAddress p = (p = PTY_ptr \<or> p = PTY_ref \<or> p = PTY_u64 \<or> p = PTY_a64)"

definition IsPossible32BitAddress :: "prim_type \<Rightarrow> bool" where
  "IsPossible32BitAddress p = (p = PTY_ptr \<or> p = PTY_ref \<or> p = PTY_u32 \<or> p = PTY_a32)"

definition MustBeAddress :: "prim_type \<Rightarrow> bool" where
  "MustBeAddress p = (p = PTY_ptr \<or> p = PTY_ref \<or> p = PTY_a64 \<or> p = PTY_a32)"

definition IsPrimitivePureScalar :: "prim_type \<Rightarrow> bool" where
  "IsPrimitivePureScalar p = (let q = GetPrimitiveTypeProperty p
     in isInteger q \<and> \<not> isAddress q \<and> \<not> isDynamic q \<and> \<not> isVector q)"

definition IsUnsignedInteger :: "prim_type \<Rightarrow> bool" where
  "IsUnsignedInteger p = (let q = GetPrimitiveTypeProperty p
     in isInteger q \<and> isUnsigned q \<and> \<not> isDynamic q)"

definition IsSignedInteger :: "prim_type \<Rightarrow> bool" where
  "IsSignedInteger p = (let q = GetPrimitiveTypeProperty p
     in isInteger q \<and> \<not> isUnsigned q \<and> \<not> isDynamic q)"

definition IsPrimitiveInteger :: "prim_type \<Rightarrow> bool" where
  "IsPrimitiveInteger p = (let q = GetPrimitiveTypeProperty p
     in isInteger q \<and> \<not> isDynamic q \<and> \<not> isVector q)"

definition IsPrimitiveDynType :: "prim_type \<Rightarrow> bool" where
  "IsPrimitiveDynType p = isDynamic (GetPrimitiveTypeProperty p)"

definition IsPrimitiveDynInteger :: "prim_type \<Rightarrow> bool" where
  "IsPrimitiveDynInteger p = (let q = GetPrimitiveTypeProperty p in isDynamic q \<and> isInteger q)"

definition IsPrimitiveFloat :: "prim_type \<Rightarrow> bool" where
  "IsPrimitiveFloat p = (let q = GetPrimitiveTypeProperty p
     in isFloat q \<and> \<not> isDynamic q \<and> \<not> isVector q)"

definition IsPrimitiveScalar :: "prim_type \<Rightarrow> bool" where
  "IsPrimitiveScalar p = (let q = GetPrimitiveTypeProperty p
     in isInteger q \<or> isFloat q \<or> (isDynamic q \<and> \<not> isDynamicNone q) \<or> isSimple q)"

section \<open>Sizes, register types, signed and unsigned counterparts\<close>

definition GetPrimTypeSize :: "prim_type \<Rightarrow> nat" where
  "GetPrimTypeSize p = (case p of
    PTY_void \<Rightarrow> 0 | PTY_agg \<Rightarrow> 0 | PTY_ptr \<Rightarrow> 8
    | PTY_ref \<Rightarrow> 8 | PTY_u1 \<Rightarrow> 1 | PTY_i8 \<Rightarrow> 1
    | PTY_u8 \<Rightarrow> 1 | PTY_i16 \<Rightarrow> 2 | PTY_u16 \<Rightarrow> 2
    | PTY_a32 \<Rightarrow> 4 | PTY_f32 \<Rightarrow> 4 | PTY_i32 \<Rightarrow> 4
    | PTY_u32 \<Rightarrow> 4 | PTY_simplestr \<Rightarrow> 4
    | PTY_simpleobj \<Rightarrow> 4 | PTY_a64 \<Rightarrow> 8 | PTY_c64 \<Rightarrow> 8
    | PTY_f64 \<Rightarrow> 8 | PTY_i64 \<Rightarrow> 8 | PTY_u64 \<Rightarrow> 8
    | PTY_v2i32 \<Rightarrow> 8 | PTY_v4i16 \<Rightarrow> 8 | PTY_v8i8 \<Rightarrow> 8
    | PTY_v2u32 \<Rightarrow> 8 | PTY_v4u16 \<Rightarrow> 8 | PTY_v8u8 \<Rightarrow> 8
    | PTY_v2f32 \<Rightarrow> 8 | PTY_u128 \<Rightarrow> 16 | PTY_i128 \<Rightarrow> 16
    | PTY_c128 \<Rightarrow> 16 | PTY_f128 \<Rightarrow> 16
    | PTY_v2i64 \<Rightarrow> 16 | PTY_v4i32 \<Rightarrow> 16
    | PTY_v8i16 \<Rightarrow> 16 | PTY_v16i8 \<Rightarrow> 16
    | PTY_v2u64 \<Rightarrow> 16 | PTY_v4u32 \<Rightarrow> 16
    | PTY_v8u16 \<Rightarrow> 16 | PTY_v16u8 \<Rightarrow> 16
    | PTY_v2f64 \<Rightarrow> 16 | PTY_v4f32 \<Rightarrow> 16
    | PTY_dynf32 \<Rightarrow> 8 | PTY_dyni32 \<Rightarrow> 8
    | PTY_dynstr \<Rightarrow> 8 | PTY_dynobj \<Rightarrow> 8
    | PTY_dynundef \<Rightarrow> 8 | PTY_dynnull \<Rightarrow> 8
    | PTY_dynbool \<Rightarrow> 8 | PTY_dynany \<Rightarrow> 8
    | PTY_dynf64 \<Rightarrow> 8 | _ \<Rightarrow> 0)"

definition GetPrimTypeP2Size :: "prim_type \<Rightarrow> nat option" where
  "GetPrimTypeP2Size p = (case p of
    PTY_ptr \<Rightarrow> Some 3 | PTY_ref \<Rightarrow> Some 3
    | PTY_u1 \<Rightarrow> Some 0 | PTY_i8 \<Rightarrow> Some 0
    | PTY_u8 \<Rightarrow> Some 0 | PTY_i16 \<Rightarrow> Some 1
    | PTY_u16 \<Rightarrow> Some 1 | PTY_a32 \<Rightarrow> Some 2
    | PTY_f32 \<Rightarrow> Some 2 | PTY_i32 \<Rightarrow> Some 2
    | PTY_u32 \<Rightarrow> Some 2 | PTY_simplestr \<Rightarrow> Some 2
    | PTY_simpleobj \<Rightarrow> Some 2 | PTY_a64 \<Rightarrow> Some 3
    | PTY_c64 \<Rightarrow> Some 3 | PTY_f64 \<Rightarrow> Some 3
    | PTY_i64 \<Rightarrow> Some 3 | PTY_u64 \<Rightarrow> Some 3
    | PTY_v2i32 \<Rightarrow> Some 3 | PTY_v4i16 \<Rightarrow> Some 3
    | PTY_v8i8 \<Rightarrow> Some 3 | PTY_v2u32 \<Rightarrow> Some 3
    | PTY_v4u16 \<Rightarrow> Some 3 | PTY_v8u8 \<Rightarrow> Some 3
    | PTY_v2f32 \<Rightarrow> Some 3 | PTY_c128 \<Rightarrow> Some 4
    | PTY_f128 \<Rightarrow> Some 4 | PTY_v2i64 \<Rightarrow> Some 4
    | PTY_v4i32 \<Rightarrow> Some 4 | PTY_v8i16 \<Rightarrow> Some 4
    | PTY_v16i8 \<Rightarrow> Some 4 | PTY_v2u64 \<Rightarrow> Some 4
    | PTY_v4u32 \<Rightarrow> Some 4 | PTY_v8u16 \<Rightarrow> Some 4
    | PTY_v16u8 \<Rightarrow> Some 4 | PTY_v2f64 \<Rightarrow> Some 4
    | PTY_v4f32 \<Rightarrow> Some 4 | PTY_dynf32 \<Rightarrow> Some 3
    | PTY_dyni32 \<Rightarrow> Some 3 | PTY_dynstr \<Rightarrow> Some 3
    | PTY_dynobj \<Rightarrow> Some 3 | PTY_dynundef \<Rightarrow> Some 3
    | PTY_dynnull \<Rightarrow> Some 3 | PTY_dynbool \<Rightarrow> Some 3
    | PTY_dynany \<Rightarrow> Some 3 | PTY_dynf64 \<Rightarrow> Some 3
    | _ \<Rightarrow> None)"

definition GetPrimTypeLanes :: "prim_type \<Rightarrow> nat" where
  "GetPrimTypeLanes p = (case p of
    PTY_v2i32 \<Rightarrow> 2 | PTY_v2u32 \<Rightarrow> 2 | PTY_v2f32 \<Rightarrow> 2
    | PTY_v2i64 \<Rightarrow> 2 | PTY_v2u64 \<Rightarrow> 2 | PTY_v2f64 \<Rightarrow> 2
    | PTY_v4i16 \<Rightarrow> 4 | PTY_v4u16 \<Rightarrow> 4 | PTY_v4i32 \<Rightarrow> 4
    | PTY_v4u32 \<Rightarrow> 4 | PTY_v4f32 \<Rightarrow> 4 | PTY_v8i8 \<Rightarrow> 8
    | PTY_v8u8 \<Rightarrow> 8 | PTY_v8i16 \<Rightarrow> 8 | PTY_v8u16 \<Rightarrow> 8
    | PTY_v16i8 \<Rightarrow> 16 | PTY_v16u8 \<Rightarrow> 16 | _ \<Rightarrow> 0)"

definition GetRegPrimType :: "prim_type \<Rightarrow> prim_type" where
  "GetRegPrimType p = (case p of
    PTY_i8 \<Rightarrow> PTY_i32 | PTY_i16 \<Rightarrow> PTY_i32
    | PTY_u1 \<Rightarrow> PTY_u32 | PTY_u8 \<Rightarrow> PTY_u32
    | PTY_u16 \<Rightarrow> PTY_u32 | _ \<Rightarrow> p)"

definition GetReg64PrimType :: "prim_type \<Rightarrow> prim_type" where
  "GetReg64PrimType p = (case p of
    PTY_i8 \<Rightarrow> PTY_i64 | PTY_i16 \<Rightarrow> PTY_i64
    | PTY_i32 \<Rightarrow> PTY_i64 | PTY_u1 \<Rightarrow> PTY_u64
    | PTY_u8 \<Rightarrow> PTY_u64 | PTY_u16 \<Rightarrow> PTY_u64
    | PTY_u32 \<Rightarrow> PTY_u64 | _ \<Rightarrow> p)"

definition GetDynType :: "prim_type \<Rightarrow> prim_type" where
  "GetDynType p = (case p of
    PTY_u1 \<Rightarrow> PTY_dynbool | PTY_i32 \<Rightarrow> PTY_dyni32
    | PTY_simplestr \<Rightarrow> PTY_dynstr | PTY_simpleobj \<Rightarrow> PTY_dynobj
    | PTY_f32 \<Rightarrow> PTY_dynf32 | PTY_f64 \<Rightarrow> PTY_dynf64
    | _ \<Rightarrow> p)"

definition GetNonDynType :: "prim_type \<Rightarrow> prim_type" where
  "GetNonDynType p = (case p of
    PTY_dynbool \<Rightarrow> PTY_u1 | PTY_dyni32 \<Rightarrow> PTY_i32
    | PTY_dynstr \<Rightarrow> PTY_simplestr | PTY_dynobj \<Rightarrow> PTY_simpleobj
    | PTY_dynf32 \<Rightarrow> PTY_f32 | PTY_dynf64 \<Rightarrow> PTY_f64
    | _ \<Rightarrow> p)"

definition GetSignedPrimType :: "prim_type \<Rightarrow> prim_type" where
  "GetSignedPrimType p = (case p of
    PTY_ptr \<Rightarrow> PTY_i64 | PTY_ref \<Rightarrow> PTY_i64
    | PTY_a64 \<Rightarrow> PTY_i64 | PTY_u64 \<Rightarrow> PTY_i64
    | PTY_u8 \<Rightarrow> PTY_i8 | PTY_u16 \<Rightarrow> PTY_i16
    | PTY_a32 \<Rightarrow> PTY_i32 | PTY_u32 \<Rightarrow> PTY_i32 | _ \<Rightarrow> p)"

definition GetUnsignedPrimType :: "prim_type \<Rightarrow> prim_type" where
  "GetUnsignedPrimType p = (case p of
    PTY_i64 \<Rightarrow> PTY_u64 | PTY_i8 \<Rightarrow> PTY_u8
    | PTY_i16 \<Rightarrow> PTY_u16 | PTY_i32 \<Rightarrow> PTY_u32 | _ \<Rightarrow> p)"

definition GetPrimTypeName :: "prim_type \<Rightarrow> string" where
  "GetPrimTypeName p = (case p of
      PTY_begin \<Rightarrow> ''kPtyInvalid'' | PTY_void \<Rightarrow> ''void''
    | PTY_i8 \<Rightarrow> ''i8'' | PTY_i16 \<Rightarrow> ''i16''
    | PTY_i32 \<Rightarrow> ''i32'' | PTY_i64 \<Rightarrow> ''i64''
    | PTY_i128 \<Rightarrow> ''i128'' | PTY_u8 \<Rightarrow> ''u8''
    | PTY_u16 \<Rightarrow> ''u16'' | PTY_u32 \<Rightarrow> ''u32''
    | PTY_u64 \<Rightarrow> ''u64'' | PTY_u128 \<Rightarrow> ''u128''
    | PTY_u1 \<Rightarrow> ''u1'' | PTY_ptr \<Rightarrow> ''ptr''
    | PTY_ref \<Rightarrow> ''ref'' | PTY_a32 \<Rightarrow> ''a32''
    | PTY_a64 \<Rightarrow> ''a64'' | PTY_f32 \<Rightarrow> ''f32''
    | PTY_f64 \<Rightarrow> ''f64'' | PTY_f128 \<Rightarrow> ''f128''
    | PTY_c64 \<Rightarrow> ''c64'' | PTY_c128 \<Rightarrow> ''c128''
    | PTY_simplestr \<Rightarrow> ''simplestr''
    | PTY_simpleobj \<Rightarrow> ''simpleobj'' | PTY_dynany \<Rightarrow> ''dynany''
    | PTY_dynundef \<Rightarrow> ''dynundef'' | PTY_dynnull \<Rightarrow> ''dynnull''
    | PTY_dynbool \<Rightarrow> ''dynbool'' | PTY_dyni32 \<Rightarrow> ''dyni32''
    | PTY_dynstr \<Rightarrow> ''dynstr'' | PTY_dynobj \<Rightarrow> ''dynobj''
    | PTY_dynf64 \<Rightarrow> ''dynf64'' | PTY_dynf32 \<Rightarrow> ''dynf32''
    | PTY_dynnone \<Rightarrow> ''dynnone'' | PTY_constStr \<Rightarrow> ''constStr''
    | PTY_gen \<Rightarrow> ''gen'' | PTY_agg \<Rightarrow> ''agg''
    | PTY_v2i64 \<Rightarrow> ''v2i64'' | PTY_v4i32 \<Rightarrow> ''v4i32''
    | PTY_v8i16 \<Rightarrow> ''v8i16'' | PTY_v16i8 \<Rightarrow> ''v16i8''
    | PTY_v2u64 \<Rightarrow> ''v2u64'' | PTY_v4u32 \<Rightarrow> ''v4u32''
    | PTY_v8u16 \<Rightarrow> ''v8u16'' | PTY_v16u8 \<Rightarrow> ''v16u8''
    | PTY_v2f64 \<Rightarrow> ''v2f64'' | PTY_v4f32 \<Rightarrow> ''v4f32''
    | PTY_v2i32 \<Rightarrow> ''v2i32'' | PTY_v4i16 \<Rightarrow> ''v4i16''
    | PTY_v8i8 \<Rightarrow> ''v8i8'' | PTY_v2u32 \<Rightarrow> ''v2u32''
    | PTY_v4u16 \<Rightarrow> ''v4u16'' | PTY_v8u8 \<Rightarrow> ''v8u8''
    | PTY_v2f32 \<Rightarrow> ''v2f32'' | PTY_reservedpty1 \<Rightarrow> ''reservedpty1''
    | PTY_reservedpty2 \<Rightarrow> ''reservedpty2''
    | PTY_reservedpty3 \<Rightarrow> ''reservedpty3''
    | PTY_reservedpty4 \<Rightarrow> ''reservedpty4''
    | PTY_reservedpty5 \<Rightarrow> ''reservedpty5''
    | PTY_reservedpty6 \<Rightarrow> ''reservedpty6''
    | PTY_reservedpty7 \<Rightarrow> ''reservedpty7''
    | PTY_reservedpty8 \<Rightarrow> ''reservedpty8''
    | PTY_reservedpty9 \<Rightarrow> ''reservedpty9''
    | PTY_reservedpty10 \<Rightarrow> ''reservedpty10''
    | PTY_unknown \<Rightarrow> ''unknown'' | PTY_end \<Rightarrow> ''derived'')"

definition GetPrimTypeBitSize :: "prim_type \<Rightarrow> nat" where
  "GetPrimTypeBitSize p = GetPrimTypeSize p * 8"

definition GetPrimTypeActualBitSize :: "prim_type \<Rightarrow> nat" where
  "GetPrimTypeActualBitSize p = (if p = PTY_u1 then 1 else GetPrimTypeSize p * 8)"

definition GetIntegerPrimTypeBySizeAndSign :: "nat \<Rightarrow> bool \<Rightarrow> prim_type" where
  "GetIntegerPrimTypeBySizeAndSign sizeBit isSign =
     (if sizeBit = 1 then (if isSign then PTY_begin else PTY_u1)
      else if sizeBit = 8 then (if isSign then PTY_i8 else PTY_u8)
      else if sizeBit = 16 then (if isSign then PTY_i16 else PTY_u16)
      else if sizeBit = 32 then (if isSign then PTY_i32 else PTY_u32)
      else if sizeBit = 64 then (if isSign then PTY_i64 else PTY_u64)
      else PTY_begin)"

definition VerifyPrimType :: "prim_type \<Rightarrow> prim_type \<Rightarrow> bool" where
  "VerifyPrimType primType1 primType2 =
     (if primType1 \<in> {PTY_u1, PTY_u8, PTY_u16, PTY_u32, PTY_a32} then IsUnsignedInteger primType2
      else if primType1 \<in> {PTY_i8, PTY_i16, PTY_i32} then IsSignedInteger primType2
      else primType1 = primType2)"

definition IsNoCvtNeeded :: "prim_type \<Rightarrow> prim_type \<Rightarrow> bool" where
  "IsNoCvtNeeded toType fromType =
     (if toType = fromType then True
      else if toType = PTY_i32 then fromType = PTY_i16 \<or> fromType = PTY_i8
      else if toType = PTY_u32 then fromType = PTY_u16 \<or> fromType = PTY_u8
      else if toType \<in> {PTY_u1, PTY_u8, PTY_u16} then fromType = PTY_u32
      else if toType \<in> {PTY_i8, PTY_i16} then fromType = PTY_i32
      else if toType \<in> {PTY_i64, PTY_u64, PTY_a64, PTY_ptr}
      then fromType = PTY_ptr \<or> fromType = PTY_u64 \<or> fromType = PTY_a64 \<or> fromType = PTY_i64
      else False)"

definition MinValOfSignedInteger :: "prim_type \<Rightarrow> i64 option" where
  "MinValOfSignedInteger p = (case p of
     PTY_i8 \<Rightarrow> Some (- 128) | PTY_i16 \<Rightarrow> Some (- 32768)
   | PTY_i32 \<Rightarrow> Some (- 2147483648) | PTY_i64 \<Rightarrow> Some (- 9223372036854775808)
   | _ \<Rightarrow> None)"

section \<open>The modelled integer types\<close>

text \<open>
  \<open>scalar_int p\<close>: the primitive integer types that fit a 64-bit constant (every type
  \<open>IsPrimitiveInteger\<close> accepts but the two 128-bit ones).
\<close>

definition scalar_int :: "prim_type \<Rightarrow> bool" where
  "scalar_int p = (IsPrimitiveInteger p \<and> GetPrimTypeSize p \<le> 8)"

lemmas prim_pred_defs = IsUnsignedInteger_def IsSignedInteger_def IsPrimitiveInteger_def
  IsPrimitiveDynType_def IsPrimitiveDynInteger_def IsPrimitiveFloat_def IsAddress_def
  IsPrimitivePureScalar_def GetPrimitiveTypeProperty_def no_property_def Let_def

lemma scalar_int_cases:
  "scalar_int p \<longleftrightarrow> p \<in> {PTY_i8, PTY_i16, PTY_i32, PTY_i64, PTY_u8, PTY_u16, PTY_u32,
     PTY_u64, PTY_u1, PTY_ptr, PTY_ref, PTY_a32, PTY_a64}"
  by (cases p) (simp_all add: scalar_int_def prim_pred_defs GetPrimTypeSize_def)

lemma IsPrimitiveInteger_cases:
  "IsPrimitiveInteger p \<longleftrightarrow> scalar_int p \<or> p = PTY_i128 \<or> p = PTY_u128"
  by (cases p) (simp_all add: scalar_int_cases prim_pred_defs)

lemma scalar_int_simps [simp]:
  "scalar_int PTY_i8"
  "scalar_int PTY_i16"
  "scalar_int PTY_i32"
  "scalar_int PTY_i64"
  "scalar_int PTY_u8"
  "scalar_int PTY_u16"
  "scalar_int PTY_u32"
  "scalar_int PTY_u64"
  "scalar_int PTY_u1"
  "scalar_int PTY_ptr"
  "scalar_int PTY_ref"
  "scalar_int PTY_a32"
  "scalar_int PTY_a64"
  by (simp_all add: scalar_int_cases)

lemma GetPrimTypeSize_simps [simp]:
  "GetPrimTypeSize PTY_i8 = 1"
  "GetPrimTypeSize PTY_i16 = 2"
  "GetPrimTypeSize PTY_i32 = 4"
  "GetPrimTypeSize PTY_i64 = 8"
  "GetPrimTypeSize PTY_u8 = 1"
  "GetPrimTypeSize PTY_u16 = 2"
  "GetPrimTypeSize PTY_u32 = 4"
  "GetPrimTypeSize PTY_u64 = 8"
  "GetPrimTypeSize PTY_u1 = 1"
  "GetPrimTypeSize PTY_ptr = 8"
  "GetPrimTypeSize PTY_ref = 8"
  "GetPrimTypeSize PTY_a32 = 4"
  "GetPrimTypeSize PTY_a64 = 8"
  by (simp_all add: GetPrimTypeSize_def)

lemma IsSignedInteger_simps [simp]:
  "IsSignedInteger PTY_i8"
  "IsSignedInteger PTY_i16"
  "IsSignedInteger PTY_i32"
  "IsSignedInteger PTY_i64"
  "\<not> IsSignedInteger PTY_u8"
  "\<not> IsSignedInteger PTY_u16"
  "\<not> IsSignedInteger PTY_u32"
  "\<not> IsSignedInteger PTY_u64"
  "\<not> IsSignedInteger PTY_u1"
  "\<not> IsSignedInteger PTY_ptr"
  "\<not> IsSignedInteger PTY_ref"
  "\<not> IsSignedInteger PTY_a32"
  "\<not> IsSignedInteger PTY_a64"
  by (simp_all add: prim_pred_defs)

lemma scalar_intE [consumes 1, elim]:
  assumes "scalar_int p"
  obtains "p = PTY_i8" | "p = PTY_i16" | "p = PTY_i32" | "p = PTY_i64" | "p = PTY_u8"
    | "p = PTY_u16" | "p = PTY_u32" | "p = PTY_u64" | "p = PTY_u1" | "p = PTY_ptr"
    | "p = PTY_ref" | "p = PTY_a32" | "p = PTY_a64"
  using assms unfolding scalar_int_cases by blast

lemma IsUnsigned_iff_not_signed:
  assumes "scalar_int p"
  shows "IsUnsignedInteger p \<longleftrightarrow> \<not> IsSignedInteger p"
proof -
  have "isInteger (GetPrimitiveTypeProperty p)" and "\<not> isDynamic (GetPrimitiveTypeProperty p)"
    using assms by (simp_all add: scalar_int_def IsPrimitiveInteger_def Let_def)
  then show ?thesis by (simp add: IsUnsignedInteger_def IsSignedInteger_def Let_def)
qed

lemma scalar_int_integer [simp]: "scalar_int p \<Longrightarrow> IsPrimitiveInteger p"
  by (simp add: scalar_int_def)

lemma scalar_int_not_dyn [simp]: "scalar_int p \<Longrightarrow> \<not> IsPrimitiveDynType p"
  by (simp add: scalar_int_def IsPrimitiveInteger_def IsPrimitiveDynType_def Let_def)

lemma scalar_int_size:
  "scalar_int p \<Longrightarrow> GetPrimTypeSize p \<in> {1, 2, 4, 8}"
  by (erule scalar_intE) simp_all

end
