(* ===== verification/MirConst.thy ===== *)
theory MirConst
  imports PrimTypes
begin

text \<open>
  Integer constants of Maple IR (\<open>MIRIntConst\<close>, maple_ir/include/mir_const.h and
  maple_ir/src/mir_const.cpp): a 64-bit value that the constructor truncates to the width of
  its type, sign-extending a signed type and zero-extending the others.
\<close>

section \<open>The record and its operations\<close>

record mir_int_const =
  ic_type :: prim_type
  ic_value :: i64

text \<open>
  \<open>MIRIntConst::Trunc\<close>: shift left and back by \<open>64 - width\<close>. A width above 64 fails the
  \<open>CHECK_FATAL\<close>; a shift by 64 or more is undefined behaviour.
\<close>

definition Trunc :: "prim_type \<Rightarrow> nat \<Rightarrow> i64 \<Rightarrow> i64 option" where
  "Trunc ty width value =
     (if width > 64 \<or> width = 0 then None
      else let unsignShiftBitNum = 64 - width in
        if IsSignedInteger ty
        then Some (signed_drop_bit unsignShiftBitNum (push_bit unsignShiftBitNum value))
        else Some (drop_bit unsignShiftBitNum (push_bit unsignShiftBitNum value)))"

definition MIRIntConst :: "i64 \<Rightarrow> prim_type \<Rightarrow> mir_int_const option" where
  "MIRIntConst val ty =
     (if \<not> IsPrimitiveDynType ty
      then do {
        v \<leftarrow> (if ty = PTY_u128 \<or> ty = PTY_i128 then Trunc ty 64 val
                  else Trunc ty (GetPrimTypeBitSize ty) val);
        Some \<lparr>ic_type = ty, ic_value = v\<rparr> }
      else Some \<lparr>ic_type = ty, ic_value = val\<rparr>)"

definition GetValueUnderType :: "mir_int_const \<Rightarrow> i64 option" where
  "GetValueUnderType c =
     (let ty = GetNonDynType (ic_type c);
          bitSize = (if ty = PTY_u128 \<or> ty = PTY_i128 then 64 else GetPrimTypeBitSize ty)
      in if bitSize > 64 \<or> bitSize = 0 then None
         else let shiftBitNum = 64 - bitSize in
           if IsSignedInteger (ic_type c)
           then Some (signed_drop_bit shiftBitNum (push_bit shiftBitNum (ic_value c)))
           else Some (drop_bit shiftBitNum (push_bit shiftBitNum (ic_value c))))"

definition IsZero :: "mir_int_const \<Rightarrow> bool" where
  "IsZero c = (ic_value c = 0 \<and> IsPrimitiveInteger (ic_type c))"

definition IsGeZero :: "mir_int_const \<Rightarrow> bool" where
  "IsGeZero c = (0 \<le>s ic_value c \<and> IsPrimitiveInteger (ic_type c))"

definition IsMagicNum :: "mir_int_const \<Rightarrow> bool" where
  "IsMagicNum c = (ic_value c = 51 \<and> IsPrimitiveInteger (ic_type c))"

definition IsOne :: "mir_int_const \<Rightarrow> bool" where
  "IsOne c = (ic_value c = 1 \<and> IsPrimitiveInteger (ic_type c))"

definition IsAllBitsOne :: "mir_int_const \<Rightarrow> bool" where
  "IsAllBitsOne c = (ic_value c = - 1 \<and> IsPrimitiveInteger (ic_type c))"

function bit_width_loop :: "u64 \<Rightarrow> nat \<Rightarrow> nat" where
  "bit_width_loop tmp width = (if tmp \<noteq> 0 then bit_width_loop (drop_bit 1 tmp) (width + 1) else width)"
  by pat_completeness auto

lemma unat_drop_bit_1_less: "tmp \<noteq> 0 \<Longrightarrow> unat (drop_bit (Suc 0) (tmp :: u64)) < unat tmp"
proof -
  assume "tmp \<noteq> 0"
  then have "0 < unat tmp" by (simp add: unat_gt_0)
  then show ?thesis by (simp only: unat_drop_bit_eq) (simp add: drop_bit_eq_div)
qed

termination bit_width_loop
  by (relation "measure (\<lambda>(tmp, width). unat tmp)") (auto simp: unat_drop_bit_1_less)

declare bit_width_loop.simps [simp del]

definition GetBitWidth :: "mir_int_const \<Rightarrow> nat" where
  "GetBitWidth c =
     (if ic_value c = 0 then 1
      else let tmp = (if ic_value c <s 0 then - (ic_value c + 1) else ic_value c)
           in bit_width_loop tmp 0)"

section \<open>The canonical form of a value at a type\<close>

text \<open>
  \<open>norm p v\<close> is the value a constant of scalar type \<open>p\<close> holds when it is built from \<open>v\<close>;
  \<open>tbits p\<close> is the width that matters. Two words have the same canonical form exactly when
  they agree on the low \<open>tbits p\<close> bits, which is what the proofs about folding use.
\<close>

definition tbits :: "prim_type \<Rightarrow> nat" where
  "tbits p = (if GetPrimTypeBitSize p > 64 then 64 else GetPrimTypeBitSize p)"

definition norm :: "prim_type \<Rightarrow> i64 \<Rightarrow> i64" where
  "norm p v = (if IsSignedInteger p then signed_take_bit (tbits p - 1) v else take_bit (tbits p) v)"

lemma shift_back_signed:
  assumes "0 < w" "w \<le> 64"
  shows "signed_drop_bit (64 - w) (push_bit (64 - w) v) = signed_take_bit (w - 1) (v :: i64)"
proof (rule bit_word_eqI)
  fix n assume "n < LENGTH(64)"
  moreover have "n = w - 1 \<or> n < w - 1 \<or> w \<le> n" using assms by arith
  ultimately show "bit (signed_drop_bit (64 - w) (push_bit (64 - w) v)) n =
      bit (signed_take_bit (w - 1) v) n"
    using assms by (auto simp: bit_simps min_def)
qed

lemma shift_back_unsigned:
  assumes "w \<le> 64"
  shows "drop_bit (64 - w) (push_bit (64 - w) v) = take_bit w (v :: i64)"
  by (rule bit_word_eqI) (use assms in \<open>auto simp: bit_simps\<close>)

lemma tbits_cases: "scalar_int p \<Longrightarrow> tbits p \<in> {8, 16, 32, 64}"
  by (erule scalar_intE) (simp_all add: tbits_def GetPrimTypeBitSize_def)

lemma tbits_bounds: "scalar_int p \<Longrightarrow> 0 < tbits p" "scalar_int p \<Longrightarrow> tbits p \<le> 64"
  using tbits_cases by fastforce+

lemma Trunc_norm:
  assumes "scalar_int p"
  shows "Trunc p (GetPrimTypeBitSize p) v = Some (norm p v)"
proof -
  have b: "tbits p = GetPrimTypeBitSize p"
    using assms by (auto simp: scalar_int_def tbits_def GetPrimTypeBitSize_def)
  show ?thesis
    using tbits_bounds [OF assms]
    by (simp add: Trunc_def norm_def b [symmetric] shift_back_signed shift_back_unsigned Let_def)
qed

lemma MIRIntConst_norm:
  assumes "scalar_int p"
  shows "MIRIntConst v p = Some \<lparr>ic_type = p, ic_value = norm p v\<rparr>"
proof -
  have "p \<noteq> PTY_u128" "p \<noteq> PTY_i128" using assms by auto
  with assms Trunc_norm [of p v] show ?thesis by (simp add: MIRIntConst_def)
qed

lemma take_bit_norm [simp]: "scalar_int p \<Longrightarrow> take_bit (tbits p) (norm p v) = take_bit (tbits p) v"
  using tbits_bounds [of p] by (simp add: norm_def take_bit_signed_take_bit)

lemma norm_eq_iff:
  assumes "scalar_int p"
  shows "norm p v = norm p w \<longleftrightarrow> take_bit (tbits p) v = take_bit (tbits p) w"
proof
  assume "norm p v = norm p w"
  then show "take_bit (tbits p) v = take_bit (tbits p) w"
    using take_bit_norm [OF assms] by metis
next
  assume eq: "take_bit (tbits p) v = take_bit (tbits p) w"
  show "norm p v = norm p w"
  proof (cases "IsSignedInteger p")
    case True
    have "signed_take_bit (tbits p - 1) v = signed_take_bit (tbits p - 1) w"
    proof (rule bit_word_eqI)
      fix n
      have "bit v m = bit w m" if "m < tbits p" for m
        using arg_cong [OF eq, of "\<lambda>x. bit x m"] that by (simp add: bit_simps)
      then show "bit (signed_take_bit (tbits p - 1) v) n = bit (signed_take_bit (tbits p - 1) w) n"
        using tbits_bounds [OF assms] by (simp add: bit_simps min_def)
    qed
    with True show ?thesis by (simp add: norm_def)
  next
    case False
    with eq show ?thesis by (simp add: norm_def)
  qed
qed

lemma norm_norm [simp]: "scalar_int p \<Longrightarrow> norm p (norm p v) = norm p v"
  by (simp add: norm_eq_iff)

lemma norm_norm_le:
  assumes "scalar_int p" "scalar_int q" "tbits p \<le> tbits q"
  shows "norm p (norm q v) = norm p v"
proof -
  have "take_bit (tbits p) (norm q v) = take_bit (tbits p) v"
    using take_bit_norm [OF assms(2)] assms(3) by (rule take_bit_cong_le)
  then show ?thesis using assms(1) by (simp add: norm_eq_iff)
qed

end
