(* ===== verification/IRExpr.thy ===== *)
theory IRExpr
  imports MirConst "HOL-Library.Signed_Division"
begin

text \<open>
  Expression trees of Maple IR (maple_ir/include/mir_nodes.h) and what they mean.

  The datatype has one constructor per node class that the integer part of the constant
  folder handles; \<open>ELeaf\<close> is a node without operands (\<open>dread\<close>, \<open>regread\<close>) that reads the
  storage cell it carries. Node identity (the pointer) is abstracted to structural equality.

  \<open>eval\<close> is the specification the folder is measured against: every node computes a 64-bit
  value in the canonical form of its type; \<open>None\<close> stands for an outcome the language leaves
  undefined (division by zero, a shift by the width or more, a \<open>u1\<close> other than 0 and 1) or
  for an operator outside the modelled integer fragment. It reads \<open>cand\<close> and \<open>cior\<close> strictly: both
  operands have to have a value. The language leaves the second operand alone when the first decides;
  that reading is \<open>seval\<close> of theory ShortCircuit, which is \<open>eval\<close> wherever \<open>eval\<close> has a value.
\<close>

section \<open>Opcodes and nodes\<close>

datatype (plugins only: code) opcode =
  OP_dread | OP_regread | OP_constval
  | OP_abs | OP_bnot | OP_lnot | OP_neg | OP_recip | OP_sqrt
  | OP_sext | OP_zext | OP_extractbits | OP_depositbits
  | OP_ceil | OP_cvt | OP_floor | OP_round | OP_trunc
  | OP_add | OP_sub | OP_mul | OP_div | OP_rem | OP_ashr | OP_lshr | OP_shl
  | OP_max | OP_min | OP_band | OP_bior | OP_bxor
  | OP_land | OP_lior | OP_cand | OP_cior
  | OP_eq | OP_ne | OP_ge | OP_gt | OP_le | OP_lt | OP_cmp | OP_cmpl | OP_cmpg

datatype expr =
    ELeaf opcode prim_type nat
  | EConst prim_type mir_int_const
  | EUnary opcode prim_type expr
  | EBinary opcode prim_type expr expr
  | ECompare opcode prim_type prim_type expr expr
  | ETypeCvt opcode prim_type prim_type expr
  | EExtractbits opcode prim_type nat nat expr
  | EDepositbits prim_type nat nat expr expr

primrec GetPrimType :: "expr \<Rightarrow> prim_type" where
  "GetPrimType (ELeaf op p x) = p"
| "GetPrimType (EConst p c) = p"
| "GetPrimType (EUnary op p e) = p"
| "GetPrimType (EBinary op p l r) = p"
| "GetPrimType (ECompare op p q l r) = p"
| "GetPrimType (ETypeCvt op p q e) = p"
| "GetPrimType (EExtractbits op p off sz e) = p"
| "GetPrimType (EDepositbits p off sz l r) = p"

primrec GetOpCode :: "expr \<Rightarrow> opcode" where
  "GetOpCode (ELeaf op p x) = op"
| "GetOpCode (EConst p c) = OP_constval"
| "GetOpCode (EUnary op p e) = op"
| "GetOpCode (EBinary op p l r) = op"
| "GetOpCode (ECompare op p q l r) = op"
| "GetOpCode (ETypeCvt op p q e) = op"
| "GetOpCode (EExtractbits op p off sz e) = op"
| "GetOpCode (EDepositbits p off sz l r) = OP_depositbits"

text \<open>\<open>safe_cast<ConstvalNode>\<close>: the constant, if the node is one.\<close>

definition as_const :: "expr \<Rightarrow> mir_int_const option" where
  "as_const e = (case e of EConst p c \<Rightarrow> Some c | _ \<Rightarrow> None)"

definition CreateIntConst :: "i64 \<Rightarrow> prim_type \<Rightarrow> expr option" where
  "CreateIntConst val pty = do { c \<leftarrow> MIRIntConst val pty; Some (EConst pty c) }"

section \<open>The meaning of an expression\<close>

definition at_type :: "prim_type \<Rightarrow> i64 \<Rightarrow> i64 option" where
  "at_type p v = (if p = PTY_u1 \<and> norm p v \<noteq> 0 \<and> norm p v \<noteq> 1 then None else Some (norm p v))"

definition word_less :: "prim_type \<Rightarrow> i64 \<Rightarrow> i64 \<Rightarrow> bool" where
  "word_less p x y = (if IsSignedInteger p then x <s y else x < y)"

definition eval_unary :: "opcode \<Rightarrow> prim_type \<Rightarrow> i64 \<Rightarrow> i64 option" where
  "eval_unary op p a = (case op of
     OP_abs \<Rightarrow> Some (if IsSignedInteger p \<and> norm p a <s 0 then - norm p a else norm p a)
   | OP_bnot \<Rightarrow> Some (NOT a)
   | OP_lnot \<Rightarrow> Some (bool_word (a = 0))
   | OP_neg \<Rightarrow> Some (- a)
   | _ \<Rightarrow> None)"

text \<open>Division by zero, and the most negative value divided by -1, have no defined result.\<close>

definition div_undefined :: "prim_type \<Rightarrow> i64 \<Rightarrow> i64 \<Rightarrow> bool" where
  "div_undefined p x y =
     (y = 0 \<or> IsSignedInteger p \<and> y = - 1 \<and> sint x = - (2 ^ (tbits p - 1)))"

definition eval_div :: "prim_type \<Rightarrow> i64 \<Rightarrow> i64 \<Rightarrow> i64" where
  "eval_div p x y = (if IsSignedInteger p then word_of_int (sint x sdiv sint y) else x div y)"

definition eval_rem :: "prim_type \<Rightarrow> i64 \<Rightarrow> i64 \<Rightarrow> i64" where
  "eval_rem p x y = (if IsSignedInteger p then word_of_int (sint x smod sint y) else x mod y)"

definition eval_binary :: "opcode \<Rightarrow> prim_type \<Rightarrow> i64 \<Rightarrow> i64 \<Rightarrow> i64 option" where
  "eval_binary op p a b = (case op of
     OP_add \<Rightarrow> Some (a + b)
   | OP_sub \<Rightarrow> Some (a - b)
   | OP_mul \<Rightarrow> Some (a * b)
   | OP_div \<Rightarrow> (if div_undefined p (norm p a) (norm p b) then None
                else Some (eval_div p (norm p a) (norm p b)))
   | OP_rem \<Rightarrow> (if div_undefined p (norm p a) (norm p b) then None
                else Some (eval_rem p (norm p a) (norm p b)))
   | OP_max \<Rightarrow> Some (if word_less p (norm p a) (norm p b) then b else a)
   | OP_min \<Rightarrow> Some (if word_less p (norm p b) (norm p a) then b else a)
   | OP_band \<Rightarrow> Some (a AND b)
   | OP_bior \<Rightarrow> Some (a OR b)
   | OP_bxor \<Rightarrow> Some (a XOR b)
   | OP_ashr \<Rightarrow> (if unat b \<ge> tbits p then None
                 else Some (signed_drop_bit (unat b) (signed_take_bit (tbits p - 1) a)))
   | OP_lshr \<Rightarrow> (if unat b \<ge> tbits p then None else Some (drop_bit (unat b) (take_bit (tbits p) a)))
   | OP_shl \<Rightarrow> (if unat b \<ge> tbits p then None else Some (push_bit (unat b) a))
   | OP_land \<Rightarrow> Some (bool_word (a \<noteq> 0 \<and> b \<noteq> 0))
   | OP_cand \<Rightarrow> Some (bool_word (a \<noteq> 0 \<and> b \<noteq> 0))
   | OP_lior \<Rightarrow> Some (bool_word (a \<noteq> 0 \<or> b \<noteq> 0))
   | OP_cior \<Rightarrow> Some (bool_word (a \<noteq> 0 \<or> b \<noteq> 0))
   | _ \<Rightarrow> None)"

definition eval_compare :: "opcode \<Rightarrow> prim_type \<Rightarrow> i64 \<Rightarrow> i64 \<Rightarrow> i64 option" where
  "eval_compare op q a b = do {
     x \<leftarrow> at_type q a;
     y \<leftarrow> at_type q b;
     (case op of
       OP_eq \<Rightarrow> Some (bool_word (x = y))
     | OP_ne \<Rightarrow> Some (bool_word (x \<noteq> y))
     | OP_lt \<Rightarrow> Some (bool_word (word_less q x y))
     | OP_gt \<Rightarrow> Some (bool_word (word_less q y x))
     | OP_le \<Rightarrow> Some (bool_word (\<not> word_less q y x))
     | OP_ge \<Rightarrow> Some (bool_word (\<not> word_less q x y))
     | OP_cmp \<Rightarrow> Some (if word_less q y x then 1 else if x = y then 0 else - 1)
     | _ \<Rightarrow> None) }"

definition eval_extract :: "opcode \<Rightarrow> prim_type \<Rightarrow> nat \<Rightarrow> nat \<Rightarrow> i64 \<Rightarrow> i64 option" where
  "eval_extract op p off sz a = (case op of
     OP_sext \<Rightarrow> Some (signed_take_bit (sz - 1) a)
   | OP_zext \<Rightarrow> Some (take_bit sz a)
   | OP_extractbits \<Rightarrow> Some (if IsSignedInteger p then signed_take_bit (sz - 1) (drop_bit off a)
                              else take_bit sz (drop_bit off a))
   | _ \<Rightarrow> None)"

definition eval_deposit :: "nat \<Rightarrow> nat \<Rightarrow> i64 \<Rightarrow> i64 \<Rightarrow> i64" where
  "eval_deposit off sz a b =
     (a AND NOT (push_bit off (mask sz))) OR push_bit off (take_bit sz b)"

primrec eval :: "(nat \<Rightarrow> i64) \<Rightarrow> expr \<Rightarrow> i64 option" where
  "eval \<rho> (ELeaf op p x) = at_type p (\<rho> x)"
| "eval \<rho> (EConst p c) = at_type p (ic_value c)"
| "eval \<rho> (EUnary op p e) = do { a \<leftarrow> eval \<rho> e; v \<leftarrow> eval_unary op p a; at_type p v }"
| "eval \<rho> (EBinary op p l r) =
     do { a \<leftarrow> eval \<rho> l; b \<leftarrow> eval \<rho> r; v \<leftarrow> eval_binary op p a b; at_type p v }"
| "eval \<rho> (ECompare op p q l r) =
     do { a \<leftarrow> eval \<rho> l; b \<leftarrow> eval \<rho> r; v \<leftarrow> eval_compare op q a b; at_type p v }"
| "eval \<rho> (ETypeCvt op p q e) =
     do { a \<leftarrow> eval \<rho> e; v \<leftarrow> (if op = OP_cvt then at_type q a else None); at_type p v }"
| "eval \<rho> (EExtractbits op p off sz e) =
     do { a \<leftarrow> eval \<rho> e; v \<leftarrow> eval_extract op p off sz a; at_type p v }"
| "eval \<rho> (EDepositbits p off sz l r) =
     do { a \<leftarrow> eval \<rho> l; b \<leftarrow> eval \<rho> r; at_type p (eval_deposit off sz a b) }"

section \<open>Well-typed expressions\<close>

text \<open>
  \<open>reg_int\<close>: the integer types of register size, on which arithmetic is done. \<open>wt\<close> asks that
  the operands of an operator have its width (their signedness may differ), that the plain
  comparisons give a \<open>u1\<close> and \<open>cmp\<close> an \<open>i32\<close>, and that constants are in canonical form.
\<close>

definition reg_int :: "prim_type \<Rightarrow> bool" where
  "reg_int p = (scalar_int p \<and> 4 \<le> GetPrimTypeSize p)"

abbreviation esize :: "expr \<Rightarrow> nat" where
  "esize e \<equiv> GetPrimTypeSize (GetPrimType e)"

abbreviation ebits :: "expr \<Rightarrow> nat" where
  "ebits e \<equiv> tbits (GetPrimType e)"

definition arith_ops :: "opcode set" where
  "arith_ops = {OP_add, OP_sub, OP_mul, OP_div, OP_rem, OP_max, OP_min}"

definition bit_ops :: "opcode set" where
  "bit_ops = {OP_band, OP_bior, OP_bxor}"

definition shift_ops :: "opcode set" where
  "shift_ops = {OP_ashr, OP_lshr, OP_shl}"

definition logic_ops :: "opcode set" where
  "logic_ops = {OP_land, OP_lior, OP_cand, OP_cior}"

definition test_ops :: "opcode set" where
  "test_ops = {OP_eq, OP_ne, OP_ge, OP_gt, OP_le, OP_lt}"

primrec wt :: "expr \<Rightarrow> bool" where
  "wt (ELeaf op p x) = (op \<in> {OP_dread, OP_regread} \<and> scalar_int p)"
| "wt (EConst p c) = (scalar_int p \<and> ic_type c = p \<and> norm p (ic_value c) = ic_value c)"
| "wt (EUnary op p e) =
     (wt e \<and> (op \<in> {OP_abs, OP_bnot, OP_neg} \<and> reg_int p \<and> esize e = GetPrimTypeSize p
             \<or> op = OP_lnot \<and> scalar_int p \<and> (esize e \<le> 4 \<or> GetPrimTypeSize p = 8)))"
| "wt (EBinary op p l r) =
     (wt l \<and> wt r \<and>
      (op \<in> arith_ops \<and> reg_int p \<and> esize l = GetPrimTypeSize p \<and> esize r = GetPrimTypeSize p
       \<or> op \<in> bit_ops \<and> (reg_int p \<or> p = PTY_u1) \<and> esize l = GetPrimTypeSize p
           \<and> esize r = GetPrimTypeSize p
       \<or> op \<in> shift_ops \<and> reg_int p \<and> esize l = GetPrimTypeSize p
       \<or> op \<in> logic_ops \<and> scalar_int p))"
| "wt (ECompare op p q l r) =
     (wt l \<and> wt r \<and> (reg_int q \<or> q = PTY_u1) \<and> esize l = GetPrimTypeSize q \<and> esize r = GetPrimTypeSize q
      \<and> (op \<in> test_ops \<and> p = PTY_u1 \<or> op = OP_cmp \<and> p = PTY_i32))"
| "wt (ETypeCvt op p q e) =
     (wt e \<and> op = OP_cvt \<and> scalar_int p \<and> scalar_int q \<and> esize e = GetPrimTypeSize q)"
| "wt (EExtractbits op p off sz e) =
     (wt e \<and> op \<in> {OP_sext, OP_zext, OP_extractbits} \<and> reg_int p \<and> 0 < sz \<and> off + sz \<le> ebits e)"
| "wt (EDepositbits p off sz l r) =
     (wt l \<and> wt r \<and> reg_int p \<and> esize l = GetPrimTypeSize p \<and> sz \<le> ebits r
      \<and> off + sz \<le> tbits p \<and> off + sz < 64)"

section \<open>Facts about values\<close>

lemma reg_int_scalar [simp]: "reg_int p \<Longrightarrow> scalar_int p"
  by (simp add: reg_int_def)

lemma wt_scalar: "wt e \<Longrightarrow> scalar_int (GetPrimType e)"
  by (cases e) auto

lemma tbits_size: "scalar_int p \<Longrightarrow> tbits p = 8 * GetPrimTypeSize p"
  by (simp add: scalar_int_def tbits_def GetPrimTypeBitSize_def)

lemma tbits_eq_iff:
  "scalar_int p \<Longrightarrow> scalar_int q \<Longrightarrow> tbits p = tbits q \<longleftrightarrow> GetPrimTypeSize p = GetPrimTypeSize q"
  by (simp add: tbits_size)

lemma norm_0 [simp]: "norm p 0 = 0"
  by (simp add: norm_def)

lemma reg_int_not_u1: "reg_int p \<Longrightarrow> p \<noteq> PTY_u1"
  by (auto simp: reg_int_def)

lemma at_type_Some: "at_type p v = Some w \<Longrightarrow> w = norm p v"
  by (simp add: at_type_def split: if_splits)

lemma at_type_not_u1: "p \<noteq> PTY_u1 \<Longrightarrow> at_type p v = Some (norm p v)"
  by (simp add: at_type_def)

lemma at_type_reg: "reg_int p \<Longrightarrow> at_type p v = Some (norm p v)"
  by (simp add: at_type_not_u1 reg_int_not_u1)

lemma eval_norm: "eval \<rho> e = Some v \<Longrightarrow> scalar_int (GetPrimType e) \<Longrightarrow> norm (GetPrimType e) v = v"
  by (cases e) (auto simp: bind_eq_Some_conv dest!: at_type_Some)

end
