(* ===== verification/FoldConst.thy ===== *)
theory FoldConst
  imports IRExpr
begin

text \<open>
  Folding of operators whose operands are integer constants: the
  \<open>FoldIntConst...\<close>, \<open>FoldTypeCvtMIRConst\<close> and \<open>FoldSignExtendMIRConst\<close> functions of
  mpl2mpl/src/constantfold.cpp. The code computes on 64 or 32 bits according to the size of
  the result (or operand) type and lets \<open>MIRIntConst\<close> truncate. \<open>None\<close> is a failed check, an
  \<open>ASSERT(false)\<close> or a C++ operation that is undefined for these operands (division by zero,
  the most negative value divided by -1, a shift by the width or more). The negations of
  \<open>FoldIntConstUnary\<close> (constantfold.cpp:959, 962 and 985) wrap around: the most negative value is
  its own negation here, where the C++ operation overflows and is undefined. A result type \<open>dyni32\<close>
  fails before the constant is built and not in \<open>SetValue\<close>.

  The lemmas of the second half show that each of them computes what \<open>eval\<close> specifies.
\<close>

section \<open>Comparisons\<close>

definition FoldIntConstComparisonMIRConst ::
  "opcode \<Rightarrow> prim_type \<Rightarrow> prim_type \<Rightarrow> mir_int_const \<Rightarrow> mir_int_const \<Rightarrow> mir_int_const option" where
  "FoldIntConstComparisonMIRConst op resultType opndType c0 c1 =
     (let v0 = ic_value c0; v1 = ic_value c1;
          greater = (v1 <s v0); equal = (v0 = v1); less = (v0 <s v1);
          use64 = (GetPrimTypeSize opndType = 8);
          w0 = (ucast v0 :: 32 word); w1 = (ucast v1 :: 32 word);
          unsig = IsUnsignedInteger opndType
      in do {
        result \<leftarrow> (case op of
            OP_eq \<Rightarrow> Some (bool_word (if use64 then equal else w0 = w1))
          | OP_ge \<Rightarrow> Some (bool_word
              (if unsig then (if use64 then v0 \<ge> v1 else w0 \<ge> w1)
               else (if use64 then greater \<or> equal else w1 \<le>s w0)))
          | OP_gt \<Rightarrow> Some (bool_word
              (if unsig then (if use64 then v0 > v1 else w0 > w1)
               else (if use64 then greater else w1 <s w0)))
          | OP_le \<Rightarrow> Some (bool_word
              (if unsig then (if use64 then v0 \<le> v1 else w0 \<le> w1)
               else (if use64 then less \<or> equal else w0 \<le>s w1)))
          | OP_lt \<Rightarrow> Some (bool_word
              (if unsig then (if use64 then v0 < v1 else w0 < w1)
               else (if use64 then less else w0 <s w1)))
          | OP_ne \<Rightarrow> Some (bool_word (if use64 then \<not> equal else w0 \<noteq> w1))
          | OP_cmp \<Rightarrow> Some
              (if unsig then
                 (if use64 then (if v0 > v1 then 1 else if v0 = v1 then 0 else - 1)
                  else (if w0 > w1 then 1 else if w0 = w1 then 0 else - 1))
               else
                 (if use64 then (if v1 <s v0 then 1 else if v0 = v1 then 0 else - 1)
                  else (if w1 <s w0 then 1 else if w0 = w1 then 0 else - 1)))
          | _ \<Rightarrow> None);
        (if resultType = PTY_dyni32 then None else MIRIntConst result resultType) })"

section \<open>Binary operators\<close>

text \<open>
  The cases of \<open>FoldIntConstBinaryMIRConst\<close>, in four groups. Each returns \<open>result64\<close>, or
  \<open>result32\<close> zero-extended (the conversion that the final \<open>GetOrCreateIntConst\<close> makes).
\<close>

definition sdiv_defined :: "'a::len word \<Rightarrow> 'a word \<Rightarrow> bool" where
  "sdiv_defined x y = (y \<noteq> 0 \<and> \<not> (sint x = - (2 ^ (LENGTH('a) - 1)) \<and> y = - 1))"

definition fold_const_arith :: "opcode \<Rightarrow> bool \<Rightarrow> bool \<Rightarrow> i64 \<Rightarrow> i64 \<Rightarrow> i64 option" where
  "fold_const_arith op unsig use64 v0 v1 =
     (let w0 = (ucast v0 :: 32 word); w1 = (ucast v1 :: 32 word) in case op of
        OP_add \<Rightarrow> Some (if use64 then v0 + v1 else ucast (w0 + w1))
      | OP_sub \<Rightarrow> Some (if use64 then v0 - v1 else ucast (w0 - w1))
      | OP_mul \<Rightarrow> Some (if use64 then v0 * v1 else ucast (w0 * w1))
      | OP_div \<Rightarrow>
          (if unsig then
             (if use64 then (if v1 = 0 then None else Some (v0 div v1))
              else (if w1 = 0 then None else Some (ucast (w0 div w1))))
           else
             (if use64
              then (if sdiv_defined v0 v1 then Some (word_of_int (sint v0 sdiv sint v1)) else None)
              else (if sdiv_defined w0 w1
                    then Some (ucast (word_of_int (sint w0 sdiv sint w1) :: 32 word)) else None)))
      | OP_rem \<Rightarrow>
          (if unsig then
             (if use64 then (if v1 = 0 then None else Some (v0 mod v1))
              else (if w1 = 0 then None else Some (ucast (w0 mod w1))))
           else
             (if use64
              then (if sdiv_defined v0 v1 then Some (word_of_int (sint v0 smod sint v1)) else None)
              else (if sdiv_defined w0 w1
                    then Some (ucast (word_of_int (sint w0 smod sint w1) :: 32 word)) else None)))
      | _ \<Rightarrow> None)"

definition fold_const_shift :: "opcode \<Rightarrow> bool \<Rightarrow> i64 \<Rightarrow> i64 \<Rightarrow> i64 option" where
  "fold_const_shift op use64 v0 v1 =
     (let w0 = (ucast v0 :: 32 word); n64 = unat v1; n32 = unat (ucast v1 :: 32 word) in
      if (if use64 then n64 \<ge> 64 else n32 \<ge> 32) then None
      else case op of
        OP_ashr \<Rightarrow> Some (if use64 then signed_drop_bit n64 v0 else ucast (signed_drop_bit n32 w0))
      | OP_lshr \<Rightarrow> Some (if use64 then drop_bit n64 v0 else ucast (drop_bit n32 w0))
      | OP_shl \<Rightarrow> Some (if use64 then push_bit n64 v0 else ucast (push_bit n32 w0))
      | _ \<Rightarrow> None)"

definition fold_const_minmax :: "opcode \<Rightarrow> bool \<Rightarrow> bool \<Rightarrow> i64 \<Rightarrow> i64 \<Rightarrow> i64 option" where
  "fold_const_minmax op unsig use64 v0 v1 =
     (let w0 = (ucast v0 :: 32 word); w1 = (ucast v1 :: 32 word) in case op of
        OP_max \<Rightarrow> Some
          (if unsig then (if use64 then (if v0 \<ge> v1 then v0 else v1)
                          else ucast (if w0 \<ge> w1 then w0 else w1))
           else (if use64 then (if v1 \<le>s v0 then v0 else v1)
                 else ucast (if w1 \<le>s w0 then w0 else w1)))
      | OP_min \<Rightarrow> Some
          (if unsig then (if use64 then (if v0 \<le> v1 then v0 else v1)
                          else ucast (if w0 \<le> w1 then w0 else w1))
           else (if use64 then (if v0 \<le>s v1 then v0 else v1)
                 else ucast (if w0 \<le>s w1 then w0 else w1)))
      | _ \<Rightarrow> None)"

definition fold_const_bits :: "opcode \<Rightarrow> bool \<Rightarrow> i64 \<Rightarrow> i64 \<Rightarrow> i64 option" where
  "fold_const_bits op use64 v0 v1 =
     (let w0 = (ucast v0 :: 32 word); w1 = (ucast v1 :: 32 word) in
      if op = OP_band then Some (if use64 then v0 AND v1 else ucast (w0 AND w1))
      else if op = OP_bior then Some (if use64 then v0 OR v1 else ucast (w0 OR w1))
      else if op = OP_bxor then Some (if use64 then v0 XOR v1 else ucast (w0 XOR w1))
      else if op = OP_cand \<or> op = OP_land then
        Some (if use64 then bool_word (v0 \<noteq> 0 \<and> v1 \<noteq> 0)
              else ucast (bool_word (v0 \<noteq> 0 \<and> v1 \<noteq> 0) :: 32 word))
      else if op = OP_cior \<or> op = OP_lior then
        Some (if use64 then bool_word (v0 \<noteq> 0 \<or> v1 \<noteq> 0)
              else ucast (bool_word (v0 \<noteq> 0 \<or> v1 \<noteq> 0) :: 32 word))
      else None)"

definition FoldIntConstBinaryMIRConst ::
  "opcode \<Rightarrow> prim_type \<Rightarrow> mir_int_const \<Rightarrow> mir_int_const \<Rightarrow> mir_int_const option" where
  "FoldIntConstBinaryMIRConst op resultType c0 c1 =
     (let v0 = ic_value c0; v1 = ic_value c1;
          useResult64 = (GetPrimTypeSize resultType = 8);
          unsig = IsUnsignedInteger resultType
      in do {
        result \<leftarrow>
          (if op \<in> {OP_add, OP_sub, OP_mul, OP_div, OP_rem} then fold_const_arith op unsig useResult64 v0 v1
           else if op \<in> {OP_ashr, OP_lshr, OP_shl} then fold_const_shift op useResult64 v0 v1
           else if op \<in> {OP_max, OP_min} then fold_const_minmax op unsig useResult64 v0 v1
           else fold_const_bits op useResult64 v0 v1);
        (if resultType = PTY_dyni32 then None else MIRIntConst result resultType) })"

section \<open>Unary operators, conversions, bit fields\<close>

definition FoldIntConstUnary :: "opcode \<Rightarrow> prim_type \<Rightarrow> mir_int_const \<Rightarrow> expr option" where
  "FoldIntConstUnary op resultType c =
     (let v = ic_value c; w = (ucast v :: 32 word);
          useResult64 = (GetPrimTypeSize resultType = 8)
      in do {
        result \<leftarrow> (case op of
            OP_abs \<Rightarrow> Some
              (if IsUnsignedInteger resultType then (if useResult64 then v else ucast w)
               else (if useResult64 then (if 0 \<le>s v then v else - v)
                     else ucast (if 0 \<le>s w then w else - w)))
          | OP_bnot \<Rightarrow> Some (if useResult64 then NOT v else ucast (NOT w))
          | OP_lnot \<Rightarrow> Some (if useResult64 then bool_word (v = 0)
                            else ucast (bool_word (w = 0) :: 32 word))
          | OP_neg \<Rightarrow> Some (if useResult64 then - v else ucast (ucast (- v) :: 32 word))
          | _ \<Rightarrow> None);
        k \<leftarrow> (if resultType = PTY_dyni32 then None else MIRIntConst result resultType);
        Some (EConst resultType k) })"

definition FoldSignExtendMIRConst ::
  "opcode \<Rightarrow> prim_type \<Rightarrow> nat \<Rightarrow> mir_int_const \<Rightarrow> mir_int_const option" where
  "FoldSignExtendMIRConst op resultType bits c =
     (if bits = 0 \<or> bits > 64 then None
      else let result64 = (if op = OP_sext
             then signed_drop_bit (64 - bits) (push_bit (64 - bits) (ic_value c))
             else drop_bit (64 - bits) (push_bit (64 - bits) (ic_value c)))
        in MIRIntConst result64 resultType)"

definition FoldTypeCvtMIRConst ::
  "mir_int_const \<Rightarrow> prim_type \<Rightarrow> prim_type \<Rightarrow> mir_int_const option option" where
  \<comment> \<open>\<open>None\<close>: a failed check; \<open>Some None\<close>: the code returns \<open>nullptr\<close> (do not fold).\<close>
  "FoldTypeCvtMIRConst c fromType toType =
     (if IsPrimitiveDynType fromType \<or> IsPrimitiveDynType toType then Some None
      else if IsPrimitiveInteger fromType \<and> IsPrimitiveInteger toType then
        (let fromSize = (if fromType = PTY_u1 then 1 else GetPrimTypeBitSize fromType);
             toSize = (if toType = PTY_u1 then 1 else GetPrimTypeBitSize toType)
         in if toSize > fromSize
            then map_option Some (FoldSignExtendMIRConst
                   (if IsSignedInteger fromType then OP_sext else OP_zext) toType fromSize c)
            else map_option Some (MIRIntConst (ic_value c) toType))
      else None)"

definition FoldDepositbitsConst ::
  "prim_type \<Rightarrow> nat \<Rightarrow> nat \<Rightarrow> mir_int_const \<Rightarrow> mir_int_const \<Rightarrow> mir_int_const option" where
  "FoldDepositbitsConst primType bitsOffset bitsSize c0 c1 =
     (if bitsSize + bitsOffset \<ge> 64 then None
      else let mask0 = push_bit (bitsSize + bitsOffset) (1 :: u64) - 1;
               mask1 = push_bit bitsOffset (1 :: u64) - 1;
               op0Mask = NOT (mask0 XOR mask1);
               op0ExtractVal = ic_value c0 AND op0Mask;
               op1ExtractVal = push_bit bitsOffset (ic_value c1)
                 AND (push_bit (bitsSize + bitsOffset) 1 - 1)
           in MIRIntConst (op0ExtractVal OR op1ExtractVal) primType)"

section \<open>Values on 32 bits\<close>

lemma norm_size8:
  assumes "scalar_int p" "GetPrimTypeSize p = 8"
  shows "norm p v = v"
proof -
  have "tbits p = 64" using assms by (simp add: tbits_size)
  moreover have "signed_take_bit 63 v = v" by (rule bit_word_eqI) (simp add: bit_simps)
  ultimately show ?thesis by (simp add: norm_def take_bit_word_eq_self)
qed

lemma norm_size4:
  assumes "scalar_int p" "GetPrimTypeSize p = 4"
  shows "norm p v = (if IsSignedInteger p then scast (ucast v :: 32 word) else ucast (ucast v :: 32 word))"
proof -
  have "tbits p = 32" using assms by (simp add: tbits_size)
  moreover have "signed_take_bit 31 v = scast (ucast v :: 32 word)"
    by (rule bit_word_eqI) (auto simp: bit_simps min_def not_le)
  ultimately show ?thesis by (simp add: norm_def ucast_ucast_32)
qed

lemma sint_scast32: "sint (scast (w :: 32 word) :: 64 word) = sint w"
  by (simp add: sint_up_scast is_up)

lemma uint_ucast32: "uint (ucast (w :: 32 word) :: 64 word) = uint w"
  by (simp add: uint_up_ucast is_up)

lemma norm_ucast32:
  assumes "scalar_int p" "tbits p \<le> 32"
  shows "norm p (ucast (ucast v :: 32 word)) = norm p v"
  using assms by (simp add: norm_eq_iff ucast_ucast_32 min_def)

lemma scast32_inj: "scast (w :: 32 word) = (scast w' :: 64 word) \<longleftrightarrow> w = w'"
  using sint_scast32 signed_word_eqI by metis

lemma ucast32_inj: "ucast (w :: 32 word) = (ucast w' :: 64 word) \<longleftrightarrow> w = w'"
  using uint_ucast32 word_uint_eqI by metis

lemma scast32_less: "scast (w :: 32 word) <s (scast w' :: 64 word) \<longleftrightarrow> w <s w'"
  by (simp add: word_sless_alt sint_scast32)

lemma ucast32_less: "ucast (w :: 32 word) < (ucast w' :: 64 word) \<longleftrightarrow> w < w'"
  by (simp add: word_less_alt uint_ucast32)

lemma ucast_word_of_int_32: "(ucast (word_of_int k :: 32 word) :: 64 word) = take_bit 32 (word_of_int k)"
  by (rule bit_word_eqI) (auto simp: bit_simps)

lemma reg_int_size: "reg_int p \<Longrightarrow> GetPrimTypeSize p = 4 \<or> GetPrimTypeSize p = 8"
  by (auto simp: reg_int_def elim!: scalar_intE)

lemma unsigned_not_signed: "scalar_int p \<Longrightarrow> IsUnsignedInteger p = (\<not> IsSignedInteger p)"
  by (rule IsUnsigned_iff_not_signed)

lemma norm_cong:
  assumes "scalar_int p" "take_bit (tbits p) v = take_bit (tbits p) w"
  shows "norm p v = norm p w"
  using assms by (simp add: norm_eq_iff)

lemma norm_word_of_int_32:
  assumes "scalar_int p" "tbits p \<le> 32"
  shows "norm p (ucast (word_of_int k :: 32 word)) = norm p (word_of_int k)"
  using assms by (simp add: norm_eq_iff ucast_word_of_int_32 min_def)

lemma uint_div_ucast32: "(ucast (a :: 32 word) div ucast b :: 64 word) = ucast (a div b)"
  by (rule word_uint_eqI) (simp add: uint_div uint_ucast32)

lemma uint_mod_ucast32: "(ucast (a :: 32 word) mod ucast b :: 64 word) = ucast (a mod b)"
  by (rule word_uint_eqI) (simp add: uint_mod uint_ucast32)

section \<open>The binary cases agree with the specification\<close>

lemma ucast_add_32: "(ucast (a + b :: 64 word) :: 32 word) = ucast a + ucast b"
  by (transfer, subst (2) take_bit_add [symmetric]) (simp add: take_bit_add)

lemma ucast_diff_32: "(ucast (a - b :: 64 word) :: 32 word) = ucast a - ucast b"
  by (transfer, subst (2) take_bit_diff [symmetric]) (simp add: take_bit_diff)

lemma ucast_mult_32: "(ucast (a * b :: 64 word) :: 32 word) = ucast a * ucast b"
  by (transfer, subst (2) take_bit_mult [symmetric]) (simp add: take_bit_mult)

lemma ucast_minus_32: "(ucast (- a :: 64 word) :: 32 word) = - ucast a"
  using ucast_diff_32 [of 0 a] by simp

lemma scast32_m1: "(scast (w :: 32 word) :: 64 word) = - 1 \<longleftrightarrow> w = - 1"
  using scast32_inj [of w "- 1"] by (simp add: scast_n1)

lemma scast32_0: "(scast (w :: 32 word) :: 64 word) = 0 \<longleftrightarrow> w = 0"
  using scast32_inj [of w "0"] by simp

lemma ucast32_0: "(ucast (w :: 32 word) :: 64 word) = 0 \<longleftrightarrow> w = 0"
  using ucast32_inj [of w "0"] by simp

lemma ucast_ucast_up_32 [simp]: "(ucast (ucast (w :: 32 word) :: 64 word) :: 32 word) = w"
  by (rule bit_word_eqI) (auto simp: bit_simps)

lemma ucast_word_of_int_down_32 [simp]: "(ucast (word_of_int k :: 64 word) :: 32 word) = word_of_int k"
  by (rule bit_word_eqI) (auto simp: bit_simps)

section \<open>The binary cases agree with the specification\<close>

lemma div64:
  assumes "scalar_int p" "GetPrimTypeSize p = 8"
  shows "fold_const_arith OP_div (IsUnsignedInteger p) True a b = eval_binary OP_div p a b"
    "fold_const_arith OP_rem (IsUnsignedInteger p) True a b = eval_binary OP_rem p a b"
proof -
  have t: "tbits p = 64" using assms by (simp add: tbits_size)
  show "fold_const_arith OP_div (IsUnsignedInteger p) True a b = eval_binary OP_div p a b"
    by (auto simp add: eval_binary_def fold_const_arith_def norm_size8 [OF assms] eval_div_def t
       div_undefined_def sdiv_defined_def unsigned_not_signed [OF assms(1)] Let_def)
  show "fold_const_arith OP_rem (IsUnsignedInteger p) True a b = eval_binary OP_rem p a b"
    by (auto simp add: eval_binary_def fold_const_arith_def norm_size8 [OF assms] eval_rem_def t
       div_undefined_def sdiv_defined_def unsigned_not_signed [OF assms(1)] Let_def)
qed

lemma arith64:
  assumes "scalar_int p" "GetPrimTypeSize p = 8" "op \<in> {OP_add, OP_sub, OP_mul, OP_div, OP_rem}"
  shows "fold_const_arith op (IsUnsignedInteger p) True a b = eval_binary op p a b"
proof -
  consider "op = OP_add" | "op = OP_sub" | "op = OP_mul" | "op = OP_div" | "op = OP_rem" using assms(3) by blast
  then show ?thesis
    by cases (simp_all add: div64 [OF assms(1,2)], simp_all add: eval_binary_def fold_const_arith_def)
qed

lemma arith32_ring:
  assumes "scalar_int p" "tbits p \<le> 32" "op \<in> {OP_add, OP_sub, OP_mul}"
  shows "map_option (norm p) (fold_const_arith op u False a b) = map_option (norm p) (eval_binary op p a b)"
proof -
  have "norm p (ucast (ucast a + ucast b :: 32 word)) = norm p (a + b)"
    "norm p (ucast (ucast a - ucast b :: 32 word)) = norm p (a - b)"
    "norm p (ucast (ucast a * ucast b :: 32 word)) = norm p (a * b)"
    using norm_ucast32 [OF assms(1,2), of "a + b"] norm_ucast32 [OF assms(1,2), of "a - b"]
      norm_ucast32 [OF assms(1,2), of "a * b"]
    by (simp_all add: ucast_add_32 ucast_diff_32 ucast_mult_32)
  with assms(3) show ?thesis
    unfolding eval_binary_def fold_const_arith_def Let_def
    by (elim insertE emptyE) simp_all
qed

lemma div32_aux:
  assumes "scalar_int p" "GetPrimTypeSize p = 4"
  shows "map_option (norm p) (fold_const_arith OP_div (IsUnsignedInteger p) False a b)
       = map_option (norm p) (eval_binary OP_div p a b)"
    "map_option (norm p) (fold_const_arith OP_rem (IsUnsignedInteger p) False a b)
       = map_option (norm p) (eval_binary OP_rem p a b)"
proof -
  have t: "tbits p = 32" using assms by (simp add: tbits_size)
  then have w: "norm p (ucast (word_of_int k :: 32 word)) = norm p (word_of_int k)" for k
    using assms(1) by (simp add: norm_word_of_int_32)
  note simps = eval_binary_def fold_const_arith_def norm_size4 [OF assms] t w
       div_undefined_def sdiv_defined_def unsigned_not_signed [OF assms(1)] Let_def
       scast32_m1 scast32_0 ucast32_0 sint_scast32 uint_div_ucast32 uint_mod_ucast32
  show "map_option (norm p) (fold_const_arith OP_div (IsUnsignedInteger p) False a b)
       = map_option (norm p) (eval_binary OP_div p a b)"
    by (cases "IsSignedInteger p") (auto simp: eval_div_def simps)
  show "map_option (norm p) (fold_const_arith OP_rem (IsUnsignedInteger p) False a b)
       = map_option (norm p) (eval_binary OP_rem p a b)"
    by (cases "IsSignedInteger p") (auto simp: eval_rem_def simps)
qed

lemma unat_ucast_32_small: "unat (b :: 64 word) < 32 \<Longrightarrow> unat (ucast b :: 32 word) = unat b"
  by (simp add: unsigned_ucast_eq take_bit_nat_eq_self)

lemma shift64:
  assumes "scalar_int p" "GetPrimTypeSize p = 8" "op \<in> shift_ops"
  shows "fold_const_shift op True a b = eval_binary op p a b"
proof -
  have t: "tbits p = 64" using assms by (simp add: tbits_size)
  have s: "signed_take_bit 63 a = a" by (rule bit_word_eqI) (simp add: bit_simps)
  show ?thesis using assms(3) unfolding shift_ops_def
    by (elim insertE emptyE)
      (simp_all add: eval_binary_def fold_const_shift_def Let_def t s take_bit_word_eq_self)
qed

lemma ashr32: "take_bit 32 (ucast (signed_drop_bit n (ucast a :: 32 word)) :: i64)
    = take_bit 32 (signed_drop_bit n (signed_take_bit 31 a))" if "n < 32"
proof (rule bit_word_eqI)
  fix m
  have eq: "bit (signed_drop_bit n (ucast a :: 32 word)) m = bit (signed_drop_bit n (signed_take_bit 31 a)) m"
    if m: "m < 32"
  proof (cases "n + m < 32")
    case True
    then have "min 31 (n + m) = n + m" by simp
    moreover have "\<not> 32 - n \<le> m" "\<not> 64 - n \<le> m" using True by arith+
    ultimately show ?thesis using True m by (simp add: bit_simps)
  next
    case False
    with m \<open>n < 32\<close> show ?thesis by (simp add: bit_simps min_def)
  qed
  then show "bit (take_bit 32 (ucast (signed_drop_bit n (ucast a :: 32 word)) :: i64)) m
      = bit (take_bit 32 (signed_drop_bit n (signed_take_bit 31 a))) m"
    by (cases "m < 32") (simp_all add: bit_take_bit_iff bit_unsigned_iff)
qed

lemma lshr32: "take_bit 32 (ucast (drop_bit n (ucast a :: 32 word)) :: i64)
    = take_bit 32 (drop_bit n (take_bit 32 a))"
  by (rule bit_word_eqI) (auto simp: bit_simps)

lemma shl32: "take_bit 32 (ucast (push_bit n (ucast a :: 32 word)) :: i64)
    = take_bit 32 (push_bit n a)"
  by (rule bit_word_eqI) (auto simp: bit_simps)

lemma shift32:
  assumes "scalar_int p" "GetPrimTypeSize p = 4" "op \<in> shift_ops" "eval_binary op p a b = Some r"
  shows "map_option (norm p) (fold_const_shift op False a b) = Some (norm p r)"
proof -
  have t: "tbits p = 32" using assms by (simp add: tbits_size)
  have c: "norm p v = norm p w" if "take_bit 32 v = take_bit 32 w" for v w
    using that norm_eq_iff [OF assms(1)] by (simp add: t)
  have n: "unat b < 32" using assms(3,4) unfolding shift_ops_def
    by (elim insertE emptyE) (simp_all add: eval_binary_def t split: if_splits)
  note n' = unat_ucast_32_small [OF n]
  show ?thesis using assms(3,4) n unfolding shift_ops_def
    by (elim insertE emptyE)
      (auto simp: eval_binary_def fold_const_shift_def Let_def t n' ashr32 lshr32 shl32 intro!: c)
qed

lemma minmax64:
  assumes "scalar_int p" "GetPrimTypeSize p = 8" "op = OP_max \<or> op = OP_min"
  shows "fold_const_minmax op (IsUnsignedInteger p) True a b = eval_binary op p a b"
  using assms(3)
  by (elim disjE) (auto simp: eval_binary_def fold_const_minmax_def Let_def word_less_def
     norm_size8 [OF assms(1,2)] unsigned_not_signed [OF assms(1)] word_sless_alt word_sle_eq signed_word_eqI)

lemma minmax32:
  assumes "scalar_int p" "GetPrimTypeSize p = 4" "op = OP_max \<or> op = OP_min"
  shows "map_option (norm p) (fold_const_minmax op (IsUnsignedInteger p) False a b)
     = map_option (norm p) (eval_binary op p a b)"
proof -
  have t: "tbits p \<le> 32" using assms by (simp add: tbits_size)
  note simps = eval_binary_def fold_const_minmax_def Let_def word_less_def norm_ucast32 [OF assms(1) t]
    if_distrib [of ucast] if_distrib [of "norm p"] unsigned_not_signed [OF assms(1)]
  have e: "norm p a = norm p b" if "(ucast a :: 32 word) = ucast b"
    using norm_size4 [OF assms(1,2)] that by simp
  show ?thesis
  proof (cases "IsSignedInteger p")
    case True
    have l: "norm p x <s norm p y \<longleftrightarrow> (ucast x :: 32 word) <s ucast y" for x y
      using True by (simp add: norm_size4 [OF assms(1,2)] scast32_less)
    have le: "(ucast y :: 32 word) \<le>s ucast x \<longleftrightarrow> \<not> norm p x <s norm p y" for x y
      unfolding l by (simp add: word_sle_eq word_sless_alt not_less)
    have eq: "norm p x = norm p y" if "\<not> norm p x <s norm p y" "\<not> norm p y <s norm p x" for x y
      using that by (auto simp: word_sless_alt not_less intro: signed_word_eqI)
    show ?thesis using assms(3) True eq
      by (elim disjE) (auto simp: simps le)
  next
    case False
    have l: "norm p x < norm p y \<longleftrightarrow> (ucast x :: 32 word) < ucast y" for x y
      using False by (simp add: norm_size4 [OF assms(1,2)] ucast32_less)
    show ?thesis using assms(3) False e
      by (elim disjE) (auto simp: simps l)
  qed
qed

lemma bits64:
  assumes "op \<in> bit_ops \<union> logic_ops"
  shows "fold_const_bits op True a b = eval_binary op p a b"
  using assms unfolding bit_ops_def logic_ops_def Un_insert_left Un_empty_left
  by (elim insertE emptyE) (simp_all add: eval_binary_def fold_const_bits_def Let_def)

lemma ucast_bits_32:
  "(ucast (a AND b :: 64 word) :: 32 word) = ucast a AND ucast b"
  "(ucast (a OR b :: 64 word) :: 32 word) = ucast a OR ucast b"
  "(ucast (a XOR b :: 64 word) :: 32 word) = ucast a XOR ucast b"
  "(ucast (NOT a :: 64 word) :: 32 word) = NOT (ucast a)"
  by (rule bit_word_eqI, auto simp: bit_simps)+

lemma bits32:
  assumes "scalar_int p" "tbits p \<le> 32" "op \<in> bit_ops \<or> op \<in> logic_ops"
  shows "map_option (norm p) (fold_const_bits op False a b) = map_option (norm p) (eval_binary op p a b)"
  using assms(3)
proof
  assume "op \<in> bit_ops"
  then show ?thesis unfolding bit_ops_def
    by (elim insertE emptyE) (simp_all add: eval_binary_def fold_const_bits_def Let_def
      norm_ucast32 [OF assms(1,2)] ucast_bits_32 [symmetric])
next
  assume "op \<in> logic_ops"
  then show ?thesis unfolding logic_ops_def
    by (elim insertE emptyE) (simp_all add: eval_binary_def fold_const_bits_def Let_def)
qed

lemma wt_const_canonical: "wt (EConst p c) \<Longrightarrow> norm p (ic_value c) = ic_value c"
  by simp

lemma eval_EConst: "wt (EConst p c) \<Longrightarrow> eval \<rho> (EConst p c) = Some v \<Longrightarrow> v = ic_value c"
  by (auto dest: at_type_Some)

lemma fold_binary_value:
  assumes "wt (EBinary op p l r)" "eval_binary op p a b = Some v"
  shows "map_option (norm p)
     (if op \<in> {OP_add, OP_sub, OP_mul, OP_div, OP_rem}
      then fold_const_arith op (IsUnsignedInteger p) (GetPrimTypeSize p = 8) a b
      else if op \<in> {OP_ashr, OP_lshr, OP_shl} then fold_const_shift op (GetPrimTypeSize p = 8) a b
      else if op \<in> {OP_max, OP_min}
      then fold_const_minmax op (IsUnsignedInteger p) (GetPrimTypeSize p = 8) a b
      else fold_const_bits op (GetPrimTypeSize p = 8) a b) = Some (norm p v)"
proof -
  from assms(1) consider
      (arith) "op \<in> {OP_add, OP_sub, OP_mul, OP_div, OP_rem}" "reg_int p"
    | (shift) "op \<in> shift_ops" "reg_int p"
    | (minmax) "op \<in> {OP_max, OP_min}" "reg_int p"
    | (bits) "op \<in> bit_ops \<union> logic_ops" "scalar_int p"
    by (auto simp: arith_ops_def)
  then show ?thesis
  proof cases
    case arith
    then have p: "scalar_int p" by simp
    from reg_int_size [OF arith(2)] show ?thesis
    proof
      assume s: "GetPrimTypeSize p = 8"
      show ?thesis by (simp only: if_P [OF arith(1)] s simp_thms arith64 [OF p s arith(1)] assms(2)) simp
    next
      assume s: "GetPrimTypeSize p = 4"
      have t: "tbits p \<le> 32" using p s by (simp add: tbits_size)
      have "op \<in> {OP_add, OP_sub, OP_mul} \<or> op = OP_div \<or> op = OP_rem" using arith(1) by blast
      then have "map_option (norm p) (fold_const_arith op (IsUnsignedInteger p) False a b)
          = map_option (norm p) (eval_binary op p a b)"
        using arith32_ring [OF p t] div32_aux [OF p s] by blast
      then show ?thesis using s by (simp only: if_P [OF arith(1)] assms(2)) simp
    qed
  next
    case shift
    then have p: "scalar_int p" by simp
    have o: "op \<notin> {OP_add, OP_sub, OP_mul, OP_div, OP_rem}" "op \<in> {OP_ashr, OP_lshr, OP_shl}"
      using shift(1) by (auto simp: shift_ops_def)
    from reg_int_size [OF shift(2)] show ?thesis
    proof
      assume s: "GetPrimTypeSize p = 8"
      show ?thesis by (simp only: if_P [OF o(2)] if_not_P [OF o(1)] s simp_thms shift64 [OF p s shift(1)] assms(2)) simp
    next
      assume s: "GetPrimTypeSize p = 4"
      show ?thesis using o shift32 [OF p s shift(1) assms(2)] s by (simp del: insert_iff)
    qed
  next
    case minmax
    then have p: "scalar_int p" by simp
    have o: "op \<notin> {OP_add, OP_sub, OP_mul, OP_div, OP_rem}" "op \<notin> {OP_ashr, OP_lshr, OP_shl}"
      "op = OP_max \<or> op = OP_min" using minmax(1) by auto
    from reg_int_size [OF minmax(2)] show ?thesis
    proof
      assume s: "GetPrimTypeSize p = 8"
      show ?thesis
        by (simp only: if_P [OF minmax(1)] if_not_P [OF o(1)] if_not_P [OF o(2)] s simp_thms minmax64 [OF p s o(3)] assms(2)) simp
    next
      assume s: "GetPrimTypeSize p = 4"
      show ?thesis using o minmax32 [OF p s o(3), of a b] s minmax(1) assms(2) by (simp del: insert_iff)
    qed
  next
    case bits
    have o: "op \<notin> {OP_add, OP_sub, OP_mul, OP_div, OP_rem}" "op \<notin> {OP_ashr, OP_lshr, OP_shl}"
      "op \<notin> {OP_max, OP_min}" using bits(1) by (auto simp: bit_ops_def logic_ops_def)
    show ?thesis
    proof (cases "GetPrimTypeSize p = 8")
      case True
      show ?thesis by (simp only: if_not_P [OF o(1)] if_not_P [OF o(2)] if_not_P [OF o(3)] True simp_thms bits64 [OF bits(1), of a b p] assms(2)) simp
    next
      case False
      then have t: "tbits p \<le> 32" using scalar_int_size [OF bits(2)] bits(2) by (auto simp: tbits_size)
      have "op \<in> bit_ops \<or> op \<in> logic_ops" using bits(1) by blast
      from bits32 [OF bits(2) t this, of a b] o False assms(2) show ?thesis by (simp del: insert_iff)
    qed
  qed
qed

lemma FoldIntConstBinaryMIRConst_correct:
  assumes "wt (EBinary op p (EConst t0 c0) (EConst t1 c1))"
    and "eval \<rho> (EBinary op p (EConst t0 c0) (EConst t1 c1)) = Some v"
  shows "FoldIntConstBinaryMIRConst op p c0 c1 = Some \<lparr>ic_type = p, ic_value = v\<rparr>"
proof -
  have p: "scalar_int p" using assms(1) by auto
  then have nd: "p \<noteq> PTY_dyni32" using scalar_int_not_dyn [of PTY_dyni32] by (auto simp: prim_pred_defs)
  from assms obtain w where w: "eval_binary op p (ic_value c0) (ic_value c1) = Some w"
    and v: "v = norm p w"
    by (auto simp: bind_eq_Some_conv dest!: at_type_Some)
  from fold_binary_value [OF assms(1) w] v show ?thesis
    unfolding FoldIntConstBinaryMIRConst_def Let_def map_option_eq_Some
    by (elim exE conjE) (simp only: bind.bind_lunit, simp add: nd MIRIntConst_norm [OF p])
qed

section \<open>Comparisons agree with the specification\<close>

lemma canonical_u1:
  assumes "scalar_int t" "GetPrimTypeSize t = 1" "norm t v = v" "at_type PTY_u1 v = Some w"
  shows "w = v" "v = 0 \<or> v = 1"
proof -
  have w: "w = norm PTY_u1 v" "w = 0 \<or> w = 1"
    using assms(4) by (auto simp: at_type_def split: if_splits)
  have "norm t w = v" using norm_norm_le [OF assms(1), of PTY_u1 v] assms(1-3) w(1) by (simp add: tbits_size)
  moreover have "norm t 1 = 1" using assms(1,2)
    by (auto simp: norm_def tbits_size elim!: scalar_intE)
  ultimately show "w = v" "v = 0 \<or> v = 1" using w(2) by auto
qed

lemma word_less_unsig: "scalar_int q \<Longrightarrow>
   word_less q x y = (if IsUnsignedInteger q then x < y else x <s y)"
  by (simp add: word_less_def unsigned_not_signed)

definition compare_spec :: "opcode \<Rightarrow> prim_type \<Rightarrow> i64 \<Rightarrow> i64 \<Rightarrow> i64 option" where
  "compare_spec op q x y = (case op of
       OP_eq \<Rightarrow> Some (bool_word (x = y))
     | OP_ne \<Rightarrow> Some (bool_word (x \<noteq> y))
     | OP_lt \<Rightarrow> Some (bool_word (word_less q x y))
     | OP_gt \<Rightarrow> Some (bool_word (word_less q y x))
     | OP_le \<Rightarrow> Some (bool_word (\<not> word_less q y x))
     | OP_ge \<Rightarrow> Some (bool_word (\<not> word_less q x y))
     | OP_cmp \<Rightarrow> Some (if word_less q y x then 1 else if x = y then 0 else - 1)
     | _ \<Rightarrow> None)"

lemma sle_not_sless: "x \<le>s y \<longleftrightarrow> \<not> y <s (x :: 'a::len word)"
  by (simp add: word_sle_eq word_sless_alt not_less)

lemma sless_or_eq: "x <s y \<or> x = y \<longleftrightarrow> \<not> y <s (x :: 'a::len word)"
proof -
  have "sint x = sint y \<Longrightarrow> x = y" by (rule signed_word_eqI)
  then show ?thesis by (cases "sint x = sint y") (auto simp add: word_sless_alt)
qed

lemma sless_or_eq': "x <s y \<or> y = x \<longleftrightarrow> \<not> y <s (x :: 'a::len word)"
proof -
  have "sint x = sint y \<Longrightarrow> x = y" by (rule signed_word_eqI)
  then show ?thesis by (cases "sint x = sint y") (auto simp add: word_sless_alt)
qed

lemma test_opsE:
  assumes "op \<in> test_ops \<or> op = OP_cmp"
  obtains "op = OP_eq" | "op = OP_ne" | "op = OP_lt" | "op = OP_gt" | "op = OP_le" | "op = OP_ge" | "op = OP_cmp"
  using assms unfolding test_ops_def by blast

lemma compare_value:
  assumes "reg_int q \<or> q = PTY_u1" "op \<in> test_ops \<or> op = OP_cmp" "p \<noteq> PTY_dyni32"
    and "norm q a = x" "norm q b = y" "q = PTY_u1 \<Longrightarrow> a = 0 \<or> a = 1" "q = PTY_u1 \<Longrightarrow> b = 0 \<or> b = 1"
  shows "FoldIntConstComparisonMIRConst op p q \<lparr>ic_type = t0, ic_value = a\<rparr> \<lparr>ic_type = t1, ic_value = b\<rparr> =
    do { v \<leftarrow> compare_spec op q x y; MIRIntConst v p }"
proof -
  let ?w0 = "ucast a :: 32 word" and ?w1 = "ucast b :: 32 word"
  consider (b64) "reg_int q" "GetPrimTypeSize q = 8"
    | (s32) "reg_int q" "GetPrimTypeSize q = 4" "IsSignedInteger q"
    | (u32) "reg_int q" "GetPrimTypeSize q = 4" "\<not> IsSignedInteger q" | (u1) "q = PTY_u1"
    using assms(1) reg_int_size [of q] by blast
  then show ?thesis
  proof cases
    case b64
    then have q: "scalar_int q" by simp
    have xy: "x = a" "y = b" using assms(4,5) norm_size8 [OF q b64(2)] by simp_all
    from assms(2) show ?thesis
      by (cases rule: test_opsE) (simp_all add: FoldIntConstComparisonMIRConst_def Let_def compare_spec_def
        xy b64(2) assms(3) word_less_unsig [OF q] sless_or_eq sless_or_eq' not_less, auto)
  next
    case s32
    then have q: "scalar_int q" by simp
    have xy: "x = scast ?w0" "y = scast ?w1" using assms(4,5) norm_size4 [OF q s32(2)] s32(3) by simp_all
    from assms(2) show ?thesis
      by (cases rule: test_opsE) (simp_all add: FoldIntConstComparisonMIRConst_def Let_def compare_spec_def
        xy s32 assms(3) unsigned_not_signed [OF q] word_less_def sle_not_sless scast32_less scast32_inj)
  next
    case u32
    then have q: "scalar_int q" by simp
    have xy: "x = ucast ?w0" "y = ucast ?w1" using assms(4,5) norm_size4 [OF q u32(2)] u32(3) by simp_all
    from assms(2) show ?thesis
      by (cases rule: test_opsE) (simp_all add: FoldIntConstComparisonMIRConst_def Let_def compare_spec_def
        xy u32 assms(3) unsigned_not_signed [OF q] word_less_def ucast32_less ucast32_inj not_less, auto)
  next
    case u1
    have n: "norm PTY_u1 0 = 0" "norm PTY_u1 1 = 1" by (simp_all add: norm_def tbits_size)
    have ab: "a = 0 \<or> a = 1" "b = 0 \<or> b = 1" using assms(6,7) u1 by simp_all
    then have xy: "x = a" "y = b" using assms(4,5) n u1 by auto
    have l: "?w0 = ?w1 \<longleftrightarrow> a = b" "?w0 < ?w1 \<longleftrightarrow> a < b" "?w1 < ?w0 \<longleftrightarrow> b < a"
      using ab by (elim disjE; simp)+
    from assms(2) show ?thesis
      by (cases rule: test_opsE) (simp_all add: FoldIntConstComparisonMIRConst_def Let_def compare_spec_def
        xy u1 l assms(3) unsigned_not_signed word_less_def not_less [symmetric])
  qed
qed

lemma compare_u1_canonical:
  assumes "wt (EConst t c)" "GetPrimTypeSize t = 1" "at_type PTY_u1 (ic_value c) = Some x"
  shows "ic_value c = 0 \<or> ic_value c = 1"
  using canonical_u1(2) [of t "ic_value c" x] assms by (auto dest: wt_scalar)

lemma compare_spec_eval:
  "eval_compare op q a b = do { x \<leftarrow> at_type q a; y \<leftarrow> at_type q b; compare_spec op q x y }"
  by (simp add: eval_compare_def compare_spec_def)

lemma scalar_not_dyni32: "scalar_int p \<Longrightarrow> p \<noteq> PTY_dyni32"
  by (erule scalar_intE) simp_all

lemma FoldIntConstComparisonMIRConst_correct:
  assumes "wt (ECompare op p q (EConst t0 c0) (EConst t1 c1))"
    and "eval \<rho> (ECompare op p q (EConst t0 c0) (EConst t1 c1)) = Some v"
  shows "FoldIntConstComparisonMIRConst op p q c0 c1 = Some \<lparr>ic_type = p, ic_value = v\<rparr>"
proof -
  have c: "wt (EConst t0 c0)" "wt (EConst t1 c1)" using assms(1) by simp_all
  have p: "scalar_int p" using assms(1) by auto
  have q: "reg_int q \<or> q = PTY_u1" "op \<in> test_ops \<or> op = OP_cmp"
    "GetPrimTypeSize t0 = GetPrimTypeSize q" "GetPrimTypeSize t1 = GetPrimTypeSize q"
    using assms(1) by auto
  obtain a' b' w where a': "at_type t0 (ic_value c0) = Some a'" and b': "at_type t1 (ic_value c1) = Some b'"
    and w: "eval_compare op q a' b' = Some w" and v: "at_type p w = Some v"
    using assms(2) by (auto simp: bind_eq_Some_conv)
  have ab: "a' = ic_value c0" "b' = ic_value c1"
    using c a' b' by (auto dest: at_type_Some)
  from w obtain x y where xy: "at_type q (ic_value c0) = Some x" "at_type q (ic_value c1) = Some y"
    "compare_spec op q x y = Some w"
    by (auto simp: compare_spec_eval ab bind_eq_Some_conv)
  have u: "q = PTY_u1 \<Longrightarrow> ic_value c0 = 0 \<or> ic_value c0 = 1" "q = PTY_u1 \<Longrightarrow> ic_value c1 = 0 \<or> ic_value c1 = 1"
    using compare_u1_canonical [OF c(1)] compare_u1_canonical [OF c(2)] q(3,4) xy(1,2) by auto
  have "FoldIntConstComparisonMIRConst op p q \<lparr>ic_type = ic_type c0, ic_value = ic_value c0\<rparr>
     \<lparr>ic_type = ic_type c1, ic_value = ic_value c1\<rparr> = do { v \<leftarrow> compare_spec op q x y; MIRIntConst v p }"
    using xy(1,2) by (intro compare_value q scalar_not_dyni32 p u) (auto dest: at_type_Some)
  moreover have "\<lparr>ic_type = ic_type c, ic_value = ic_value c\<rparr> = c" for c :: mir_int_const
    by (cases c) simp
  ultimately show ?thesis using xy(3) at_type_Some [OF v] by (simp add: MIRIntConst_norm [OF p])
qed

section \<open>Unary operators, conversions and bit fields agree with the specification\<close>

lemma canonical_0_iff:
  assumes "scalar_int t" "norm t v = v" "GetPrimTypeSize t \<le> 4"
  shows "(ucast v :: 32 word) = 0 \<longleftrightarrow> v = 0"
proof
  assume "(ucast v :: 32 word) = 0"
  then have "take_bit 32 v = 0" using ucast_ucast_32 [of v] by simp
  then have "take_bit 32 v = take_bit 32 0" by simp
  then have "take_bit (tbits t) v = take_bit (tbits t) 0"
    by (rule take_bit_cong_le) (use assms in \<open>simp add: tbits_size\<close>)
  then have "norm t v = norm t 0" by (rule norm_cong [OF assms(1)])
  then show "v = 0" using assms(2) by simp
qed simp

lemma abs32:
  assumes "scalar_int p" "GetPrimTypeSize p = 4"
  shows "norm p (if IsUnsignedInteger p then ucast (ucast a :: 32 word)
      else ucast (if 0 \<le>s (ucast a :: 32 word) then ucast a else - (ucast a) :: 32 word))
    = norm p (if IsSignedInteger p \<and> norm p a <s 0 then - norm p a else norm p a)"
proof -
  have t: "tbits p \<le> 32" using assms by (simp add: tbits_size)
  have l: "norm p a <s 0 \<longleftrightarrow> (ucast a :: 32 word) <s 0" if "IsSignedInteger p"
    using that scast32_less [of "ucast a" 0] by (simp add: norm_size4 [OF assms])
  have m: "norm p (- norm p a) = norm p (- a)"
    using assms(1) take_bit_cong_minus [of "tbits p" "norm p a" a] by (simp add: norm_eq_iff)
  show ?thesis
    by (cases "IsSignedInteger p") (simp_all add: l m sle_not_sless unsigned_not_signed [OF assms(1)]
      norm_ucast32 [OF assms(1) t] ucast_minus_32 [symmetric] assms(1))
qed

lemma FoldIntConstUnary_correct:
  assumes "wt (EUnary op p (EConst t c))" "eval \<rho> (EUnary op p (EConst t c)) = Some v"
  shows "FoldIntConstUnary op p c = Some (EConst p \<lparr>ic_type = p, ic_value = v\<rparr>)"
proof -
  have c: "wt (EConst t c)" and p: "scalar_int p" using assms(1) by auto
  obtain w where w: "eval_unary op p (ic_value c) = Some w" and v: "v = norm p w"
    using assms by (auto simp: bind_eq_Some_conv dest!: at_type_Some)
  have op: "op \<in> {OP_abs, OP_bnot, OP_neg} \<and> reg_int p \<and> GetPrimTypeSize t = GetPrimTypeSize p
      \<or> op = OP_lnot \<and> (GetPrimTypeSize t \<le> 4 \<or> GetPrimTypeSize p = 8)" using assms(1) by auto
  show ?thesis
  proof (cases "GetPrimTypeSize p = 8")
    case True
    with w op v show ?thesis
      by (auto simp: FoldIntConstUnary_def Let_def eval_unary_def scalar_not_dyni32 [OF p]
        MIRIntConst_norm [OF p] norm_size8 [OF p] unsigned_not_signed [OF p] sle_not_sless)
  next
    case False
    then have s: "GetPrimTypeSize p = 4 \<or> op = OP_lnot" using op reg_int_size [of p] by auto
    then have t: "GetPrimTypeSize p = 4 \<Longrightarrow> tbits p \<le> 32" using p by (simp add: tbits_size)
    have z: "op = OP_lnot \<Longrightarrow> (ucast (ic_value c) :: 32 word) = 0 \<longleftrightarrow> ic_value c = 0"
      using canonical_0_iff [of t "ic_value c"] c op False by auto
    have a: ?thesis if "op = OP_abs"
    proof -
      have s: "GetPrimTypeSize p = 4" using s that by simp
      have "FoldIntConstUnary OP_abs p c = Some (EConst p \<lparr>ic_type = p, ic_value =
          norm p (if IsUnsignedInteger p then ucast (ucast (ic_value c) :: 32 word)
            else ucast (if 0 \<le>s (ucast (ic_value c) :: 32 word) then ucast (ic_value c)
              else - (ucast (ic_value c)) :: 32 word))\<rparr>)"
        by (simp add: FoldIntConstUnary_def Let_def scalar_not_dyni32 [OF p]
            MIRIntConst_norm [OF p] s split del: if_split cong: if_cong)
      also have "\<dots> = Some (EConst p \<lparr>ic_type = p, ic_value = norm p w\<rparr>)"
        using w that unfolding abs32 [OF p s] by (simp add: eval_unary_def)
      finally show ?thesis using that v by simp
    qed
    show ?thesis
    proof (cases "op = OP_abs")
      case False
      with op have "op = OP_bnot \<or> op = OP_neg \<or> op = OP_lnot" by blast
      then show ?thesis using s w \<open>GetPrimTypeSize p \<noteq> 8\<close>
        by (elim disjE) (simp_all add: FoldIntConstUnary_def Let_def eval_unary_def scalar_not_dyni32 [OF p]
          v MIRIntConst_norm [OF p] z norm_ucast32 [OF p t] ucast_bits_32(4) [symmetric])
    qed (rule a)
  qed
qed

lemma FoldSignExtendMIRConst_value:
  assumes "0 < bits" "bits \<le> 64" "scalar_int p"
  shows "FoldSignExtendMIRConst op p bits c = Some \<lparr>ic_type = p, ic_value =
    norm p (if op = OP_sext then signed_take_bit (bits - 1) (ic_value c) else take_bit bits (ic_value c))\<rparr>"
  using assms by (simp add: FoldSignExtendMIRConst_def shift_back_signed shift_back_unsigned MIRIntConst_norm)

lemma FoldTypeCvtMIRConst_correct:
  assumes "wt (ETypeCvt OP_cvt p q (EConst t c))" "eval \<rho> (ETypeCvt OP_cvt p q (EConst t c)) = Some v"
  shows "FoldTypeCvtMIRConst c q p = Some (Some \<lparr>ic_type = p, ic_value = v\<rparr>)"
proof -
  have c: "wt (EConst t c)" and p: "scalar_int p" and q: "scalar_int q"
    and t: "scalar_int t" "GetPrimTypeSize t = GetPrimTypeSize q" using assms(1) by auto
  obtain c' w where c': "at_type t (ic_value c) = Some c'" and w': "at_type q c' = Some w"
    and "at_type p w = Some v"
    using assms(2) by (auto simp: bind_eq_Some_conv)
  then have v: "v = norm p w" by (simp add: at_type_Some)
  have "c' = ic_value c" using at_type_Some [OF c'] c by simp
  with w' have w: "at_type q (ic_value c) = Some w" by simp
  have wq: "w = norm q (ic_value c)" using w by (rule at_type_Some)
  have pq: "IsPrimitiveInteger p" "IsPrimitiveInteger q" "\<not> IsPrimitiveDynType p" "\<not> IsPrimitiveDynType q"
    using p q by simp_all
  define fs ts where "fs = (if q = PTY_u1 then 1 else GetPrimTypeBitSize q)"
    and "ts = (if p = PTY_u1 then 1 else GetPrimTypeBitSize p)"
  have bits: "GetPrimTypeBitSize q = tbits q" "GetPrimTypeBitSize p = tbits p"
    using p q by (simp_all add: tbits_size GetPrimTypeBitSize_def)
  have fs: "0 < fs" "fs \<le> 64" using tbits_bounds [OF q] by (simp_all add: fs_def bits)
  have ext: "(if IsSignedInteger q then signed_take_bit (fs - 1) (ic_value c) else take_bit fs (ic_value c)) = w"
  proof (cases "q = PTY_u1")
    case True
    have "ic_value c = 0 \<or> ic_value c = 1" "w = ic_value c"
      using canonical_u1 [of t "ic_value c" w] c t w True by auto
    with True show ?thesis by (auto simp: fs_def)
  next
    case False
    then show ?thesis by (simp add: fs_def bits wq norm_def)
  qed
  show ?thesis
  proof (cases "ts > fs")
    case True
    have "(if (if IsSignedInteger q then OP_sext else OP_zext) = OP_sext
        then signed_take_bit (fs - 1) (ic_value c) else take_bit fs (ic_value c)) = w"
      using ext by (simp split: if_splits)
    with True show ?thesis
      by (simp add: FoldTypeCvtMIRConst_def pq fs_def [symmetric] ts_def [symmetric]
        FoldSignExtendMIRConst_value [OF fs p] v split del: if_split)
  next
    case False
    have "norm p (ic_value c) = norm p w"
    proof (cases "tbits p \<le> tbits q")
      case True
      then show ?thesis by (simp add: wq norm_norm_le [OF p q])
    next
      assume "\<not> tbits p \<le> tbits q"
      with False have "q = PTY_u1 \<and> p = PTY_u1 \<or> p = PTY_u1"
        using tbits_cases [OF p] by (auto simp: fs_def ts_def bits split: if_splits)
      then have "p = PTY_u1" by blast
      with \<open>\<not> tbits p \<le> tbits q\<close> tbits_cases [OF q] show ?thesis by (auto simp: tbits_size)
    qed
    with False show ?thesis
      by (simp add: FoldTypeCvtMIRConst_def pq fs_def [symmetric] ts_def [symmetric] v MIRIntConst_norm [OF p]
         split del: if_split)
  qed
qed

lemma deposit_bits:
  assumes "off + sz < 64"
  shows "(a AND NOT ((push_bit (sz + off) 1 - 1) XOR (push_bit off 1 - 1)))
      OR (push_bit off b AND (push_bit (sz + off) 1 - 1)) = eval_deposit off sz a (b :: i64)"
  unfolding eval_deposit_def mask_eq_exp_minus_1 [symmetric] push_bit_of_1
  by (rule bit_word_eqI) (use assms in \<open>auto simp: bit_simps\<close>)

lemma FoldDepositbitsConst_correct:
  assumes "wt (EDepositbits p off sz (EConst t0 c0) (EConst t1 c1))"
    and "eval \<rho> (EDepositbits p off sz (EConst t0 c0) (EConst t1 c1)) = Some v"
  shows "FoldDepositbitsConst p off sz c0 c1 = Some \<lparr>ic_type = p, ic_value = v\<rparr>"
proof -
  have p: "scalar_int p" and o: "off + sz < 64" using assms(1) by auto
  have "v = norm p (eval_deposit off sz (ic_value c0) (ic_value c1))"
    using assms by (auto simp: bind_eq_Some_conv dest!: at_type_Some)
  with o deposit_bits [OF o] show ?thesis
    by (simp add: FoldDepositbitsConst_def Let_def MIRIntConst_norm [OF p] add.commute)
qed

end
