(* ===== verification/FoldExpr.thy ===== *)
theory FoldExpr
  imports FoldConst
begin

text \<open>
  Folding of expression trees: \<open>ConstantFold::DispatchFold\<close> and the functions it calls in
  mpl2mpl/src/constantfold.cpp. Folding an expression gives a pair of a simpler expression
  and a pending constant addend, which \<open>PairToExpr\<close> adds back when a parent cannot absorb it.

  A node is a tree here: the pointer comparisons that preserve node identity become equality
  of trees. The sum of a pair is an \<open>int64\<close> and wraps around: for the sums and differences in
  \<open>FoldBinary\<close> (constantfold.cpp:1622, 1625, 1689 and 1699) and the negation in \<open>FoldUnary\<close> (line 1150)
  the model takes the wrapped value where the C++ operation overflows and is undefined. \<open>FoldBinary\<close> re-dispatches on a part
  of an already folded operand in one branch; \<open>fold_tree\<close> takes that call as a parameter, and
  \<open>dispatch_fold\<close> ties the knot with fuel, for which the number of \<open>bxor\<close> nodes is enough.
\<close>

section \<open>Pairs and negation\<close>

definition PairToExpr :: "prim_type \<Rightarrow> expr \<times> i64 \<Rightarrow> expr option" where
  "PairToExpr resultType pair = (case pair of (e, k) \<Rightarrow>
     if k = 0 then Some e
     else case e of
       EUnary OP_neg p r \<Rightarrow>
         (if 0 <s k then do { val \<leftarrow> CreateIntConst k resultType; Some (EBinary OP_sub resultType val r) }
          else if k = push_bit 63 1
          then do { val \<leftarrow> CreateIntConst k resultType; Some (EBinary OP_add resultType e val) }
          else do { val \<leftarrow> CreateIntConst (- k) resultType; Some (EBinary OP_sub resultType e val) })
     | _ \<Rightarrow>
         (if 0 <s k \<or> k = push_bit 63 1
          then do { val \<leftarrow> CreateIntConst k resultType; Some (EBinary OP_add resultType e val) }
          else do { val \<leftarrow> CreateIntConst (- k) resultType; Some (EBinary OP_sub resultType e val) }))"

definition Negate_base :: "expr \<Rightarrow> expr" where
  "Negate_base e = EUnary OP_neg (GetPrimType e) e"

definition Negate_unary :: "expr \<Rightarrow> expr" where
  "Negate_unary e = (case e of EUnary OP_neg p x \<Rightarrow> x | _ \<Rightarrow> EUnary OP_neg (GetPrimType e) e)"

text \<open>
  \<open>Negate(const ConstvalNode *)\<close> calls \<open>Neg\<close> of the constant, which for an integer constant is
  a \<open>CHECK_FATAL\<close> (constants are shared): \<open>NegateTree\<close> must not be reached with one.
\<close>

definition NegateTree :: "expr \<Rightarrow> expr option" where
  "NegateTree e = (case e of
     EUnary op p x \<Rightarrow> Some (Negate_unary e)
   | ETypeCvt op p q x \<Rightarrow> Some (Negate_unary e)
   | EExtractbits op p off sz x \<Rightarrow> Some (Negate_unary e)
   | EConst p c \<Rightarrow> None
   | _ \<Rightarrow> Some (Negate_base e))"

section \<open>Constant operands\<close>

definition FoldConstBinary :: "opcode \<Rightarrow> prim_type \<Rightarrow> mir_int_const \<Rightarrow> mir_int_const \<Rightarrow> expr option" where
  "FoldConstBinary op resultType c0 c1 =
     (if IsPrimitiveInteger resultType
      then do { c \<leftarrow> FoldIntConstBinaryMIRConst op resultType c0 c1; Some (EConst (ic_type c) c) }
      else None)"

definition FoldConstComparison ::
  "opcode \<Rightarrow> prim_type \<Rightarrow> prim_type \<Rightarrow> mir_int_const \<Rightarrow> mir_int_const \<Rightarrow> expr option" where
  "FoldConstComparison op resultType opndType c0 c1 =
     (if IsPrimitiveInteger opndType
      then do { c \<leftarrow> FoldIntConstComparisonMIRConst op resultType opndType c0 c1; Some (EConst resultType c) }
      else None)"

definition FoldConstUnary :: "opcode \<Rightarrow> prim_type \<Rightarrow> mir_int_const \<Rightarrow> expr option" where
  "FoldConstUnary op resultType c =
     (if IsPrimitiveInteger resultType then FoldIntConstUnary op resultType c else None)"

definition FoldConstComparisonReverse ::
  "opcode \<Rightarrow> prim_type \<Rightarrow> prim_type \<Rightarrow> expr \<Rightarrow> expr \<Rightarrow> expr option" where
  "FoldConstComparisonReverse op resultType opndType l r =
     (case op of
        OP_gt \<Rightarrow> Some (ECompare OP_lt resultType opndType r l)
      | OP_lt \<Rightarrow> Some (ECompare OP_gt resultType opndType r l)
      | OP_ge \<Rightarrow> Some (ECompare OP_le resultType opndType r l)
      | OP_le \<Rightarrow> Some (ECompare OP_ge resultType opndType r l)
      | OP_eq \<Rightarrow> Some (ECompare OP_eq resultType opndType r l)
      | OP_ne \<Rightarrow> Some (ECompare OP_ne resultType opndType r l)
      | _ \<Rightarrow> None)"

definition FoldTypeCvt_const :: "mir_int_const \<Rightarrow> prim_type \<Rightarrow> prim_type \<Rightarrow> expr option option" where
  "FoldTypeCvt_const c fromType toType =
     (case FoldTypeCvtMIRConst c fromType toType of
        None \<Rightarrow> None
      | Some None \<Rightarrow> Some None
      | Some (Some toConst) \<Rightarrow> Some (Some (EConst (ic_type toConst) toConst)))"

definition FoldSignExtend :: "opcode \<Rightarrow> prim_type \<Rightarrow> nat \<Rightarrow> mir_int_const \<Rightarrow> expr option" where
  "FoldSignExtend op resultType bits c =
     do { k \<leftarrow> FoldSignExtendMIRConst op resultType bits c; Some (EConst (ic_type k) k) }"

section \<open>One step of folding, on folded operands\<close>

text \<open>In each step \<open>x\<close> is the original operand and \<open>(e, k)\<close> its folded pair.\<close>

definition FoldUnary :: "opcode \<Rightarrow> prim_type \<Rightarrow> expr \<Rightarrow> expr \<times> i64 \<Rightarrow> (expr \<times> i64) option" where
  "FoldUnary op p x pair = (case pair of (e, k) \<Rightarrow>
     case as_const e of
       Some c \<Rightarrow> do { r \<leftarrow> FoldConstUnary op p c; Some (r, 0) }
     | None \<Rightarrow>
         (if IsPrimitiveInteger p \<and> op = OP_neg \<and> GetPrimType e \<noteq> PTY_u1
          then do { e' \<leftarrow> NegateTree e; Some (e', - k) }
          else do { e' \<leftarrow> PairToExpr (GetPrimType x) (e, k); Some (EUnary op p e', 0) }))"

definition redundant_cvt :: "prim_type \<Rightarrow> prim_type \<Rightarrow> bool" where
  "redundant_cvt q p =
     (IsPossible64BitAddress q \<and> IsPossible64BitAddress p \<or>
      IsPossible32BitAddress q \<and> IsPossible32BitAddress p \<or>
      IsPrimitivePureScalar q \<and> IsPrimitivePureScalar p \<and> GetPrimTypeSize q = GetPrimTypeSize p)"

definition widening_cvt :: "opcode \<Rightarrow> prim_type \<Rightarrow> prim_type \<Rightarrow> bool" where
  "widening_cvt op p q =
     (op = OP_cvt \<and> IsPrimitiveInteger p \<and> IsSignedInteger q \<and> GetPrimTypeSize p > GetPrimTypeSize q)"

definition cvt_rest :: "opcode \<Rightarrow> prim_type \<Rightarrow> prim_type \<Rightarrow> expr \<Rightarrow> expr \<times> i64 \<Rightarrow> (expr \<times> i64) option" where
  "cvt_rest op p q x pair =
     do { e' \<leftarrow> PairToExpr (GetPrimType x) pair; Some (ETypeCvt op p q e', 0) }"

definition FoldTypeCvt ::
  "opcode \<Rightarrow> prim_type \<Rightarrow> prim_type \<Rightarrow> expr \<Rightarrow> expr \<times> i64 \<Rightarrow> (expr \<times> i64) option" where
  "FoldTypeCvt op p q x pair = (case pair of (e, k) \<Rightarrow>
     case as_const e of
       Some c \<Rightarrow>
         (if op = OP_cvt
          then do {
            r \<leftarrow> FoldTypeCvt_const c q p;
            (case r of Some r' \<Rightarrow> Some (r', 0) | None \<Rightarrow> cvt_rest op p q x pair) }
          else None)
     | None \<Rightarrow>
         (if op = OP_cvt \<and> GetPrimTypeSize q = GetPrimTypeSize p
          then (if redundant_cvt q p then Some pair else cvt_rest op p q x pair)
          else if k \<noteq> 0 \<and> widening_cvt op p q
          then Some (ETypeCvt OP_cvt p q e,
                     if IsUnsignedInteger (GetPrimType e) then scast (ucast k :: i32) else k)
          else cvt_rest op p q x pair))"

definition FoldExtractbits ::
  "opcode \<Rightarrow> prim_type \<Rightarrow> nat \<Rightarrow> nat \<Rightarrow> expr \<Rightarrow> expr \<times> i64 \<Rightarrow> (expr \<times> i64) option" where
  "FoldExtractbits op p off sz x pair =
     (case (as_const (fst pair), op = OP_sext \<or> op = OP_zext) of
        (Some c, True) \<Rightarrow> do { r \<leftarrow> FoldSignExtend op p sz c; Some (r, 0) }
      | _ \<Rightarrow> do { e' \<leftarrow> PairToExpr (GetPrimType x) pair; Some (EExtractbits op p off sz e', 0) })"

definition FoldDepositbits ::
  "prim_type \<Rightarrow> nat \<Rightarrow> nat \<Rightarrow> expr \<Rightarrow> expr \<Rightarrow> expr \<times> i64 \<Rightarrow> expr \<times> i64 \<Rightarrow> (expr \<times> i64) option" where
  "FoldDepositbits p off sz x y lp rp =
     (case (as_const (fst lp), as_const (fst rp)) of
        (Some c0, Some c1) \<Rightarrow>
          do { c \<leftarrow> FoldDepositbitsConst p off sz c0 c1; Some (EConst p c, 0) }
      | _ \<Rightarrow> do {
          l \<leftarrow> PairToExpr (GetPrimType x) lp;
          r \<leftarrow> PairToExpr (GetPrimType y) rp;
          Some (EDepositbits p off sz l r, 0) })"

text \<open>
  The three parts of \<open>FoldBinary\<close>: both operands constant, the left one, the right one. After
  the last two the result is converted to the type of the node when its type differs.
\<close>

definition as_type :: "prim_type \<Rightarrow> expr \<Rightarrow> expr" where
  "as_type p e = (if GetPrimType e \<noteq> p then ETypeCvt OP_cvt p (GetPrimType e) e else e)"

definition fold_both_const ::
  "opcode \<Rightarrow> prim_type \<Rightarrow> expr \<Rightarrow> expr \<Rightarrow> mir_int_const \<Rightarrow> mir_int_const \<Rightarrow> (expr \<times> i64) option" where
  "fold_both_const op p l r lc rc =
     (if (op = OP_div \<or> op = OP_rem) \<and> IsPrimitiveInteger p \<and>
         (ic_value rc = 0 \<or> ic_value lc = word_of_int (- (2 ^ 63)) \<or>
          ic_value lc = word_of_int (- (2 ^ 31)))
      then Some (EBinary op p l r, 0)
      else do { e \<leftarrow> FoldConstBinary op p lc rc; Some (e, 0) })"

definition ne_zero :: "prim_type \<Rightarrow> expr \<Rightarrow> expr option" where
  "ne_zero p r =
     do { z \<leftarrow> CreateIntConst 0 (GetPrimType r); Some (ECompare OP_ne p (GetPrimType r) r z) }"

definition fold_left_const ::
  "opcode \<Rightarrow> prim_type \<Rightarrow> expr \<Rightarrow> expr \<Rightarrow> mir_int_const \<Rightarrow> expr \<times> i64 \<Rightarrow> (expr \<times> i64) option" where
  "fold_left_const op p l y c rp = (case rp of (r, k) \<Rightarrow>
     let cst = ic_value c; cstTyp = ic_type c in do {
       (result, sum) \<leftarrow>
         (if op = OP_add then Some (r, cst + k)
          else if op = OP_sub then do { r' \<leftarrow> NegateTree r; Some (r', cst - k) }
          else if op \<in> {OP_mul, OP_div, OP_rem, OP_ashr, OP_lshr, OP_shl, OP_band, OP_cand, OP_land}
                  \<and> cst = 0
          then do { z \<leftarrow> CreateIntConst 0 cstTyp; Some (z, 0) }
          else if op = OP_mul \<and> cst = 1 then Some (r, k)
          else if op = OP_bior \<and> cst = - 1
          then do { z \<leftarrow> CreateIntConst (- 1) cstTyp; Some (z, 0) }
          else if op = OP_mul \<and> k \<noteq> 0
          then Some (EBinary OP_mul p l
                       (if GetPrimTypeSize p > GetPrimTypeSize (GetPrimType r)
                        then ETypeCvt OP_cvt p PTY_i32 r else r), cst * k)
          else if op = OP_lior \<or> op = OP_cior
          then (if cst \<noteq> 0 then do { z \<leftarrow> CreateIntConst 1 cstTyp; Some (z, 0) }
                else do { z \<leftarrow> ne_zero p r; Some (z, 0) })
          else if (op = OP_cand \<or> op = OP_land) \<and> cst \<noteq> 0
          then do { z \<leftarrow> ne_zero p r; Some (z, 0) }
          else if (op = OP_bior \<or> op = OP_bxor) \<and> cst = 0 then Some (r, k)
          else do { r' \<leftarrow> PairToExpr (GetPrimType y) rp; Some (EBinary op p l r', 0) });
       Some (as_type p result, sum) })"

definition fold_bxor_one ::
  "(expr \<Rightarrow> (expr \<times> i64) option) \<Rightarrow> prim_type \<Rightarrow> expr \<Rightarrow> expr \<times> i64 \<Rightarrow> expr \<Rightarrow> expr option" where
  "fold_bxor_one refold p x lp r = do {
     l' \<leftarrow> PairToExpr (GetPrimType x) lp;
     (case fst lp of
        ETypeCvt cop cp cq base \<Rightarrow>
          (if cop = OP_cvt \<and> GetPrimType base = PTY_u1
           then do {
             one \<leftarrow> CreateIntConst 1 (GetPrimType base);
             bp \<leftarrow> refold base;
             b' \<leftarrow> PairToExpr (GetPrimType base) bp;
             Some (ETypeCvt OP_cvt p PTY_u1 (EBinary OP_bxor PTY_u1 b' one)) }
           else Some (EBinary OP_bxor p l' r))
      | _ \<Rightarrow> Some (EBinary OP_bxor p l' r)) }"

definition fold_right_const ::
  "(expr \<Rightarrow> (expr \<times> i64) option) \<Rightarrow> opcode \<Rightarrow> prim_type \<Rightarrow> expr \<Rightarrow> expr \<Rightarrow> mir_int_const
     \<Rightarrow> expr \<times> i64 \<Rightarrow> (expr \<times> i64) option" where
  "fold_right_const refold op p x r c lp = (case lp of (l, k) \<Rightarrow>
     let cst = ic_value c; cstTyp = ic_type c in do {
       (result, sum) \<leftarrow>
         (if op = OP_add then Some (l, k + cst)
          else if op = OP_sub then Some (l, k - cst)
          else if (op = OP_mul \<or> op = OP_band \<or> op = OP_cand \<or> op = OP_land) \<and> cst = 0
          then do { z \<leftarrow> CreateIntConst 0 cstTyp; Some (z, 0) }
          else if (op = OP_mul \<or> op = OP_div) \<and> cst = 1 then Some (l, k)
          else if op = OP_mul \<and> k \<noteq> 0
          then Some (EBinary OP_mul p
                       (if GetPrimTypeSize p > GetPrimTypeSize (GetPrimType l)
                        then ETypeCvt OP_cvt p PTY_i32 l else l) r, k * cst)
          else if op = OP_band \<and> cst = - 1 then Some (l, k)
          else if op = OP_bior \<and> cst = - 1
          then do { z \<leftarrow> CreateIntConst (- 1) cstTyp; Some (z, 0) }
          else if op = OP_lior \<or> op = OP_cior
          then (if 0 <s cst then do { z \<leftarrow> CreateIntConst 1 cstTyp; Some (z, 0) }
                else if cst = 0 then Some (l, k)
                else do { l' \<leftarrow> PairToExpr (GetPrimType x) lp; Some (EBinary op p l' r, 0) })
          else if (op = OP_ashr \<or> op = OP_lshr \<or> op = OP_shl \<or> op = OP_bior \<or> op = OP_bxor) \<and> cst = 0
          then Some (l, k)
          else if op = OP_bxor \<and> cst = 1 \<and> p \<noteq> PTY_u1
          then do { e \<leftarrow> fold_bxor_one refold p x lp r; Some (e, 0) }
          else if op = OP_rem \<and> cst = 1
          then do { z \<leftarrow> CreateIntConst 0 cstTyp; Some (z, 0) }
          else do { l' \<leftarrow> PairToExpr (GetPrimType x) lp; Some (EBinary op p l' r, 0) });
       Some (as_type p result, sum) })"

definition FoldBinary ::
  "(expr \<Rightarrow> (expr \<times> i64) option) \<Rightarrow> opcode \<Rightarrow> prim_type \<Rightarrow> expr \<Rightarrow> expr
     \<Rightarrow> expr \<times> i64 \<Rightarrow> expr \<times> i64 \<Rightarrow> (expr \<times> i64) option" where
  "FoldBinary refold op p x y lp rp =
     (case (as_const (fst lp), as_const (fst rp)) of
        (Some lc, Some rc) \<Rightarrow> fold_both_const op p (fst lp) (fst rp) lc rc
      | (lc, rc) \<Rightarrow>
          (case (if IsPrimitiveInteger p then lc else None) of
             Some c \<Rightarrow> fold_left_const op p (fst lp) y c rp
           | None \<Rightarrow>
               (case (if IsPrimitiveInteger p then rc else None) of
                  Some c \<Rightarrow> fold_right_const refold op p x (fst rp) c lp
                | None \<Rightarrow>
                    (if IsPrimitiveInteger p \<and> op = OP_add
                     then Some (EBinary op p (fst lp) (fst rp), snd lp + snd rp)
                     else if IsPrimitiveInteger p \<and> op = OP_sub
                     then Some (EBinary op p (fst lp) (fst rp), snd lp - snd rp)
                     else do {
                       l \<leftarrow> PairToExpr (GetPrimType x) lp;
                       r \<leftarrow> PairToExpr (GetPrimType y) rp;
                       Some (EBinary op p l r, 0) }))))"

section \<open>Comparisons\<close>

definition is_zero_const :: "expr \<Rightarrow> bool" where
  "is_zero_const e = (case as_const e of Some c \<Rightarrow> IsZero c | None \<Rightarrow> False)"

text \<open>The \<open>do ... while\<close> loop of \<open>ne (u1 x, constValue 0) <==> x\<close>; \<open>None\<close>: the loop ends with \<open>nullptr\<close>.\<close>

primrec strip_cvt :: "bool \<Rightarrow> expr \<Rightarrow> expr option" where
  "strip_cvt is_test (ETypeCvt op p q e) =
     (if p = PTY_u1 \<or> is_test then Some (ETypeCvt op p q e)
      else if op = OP_cvt then strip_cvt is_test e else None)"
| "strip_cvt is_test (ELeaf op p x) = (if p = PTY_u1 \<or> is_test then Some (ELeaf op p x) else None)"
| "strip_cvt is_test (EConst p c) = (if p = PTY_u1 \<or> is_test then Some (EConst p c) else None)"
| "strip_cvt is_test (EUnary op p e) = (if p = PTY_u1 \<or> is_test then Some (EUnary op p e) else None)"
| "strip_cvt is_test (EBinary op p l r) = (if p = PTY_u1 \<or> is_test then Some (EBinary op p l r) else None)"
| "strip_cvt is_test (ECompare op p q l r) =
     (if p = PTY_u1 \<or> is_test then Some (ECompare op p q l r) else None)"
| "strip_cvt is_test (EExtractbits op p off sz e) =
     (if p = PTY_u1 \<or> is_test then Some (EExtractbits op p off sz e) else None)"
| "strip_cvt is_test (EDepositbits p off sz l r) =
     (if p = PTY_u1 \<or> is_test then Some (EDepositbits p off sz l r) else None)"

definition SimplifyDoubleCompare :: "opcode \<Rightarrow> prim_type \<Rightarrow> prim_type \<Rightarrow> expr \<Rightarrow> expr \<Rightarrow> expr" where
  "SimplifyDoubleCompare op p q l r =
     (let node = ECompare op p q l r; lop = GetOpCode l; rop = GetOpCode r in
      if op = OP_ne \<or> op = OP_eq then
        (if lop = OP_cmp \<and> rop = OP_constval then
           (case l of ECompare cop cp cq a b \<Rightarrow>
              (if is_zero_const r then ECompare op p cq a b else node) | _ \<Rightarrow> node)
         else if rop = OP_cmp \<and> lop = OP_constval then
           (case r of ECompare cop cp cq a b \<Rightarrow>
              (if is_zero_const l then ECompare op p cq a b else node) | _ \<Rightarrow> node)
         else if op = OP_ne \<and> rop = OP_constval then
           (if is_zero_const r
            then (case strip_cvt (lop = OP_ne \<or> lop = OP_eq) l of Some e \<Rightarrow> e | None \<Rightarrow> node)
            else node)
         else if op = OP_eq \<and> rop = OP_constval then
           (case l of ECompare cop cp cq a b \<Rightarrow>
              (if is_zero_const r \<and> (lop = OP_ne \<or> lop = OP_eq)
               then ECompare (if lop = OP_ne then OP_eq else OP_ne) cp cq a b else node)
            | _ \<Rightarrow> node)
         else node)
      else if op = OP_gt \<or> op = OP_lt then
        (if lop = OP_cmp \<and> rop = OP_constval then
           (case l of ECompare cop cp cq a b \<Rightarrow>
              (if is_zero_const r then ECompare op p cq a b else node) | _ \<Rightarrow> node)
         else if rop = OP_cmp \<and> lop = OP_constval then
           (case r of ECompare cop cp cq a b \<Rightarrow>
              (if is_zero_const l then ECompare op p cq b a else node) | _ \<Rightarrow> node)
         else node)
      else node)"

definition FoldCompare ::
  "opcode \<Rightarrow> prim_type \<Rightarrow> prim_type \<Rightarrow> expr \<Rightarrow> expr \<Rightarrow> expr \<times> i64 \<Rightarrow> expr \<times> i64
     \<Rightarrow> (expr \<times> i64) option" where
  "FoldCompare op p q x y lp rp =
     (case (if IsPrimitiveDynType q then (None, None) else (as_const (fst lp), as_const (fst rp))) of
        (Some lc, Some rc) \<Rightarrow> do { e \<leftarrow> FoldConstComparison op p q lc rc; Some (e, 0) }
      | _ \<Rightarrow>
          (if as_const (fst lp) \<noteq> None \<and> as_const (fst rp) = None \<and> op \<noteq> OP_cmp
           then do {
             r \<leftarrow> PairToExpr (GetPrimType y) rp;
             e \<leftarrow> FoldConstComparisonReverse op p q (fst lp) r;
             Some (e, 0) }
           else do {
             l \<leftarrow> PairToExpr (GetPrimType x) lp;
             r \<leftarrow> PairToExpr (GetPrimType y) rp;
             Some (SimplifyDoubleCompare op p q l r, 0) }))"

section \<open>The dispatcher\<close>

definition FoldBase :: "expr \<Rightarrow> expr \<times> i64" where
  "FoldBase e = (e, 0)"

primrec fold_tree :: "(expr \<Rightarrow> (expr \<times> i64) option) \<Rightarrow> expr \<Rightarrow> (expr \<times> i64) option" where
  "fold_tree refold (ELeaf op p x) = Some (FoldBase (ELeaf op p x))"
| "fold_tree refold (EConst p c) = Some (FoldBase (EConst p c))"
| "fold_tree refold (EUnary op p x) = do { a \<leftarrow> fold_tree refold x; FoldUnary op p x a }"
| "fold_tree refold (EBinary op p x y) =
     do { a \<leftarrow> fold_tree refold x; b \<leftarrow> fold_tree refold y; FoldBinary refold op p x y a b }"
| "fold_tree refold (ECompare op p q x y) =
     do { a \<leftarrow> fold_tree refold x; b \<leftarrow> fold_tree refold y; FoldCompare op p q x y a b }"
| "fold_tree refold (ETypeCvt op p q x) =
     do { a \<leftarrow> fold_tree refold x; FoldTypeCvt op p q x a }"
| "fold_tree refold (EExtractbits op p off sz x) =
     do { a \<leftarrow> fold_tree refold x; FoldExtractbits op p off sz x a }"
| "fold_tree refold (EDepositbits p off sz x y) =
     do { a \<leftarrow> fold_tree refold x; b \<leftarrow> fold_tree refold y; FoldDepositbits p off sz x y a b }"

primrec dispatch_fold :: "nat \<Rightarrow> expr \<Rightarrow> (expr \<times> i64) option" where
  "dispatch_fold 0 = fold_tree (\<lambda>_. None)"
| "dispatch_fold (Suc n) = fold_tree (dispatch_fold n)"

primrec bxor_count :: "expr \<Rightarrow> nat" where
  "bxor_count (ELeaf op p x) = 0"
| "bxor_count (EConst p c) = 0"
| "bxor_count (EUnary op p e) = bxor_count e"
| "bxor_count (EBinary op p l r) = (if op = OP_bxor then 1 else 0) + bxor_count l + bxor_count r"
| "bxor_count (ECompare op p q l r) = bxor_count l + bxor_count r"
| "bxor_count (ETypeCvt op p q e) = bxor_count e"
| "bxor_count (EExtractbits op p off sz e) = bxor_count e"
| "bxor_count (EDepositbits p off sz l r) = bxor_count l + bxor_count r"

definition DispatchFold :: "expr \<Rightarrow> (expr \<times> i64) option" where
  "DispatchFold e = dispatch_fold (bxor_count e) e"

text \<open>\<open>Fold\<close>: \<open>Some None\<close> is the \<open>nullptr\<close> that says nothing changed.\<close>

definition Fold :: "expr \<Rightarrow> expr option option" where
  "Fold node = do {
     p \<leftarrow> DispatchFold node;
     result \<leftarrow> PairToExpr (GetPrimType node) p;
     Some (if result = node then None else Some result) }"

end
