(* ===== verification/FoldOps.thy ===== *)
theory FoldOps
  imports FoldExpr
begin

text \<open>
  What the operators of the IR depend on: the low bits of their operands, on whether an
  operand is zero and on the value of a small shift count (\<open>same_value\<close>). Replacing an operand
  by one with the same value therefore keeps the value of the node.
\<close>

section \<open>Operands with the same value\<close>

definition same_value :: "nat \<Rightarrow> i64 \<Rightarrow> i64 \<Rightarrow> bool" where
  "same_value n a b = (take_bit n b = take_bit n a \<and> (b = 0 \<longleftrightarrow> a = 0) \<and> (unat a < 64 \<longrightarrow> b = a))"

lemma same_valueD:
  assumes "same_value n a b"
  shows "take_bit n b = take_bit n a" "b = 0 \<longleftrightarrow> a = 0" "unat a < 64 \<Longrightarrow> b = a"
  using assms by (auto simp: same_value_def)

lemma norm_small:
  assumes "scalar_int t" "unat b < 64"
  shows "norm t b = b"
proof -
  have "take_bit 6 b = take_bit 6 (of_nat (unat b))" by simp
  also have "\<dots> = of_nat (take_bit 6 (unat b))" by (rule take_bit_of_nat)
  also have "take_bit 6 (unat b) = unat b" using assms(2) by (simp add: take_bit_nat_eq_self)
  finally have "take_bit 6 b = b" by simp
  moreover have "norm t (take_bit 6 b) = take_bit 6 b"
    using tbits_cases [OF assms(1)] by (auto simp: norm_def signed_take_bit_take_bit min_def)
  ultimately show ?thesis by simp
qed

lemma norm_bit: "scalar_int t \<Longrightarrow> norm t 1 = 1"
  by (rule norm_small) simp_all

lemma canonical_same_value:
  assumes "scalar_int t" "scalar_int t'" "tbits t' = tbits t"
    and "norm t a = a" "norm t' b = b" "take_bit (tbits t) b = take_bit (tbits t) a"
  shows "same_value (tbits t) a b"
proof -
  have b: "b = norm t' a" using norm_cong [OF assms(2), of b a] assms(3,5,6) by simp
  have a: "a = norm t b" using norm_cong [OF assms(1), of b a] assms(4,6) by simp
  have "b = 0 \<longleftrightarrow> a = 0" using a b by auto
  moreover have "b = a" if "unat a < 64" using b norm_small [OF assms(2) that] by simp
  ultimately show ?thesis using assms(6) by (simp add: same_value_def)
qed

section \<open>Operators respect sameness of operands\<close>

lemma at_type_cong: "scalar_int p \<Longrightarrow> take_bit (tbits p) a = take_bit (tbits p) b \<Longrightarrow> at_type p a = at_type p b"
  using norm_cong [of p a b] by (simp add: at_type_def)

lemma take_bit_cong_not:
  fixes a c :: "'a::len word"
  assumes "take_bit n a = take_bit n c"
  shows "take_bit n (NOT a) = take_bit n (NOT c)"
  by (metis assms take_bit_not_take_bit)

lemma eval_unary_cong:
  assumes "wt (EUnary op p x)" "same_value (ebits x) a b"
  shows "do { v \<leftarrow> eval_unary op p b; at_type p v } = do { v \<leftarrow> eval_unary op p a; at_type p v }"
proof (cases "op = OP_lnot")
  case True
  then show ?thesis using same_valueD(2) [OF assms(2)] by (simp add: eval_unary_def)
next
  case False
  with assms(1) have p: "scalar_int p" and op: "op = OP_abs \<or> op = OP_bnot \<or> op = OP_neg"
    and s: "esize x = GetPrimTypeSize p" and x: "wt x" by auto
  have "take_bit (tbits p) b = take_bit (tbits p) a"
    using same_valueD(1) [OF assms(2)] tbits_eq_iff [OF wt_scalar [OF x] p] s by simp
  then show ?thesis using op norm_cong [OF p, of b a]
    by (auto simp: eval_unary_def intro!: at_type_cong [OF p] take_bit_cong_not take_bit_cong_minus)
qed

lemma take_bit_cong_bits:
  fixes a b c d :: "'a::len word"
  assumes "take_bit n a = take_bit n c" and "take_bit n b = take_bit n d"
  shows "take_bit n (a AND b) = take_bit n (c AND d)" "take_bit n (a OR b) = take_bit n (c OR d)"
    "take_bit n (a XOR b) = take_bit n (c XOR d)"
  using assms by (simp_all only: take_bit_and take_bit_or take_bit_xor)

lemma signed_take_bit_cong:
  fixes a b :: i64
  assumes "take_bit n a = take_bit n b" "0 < m" "m \<le> n"
  shows "signed_take_bit (m - 1) a = signed_take_bit (m - 1) b"
proof -
  have "take_bit (Suc (m - 1)) a = take_bit (Suc (m - 1)) b"
    using take_bit_cong_le [OF assms(1), of m] assms(2,3) by simp
  then show ?thesis by (metis signed_take_bit_take_bit lessI min.absorb2 signed_take_bit_eq_iff_take_bit_eq)
qed

lemma take_bit_cong_push:
  fixes a b :: "'a::len word"
  assumes "take_bit n a = take_bit n b"
  shows "take_bit n (push_bit k a) = take_bit n (push_bit k b)"
proof (rule bit_word_eqI)
  fix m
  have "bit a i = bit b i" if "i < n" for i
    using arg_cong [OF assms, of "\<lambda>w. bit w i"] that by (simp add: bit_simps)
  then show "bit (take_bit n (push_bit k a)) m = bit (take_bit n (push_bit k b)) m"
    by (auto simp add: bit_simps)
qed

lemma opsE:
  assumes "wt (EBinary op p x y)"
  obtains (add) "op = OP_add" "reg_int p" "esize x = GetPrimTypeSize p" "esize y = GetPrimTypeSize p"
  | (sub) "op = OP_sub" "reg_int p" "esize x = GetPrimTypeSize p" "esize y = GetPrimTypeSize p"
  | (mul) "op = OP_mul" "reg_int p" "esize x = GetPrimTypeSize p" "esize y = GetPrimTypeSize p"
  | (normed) "op \<in> {OP_div, OP_rem, OP_max, OP_min}" "reg_int p" "esize x = GetPrimTypeSize p"
      "esize y = GetPrimTypeSize p"
  | (bits) "op \<in> bit_ops" "reg_int p \<or> p = PTY_u1" "esize x = GetPrimTypeSize p" "esize y = GetPrimTypeSize p"
  | (shift) "op \<in> shift_ops" "reg_int p" "esize x = GetPrimTypeSize p"
  | (logic) "op \<in> logic_ops" "scalar_int p"
  using assms by (auto simp: arith_ops_def)

lemma eval_binary_cong:
  assumes wt: "wt (EBinary op p x y)" and "same_value (ebits x) a a'" "same_value (ebits y) b b'"
    and v: "do { v \<leftarrow> eval_binary op p a b; at_type p v } = Some v"
  shows "do { v \<leftarrow> eval_binary op p a' b'; at_type p v } = Some v"
proof -
  have x: "scalar_int (GetPrimType x)" and y: "scalar_int (GetPrimType y)" and p: "scalar_int p"
    using wt wt_scalar by auto
  note a = same_valueD [OF assms(2)] and b = same_valueD [OF assms(3)]
  have ta: "take_bit (tbits p) a' = take_bit (tbits p) a" if "esize x = GetPrimTypeSize p"
    using a(1) tbits_eq_iff [OF x p] that by simp
  have tb: "take_bit (tbits p) b' = take_bit (tbits p) b" if "esize y = GetPrimTypeSize p"
    using b(1) tbits_eq_iff [OF y p] that by simp
  from wt show ?thesis
  proof (cases rule: opsE)
    case add
    then show ?thesis using v at_type_cong [OF p take_bit_cong_add [OF ta tb]] by (simp add: eval_binary_def)
  next
    case sub
    then show ?thesis using v at_type_cong [OF p take_bit_cong_diff [OF ta tb]] by (simp add: eval_binary_def)
  next
    case mul
    then show ?thesis using v at_type_cong [OF p take_bit_cong_mult [OF ta tb]] by (simp add: eval_binary_def)
  next
    case normed
    then have "norm p a' = norm p a" "norm p b' = norm p b" "at_type p a' = at_type p a" "at_type p b' = at_type p b"
      using norm_cong [OF p ta] norm_cong [OF p tb] at_type_cong [OF p ta] at_type_cong [OF p tb] by auto
    then show ?thesis using normed(1) v by (auto simp: eval_binary_def split: if_splits)
  next
    case bits
    note c = at_type_cong [OF p take_bit_cong_bits(1) [OF ta tb]] at_type_cong [OF p take_bit_cong_bits(2) [OF ta tb]]
      at_type_cong [OF p take_bit_cong_bits(3) [OF ta tb]]
    show ?thesis using bits(1) v c [OF bits(3,4)] unfolding bit_ops_def
      by (elim insertE emptyE) (simp_all add: eval_binary_def)
  next
    case shift
    have lt: "unat b < tbits p" using shift(1) v unfolding shift_ops_def
      by (elim insertE emptyE) (simp_all add: eval_binary_def split: if_splits)
    then have b': "b' = b" using b(3) tbits_bounds [OF p] by simp
    have s: "signed_take_bit (tbits p - 1) a' = signed_take_bit (tbits p - 1) a"
      using signed_take_bit_cong [OF ta, of "tbits p"] tbits_bounds [OF p] shift(3) by simp
    have c: "at_type p (push_bit n a') = at_type p (push_bit n a)" for n
      by (rule at_type_cong [OF p take_bit_cong_push [OF ta [OF shift(3)]]])
    show ?thesis using shift(1) v lt s ta [OF shift(3)] c unfolding shift_ops_def b'
      by (elim insertE emptyE) (simp_all add: eval_binary_def)
  next
    case logic
    then show ?thesis using v a(2) b(2) unfolding logic_ops_def
      by (elim insertE emptyE) (simp_all add: eval_binary_def)
  qed
qed

lemma eval_compare_cong:
  assumes wt: "wt (ECompare op p q x y)" and "same_value (ebits x) a a'" "same_value (ebits y) b b'"
  shows "eval_compare op q a' b' = eval_compare op q a b"
proof -
  have q: "scalar_int q" and x: "scalar_int (GetPrimType x)" and y: "scalar_int (GetPrimType y)"
    and s: "esize x = GetPrimTypeSize q" "esize y = GetPrimTypeSize q" using wt wt_scalar by auto
  have "at_type q a' = at_type q a" "at_type q b' = at_type q b"
    using same_valueD(1) [OF assms(2)] same_valueD(1) [OF assms(3)] tbits_eq_iff [OF x q] tbits_eq_iff [OF y q] s
    by (auto intro!: at_type_cong [OF q])
  then show ?thesis by (simp add: eval_compare_def)
qed

lemma eval_extract_cong:
  assumes wt: "wt (EExtractbits op p off sz x)" and "same_value (ebits x) a a'"
  shows "eval_extract op p off sz a' = eval_extract op p off sz a"
proof -
  have sz: "0 < sz" "off + sz \<le> ebits x" using wt by auto
  have t: "take_bit (off + sz) a' = take_bit (off + sz) a"
    by (rule take_bit_cong_le [OF same_valueD(1) [OF assms(2)] sz(2)])
  then have t1: "take_bit sz a' = take_bit sz a" by (rule take_bit_cong_le) simp
  have t2: "take_bit sz (drop_bit off a') = take_bit sz (drop_bit off a)"
    using t by (metis add.commute drop_bit_take_bit add_diff_cancel_left')
  show ?thesis
    using t1 t2 signed_take_bit_cong [OF t1 sz(1)] signed_take_bit_cong [OF t2 sz(1)]
    by (cases op) (simp_all add: eval_extract_def)
qed

lemma eval_deposit_cong:
  assumes "take_bit n a' = take_bit n a" "take_bit m b' = take_bit m b" "sz \<le> m"
  shows "take_bit n (eval_deposit off sz a' b') = take_bit n (eval_deposit off sz a b)"
proof -
  have "take_bit sz b' = take_bit sz b" by (rule take_bit_cong_le [OF assms(2,3)])
  then show ?thesis unfolding eval_deposit_def
    by (simp only: take_bit_or take_bit_and assms(1))
qed

end
