(* ===== verification/FoldSteps.thy ===== *)
theory FoldSteps
  imports FoldOps
begin

text \<open>
  Folded pairs (\<open>pair_ok\<close>) and the folding steps without \<open>FoldBinary\<close> and \<open>FoldCompare\<close>: each
  step, on operands whose pairs have the operands' values, succeeds with a pair that has the
  value of the node.
\<close>

section \<open>Nodes respect sameness of operands\<close>

definition sim :: "(nat \<Rightarrow> i64) \<Rightarrow> expr \<Rightarrow> i64 \<Rightarrow> expr \<Rightarrow> bool" where
  "sim \<rho> x a e = (wt e \<and> esize e = esize x \<and> (\<exists>w. eval \<rho> e = Some w \<and> same_value (ebits x) a w))"

lemma eval_canonical: "wt e \<Longrightarrow> eval \<rho> e = Some v \<Longrightarrow> norm (GetPrimType e) v = v"
  using eval_norm wt_scalar by blast

lemma esize_tbits: "wt e \<Longrightarrow> wt x \<Longrightarrow> esize e = esize x \<Longrightarrow> ebits e = ebits x"
  using tbits_eq_iff wt_scalar by blast

lemma simI:
  assumes "wt x" "eval \<rho> x = Some a" "wt e" "esize e = esize x" "eval \<rho> e = Some w"
    "take_bit (ebits x) w = take_bit (ebits x) a"
  shows "sim \<rho> x a e"
  using assms canonical_same_value [OF wt_scalar [OF assms(1)] wt_scalar [OF assms(3)]
    esize_tbits [OF assms(3,1,4)] eval_canonical [OF assms(1,2)] eval_canonical [OF assms(3,5)] assms(6)]
  by (auto simp: sim_def)

lemma simE:
  assumes "sim \<rho> x a e"
  obtains w where "wt e" "esize e = esize x" "eval \<rho> e = Some w" "same_value (ebits x) a w"
  using assms by (auto simp: sim_def)

lemma unary_node:
  assumes "wt (EUnary op p x)" "eval \<rho> (EUnary op p x) = Some v" "eval \<rho> x = Some a" "sim \<rho> x a e"
  shows "wt (EUnary op p e)" "eval \<rho> (EUnary op p e) = Some v"
proof -
  obtain w where e: "wt e" "esize e = esize x" "eval \<rho> e = Some w" "same_value (ebits x) a w"
    using assms(4) by (rule simE)
  show "wt (EUnary op p e)" using assms(1) e by auto
  show "eval \<rho> (EUnary op p e) = Some v"
    using assms(2,3) e eval_unary_cong [OF assms(1) e(4)] by simp
qed

lemma binary_node:
  assumes "wt (EBinary op p x y)" "eval \<rho> (EBinary op p x y) = Some v" "eval \<rho> x = Some a" "eval \<rho> y = Some b"
    "sim \<rho> x a e" "sim \<rho> y b f"
  shows "wt (EBinary op p e f)" "eval \<rho> (EBinary op p e f) = Some v"
proof -
  obtain w where e: "wt e" "esize e = esize x" "eval \<rho> e = Some w" "same_value (ebits x) a w"
    using assms(5) by (rule simE)
  obtain u where f: "wt f" "esize f = esize y" "eval \<rho> f = Some u" "same_value (ebits y) b u"
    using assms(6) by (rule simE)
  show "wt (EBinary op p e f)" using assms(1) e f by auto
  show "eval \<rho> (EBinary op p e f) = Some v"
    using assms(2-4) e f eval_binary_cong [OF assms(1) e(4) f(4)] by simp
qed

lemma compare_node:
  assumes "wt (ECompare op p q x y)" "eval \<rho> (ECompare op p q x y) = Some v" "eval \<rho> x = Some a" "eval \<rho> y = Some b"
    "sim \<rho> x a e" "sim \<rho> y b f"
  shows "wt (ECompare op p q e f)" "eval \<rho> (ECompare op p q e f) = Some v"
proof -
  obtain w where e: "wt e" "esize e = esize x" "eval \<rho> e = Some w" "same_value (ebits x) a w"
    using assms(5) by (rule simE)
  obtain u where f: "wt f" "esize f = esize y" "eval \<rho> f = Some u" "same_value (ebits y) b u"
    using assms(6) by (rule simE)
  show "wt (ECompare op p q e f)" using assms(1) e f by auto
  show "eval \<rho> (ECompare op p q e f) = Some v"
    using assms(2-4) e f eval_compare_cong [OF assms(1) e(4) f(4)] by simp
qed

lemma cvt_node:
  assumes "wt (ETypeCvt op p q x)" "eval \<rho> (ETypeCvt op p q x) = Some v" "eval \<rho> x = Some a" "sim \<rho> x a e"
  shows "wt (ETypeCvt op p q e)" "eval \<rho> (ETypeCvt op p q e) = Some v"
proof -
  obtain w where e: "wt e" "esize e = esize x" "eval \<rho> e = Some w" "same_value (ebits x) a w"
    using assms(4) by (rule simE)
  show "wt (ETypeCvt op p q e)" using assms(1) e by auto
  have "tbits q = ebits x" using assms(1) tbits_eq_iff wt_scalar by auto
  then have "at_type q w = at_type q a"
    using assms(1) same_valueD(1) [OF e(4)] by (intro at_type_cong) auto
  then show "eval \<rho> (ETypeCvt op p q e) = Some v" using assms(1-3) e by simp
qed

lemma extract_node:
  assumes "wt (EExtractbits op p off sz x)" "eval \<rho> (EExtractbits op p off sz x) = Some v" "eval \<rho> x = Some a"
    "sim \<rho> x a e"
  shows "wt (EExtractbits op p off sz e)" "eval \<rho> (EExtractbits op p off sz e) = Some v"
proof -
  obtain w where e: "wt e" "esize e = esize x" "eval \<rho> e = Some w" "same_value (ebits x) a w"
    using assms(4) by (rule simE)
  have "wt x" using assms(1) by auto
  then show "wt (EExtractbits op p off sz e)" using assms(1) e esize_tbits [OF e(1) _ e(2)] by auto
  show "eval \<rho> (EExtractbits op p off sz e) = Some v"
    using assms(2,3) e eval_extract_cong [OF assms(1) e(4)] by simp
qed

lemma deposit_node:
  assumes "wt (EDepositbits p off sz x y)" "eval \<rho> (EDepositbits p off sz x y) = Some v"
    "eval \<rho> x = Some a" "eval \<rho> y = Some b" "sim \<rho> x a e" "sim \<rho> y b f"
  shows "wt (EDepositbits p off sz e f)" "eval \<rho> (EDepositbits p off sz e f) = Some v"
proof -
  obtain w where e: "wt e" "esize e = esize x" "eval \<rho> e = Some w" "same_value (ebits x) a w"
    using assms(5) by (rule simE)
  obtain u where f: "wt f" "esize f = esize y" "eval \<rho> f = Some u" "same_value (ebits y) b u"
    using assms(6) by (rule simE)
  have wx: "wt x" "wt y" "sz \<le> ebits y" "esize x = GetPrimTypeSize p" "scalar_int p" using assms(1) by auto
  then have t: "ebits x = tbits p" using tbits_eq_iff wt_scalar by blast
  show "wt (EDepositbits p off sz e f)" using assms(1) e f esize_tbits [OF f(1) wx(2) f(2)] by auto
  have "at_type p (eval_deposit off sz w u) = at_type p (eval_deposit off sz a b)"
    using same_valueD(1) [OF e(4)] same_valueD(1) [OF f(4)] wx(3)
    by (intro at_type_cong [OF wx(5)] eval_deposit_cong) (simp_all add: t)
  then show "eval \<rho> (EDepositbits p off sz e f) = Some v" using assms(2-4) e f by simp
qed

section \<open>Folded pairs\<close>

text \<open>A folded expression never is a constant under \<open>neg\<close> nodes (so \<open>NegateTree\<close> meets no constant).\<close>

primrec neg_ok :: "expr \<Rightarrow> bool" where
  "neg_ok (EUnary op p e) = (op = OP_neg \<longrightarrow> as_const e = None \<and> neg_ok e)"
| "neg_ok (ELeaf op p n) = True"
| "neg_ok (EConst p c) = True"
| "neg_ok (EBinary op p l r) = True"
| "neg_ok (ECompare op p q l r) = True"
| "neg_ok (ETypeCvt op p q e) = True"
| "neg_ok (EExtractbits op p off sz e) = True"
| "neg_ok (EDepositbits p off sz l r) = True"

definition pair_ok :: "(nat \<Rightarrow> i64) \<Rightarrow> expr \<Rightarrow> i64 \<Rightarrow> expr \<times> i64 \<Rightarrow> bool" where
  "pair_ok \<rho> x a pair = (case pair of (e, k) \<Rightarrow>
     wt e \<and> esize e = esize x \<and> neg_ok e \<and> (k \<noteq> 0 \<longrightarrow> 4 \<le> esize x \<and> as_const e = None) \<and>
     (\<exists>w. eval \<rho> e = Some w \<and> take_bit (ebits x) (w + k) = take_bit (ebits x) a))"

lemma pair_okE:
  assumes "pair_ok \<rho> x a (e, k)"
  obtains w where "wt e" "esize e = esize x" "neg_ok e" "k \<noteq> 0 \<Longrightarrow> 4 \<le> esize x" "k \<noteq> 0 \<Longrightarrow> as_const e = None"
    "eval \<rho> e = Some w" "take_bit (ebits x) (w + k) = take_bit (ebits x) a"
  using assms by (auto simp: pair_ok_def)

lemma pair_okI:
  assumes "wt e" "esize e = esize x" "neg_ok e" "k \<noteq> 0 \<Longrightarrow> 4 \<le> esize x" "k \<noteq> 0 \<Longrightarrow> as_const e = None"
    "eval \<rho> e = Some w" "take_bit (ebits x) (w + k) = take_bit (ebits x) a"
  shows "pair_ok \<rho> x a (e, k)"
  using assms by (auto simp: pair_ok_def)

lemma pair_ok0I:
  assumes "wt e" "esize e = esize x" "neg_ok e" "eval \<rho> e = Some w" "take_bit (ebits x) w = take_bit (ebits x) a"
  shows "pair_ok \<rho> x a (e, 0)"
  using assms by (auto simp: pair_ok_def)

lemma pair_ok_sim:
  assumes "pair_ok \<rho> x a (e, 0)" "wt x" "eval \<rho> x = Some a"
  shows "sim \<rho> x a e"
  using assms by (auto elim!: pair_okE intro: simI)

lemma CreateIntConst_scalar:
  "scalar_int p \<Longrightarrow> CreateIntConst v p = Some (EConst p \<lparr>ic_type = p, ic_value = norm p v\<rparr>)"
  by (simp add: CreateIntConst_def MIRIntConst_norm)

lemma eval_reg_const:
  "reg_int p \<Longrightarrow> eval \<rho> (EConst p \<lparr>ic_type = p, ic_value = norm p v\<rparr>) = Some (norm p v)"
  by (simp add: at_type_reg)

lemma eval_at_reg:
  assumes "reg_int p" "eval \<rho> l = Some a" "eval \<rho> r = Some b" "op \<in> {OP_add, OP_sub, OP_mul}"
  shows "eval \<rho> (EBinary op p l r) = Some (norm p (if op = OP_add then a + b else if op = OP_sub then a - b else a * b))"
  using assms by (auto simp: eval_binary_def at_type_reg)

lemma esize_reg: "wt x \<Longrightarrow> 4 \<le> esize x \<Longrightarrow> reg_int (GetPrimType x)"
  by (simp add: reg_int_def wt_scalar)

lemma take_bit_add_right:
  fixes a b c :: "'a::len word"
  shows "take_bit n b = take_bit n c \<Longrightarrow> take_bit n (a + b) = take_bit n (a + c)"
  by (rule take_bit_cong_add) simp_all

text \<open>The sum is added back: \<open>a + k\<close>, \<open>a - (-k)\<close>, or \<open>k - r\<close> when the node is \<open>neg r\<close>.\<close>

lemma add_const_sim:
  assumes x: "wt x" "eval \<rho> x = Some a" and r: "reg_int (GetPrimType x)"
    and e: "wt e" "esize e = esize x" "eval \<rho> e = Some w"
    and k: "take_bit (ebits x) (w + k) = take_bit (ebits x) a"
  shows "sim \<rho> x a (EBinary OP_add (GetPrimType x) e (EConst (GetPrimType x)
      \<lparr>ic_type = GetPrimType x, ic_value = norm (GetPrimType x) k\<rparr>))"
    and "sim \<rho> x a (EBinary OP_sub (GetPrimType x) e (EConst (GetPrimType x)
      \<lparr>ic_type = GetPrimType x, ic_value = norm (GetPrimType x) (- k)\<rparr>))"
proof -
  have s: "scalar_int (GetPrimType x)" using r by simp
  have "take_bit (ebits x) (w + norm (GetPrimType x) k) = take_bit (ebits x) (w + k)"
    by (rule take_bit_add_right) (simp add: s)
  then show "sim \<rho> x a (EBinary OP_add (GetPrimType x) e (EConst (GetPrimType x)
      \<lparr>ic_type = GetPrimType x, ic_value = norm (GetPrimType x) k\<rparr>))"
    using eval_at_reg [OF r e(3) eval_reg_const [OF r], of OP_add k] k s r e
    by (intro simI [OF x, where w = "norm (GetPrimType x) (w + norm (GetPrimType x) k)"])
      (simp_all add: arith_ops_def)
  have "take_bit (ebits x) (w - norm (GetPrimType x) (- k)) = take_bit (ebits x) (w - (- k))"
    by (rule take_bit_cong_diff) (simp_all add: s)
  then show "sim \<rho> x a (EBinary OP_sub (GetPrimType x) e (EConst (GetPrimType x)
      \<lparr>ic_type = GetPrimType x, ic_value = norm (GetPrimType x) (- k)\<rparr>))"
    using eval_at_reg [OF r e(3) eval_reg_const [OF r], of OP_sub "- k"] k s r e
    by (intro simI [OF x, where w = "norm (GetPrimType x) (w - norm (GetPrimType x) (- k))"])
      (simp_all add: arith_ops_def)
qed

lemma sub_neg_sim:
  assumes x: "wt x" "eval \<rho> x = Some a" and r: "reg_int (GetPrimType x)"
    and e: "wt (EUnary OP_neg p y)" "GetPrimTypeSize p = esize x" "eval \<rho> (EUnary OP_neg p y) = Some w"
    and k: "take_bit (ebits x) (w + k) = take_bit (ebits x) a"
  shows "sim \<rho> x a (EBinary OP_sub (GetPrimType x) (EConst (GetPrimType x)
      \<lparr>ic_type = GetPrimType x, ic_value = norm (GetPrimType x) k\<rparr>) y)"
proof -
  have s: "scalar_int (GetPrimType x)" using r by simp
  have y: "wt y" "esize y = esize x" "reg_int p" using e by auto
  then have t: "tbits p = ebits x" using tbits_eq_iff [of p "GetPrimType x"] s e(2) by simp
  obtain u where u: "eval \<rho> y = Some u" and w: "w = norm p (- u)"
    using e(3) y(3) by (auto simp: bind_eq_Some_conv eval_unary_def at_type_reg)
  have "take_bit (ebits x) (norm (GetPrimType x) k - u) = take_bit (ebits x) (k - u)"
    by (rule take_bit_cong_diff) (simp_all add: s)
  also have "\<dots> = take_bit (ebits x) (norm p (- u) + k)"
    using take_bit_cong_add [of "ebits x" "norm p (- u)" "- u" k k] take_bit_norm [of p "- u"] y(3) t by simp
  finally show ?thesis
    using eval_at_reg [OF r eval_reg_const [OF r] u, of OP_sub k] k s r y w
    by (intro simI [OF x, where w = "norm (GetPrimType x) (norm (GetPrimType x) k - u)"])
      (simp_all add: arith_ops_def)
qed

lemma PairToExpr_sim:
  assumes "pair_ok \<rho> x a (e, k)" "wt x" "eval \<rho> x = Some a"
  shows "\<exists>e'. PairToExpr (GetPrimType x) (e, k) = Some e' \<and> sim \<rho> x a e'"
proof (cases "k = 0")
  case True
  with pair_ok_sim assms show ?thesis by (simp add: PairToExpr_def)
next
  case False
  with assms(1) obtain w where e: "wt e" "esize e = esize x" "4 \<le> esize x" "eval \<rho> e = Some w"
    "take_bit (ebits x) (w + k) = take_bit (ebits x) a"
    by (auto simp: pair_ok_def)
  note r = esize_reg [OF assms(2) e(3)]
  then have s: "scalar_int (GetPrimType x)" by simp
  note cst = CreateIntConst_scalar [OF s]
  note sims = add_const_sim [OF assms(2,3) r e(1,2,4,5)]
  show ?thesis
  proof (cases "\<exists>p y. e = EUnary OP_neg p y")
    case True
    then obtain p y where y: "e = EUnary OP_neg p y" by blast
    have "sim \<rho> x a (EBinary OP_sub (GetPrimType x) (EConst (GetPrimType x)
      \<lparr>ic_type = GetPrimType x, ic_value = norm (GetPrimType x) k\<rparr>) y)"
      by (rule sub_neg_sim [OF assms(2,3) r _ _ _ e(5)]) (use e y in auto)
    with False y sims show ?thesis by (auto simp: PairToExpr_def cst)
  next
    case False
    then have "PairToExpr (GetPrimType x) (e, k) =
        (if 0 <s k \<or> k = push_bit 63 1
         then do { val \<leftarrow> CreateIntConst k (GetPrimType x); Some (EBinary OP_add (GetPrimType x) e val) }
         else do { val \<leftarrow> CreateIntConst (- k) (GetPrimType x); Some (EBinary OP_sub (GetPrimType x) e val) })"
      using \<open>k \<noteq> 0\<close> by (auto simp: PairToExpr_def split: expr.splits opcode.splits)
    with sims show ?thesis by (auto simp: cst)
  qed
qed

section \<open>The steps preserve the value\<close>

lemma as_const_Some [simp]: "as_const e = Some c \<longleftrightarrow> (\<exists>p. e = EConst p c)"
  by (cases e) (auto simp: as_const_def)

lemma as_const_EConst [simp]: "as_const (EConst p c) = Some c"
  by simp

lemma as_const_None [simp]:
  "as_const (ELeaf op p n) = None" "as_const (EUnary op p e) = None" "as_const (EBinary op p l r) = None"
  "as_const (ECompare op p q l r) = None" "as_const (ETypeCvt op p q e) = None"
  "as_const (EExtractbits op p off sz e) = None" "as_const (EDepositbits p off sz l r) = None"
  by (simp_all add: as_const_def)

lemma pair_const:
  assumes "pair_ok \<rho> x a (e, k)" "as_const e = Some c"
  shows "k = 0"
  using assms by (auto simp: pair_ok_def)

lemma result_ok:
  assumes "wt n'" "GetPrimType n' = GetPrimType n" "neg_ok n'" "eval \<rho> n' = Some v"
  shows "pair_ok \<rho> n v (n', 0)"
  using assms by (intro pair_ok0I) simp_all

lemma const_result_ok:
  assumes "wt n" "eval \<rho> n = Some v"
  shows "pair_ok \<rho> n v (EConst (GetPrimType n) \<lparr>ic_type = GetPrimType n, ic_value = v\<rparr>, 0)"
proof -
  have s: "scalar_int (GetPrimType n)" and c: "norm (GetPrimType n) v = v"
    using assms wt_scalar eval_canonical by blast+
  have "at_type (GetPrimType n) v = Some v"
    using assms(2) c by (cases n) (auto simp: bind_eq_Some_conv at_type_def split: if_splits)
  with s c show ?thesis by (intro result_ok) simp_all
qed

lemma NegateTree_ok:
  assumes e: "wt e" "as_const e = None" "neg_ok e" "reg_int (GetPrimType e)" "eval \<rho> e = Some w"
  shows "\<exists>e'. NegateTree e = Some e' \<and> wt e' \<and> esize e' = esize e \<and> neg_ok e' \<and> as_const e' = None
    \<and> (\<exists>w'. eval \<rho> e' = Some w' \<and> take_bit (ebits e) w' = take_bit (ebits e) (- w))"
proof (cases "\<exists>p y. e = EUnary OP_neg p y")
  case True
  then obtain p y where y: "e = EUnary OP_neg p y" by blast
  with e have r: "reg_int p" and wy: "wt y" "esize y = GetPrimTypeSize p" "as_const y = None" by auto
  obtain u where u: "eval \<rho> y = Some u" and w: "w = norm p (- u)"
    using e(5) y r by (auto simp: bind_eq_Some_conv eval_unary_def at_type_reg)
  have "take_bit (tbits p) (- w) = take_bit (tbits p) u"
    unfolding w using take_bit_cong_minus [of "tbits p" "norm p (- u)" "- u"] r by simp
  moreover have "neg_ok y" using e(3) y by simp
  ultimately show ?thesis using y wy u by (simp add: NegateTree_def Negate_unary_def)
next
  case False
  then have "NegateTree e = Some (EUnary OP_neg (GetPrimType e) e)"
    using e(2) by (cases e) (auto simp: NegateTree_def Negate_unary_def Negate_base_def as_const_def split: opcode.splits)
  then show ?thesis using e by (simp add: eval_unary_def at_type_reg)
qed

lemma FoldUnary_ok:
  assumes n: "wt (EUnary op p x)" "eval \<rho> (EUnary op p x) = Some v" and x: "eval \<rho> x = Some a"
    and ok: "pair_ok \<rho> x a (e, k)"
  shows "\<exists>r. FoldUnary op p x (e, k) = Some r \<and> pair_ok \<rho> (EUnary op p x) v r"
proof (cases "as_const e")
  case (Some c)
  then obtain t where e: "e = EConst t c" by auto
  have "k = 0" using ok Some by (rule pair_const)
  have wx: "wt x" and p: "IsPrimitiveInteger p" using n(1) by auto
  have "sim \<rho> x a e" using ok x wx \<open>k = 0\<close> by (auto intro: pair_ok_sim)
  note u = unary_node [OF n x this]
  have "FoldUnary op p x (e, k) = Some (EConst p \<lparr>ic_type = p, ic_value = v\<rparr>, 0)"
    using FoldIntConstUnary_correct [OF u [unfolded e]] Some p e by (simp add: FoldUnary_def FoldConstUnary_def)
  with const_result_ok [OF n] show ?thesis by simp
next
  case None
  have wx: "wt x" and p: "scalar_int p" using n(1) by auto
  obtain w where e: "wt e" "esize e = esize x" "neg_ok e" "eval \<rho> e = Some w"
    "take_bit (ebits x) (w + k) = take_bit (ebits x) a" using ok by (auto simp: pair_ok_def)
  show ?thesis
  proof (cases "op = OP_neg")
    case True
    then have r: "reg_int p" "esize x = GetPrimTypeSize p" using n(1) by auto
    then have "reg_int (GetPrimType e)" using e(1,2) wt_scalar by (auto simp: reg_int_def)
    from NegateTree_ok [OF e(1) None e(3) this e(4)] obtain e' w' where e': "NegateTree e = Some e'" "wt e'"
      "esize e' = esize e" "neg_ok e'" "as_const e' = None" "eval \<rho> e' = Some w'"
      "take_bit (ebits e) w' = take_bit (ebits e) (- w)" by blast
    have t: "ebits e = tbits p" "ebits x = tbits p"
      using tbits_eq_iff [OF _ p] e(1,2) wx r(2) wt_scalar by auto
    have v: "v = norm p (- a)" using n(2) x r(1) True by (simp add: eval_unary_def at_type_reg)
    have "take_bit (tbits p) (w' + - k) = take_bit (tbits p) (- w + - k)"
      using e'(7) t by (intro take_bit_cong_add) simp_all
    also have "\<dots> = take_bit (tbits p) v"
      using take_bit_cong_minus [of "tbits p" "w + k" a] e(5) t v p by simp
    finally have "pair_ok \<rho> (EUnary op p x) v (e', - k)"
      using e' e(2) r by (intro pair_okI) (simp_all add: reg_int_def)
    moreover have "GetPrimType e \<noteq> PTY_u1"
      using e(2) r by (auto simp: reg_int_def)
    ultimately show ?thesis using True None e'(1) p by (simp add: FoldUnary_def)
  next
    case False
    obtain e' where e': "PairToExpr (GetPrimType x) (e, k) = Some e'" "sim \<rho> x a e'"
      using PairToExpr_sim [OF ok wx x] by blast
    note u = unary_node [OF n x e'(2)]
    have "pair_ok \<rho> (EUnary op p x) v (EUnary op p e', 0)" using u False by (intro result_ok) simp_all
    with False None e'(1) show ?thesis by (simp add: FoldUnary_def)
  qed
qed

lemma cvt_rest_ok:
  assumes n: "wt (ETypeCvt op p q x)" "eval \<rho> (ETypeCvt op p q x) = Some v" and x: "eval \<rho> x = Some a"
    and ok: "pair_ok \<rho> x a (e, k)"
  shows "\<exists>r. cvt_rest op p q x (e, k) = Some r \<and> pair_ok \<rho> (ETypeCvt op p q x) v r"
proof -
  have "wt x" using n(1) by simp
  then obtain e' where e': "PairToExpr (GetPrimType x) (e, k) = Some e'" "sim \<rho> x a e'"
    using PairToExpr_sim [OF ok _ x] by blast
  note u = cvt_node [OF n x e'(2)]
  have "pair_ok \<rho> (ETypeCvt op p q x) v (ETypeCvt op p q e', 0)" using u by (intro result_ok) simp_all
  with e'(1) show ?thesis by (simp add: cvt_rest_def)
qed

lemma FoldTypeCvt_ok:
  assumes n: "wt (ETypeCvt op p q x)" "eval \<rho> (ETypeCvt op p q x) = Some v" and x: "eval \<rho> x = Some a"
    and ok: "pair_ok \<rho> x a (e, k)" and safe: "k = 0 \<or> \<not> widening_cvt op p q"
  shows "\<exists>r. FoldTypeCvt op p q x (e, k) = Some r \<and> pair_ok \<rho> (ETypeCvt op p q x) v r"
proof (cases "as_const e")
  case (Some c)
  then obtain t where e: "e = EConst t c" by auto
  have "k = 0" using ok Some by (rule pair_const)
  have wx: "wt x" and op: "op = OP_cvt" using n(1) by auto
  have "sim \<rho> x a e" using ok x wx \<open>k = 0\<close> by (auto intro: pair_ok_sim)
  note u = cvt_node [OF n x this]
  have "FoldTypeCvtMIRConst c q p = Some (Some \<lparr>ic_type = p, ic_value = v\<rparr>)"
    by (rule FoldTypeCvtMIRConst_correct) (use u op e in simp_all)
  with const_result_ok [OF n] e op show ?thesis by (simp add: FoldTypeCvt_def FoldTypeCvt_const_def)
next
  case None
  have wx: "wt x" "wt e" and p: "scalar_int p" "scalar_int q" "esize x = GetPrimTypeSize q" "op = OP_cvt"
    using n(1) ok by (auto simp: pair_ok_def)
  from cvt_rest_ok [OF n x ok] obtain r where r: "cvt_rest op p q x (e, k) = Some r"
    "pair_ok \<rho> (ETypeCvt op p q x) v r" by blast
  have "pair_ok \<rho> (ETypeCvt op p q x) v (e, k)" if s: "GetPrimTypeSize q = GetPrimTypeSize p"
  proof -
    have t: "ebits x = tbits p" "tbits q = tbits p"
      using tbits_eq_iff [OF _ p(1)] p s wx wt_scalar by auto
    have "v = norm p (norm q a)" using n(2) x p(4) by (auto simp: bind_eq_Some_conv dest!: at_type_Some)
    then have "take_bit (tbits p) v = take_bit (tbits p) a" using p t take_bit_norm [OF p(2)] by simp
    with ok t s p(3) show ?thesis by (simp add: pair_ok_def)
  qed
  with r None safe show ?thesis by (cases r) (auto simp: FoldTypeCvt_def)
qed

lemma FoldSignExtend_value:
  assumes "wt (EExtractbits op p off sz (EConst t c))" "op = OP_sext \<or> op = OP_zext"
    "eval \<rho> (EExtractbits op p off sz (EConst t c)) = Some v"
  shows "FoldSignExtend op p sz c = Some (EConst p \<lparr>ic_type = p, ic_value = v\<rparr>)"
proof -
  have p: "scalar_int p" "0 < sz" "sz \<le> 64" and c: "scalar_int t" "norm t (ic_value c) = ic_value c"
    using assms(1) tbits_bounds [of t] by auto
  have "v = norm p (if op = OP_sext then signed_take_bit (sz - 1) (ic_value c) else take_bit sz (ic_value c))"
    using assms(2,3) c by (auto simp: bind_eq_Some_conv eval_extract_def dest!: at_type_Some)
  then show ?thesis by (simp add: FoldSignExtend_def FoldSignExtendMIRConst_value [OF p(2,3,1)])
qed

lemma FoldExtractbits_ok:
  assumes n: "wt (EExtractbits op p off sz x)" "eval \<rho> (EExtractbits op p off sz x) = Some v"
    and x: "eval \<rho> x = Some a" and ok: "pair_ok \<rho> x a (e, k)"
  shows "\<exists>r. FoldExtractbits op p off sz x (e, k) = Some r \<and> pair_ok \<rho> (EExtractbits op p off sz x) v r"
proof (cases "as_const e \<noteq> None \<and> (op = OP_sext \<or> op = OP_zext)")
  case True
  then obtain t c where e: "e = EConst t c" by auto
  have "k = 0" using ok e by (auto dest: pair_const)
  have "sim \<rho> x a e" using ok x n(1) \<open>k = 0\<close> by (auto intro: pair_ok_sim)
  note u = extract_node [OF n x this]
  with FoldSignExtend_value [of op p off sz t c \<rho> v] True const_result_ok [OF n] e show ?thesis
    by (auto simp: FoldExtractbits_def)
next
  case False
  obtain e' where e': "PairToExpr (GetPrimType x) (e, k) = Some e'" "sim \<rho> x a e'"
    using PairToExpr_sim [OF ok _ x] n(1) by auto
  note u = extract_node [OF n x e'(2)]
  have "pair_ok \<rho> (EExtractbits op p off sz x) v (EExtractbits op p off sz e', 0)"
    using u by (intro result_ok) simp_all
  with e'(1) False show ?thesis by (auto simp: FoldExtractbits_def split: option.splits bool.splits)
qed

lemma FoldDepositbits_ok:
  assumes n: "wt (EDepositbits p off sz x y)" "eval \<rho> (EDepositbits p off sz x y) = Some v"
    and x: "eval \<rho> x = Some a" "eval \<rho> y = Some b"
    and ok: "pair_ok \<rho> x a (e, k)" "pair_ok \<rho> y b (f, j)"
  shows "\<exists>r. FoldDepositbits p off sz x y (e, k) (f, j) = Some r \<and> pair_ok \<rho> (EDepositbits p off sz x y) v r"
proof (cases "as_const e \<noteq> None \<and> as_const f \<noteq> None")
  case True
  then obtain t c t' c' where e: "e = EConst t c" "f = EConst t' c'" by auto
  have "k = 0" "j = 0" using ok e by (auto dest: pair_const)
  then have "sim \<rho> x a e" "sim \<rho> y b f" using ok x n(1) by (auto intro: pair_ok_sim)
  note u = deposit_node [OF n x this]
  have "FoldDepositbitsConst p off sz c c' = Some \<lparr>ic_type = p, ic_value = v\<rparr>"
    by (rule FoldDepositbitsConst_correct) (use u e in simp_all)
  with const_result_ok [OF n] e show ?thesis by (simp add: FoldDepositbits_def)
next
  case False
  obtain e' f' where e': "PairToExpr (GetPrimType x) (e, k) = Some e'" "sim \<rho> x a e'"
    "PairToExpr (GetPrimType y) (f, j) = Some f'" "sim \<rho> y b f'"
    using PairToExpr_sim [OF ok(1) _ x(1)] PairToExpr_sim [OF ok(2) _ x(2)] n(1) by auto
  note u = deposit_node [OF n x e'(2,4)]
  have "pair_ok \<rho> (EDepositbits p off sz x y) v (EDepositbits p off sz e' f', 0)"
    using u by (intro result_ok) simp_all
  with e' False show ?thesis by (auto simp: FoldDepositbits_def split: option.splits)
qed

end
