(* ===== verification/FoldBinarySound.thy ===== *)
theory FoldBinarySound
  imports FoldSteps
begin

text \<open>
  \<open>FoldBinary\<close> preserves the value, outside the branches that \<open>binary_safe\<close> excludes: there the
  code drops a pending sum, or returns an operand where the truth value of it is meant.
\<close>

section \<open>The branches that lose information\<close>

definition is_cvt_of_u1 :: "expr \<Rightarrow> bool" where
  "is_cvt_of_u1 e = (case e of ETypeCvt op p q b \<Rightarrow> op = OP_cvt \<and> GetPrimType b = PTY_u1 | _ \<Rightarrow> False)"

definition binary_safe :: "opcode \<Rightarrow> prim_type \<Rightarrow> expr \<times> i64 \<Rightarrow> expr \<times> i64 \<Rightarrow> bool" where
  "binary_safe op p lp rp =
     (case (as_const (fst lp), as_const (fst rp)) of
        (Some c, None) \<Rightarrow>
          ((op = OP_lior \<or> op = OP_cior) \<and> ic_value c = 0 \<or> (op = OP_land \<or> op = OP_cand) \<and> ic_value c \<noteq> 0
           \<longrightarrow> snd rp = 0 \<and> p = PTY_u1 \<and> (reg_int (GetPrimType (fst rp)) \<or> GetPrimType (fst rp) = PTY_u1))
      | (None, Some c) \<Rightarrow>
          ((op = OP_lior \<or> op = OP_cior) \<and> ic_value c = 0 \<longrightarrow> GetPrimType (fst lp) = PTY_u1) \<and>
          (op = OP_bxor \<and> ic_value c = 1 \<and> is_cvt_of_u1 (fst lp) \<longrightarrow> snd lp = 0)
      | _ \<Rightarrow> True)"

lemma eval_at_type: "wt e \<Longrightarrow> eval \<rho> e = Some v \<Longrightarrow> at_type (GetPrimType e) v = Some v"
  using eval_canonical [of e \<rho> v]
  by (cases e) (auto simp: bind_eq_Some_conv at_type_def split: if_splits)

lemma as_type_ok:
  assumes n: "wt n" "eval \<rho> n = Some v" "GetPrimType n = p"
    and r: "wt r" "eval \<rho> r = Some w" "neg_ok r"
    and k: "k \<noteq> 0 \<Longrightarrow> as_const r = None" "k \<noteq> 0 \<Longrightarrow> 4 \<le> GetPrimTypeSize p"
    and v: "take_bit (tbits p) (w + k) = take_bit (tbits p) v"
  shows "pair_ok \<rho> n v (as_type p r, k)"
proof (cases "GetPrimType r = p")
  case True
  then show ?thesis using assms by (intro pair_okI) (auto simp: as_type_def)
next
  case False
  have p: "scalar_int p" and t: "scalar_int (GetPrimType r)" using n r wt_scalar by auto
  have "at_type p w = Some (norm p w)"
  proof (cases "p = PTY_u1")
    case True
    with k(2) have "k = 0" by auto
    then have "at_type p w = at_type p v" using v by (intro at_type_cong p) simp
    then show ?thesis using eval_at_type [OF n(1,2)] n(3) by (auto dest: at_type_Some)
  qed (rule at_type_not_u1)
  moreover have "take_bit (tbits p) (norm p w + k) = take_bit (tbits p) v"
    using take_bit_cong_add [of "tbits p" "norm p w" w k k] v p by simp
  ultimately show ?thesis using False n r p t k eval_at_type [OF r(1,2)]
    by (intro pair_okI [where w = "norm p w"]) (auto simp: as_type_def)
qed

text \<open>The value of a binary node, up to the low bits of its type.\<close>

lemma binary_value:
  assumes "wt (EBinary op p x y)" "eval \<rho> (EBinary op p x y) = Some v" "eval \<rho> x = Some a" "eval \<rho> y = Some b"
  obtains u where "eval_binary op p a b = Some u" "v = norm p u" "take_bit (tbits p) v = take_bit (tbits p) u"
proof -
  have p: "scalar_int p" using assms(1) by auto
  obtain u where "eval_binary op p a b = Some u" "at_type p u = Some v"
    using assms(2-4) by (auto simp: bind_eq_Some_conv)
  with that show ?thesis using at_type_Some [of p u v] take_bit_norm [OF p, of u] by auto
qed

lemma zero_absorbs:
  assumes "op \<in> {OP_mul, OP_div, OP_rem, OP_ashr, OP_lshr, OP_shl, OP_band, OP_cand, OP_land}"
    "eval_binary op p 0 b = Some u"
  shows "u = 0"
  using assms by (elim insertE emptyE)
    (simp_all add: eval_binary_def eval_div_def eval_rem_def split: if_splits)

lemma wt_const_type: "wt (EConst t c) \<Longrightarrow> scalar_int t \<and> ic_type c = t \<and> norm t (ic_value c) = ic_value c"
  by simp

lemma const_value: "wt (EConst t c) \<Longrightarrow> eval \<rho> (EConst t c) = Some a \<Longrightarrow> a = ic_value c"
  by (auto dest: at_type_Some)

lemma ne_zero_ok:
  assumes "wt r" "reg_int (GetPrimType r) \<or> GetPrimType r = PTY_u1" "eval \<rho> r = Some w"
  shows "\<exists>e. ne_zero PTY_u1 r = Some e \<and> wt e \<and> GetPrimType e = PTY_u1 \<and> neg_ok e
    \<and> eval \<rho> e = Some (bool_word (w \<noteq> 0))"
proof -
  have s: "scalar_int (GetPrimType r)" using assms(1) by (rule wt_scalar)
  have z: "at_type (GetPrimType r) 0 = Some 0" by (simp add: at_type_def)
  have b: "at_type PTY_u1 (bool_word c) = Some (bool_word c)" for c
    by (cases c) (simp_all add: at_type_def norm_bit)
  show ?thesis
    using assms s z b [of "w \<noteq> 0"] eval_at_type [OF assms(1,3)]
    by (auto simp: ne_zero_def CreateIntConst_scalar eval_compare_def test_ops_def)
qed

lemma mul_sum:
  fixes a b w j :: "'a::len word"
  assumes "take_bit n (w + j) = take_bit n b"
  shows "take_bit n (a * w + a * j) = take_bit n (a * b)"
  using take_bit_cong_mult [of n a a "w + j" b] assms by (simp add: distrib_left)

lemma const_ok:
  assumes "scalar_int t" "z = 0 \<or> z = 1 \<or> at_type t z = Some z"
  shows "CreateIntConst z t = Some (EConst t \<lparr>ic_type = t, ic_value = z\<rparr>)"
    "wt (EConst t \<lparr>ic_type = t, ic_value = z\<rparr>)" "eval \<rho> (EConst t \<lparr>ic_type = t, ic_value = z\<rparr>) = Some z"
proof -
  have "norm t z = z \<and> at_type t z = Some z"
    using assms(2)
  proof (elim disjE)
    assume z: "at_type t z = Some z"
    with at_type_Some [OF z] show ?thesis by simp
  qed (simp_all add: at_type_def norm_bit [OF assms(1)])
  then show "CreateIntConst z t = Some (EConst t \<lparr>ic_type = t, ic_value = z\<rparr>)"
    "wt (EConst t \<lparr>ic_type = t, ic_value = z\<rparr>)" "eval \<rho> (EConst t \<lparr>ic_type = t, ic_value = z\<rparr>) = Some z"
    using assms(1) by (simp_all add: CreateIntConst_scalar)
qed

text \<open>What both constant branches need to know of an operand: its pair, its width, its value.\<close>

definition step_ok :: "(nat \<Rightarrow> i64) \<Rightarrow> expr \<Rightarrow> i64 \<Rightarrow> (expr \<times> i64) option \<Rightarrow> bool" where
  "step_ok \<rho> n v r = (\<exists>p. r = Some p \<and> pair_ok \<rho> n v p)"

lemma step_okI: "pair_ok \<rho> n v p \<Longrightarrow> step_ok \<rho> n v (Some p)"
  by (simp add: step_ok_def)

lemma const_step_ok:
  assumes n: "wt n" "eval \<rho> n = Some v" "GetPrimType n = p"
    and t: "scalar_int t" "z = 0 \<or> z = 1 \<or> at_type t z = Some z" "take_bit (tbits p) z = take_bit (tbits p) v"
  shows "step_ok \<rho> n v (do { e \<leftarrow> CreateIntConst z t; Some (as_type p e, 0) })"
  using as_type_ok [OF n const_ok(2,3) [OF t(1,2)]] const_ok(1) [OF t(1,2)] t(3)
  by (simp add: step_ok_def)

lemma fold_left_const_ok:
  assumes n: "wt (EBinary op p x y)" "eval \<rho> (EBinary op p x y) = Some v"
    and x: "eval \<rho> x = Some a" "eval \<rho> y = Some b"
    and ok: "pair_ok \<rho> x a (EConst t c, 0)" "pair_ok \<rho> y b (r, j)" and r: "as_const r = None"
    and safe: "binary_safe op p (EConst t c, 0) (r, j)"
  shows "step_ok \<rho> (EBinary op p x y) v (fold_left_const op p (EConst t c) y c (r, j))"
proof -
  let ?n = "EBinary op p x y" and ?cst = "ic_value c"
  have p: "scalar_int p" and wx: "wt x" "wt y" using n(1) by auto
  have c: "scalar_int t" "ic_type c = t" "at_type t ?cst = Some ?cst" and sx: "sim \<rho> x a (EConst t c)"
    using ok(1) pair_ok_sim [OF ok(1) wx(1) x(1)] eval_at_type [of "EConst t c" \<rho>]
    by (auto simp: pair_ok_def dest: at_type_Some)
  obtain w where w: "wt r" "esize r = esize y" "neg_ok r" "eval \<rho> r = Some w"
    "take_bit (ebits y) (w + j) = take_bit (ebits y) b" "j \<noteq> 0 \<Longrightarrow> 4 \<le> esize y" using ok(2) by (auto simp: pair_ok_def)
  have sy: "sim \<rho> y b y" using wx x by (auto intro: simI)
  note cn = binary_node [OF n x sx sy]
  have ec: "eval \<rho> (EConst t c) = Some ?cst" using c by simp
  obtain u where u: "eval_binary op p ?cst b = Some u" "v = norm p u" "take_bit (tbits p) v = take_bit (tbits p) u"
    using binary_value [OF cn ec x(2)] by blast
  have B: "take_bit (tbits p) (w + j) = take_bit (tbits p) b" if "esize y = GetPrimTypeSize p"
    using w(5) that tbits_eq_iff [OF wt_scalar [OF wx(2)] p] by simp
  have J: "4 \<le> GetPrimTypeSize p" if "j \<noteq> 0" "esize y = GetPrimTypeSize p" using that w(6) by simp
  have R: "step_ok \<rho> ?n v (Some (as_type p r, j))"
    if "esize y = GetPrimTypeSize p" "take_bit (tbits p) b = take_bit (tbits p) u"
    using as_type_ok [OF n _ w(1,4,3), of p j] r J [OF _ that(1)] B [OF that(1)] that(2) u(3)
    by (intro step_okI) simp
  have Z: "step_ok \<rho> ?n v (do { e \<leftarrow> CreateIntConst z t; Some (as_type p e, 0) })"
    if "z = 0 \<or> z = 1 \<or> at_type t z = Some z" "take_bit (tbits p) z = take_bit (tbits p) u" for z
    using const_step_ok [OF n, of p t z] that c(1) u(3) by simp
  have N: "step_ok \<rho> ?n v (do { e \<leftarrow> ne_zero p r; Some (as_type p e, 0) })"
    if h: "j = 0" "p = PTY_u1" "reg_int (GetPrimType r) \<or> GetPrimType r = PTY_u1" "u = bool_word (b \<noteq> 0)"
  proof -
    have "w = 0 \<longleftrightarrow> b = 0"
      using same_valueD(2) [of "ebits y" b w] simE [OF pair_ok_sim [OF ok(2) [unfolded h(1)] wx(2) x(2)]] w(4) by auto
    moreover obtain e where e: "ne_zero p r = Some e" "wt e" "GetPrimType e = PTY_u1" "neg_ok e"
      "eval \<rho> e = Some (bool_word (w \<noteq> 0))" using ne_zero_ok [OF w(1) h(3) w(4)] h(2) by blast
    ultimately show ?thesis
      using as_type_ok [OF n _ e(2,5,4), of p 0] h(2,4) u(3) by (simp add: step_ok_def)
  qed
  have G: "step_ok \<rho> ?n v (do { r' \<leftarrow> PairToExpr (GetPrimType y) (r, j); Some (as_type p (EBinary op p (EConst t c) r'), 0) })"
  proof -
    obtain r' where r': "PairToExpr (GetPrimType y) (r, j) = Some r'" "sim \<rho> y b r'"
      using PairToExpr_sim [OF ok(2) wx(2) x(2)] by blast
    with binary_node [OF n x sx r'(2)] show ?thesis
      by (auto simp: as_type_def intro!: step_okI result_ok)
  qed
  show ?thesis
    using n(1)
  proof (cases rule: opsE)
    case add
    have v: "take_bit (tbits p) (w + (?cst + j)) = take_bit (tbits p) v"
      using take_bit_cong_add [OF refl B [OF add(4)], of ?cst] u(1,3) add(1)
      by (simp add: eval_binary_def add.left_commute)
    have "step_ok \<rho> ?n v (Some (as_type p r, ?cst + j))"
      using as_type_ok [OF n _ w(1,4,3), of p "?cst + j"] v r add(2) by (intro step_okI) (simp add: reg_int_def)
    then show ?thesis using add(1) by (simp add: fold_left_const_def)
  next
    case sub
    have "reg_int (GetPrimType r)" using sub w(1,2) wt_scalar by (auto simp: reg_int_def)
    from NegateTree_ok [OF w(1) r w(3) this w(4)] obtain r' w' where r': "NegateTree r = Some r'" "wt r'"
      "neg_ok r'" "as_const r' = None" "eval \<rho> r' = Some w'" "take_bit (ebits r) w' = take_bit (ebits r) (- w)"
      by blast
    have t: "ebits r = tbits p" using tbits_eq_iff [OF wt_scalar [OF w(1)] p] w(2) sub(4) by simp
    have "take_bit (tbits p) (w' + (?cst - j)) = take_bit (tbits p) (- w + (?cst - j))"
      using r'(6) t by (intro take_bit_cong_add) simp_all
    also have "\<dots> = take_bit (tbits p) (?cst - (w + j))" by (simp add: algebra_simps)
    also have "\<dots> = take_bit (tbits p) v"
      using take_bit_cong_diff [OF refl B [OF sub(4)], of ?cst] u(1,3) sub(1) by (simp add: eval_binary_def)
    finally have "step_ok \<rho> ?n v (Some (as_type p r', ?cst - j))"
      using as_type_ok [OF n _ r'(2,5,3), of p "?cst - j"] r'(4) sub(2) by (intro step_okI) (simp add: reg_int_def)
    then show ?thesis using sub(1) r'(1) by (simp add: fold_left_const_def)
  next
    case mul
    consider "?cst = 0" | "?cst = 1" | "?cst \<noteq> 0" "?cst \<noteq> 1" "j = 0" | "?cst \<noteq> 0" "?cst \<noteq> 1" "j \<noteq> 0" by blast
    then show ?thesis
    proof cases
      case 1
      with zero_absorbs [of op p b u] u(1) mul(1) Z [of 0] c(2) show ?thesis by (simp add: fold_left_const_def)
    next
      case 2
      with R [OF mul(4)] u(1) mul(1) show ?thesis by (simp add: fold_left_const_def eval_binary_def)
    next
      case 3
      with G mul(1) show ?thesis by (simp add: fold_left_const_def)
    next
      case 4
      have s: "\<not> GetPrimTypeSize p > GetPrimTypeSize (GetPrimType r)" using w(2) mul(4) by simp
      have e: "wt (EBinary op p (EConst t c) r)" "eval \<rho> (EBinary op p (EConst t c) r) = Some (norm p (?cst * w))"
        using mul n(1) simE [OF sx] w(1,2) ec w(4) at_type_reg [OF mul(2)] by (auto simp: eval_binary_def)
      have "take_bit (tbits p) (norm p (?cst * w) + ?cst * j) = take_bit (tbits p) (?cst * w + ?cst * j)"
        by (rule take_bit_cong_add) (simp_all add: p)
      then have "take_bit (tbits p) (norm p (?cst * w) + ?cst * j) = take_bit (tbits p) v"
        using mul_sum [OF B [OF mul(4)], of ?cst] u(1,3) mul(1) by (simp add: eval_binary_def)
      then have "step_ok \<rho> ?n v (Some (as_type p (EBinary op p (EConst t c) r), ?cst * j))"
        using as_type_ok [OF n _ e, of p "?cst * j"] mul(2) by (intro step_okI) (simp add: reg_int_def)
      then show ?thesis using 4 s mul(1) by (simp add: fold_left_const_def)
    qed
  next
    case normed
    then show ?thesis
      using zero_absorbs [of op p b u] u(1) Z [of 0] c(2) G
      by (cases "?cst = 0"; elim insertE emptyE) (simp_all add: fold_left_const_def)
  next
    case bits
    have b: "op = OP_band \<or> op = OP_bior \<or> op = OP_bxor" using bits(1) by (auto simp: bit_ops_def)
    have z: "?cst = 0 \<Longrightarrow> op = OP_bior \<or> op = OP_bxor \<Longrightarrow> u = b" and m: "?cst = - 1 \<Longrightarrow> op = OP_bior \<Longrightarrow> u = - 1"
      using u(1) by (auto simp: eval_binary_def)
    consider "op = OP_band" "?cst = 0" | "op = OP_bior" "?cst = - 1" | "op = OP_bior \<or> op = OP_bxor" "?cst = 0"
      | "op = OP_band" "?cst \<noteq> 0" | "op = OP_bior" "?cst \<noteq> 0" "?cst \<noteq> - 1" | "op = OP_bxor" "?cst \<noteq> 0" using b by blast
    then show ?thesis
    proof cases
      case 1
      with zero_absorbs [of op p b u] u(1) Z [of 0] c(2) show ?thesis by (simp add: fold_left_const_def)
    next
      case 2
      with Z [of "- 1"] m c(2,3) show ?thesis by (simp add: fold_left_const_def)
    next
      case 3
      with R [OF bits(4)] z show ?thesis by (elim disjE) (simp_all add: fold_left_const_def)
    qed (use G in \<open>simp_all add: fold_left_const_def\<close>)
  next
    case shift
    then have "op \<in> {OP_ashr, OP_lshr, OP_shl}" by (simp add: shift_ops_def)
    then show ?thesis
      using zero_absorbs [of op p b u] u(1) Z [of 0] c(2) G
      by (cases "?cst = 0"; elim insertE emptyE) (simp_all add: fold_left_const_def)
  next
    case logic
    then have l: "op = OP_land \<or> op = OP_cand \<or> op = OP_lior \<or> op = OP_cior" by (auto simp: logic_ops_def)
    consider "op = OP_land \<or> op = OP_cand" "?cst = 0" | "op = OP_land \<or> op = OP_cand" "?cst \<noteq> 0"
      | "op = OP_lior \<or> op = OP_cior" "?cst = 0" | "op = OP_lior \<or> op = OP_cior" "?cst \<noteq> 0" using l by blast
    then show ?thesis
    proof cases
      case 1
      then have "u = 0" using zero_absorbs [of op p b u] u(1) by auto
      with 1 Z [of 0] c(2) show ?thesis by (elim disjE) (simp_all add: fold_left_const_def)
    next
      case 2
      have "u = bool_word (b \<noteq> 0)" using 2 u(1) by (auto simp: eval_binary_def)
      moreover have "j = 0 \<and> p = PTY_u1 \<and> (reg_int (GetPrimType r) \<or> GetPrimType r = PTY_u1)"
        using safe 2 r by (auto simp: binary_safe_def)
      ultimately show ?thesis using N 2 by (elim disjE) (simp_all add: fold_left_const_def)
    next
      case 3
      have "u = bool_word (b \<noteq> 0)" using 3 u(1) by (auto simp: eval_binary_def)
      moreover have "j = 0 \<and> p = PTY_u1 \<and> (reg_int (GetPrimType r) \<or> GetPrimType r = PTY_u1)"
        using safe 3 r by (auto simp: binary_safe_def)
      ultimately show ?thesis using N 3 by (elim disjE) (simp_all add: fold_left_const_def)
    next
      case 4
      have "u = 1" using 4 u(1) by (auto simp: eval_binary_def)
      with 4 Z [of 1] c(2) show ?thesis by (elim disjE) (simp_all add: fold_left_const_def)
    qed
  qed
qed

lemma u1_value: "wt e \<Longrightarrow> GetPrimType e = PTY_u1 \<Longrightarrow> eval \<rho> e = Some w \<Longrightarrow> w = 0 \<or> w = 1"
  using eval_at_type [of e \<rho> w] by (auto simp: at_type_def split: if_splits)

lemma norm_01: "scalar_int p \<Longrightarrow> w = 0 \<or> w = 1 \<Longrightarrow> norm p w = w"
  by (auto simp: norm_bit)

lemma at_type_01: "scalar_int p \<Longrightarrow> w = 0 \<or> w = 1 \<Longrightarrow> at_type p w = Some w"
  by (auto simp: norm_bit at_type_def)

lemma fold_bxor_one_ok:
  assumes n: "wt (EBinary OP_bxor p x y)" "eval \<rho> (EBinary OP_bxor p x y) = Some v" "p \<noteq> PTY_u1"
    and x: "eval \<rho> x = Some a" "eval \<rho> y = Some b"
    and ok: "pair_ok \<rho> x a (l, k)" "pair_ok \<rho> y b (EConst t c, 0)" "ic_value c = 1"
    and safe: "is_cvt_of_u1 l \<longrightarrow> k = 0"
    and re: "\<And>cp cq base w. l = ETypeCvt OP_cvt cp cq base \<Longrightarrow> GetPrimType base = PTY_u1 \<Longrightarrow> wt base
        \<Longrightarrow> eval \<rho> base = Some w \<Longrightarrow> step_ok \<rho> base w (refold base)"
  shows "step_ok \<rho> (EBinary OP_bxor p x y) v
    (do { e \<leftarrow> fold_bxor_one refold p x (l, k) (EConst t c); Some (as_type p e, 0) })"
proof -
  let ?n = "EBinary OP_bxor p x y"
  have p: "reg_int p" and wx: "wt x" "wt y" using n by (auto simp: logic_ops_def)
  obtain l' where l': "PairToExpr (GetPrimType x) (l, k) = Some l'" "sim \<rho> x a l'"
    using PairToExpr_sim [OF ok(1) wx(1) x(1)] by blast
  have sy: "sim \<rho> y b (EConst t c)" using pair_ok_sim [OF ok(2) wx(2) x(2)] .
  show ?thesis
  proof (cases "is_cvt_of_u1 l")
    case False
    have "fold_bxor_one refold p x (l, k) (EConst t c) = Some (EBinary OP_bxor p l' (EConst t c))"
      using False l'(1) by (cases l) (auto simp: fold_bxor_one_def is_cvt_of_u1_def)
    with binary_node [OF n(1,2) x l'(2) sy] show ?thesis
      by (auto simp: as_type_def intro!: step_okI result_ok)
  next
    case True
    then obtain cp cq base where l: "l = ETypeCvt OP_cvt cp cq base" "GetPrimType base = PTY_u1"
      by (cases l) (auto simp: is_cvt_of_u1_def)
    have k: "k = 0" using safe True by simp
    obtain w where w: "wt l" "eval \<rho> l = Some w" "take_bit (ebits x) w = take_bit (ebits x) a"
      using ok(1) k by (auto simp: pair_ok_def)
    have wb: "wt base" and cs: "scalar_int cp" "scalar_int cq" using w(1) l by auto
    from w(2) l obtain w0 where w0: "eval \<rho> base = Some w0" and w1: "w = norm cp (norm cq w0)"
      by (auto simp: bind_eq_Some_conv dest!: at_type_Some)
    have b: "w0 = 0 \<or> w0 = 1" using u1_value [OF wb l(2) w0] .
    then have ww: "w = w0" using w1 norm_01 cs by simp
    from re [OF l wb w0] obtain b1 j where b1: "refold base = Some (b1, j)" "pair_ok \<rho> base w0 (b1, j)"
      by (auto simp: step_ok_def)
    obtain b2 where b2: "PairToExpr PTY_u1 (b1, j) = Some b2" "sim \<rho> base w0 b2"
      using PairToExpr_sim [OF b1(2) wb w0] l(2) by auto
    obtain w2 where w2: "wt b2" "esize b2 = 1" "eval \<rho> b2 = Some w2" "same_value 8 w0 w2"
      using simE [OF b2(2)] l(2) by (auto simp: tbits_size)
    have "unat w0 < 64" using b by auto
    then have w2': "w2 = w0" using same_valueD(3) [OF w2(4)] by simp
    have one: "CreateIntConst 1 PTY_u1 = Some (EConst PTY_u1 \<lparr>ic_type = PTY_u1, ic_value = 1\<rparr>)"
      "wt (EConst PTY_u1 \<lparr>ic_type = PTY_u1, ic_value = 1\<rparr>)"
      "eval \<rho> (EConst PTY_u1 \<lparr>ic_type = PTY_u1, ic_value = 1\<rparr>) = Some 1"
      by (rule const_ok; simp)+
    let ?e = "ETypeCvt OP_cvt p PTY_u1 (EBinary OP_bxor PTY_u1 b2 (EConst PTY_u1 \<lparr>ic_type = PTY_u1, ic_value = 1\<rparr>))"
    have x1: "w0 XOR 1 = 0 \<or> w0 XOR 1 = 1" using b by auto
    have e: "wt ?e" "eval \<rho> ?e = Some (w0 XOR 1)"
      using w2(1-3) one p x1 w2' at_type_01 [OF _ x1] by (simp_all add: bit_ops_def eval_binary_def)
    have f: "fold_bxor_one refold p x (l, k) (EConst t c) = Some ?e"
      using l l'(1) b1(1) b2(1) one(1) by (simp add: fold_bxor_one_def)
    have sl: "sim \<rho> x a l" using ok(1) k wx(1) x(1) by (auto intro: pair_ok_sim)
    have c: "eval \<rho> (EConst t c) = Some 1"
      using simE [OF sy] const_value [of t c \<rho>] ok(3) by (metis simE sy)
    obtain u where u: "eval_binary OP_bxor p w 1 = Some u" "take_bit (tbits p) v = take_bit (tbits p) u"
      using binary_value [OF binary_node [OF n(1,2) x sl sy] w(2) c] by blast
    then have "take_bit (tbits p) (w0 XOR 1 + 0) = take_bit (tbits p) v"
      by (simp add: eval_binary_def ww)
    then have "pair_ok \<rho> ?n v (as_type p ?e, 0)"
      by (intro as_type_ok [OF n(1,2) _ e]) simp_all
    then show ?thesis using f by (simp add: step_ok_def)
  qed
qed

lemma eval_div_one:
  assumes "scalar_int p"
  shows "eval_div p (norm p a) (norm p 1) = norm p a" "eval_rem p (norm p a) (norm p 1) = 0"
  by (simp_all add: eval_div_def eval_rem_def norm_bit [OF assms] signed_modulo_int_def)

lemma shift_zero:
  assumes "scalar_int p" "op \<in> shift_ops" "eval_binary op p a 0 = Some u"
  shows "take_bit (tbits p) u = take_bit (tbits p) a"
  using assms(2,3) tbits_bounds [OF assms(1)] unfolding shift_ops_def
  by (elim insertE emptyE) (auto simp: eval_binary_def take_bit_signed_take_bit split: if_splits)

lemma fold_right_const_ok:
  assumes n: "wt (EBinary op p x y)" "eval \<rho> (EBinary op p x y) = Some v"
    and x: "eval \<rho> x = Some a" "eval \<rho> y = Some b"
    and ok: "pair_ok \<rho> x a (l, k)" "pair_ok \<rho> y b (EConst t c, 0)" and l: "as_const l = None"
    and safe: "binary_safe op p (l, k) (EConst t c, 0)"
    and re: "\<And>cp cq base w. op = OP_bxor \<Longrightarrow> l = ETypeCvt OP_cvt cp cq base \<Longrightarrow> ic_value c = 1 \<Longrightarrow> GetPrimType base = PTY_u1 \<Longrightarrow> wt base
        \<Longrightarrow> eval \<rho> base = Some w \<Longrightarrow> step_ok \<rho> base w (refold base)"
  shows "step_ok \<rho> (EBinary op p x y) v (fold_right_const refold op p x (EConst t c) c (l, k))"
proof -
  let ?n = "EBinary op p x y" and ?cst = "ic_value c"
  have p: "scalar_int p" and wx: "wt x" "wt y" using n(1) by auto
  have c: "scalar_int t" "ic_type c = t" "at_type t ?cst = Some ?cst" and sy: "sim \<rho> y b (EConst t c)"
    using ok(2) pair_ok_sim [OF ok(2) wx(2) x(2)] eval_at_type [of "EConst t c" \<rho>]
    by (auto simp: pair_ok_def dest: at_type_Some)
  obtain w where w: "wt l" "esize l = esize x" "neg_ok l" "eval \<rho> l = Some w"
    "take_bit (ebits x) (w + k) = take_bit (ebits x) a" "k \<noteq> 0 \<Longrightarrow> 4 \<le> esize x" using ok(1) by (auto simp: pair_ok_def)
  have sx: "sim \<rho> x a x" using wx x by (auto intro: simI)
  note cn = binary_node [OF n x sx sy]
  have ec: "eval \<rho> (EConst t c) = Some ?cst" using c by simp
  obtain u where u: "eval_binary op p a ?cst = Some u" "v = norm p u" "take_bit (tbits p) v = take_bit (tbits p) u"
    using binary_value [OF cn x(1) ec] by blast
  have A: "take_bit (tbits p) (w + k) = take_bit (tbits p) a" if "esize x = GetPrimTypeSize p"
    using w(5) that tbits_eq_iff [OF wt_scalar [OF wx(1)] p] by simp
  have L: "step_ok \<rho> ?n v (Some (as_type p l, k))"
    if "esize x = GetPrimTypeSize p" "take_bit (tbits p) a = take_bit (tbits p) u"
    using as_type_ok [OF n _ w(1,4,3), of p k] l w(6) A [OF that(1)] that u(3)
    by (intro step_okI) simp
  have Z: "step_ok \<rho> ?n v (do { e \<leftarrow> CreateIntConst z t; Some (as_type p e, 0) })"
    if "z = 0 \<or> z = 1 \<or> at_type t z = Some z" "take_bit (tbits p) z = take_bit (tbits p) u" for z
    using const_step_ok [OF n, of p t z] that c(1) u(3) by simp
  have G: "step_ok \<rho> ?n v (do { l' \<leftarrow> PairToExpr (GetPrimType x) (l, k); Some (as_type p (EBinary op p l' (EConst t c)), 0) })"
  proof -
    obtain l' where l': "PairToExpr (GetPrimType x) (l, k) = Some l'" "sim \<rho> x a l'"
      using PairToExpr_sim [OF ok(1) wx(1) x(1)] by blast
    with binary_node [OF n x l'(2) sy] show ?thesis
      by (auto simp: as_type_def intro!: step_okI result_ok)
  qed
  show ?thesis
    using n(1)
  proof (cases rule: opsE)
    case add
    have v: "take_bit (tbits p) (w + (k + ?cst)) = take_bit (tbits p) v"
      using take_bit_cong_add [OF A [OF add(3)] refl, of ?cst] u(1,3) add(1)
      by (simp add: eval_binary_def add.assoc)
    have "step_ok \<rho> ?n v (Some (as_type p l, k + ?cst))"
      using as_type_ok [OF n _ w(1,4,3), of p "k + ?cst"] v l add(2) by (intro step_okI) (simp add: reg_int_def)
    then show ?thesis using add(1) by (simp add: fold_right_const_def)
  next
    case sub
    have v: "take_bit (tbits p) (w + (k - ?cst)) = take_bit (tbits p) v"
      using take_bit_cong_diff [OF A [OF sub(3)] refl, of ?cst] u(1,3) sub(1)
      by (simp add: eval_binary_def add_diff_eq)
    have "step_ok \<rho> ?n v (Some (as_type p l, k - ?cst))"
      using as_type_ok [OF n _ w(1,4,3), of p "k - ?cst"] v l sub(2) by (intro step_okI) (simp add: reg_int_def)
    then show ?thesis using sub(1) by (simp add: fold_right_const_def)
  next
    case mul
    consider "?cst = 0" | "?cst = 1" | "?cst \<noteq> 0" "?cst \<noteq> 1" "k = 0" | "?cst \<noteq> 0" "?cst \<noteq> 1" "k \<noteq> 0" by blast
    then show ?thesis
    proof cases
      case 1
      with u(1) mul(1) Z [of 0] c(2) show ?thesis by (simp add: fold_right_const_def eval_binary_def)
    next
      case 2
      with L [OF mul(3)] u(1) mul(1) show ?thesis by (simp add: fold_right_const_def eval_binary_def)
    next
      case 3
      with G mul(1) show ?thesis by (simp add: fold_right_const_def)
    next
      case 4
      have s: "\<not> GetPrimTypeSize p > GetPrimTypeSize (GetPrimType l)" using w(2) mul(3) by simp
      have e: "wt (EBinary op p l (EConst t c))" "eval \<rho> (EBinary op p l (EConst t c)) = Some (norm p (w * ?cst))"
        using mul n(1) simE [OF sy] w(1,2) ec w(4) at_type_reg [OF mul(2)] by (auto simp: eval_binary_def)
      have "take_bit (tbits p) (norm p (w * ?cst) + k * ?cst) = take_bit (tbits p) (w * ?cst + k * ?cst)"
        by (rule take_bit_cong_add) (simp_all add: p)
      then have "take_bit (tbits p) (norm p (w * ?cst) + k * ?cst) = take_bit (tbits p) v"
        using mul_sum [OF A [OF mul(3)], of ?cst] u(1,3) mul(1) by (simp add: eval_binary_def mult.commute)
      then have "step_ok \<rho> ?n v (Some (as_type p (EBinary op p l (EConst t c)), k * ?cst))"
        using as_type_ok [OF n _ e, of p "k * ?cst"] mul(2) by (intro step_okI) (simp add: reg_int_def)
      then show ?thesis using 4 s mul(1) by (simp add: fold_right_const_def)
    qed
  next
    case normed
    have one: "?cst = 1 \<Longrightarrow> op = OP_div \<Longrightarrow> take_bit (tbits p) a = take_bit (tbits p) u"
      "?cst = 1 \<Longrightarrow> op = OP_rem \<Longrightarrow> u = 0"
      using u(1) eval_div_one [OF p] p by (auto simp: eval_binary_def split: if_splits)
    show ?thesis
    proof (cases "?cst = 1 \<and> (op = OP_div \<or> op = OP_rem)")
      case True
      then show ?thesis using one L [OF normed(3)] Z [of 0] c(2) by (auto simp: fold_right_const_def)
    next
      case False
      then show ?thesis using normed(1) G by (elim insertE emptyE) (simp_all add: fold_right_const_def)
    qed
  next
    case bits
    have b: "op = OP_band \<or> op = OP_bior \<or> op = OP_bxor" using bits(1) by (auto simp: bit_ops_def)
    consider "op = OP_band" "?cst = 0" | "op = OP_band" "?cst = - 1" | "op = OP_band" "?cst \<noteq> 0" "?cst \<noteq> - 1"
      | "op = OP_bior" "?cst = - 1" | "op = OP_bior \<or> op = OP_bxor" "?cst = 0"
      | "op = OP_bior" "?cst \<noteq> 0" "?cst \<noteq> - 1" | "op = OP_bxor" "?cst = 1" "p \<noteq> PTY_u1"
      | "op = OP_bxor" "?cst \<noteq> 0" "?cst \<noteq> 1 \<or> p = PTY_u1" using b by blast
    then show ?thesis
    proof cases
      case 1
      with u(1) Z [of 0] c(2) show ?thesis by (simp add: fold_right_const_def eval_binary_def)
    next
      case 2
      with u(1) L [OF bits(3)] show ?thesis by (simp add: fold_right_const_def eval_binary_def)
    next
      case 4
      with u(1) Z [of "- 1"] c(2,3) show ?thesis by (simp add: fold_right_const_def eval_binary_def)
    next
      case 5
      with u(1) L [OF bits(3)] show ?thesis by (elim disjE) (simp_all add: fold_right_const_def eval_binary_def)
    next
      case 7
      have "step_ok \<rho> (EBinary OP_bxor p x y) v
          (do { e \<leftarrow> fold_bxor_one refold p x (l, k) (EConst t c); Some (as_type p e, 0) })"
        by (rule fold_bxor_one_ok [OF _ _ _ x ok]) (use n 7 safe l re in \<open>auto simp: binary_safe_def\<close>)
      with 7 show ?thesis by (simp add: fold_right_const_def)
    next
      case 8
      with G show ?thesis by (elim disjE) (simp_all add: fold_right_const_def)
    qed (use G in \<open>simp_all add: fold_right_const_def\<close>)
  next
    case shift
    have s: "op \<in> {OP_ashr, OP_lshr, OP_shl}" using shift(1) by (simp add: shift_ops_def)
    have z: "?cst = 0 \<Longrightarrow> take_bit (tbits p) a = take_bit (tbits p) u"
      using shift_zero [OF p shift(1)] u(1) by simp
    show ?thesis using s z L [OF shift(3)] G
      by (cases "?cst = 0"; elim insertE emptyE) (simp_all add: fold_right_const_def)
  next
    case logic
    then have b: "op = OP_land \<or> op = OP_cand \<or> op = OP_lior \<or> op = OP_cior" by (auto simp: logic_ops_def)
    consider "op = OP_land \<or> op = OP_cand" "?cst = 0" | "op = OP_land \<or> op = OP_cand" "?cst \<noteq> 0"
      | "op = OP_lior \<or> op = OP_cior" "0 <s ?cst" | "op = OP_lior \<or> op = OP_cior" "?cst = 0"
      | "op = OP_lior \<or> op = OP_cior" "\<not> 0 <s ?cst" "?cst \<noteq> 0" using b by blast
    then show ?thesis
    proof cases
      case 1
      then have "u = 0" using u(1) by (auto simp: eval_binary_def)
      with 1 Z [of 0] c(2) show ?thesis by (elim disjE) (simp_all add: fold_right_const_def)
    next
      case 3
      then have "?cst \<noteq> 0" by auto
      then have "u = 1" using u(1) 3 by (auto simp: eval_binary_def)
      with 3 Z [of 1] c(2) show ?thesis by (elim disjE) (simp_all add: fold_right_const_def)
    next
      case 4
      have t: "GetPrimType l = PTY_u1" using safe 4 l by (auto simp: binary_safe_def)
      then have k: "k = 0" using w(2,6) by auto
      have "w = 0 \<longleftrightarrow> a = 0"
        using same_valueD(2) [of "ebits x" a w] simE [OF pair_ok_sim [OF ok(1) [unfolded k] wx(1) x(1)]] w(4) by auto
      then have "u = w" using u1_value [OF w(1) t w(4)] u(1) 4 by (auto simp: eval_binary_def)
      then have "step_ok \<rho> ?n v (Some (as_type p l, k))"
        using as_type_ok [OF n _ w(1,4,3), of p k] l k u(3) by (intro step_okI) simp
      with 4 show ?thesis by (elim disjE) (simp_all add: fold_right_const_def)
    qed (use G in \<open>elim disjE; simp add: fold_right_const_def\<close>)+
  qed
qed


lemma fold_both_const_ok:
  assumes n: "wt (EBinary op p x y)" "eval \<rho> (EBinary op p x y) = Some v"
    and x: "eval \<rho> x = Some a" "eval \<rho> y = Some b"
    and ok: "pair_ok \<rho> x a (EConst t c, 0)" "pair_ok \<rho> y b (EConst s d, 0)"
  shows "step_ok \<rho> (EBinary op p x y) v (fold_both_const op p (EConst t c) (EConst s d) c d)"
proof -
  have wx: "wt x" "wt y" "IsPrimitiveInteger p" using n(1) by auto
  note u = binary_node [OF n x pair_ok_sim [OF ok(1) wx(1) x(1)] pair_ok_sim [OF ok(2) wx(2) x(2)]]
  have "pair_ok \<rho> (EBinary op p x y) v (EBinary op p (EConst t c) (EConst s d), 0)"
    using u by (intro result_ok) simp_all
  moreover have "pair_ok \<rho> (EBinary op p x y) v (EConst p \<lparr>ic_type = p, ic_value = v\<rparr>, 0)"
    using const_result_ok [OF n] by simp
  ultimately show ?thesis using FoldIntConstBinaryMIRConst_correct [OF u] wx(3)
    by (simp add: fold_both_const_def FoldConstBinary_def step_ok_def)
qed

lemma FoldBinary_ok:
  assumes n: "wt (EBinary op p x y)" "eval \<rho> (EBinary op p x y) = Some v"
    and x: "eval \<rho> x = Some a" "eval \<rho> y = Some b"
    and ok: "pair_ok \<rho> x a (l, k)" "pair_ok \<rho> y b (r, j)"
    and safe: "binary_safe op p (l, k) (r, j)"
    and re: "\<And>cp cq base w. op = OP_bxor \<Longrightarrow> l = ETypeCvt OP_cvt cp cq base \<Longrightarrow> GetPrimType base = PTY_u1
        \<Longrightarrow> \<exists>s d. r = EConst s d \<and> ic_value d = 1 \<Longrightarrow> wt base \<Longrightarrow> eval \<rho> base = Some w \<Longrightarrow> step_ok \<rho> base w (refold base)"
  shows "step_ok \<rho> (EBinary op p x y) v (FoldBinary refold op p x y (l, k) (r, j))"
proof -
  have i: "IsPrimitiveInteger p" and wx: "wt x" "wt y" using n(1) by auto
  consider (both) t c s d where "l = EConst t c" "r = EConst s d" | (left) t c where "l = EConst t c" "as_const r = None"
    | (right) s d where "as_const l = None" "r = EConst s d" | (none) "as_const l = None" "as_const r = None"
    by (cases "as_const l"; cases "as_const r") auto
  then show ?thesis
  proof cases
    case both
    then have "k = 0" "j = 0" using ok by (auto dest: pair_const)
    then show ?thesis using fold_both_const_ok [OF n x] ok both by (simp add: FoldBinary_def)
  next
    case left
    then have "k = 0" using ok by (auto dest: pair_const)
    then show ?thesis using fold_left_const_ok [OF n x _ ok(2) left(2)] ok(1) safe left i by (simp add: FoldBinary_def)
  next
    case right
    then have j: "j = 0" using ok by (auto dest: pair_const)
    have "step_ok \<rho> (EBinary op p x y) v (fold_right_const refold op p x (EConst s d) d (l, k))"
      by (rule fold_right_const_ok [OF n x ok(1)]) (use ok(2) right j safe re in auto)
    then show ?thesis using right j i by (simp add: FoldBinary_def)
  next
    case none
    have p: "scalar_int p" using n(1) by auto
    obtain w where w: "wt l" "esize l = esize x" "eval \<rho> l = Some w"
      "take_bit (ebits x) (w + k) = take_bit (ebits x) a" using ok(1) by (auto simp: pair_ok_def)
    obtain w' where w': "wt r" "esize r = esize y" "eval \<rho> r = Some w'"
      "take_bit (ebits y) (w' + j) = take_bit (ebits y) b" using ok(2) by (auto simp: pair_ok_def)
    show ?thesis
    proof (cases "op = OP_add \<or> op = OP_sub")
      case True
      then have t: "reg_int p" "esize x = GetPrimTypeSize p" "esize y = GetPrimTypeSize p" "op \<in> arith_ops"
        using n(1) by (auto simp: arith_ops_def bit_ops_def shift_ops_def logic_ops_def)
      then have tb: "ebits x = tbits p" "ebits y = tbits p" using tbits_eq_iff [OF wt_scalar p] wx by auto
      have e: "wt (EBinary op p l r)" "eval \<rho> (EBinary op p l r) = Some (norm p (if op = OP_add then w + w' else w - w'))"
        using True t w w' eval_at_reg [OF t(1) w(3) w'(3), of op] by auto
      obtain u where u: "eval_binary op p a b = Some u" "take_bit (tbits p) v = take_bit (tbits p) u"
        using binary_value [OF n x] by blast
      have s: "take_bit (tbits p) (norm p z + i) = take_bit (tbits p) (z + i)" for z i
        by (rule take_bit_cong_add) (simp_all add: p)
      have arr: "w - w' + (k - j) = w + k - (w' + j)" "w + w' + (k + j) = w + k + (w' + j)"
        by (simp_all add: algebra_simps)
      have "take_bit (tbits p) (norm p (if op = OP_add then w + w' else w - w') + (if op = OP_add then k + j else k - j))
          = take_bit (tbits p) v"
        using True u take_bit_cong_add [OF w(4) [unfolded tb] w'(4) [unfolded tb]]
          take_bit_cong_diff [OF w(4) [unfolded tb] w'(4) [unfolded tb]]
        unfolding s by (elim disjE) (simp_all add: eval_binary_def arr)
      then have "pair_ok \<rho> (EBinary op p x y) v (EBinary op p l r, if op = OP_add then k + j else k - j)"
        using e t(1) by (intro pair_okI) (simp_all add: reg_int_def)
      then show ?thesis using True none i by (auto simp: FoldBinary_def step_ok_def)
    next
      case False
      obtain l' r' where e: "PairToExpr (GetPrimType x) (l, k) = Some l'" "sim \<rho> x a l'"
        "PairToExpr (GetPrimType y) (r, j) = Some r'" "sim \<rho> y b r'"
        using PairToExpr_sim [OF ok(1) wx(1) x(1)] PairToExpr_sim [OF ok(2) wx(2) x(2)] by blast
      note u = binary_node [OF n x e(2,4)]
      have "pair_ok \<rho> (EBinary op p x y) v (EBinary op p l' r', 0)" using u by (intro result_ok) simp_all
      then show ?thesis using False none e(1,3) by (simp add: FoldBinary_def step_ok_def)
    qed
  qed
qed

end
