(* ===== verification/FoldSound.thy ===== *)
theory FoldSound
  imports FoldBinarySound
begin

text \<open>
  \<open>FoldCompare\<close> and the dispatcher preserve the value. \<open>fold_safe\<close> collects the side conditions
  of the steps: that no folding step of the expression takes one of the branches in which the
  code loses information. \<open>Fold_sound\<close> is the result for \<open>ConstantFold::Fold\<close>.
\<close>

section \<open>Comparisons\<close>

definition compare_safe :: "opcode \<Rightarrow> prim_type \<Rightarrow> expr \<Rightarrow> expr \<Rightarrow> bool" where
  "compare_safe op q l r =
     (op \<in> {OP_gt, OP_lt} \<and> (GetOpCode l = OP_cmp \<or> GetOpCode r = OP_cmp) \<longrightarrow> IsSignedInteger q)"

lemma neg_ok_u1: "wt e \<Longrightarrow> GetPrimType e = PTY_u1 \<Longrightarrow> neg_ok e"
  by (cases e) (auto dest: reg_int_not_u1)

lemma strip_cvt_ok:
  "strip_cvt tst e = Some e' \<Longrightarrow> wt e \<Longrightarrow> eval \<rho> e = Some w \<Longrightarrow> (tst \<Longrightarrow> GetPrimType e = PTY_u1) \<Longrightarrow>
   wt e' \<and> GetPrimType e' = PTY_u1 \<and> eval \<rho> e' = Some w"
proof (induction e arbitrary: w)
  case (ETypeCvt op p q e)
  show ?case
  proof (cases "p = PTY_u1 \<or> tst")
    case True
    then show ?thesis using ETypeCvt.prems by (auto split: if_splits)
  next
    case False
    then have s: "strip_cvt tst e = Some e'" "op = OP_cvt" using ETypeCvt.prems(1) by (auto split: if_splits)
    obtain w0 where w0: "eval \<rho> e = Some w0" "w = norm p (norm q w0)"
      using ETypeCvt.prems(3) by (auto simp: bind_eq_Some_conv dest!: at_type_Some split: if_splits)
    have "wt e" using ETypeCvt.prems(2) by simp
    from ETypeCvt.IH [OF s(1) this w0(1)] False have e': "wt e'" "GetPrimType e' = PTY_u1" "eval \<rho> e' = Some w0"
      by auto
    then have "w0 = 0 \<or> w0 = 1" by (rule u1_value)
    then have "w = w0" using w0(2) norm_01 [of q] norm_01 [of p] ETypeCvt.prems(2) by auto
    with e' show ?thesis by simp
  qed
qed (auto split: if_splits)

lemma cmp_node:
  assumes "wt l" "GetOpCode l = OP_cmp"
  obtains q' a b where "l = ECompare OP_cmp PTY_i32 q' a b"
  using assms by (cases l) (auto simp: arith_ops_def bit_ops_def shift_ops_def logic_ops_def test_ops_def)

lemma eval_cmpE:
  assumes "eval \<rho> (ECompare OP_cmp PTY_i32 q' a b) = Some z"
  obtains u w x y where "eval \<rho> a = Some u" "eval \<rho> b = Some w" "at_type q' u = Some x" "at_type q' w = Some y"
    "z = (if word_less q' y x then 1 else if x = y then 0 else - 1)"
proof -
  have m: "norm PTY_i32 (- 1) = - 1" by (simp add: norm_def tbits_size)
  show ?thesis using assms that m norm_bit [of PTY_i32]
    by (auto simp: bind_eq_Some_conv eval_compare_def at_type_not_u1 split: if_splits)
qed

lemma word_less_total: "x \<noteq> y \<Longrightarrow> \<not> word_less q y x \<Longrightarrow> word_less q x y"
  using signed_word_eqI [of x y] by (cases "sint x = sint y") (auto simp: word_less_def word_sless_alt)

lemma word_less_asym: "word_less q x y \<Longrightarrow> \<not> word_less q y x" "\<not> word_less q x x"
  by (auto simp: word_less_def word_sless_alt split: if_splits)

lemma norm_m1_signed: "reg_int q \<Longrightarrow> IsSignedInteger q \<Longrightarrow> norm q (- 1) = - 1"
  by (simp add: norm_def)

lemma norm_m1_nonzero: "reg_int q \<Longrightarrow> norm q (- 1) \<noteq> 0"
proof -
  assume "reg_int q"
  then have q: "scalar_int q" by simp
  have "take_bit (tbits q) (- 1 :: i64) \<noteq> 0" using tbits_cases [OF q] by auto
  then show ?thesis using take_bit_norm [OF q, of "- 1"] by auto
qed


lemma zero_constE:
  assumes "is_zero_const r" "wt r"
  obtains t c where "r = EConst t c" "ic_value c = 0" "scalar_int t"
  using assms by (auto simp: is_zero_const_def IsZero_def split: option.splits)

lemma eval_zero_const: "is_zero_const r \<Longrightarrow> wt r \<Longrightarrow> eval \<rho> r = Some 0"
  by (auto elim!: zero_constE simp: at_type_def)

lemma bool_at_u1: "at_type PTY_u1 (bool_word b) = Some (bool_word b)"
  by (rule at_type_01) (auto simp: bool_word_def)

lemma sless_1: "0 <s (1 :: i64)" "\<not> 1 <s (0 :: i64)" "(- 1) <s (0 :: i64)" "\<not> 0 <s (- 1 :: i64)"
  by (simp_all add: word_sless_alt)

text \<open>Comparing a three-way comparison with zero is the comparison itself.\<close>

lemma cmp_with_zero:
  assumes n: "wt (ECompare op p q l r)" and l: "l = ECompare OP_cmp PTY_i32 q' a b" and r: "is_zero_const r"
    and v: "eval \<rho> (ECompare op p q l r) = Some v"
    and op: "op = OP_ne \<or> op = OP_eq \<or> (op = OP_gt \<or> op = OP_lt) \<and> IsSignedInteger q"
  shows "wt (ECompare op p q' a b)" "eval \<rho> (ECompare op p q' a b) = Some v"
proof -
  have p: "p = PTY_u1" and q: "reg_int q" and w: "wt l" "wt r" using n l op by auto
  then show "wt (ECompare op p q' a b)" using op l by (auto simp: test_ops_def)
  obtain z where z: "eval \<rho> l = Some z" using v by (auto simp: bind_eq_Some_conv)
  then obtain u w x y where xy: "eval \<rho> a = Some u" "eval \<rho> b = Some w" "at_type q' u = Some x" "at_type q' w = Some y"
    and zv: "z = (if word_less q' y x then 1 else if x = y then 0 else - 1)" unfolding l by (rule eval_cmpE)
  note zero = eval_zero_const [OF r w(2)]
  note nz = norm_bit [of q] norm_m1_nonzero [OF q] norm_m1_signed [OF q] at_type_reg [OF q]
  have l1: "word_less q' y x \<Longrightarrow> x \<noteq> y" "word_less q' y x \<Longrightarrow> \<not> word_less q' x y"
    using word_less_asym by auto
  show "eval \<rho> (ECompare op p q' a b) = Some v"
    using op
  proof (elim disjE conjE)
    assume "op = OP_ne"
    then show ?thesis using v z zero xy zv q nz p l1 by (auto simp: eval_compare_def bool_at_u1)
  next
    assume "op = OP_eq"
    then show ?thesis using v z zero xy zv q nz p l1 by (auto simp: eval_compare_def bool_at_u1)
  next
    assume o: "op = OP_gt" "IsSignedInteger q"
    then have "word_less q 0 (norm q z) \<longleftrightarrow> word_less q' y x"
      using zv q nz by (auto simp: word_less_def sless_1)
    then show ?thesis using v z zero xy q nz p o by (auto simp: eval_compare_def bool_at_u1)
  next
    assume o: "op = OP_lt" "IsSignedInteger q"
    then have "word_less q (norm q z) 0 \<longleftrightarrow> word_less q' x y"
      using zv q nz l1(2) word_less_total [of x y q'] word_less_asym(2) [of q' x]
      by (auto simp: word_less_def [of q] sless_1)
    then show ?thesis using v z zero xy q nz p o by (auto simp: eval_compare_def bool_at_u1)
  qed
qed

lemma compare_swapped:
  assumes n: "wt (ECompare op p q l r)" and v: "eval \<rho> (ECompare op p q l r) = Some v"
    and op: "(op, op') \<in> {(OP_ne, OP_ne), (OP_eq, OP_eq), (OP_gt, OP_lt), (OP_lt, OP_gt), (OP_ge, OP_le), (OP_le, OP_ge)}"
  shows "wt (ECompare op' p q r l)" "eval \<rho> (ECompare op' p q r l) = Some v"
proof -
  show "wt (ECompare op' p q r l)" using n op by (auto simp: test_ops_def)
  obtain a b x y where ab: "eval \<rho> l = Some a" "eval \<rho> r = Some b" "at_type q a = Some x" "at_type q b = Some y"
    using v by (auto simp: bind_eq_Some_conv eval_compare_def)
  have e: "x = y \<longleftrightarrow> y = x" by blast
  from op show "eval \<rho> (ECompare op' p q r l) = Some v"
    using v ab by (elim insertE emptyE) (simp_all add: eval_compare_def e del: e, simp_all add: e)
qed

text \<open>\<open>ne (x, 0)\<close> is \<open>x\<close> for a truth value; \<open>eq (x, 0)\<close> is the opposite test.\<close>

lemma ne_zero_strip:
  assumes n: "wt (ECompare OP_ne p q l r)" "eval \<rho> (ECompare OP_ne p q l r) = Some v" "is_zero_const r"
    and s: "strip_cvt (GetOpCode l = OP_ne \<or> GetOpCode l = OP_eq) l = Some e"
  shows "wt e \<and> GetPrimType e = PTY_u1 \<and> eval \<rho> e = Some v"
proof -
  have w: "wt l" "wt r" and p: "p = PTY_u1" and q: "scalar_int q" using n(1) by auto
  have t: "GetPrimType l = PTY_u1" if "GetOpCode l = OP_ne \<or> GetOpCode l = OP_eq"
    using w(1) that by (cases l) (auto simp: arith_ops_def bit_ops_def shift_ops_def logic_ops_def)
  obtain z where z: "eval \<rho> l = Some z" using n(2) by (auto simp: bind_eq_Some_conv)
  from strip_cvt_ok [OF s w(1) z t] have e: "wt e" "GetPrimType e = PTY_u1" "eval \<rho> e = Some z" by auto
  then have "z = 0 \<or> z = 1" by (rule u1_value)
  then have "v = z" using n(2) z eval_zero_const [OF n(3) w(2)] p q
    by (elim disjE) (simp_all add: eval_compare_def at_type_01 norm_01)
  with e show ?thesis by simp
qed

lemma eq_zero_flip:
  assumes n: "wt (ECompare OP_eq p q l r)" "eval \<rho> (ECompare OP_eq p q l r) = Some v" "is_zero_const r"
    and l: "l = ECompare op p' q' a b" and op: "(op, op') \<in> {(OP_ne, OP_eq), (OP_eq, OP_ne)}"
  shows "wt (ECompare op' p' q' a b)" "p' = PTY_u1" "eval \<rho> (ECompare op' p' q' a b) = Some v"
proof -
  have w: "wt l" "wt r" and p: "p = PTY_u1" and q: "scalar_int q" using n(1) by auto
  show "wt (ECompare op' p' q' a b)" "p' = PTY_u1" using w(1) l op by (auto simp: test_ops_def)
  then show "eval \<rho> (ECompare op' p' q' a b) = Some v"
    using n(2) l op eval_zero_const [OF n(3) w(2), of \<rho>] p q
    by (elim insertE emptyE)
      (auto simp: bind_eq_Some_conv eval_compare_def bool_at_u1 at_type_01 norm_01 norm_bit bool_word_def split: if_splits)
qed

lemma SimplifyDoubleCompare_ok:
  assumes n: "wt (ECompare op p q l r)" "eval \<rho> (ECompare op p q l r) = Some v" and safe: "compare_safe op q l r"
  defines "e \<equiv> SimplifyDoubleCompare op p q l r"
  shows "wt e" "GetPrimType e = p" "neg_ok e" "eval \<rho> e = Some v"
proof -
  let ?n = "ECompare op p q l r"
  define ok where "ok e' \<longleftrightarrow> wt e' \<and> GetPrimType e' = p \<and> eval \<rho> e' = Some v" for e'
  have ok: "ok ?n" using n by (simp add: ok_def)
  have w: "wt l" "wt r" using n(1) by auto
  have p: "p = PTY_u1" if "op \<noteq> OP_cmp" using n(1) that by auto
  have cl: "ok (case l of ECompare cop cp cq a b \<Rightarrow> (if is_zero_const r then ECompare op p cq a b else ?n) | _ \<Rightarrow> ?n)"
    if c: "GetOpCode l = OP_cmp" "op = OP_ne \<or> op = OP_eq \<or> op = OP_gt \<or> op = OP_lt"
    using w(1) c(1)
  proof (cases rule: cmp_node)
    case (1 q' a b)
    have s: "op = OP_ne \<or> op = OP_eq \<or> (op = OP_gt \<or> op = OP_lt) \<and> IsSignedInteger q"
      using safe c by (auto simp: compare_safe_def)
    show ?thesis using ok cmp_with_zero [OF n(1) 1 _ n(2) s] 1 by (simp add: ok_def)
  qed
  have cr: "ok (case r of ECompare cop cp cq a b \<Rightarrow> (if is_zero_const l then ECompare op p cq a b else ?n) | _ \<Rightarrow> ?n)"
    if c: "GetOpCode r = OP_cmp" "op = OP_ne \<or> op = OP_eq"
    using w(2) c(1)
  proof (cases rule: cmp_node)
    case (1 q' a b)
    have "(op, op) \<in> {(OP_ne, OP_ne), (OP_eq, OP_eq), (OP_gt, OP_lt), (OP_lt, OP_gt), (OP_ge, OP_le), (OP_le, OP_ge)}"
      using c(2) by auto
    note m = compare_swapped [OF n this]
    show ?thesis using ok cmp_with_zero [OF m(1) 1 _ m(2)] 1 c(2) by (auto simp: ok_def)
  qed
  have cs: "ok (case r of ECompare cop cp cq a b \<Rightarrow> (if is_zero_const l then ECompare op p cq b a else ?n) | _ \<Rightarrow> ?n)"
    if c: "GetOpCode r = OP_cmp" "op = OP_gt \<or> op = OP_lt"
    using w(2) c(1)
  proof (cases rule: cmp_node)
    case (1 q' a b)
    define op' where "op' = (if op = OP_gt then OP_lt else OP_gt)"
    have o: "(op, op') \<in> {(OP_ne, OP_ne), (OP_eq, OP_eq), (OP_gt, OP_lt), (OP_lt, OP_gt), (OP_ge, OP_le), (OP_le, OP_ge)}"
      "(op', op) \<in> {(OP_ne, OP_ne), (OP_eq, OP_eq), (OP_gt, OP_lt), (OP_lt, OP_gt), (OP_ge, OP_le), (OP_le, OP_ge)}"
      "op' = OP_gt \<or> op' = OP_lt" using c(2) by (auto simp: op'_def)
    have sq: "IsSignedInteger q" using safe c by (auto simp: compare_safe_def)
    note m = compare_swapped [OF n o(1)]
    show ?thesis
    proof (cases "is_zero_const l")
      case True
      have "wt (ECompare op' p q' a b)" "eval \<rho> (ECompare op' p q' a b) = Some v"
        using cmp_with_zero [OF m(1) 1 True m(2)] o(3) sq by auto
      from compare_swapped [OF this o(2)] True 1 show ?thesis by (simp add: ok_def)
    qed (use ok 1 in simp)
  qed
  have st: "ok (case strip_cvt (GetOpCode l = OP_ne \<or> GetOpCode l = OP_eq) l of Some e' \<Rightarrow> e' | None \<Rightarrow> ?n)"
    if "op = OP_ne" "is_zero_const r"
  proof (cases "strip_cvt (GetOpCode l = OP_ne \<or> GetOpCode l = OP_eq) l")
    case (Some e')
    from ne_zero_strip [OF n [unfolded that(1)] that(2) Some] p that(1) Some show ?thesis
      by (simp add: ok_def)
  qed (simp add: ok)
  have fl: "ok (case l of ECompare cop cp cq a b \<Rightarrow>
        (if is_zero_const r \<and> (GetOpCode l = OP_ne \<or> GetOpCode l = OP_eq)
         then ECompare (if GetOpCode l = OP_ne then OP_eq else OP_ne) cp cq a b else ?n) | _ \<Rightarrow> ?n)"
    if o: "op = OP_eq"
  proof (cases l)
    case (ECompare cop cp cq a b)
    have "ok (ECompare (if cop = OP_ne then OP_eq else OP_ne) cp cq a b)"
      if "is_zero_const r" "cop = OP_ne \<or> cop = OP_eq"
      using eq_zero_flip [OF n(1,2) [unfolded o] that(1) ECompare, of "if cop = OP_ne then OP_eq else OP_ne"] that p o
      by (auto simp: ok_def)
    then show ?thesis using ok ECompare by simp
  qed (use ok in simp_all)
  have "ok e" unfolding e_def SimplifyDoubleCompare_def Let_def
    using ok cl cr cs st fl by (simp split del: expr.split option.split, use ok in auto)
  moreover have "neg_ok e"
  proof (cases "op = OP_cmp")
    case False
    with \<open>ok e\<close> p show ?thesis by (auto simp: ok_def intro: neg_ok_u1)
  qed (simp add: e_def SimplifyDoubleCompare_def Let_def)
  ultimately show "wt e" "GetPrimType e = p" "neg_ok e" "eval \<rho> e = Some v" by (auto simp: ok_def)
qed

text \<open>The side condition looks at the folded operands with their sums added back.\<close>

definition compare_pairs_safe :: "opcode \<Rightarrow> prim_type \<Rightarrow> expr \<times> i64 \<Rightarrow> expr \<times> i64 \<Rightarrow> bool" where
  "compare_pairs_safe op q lp rp =
     (op \<in> {OP_gt, OP_lt} \<and> (GetOpCode (fst lp) = OP_cmp \<or> GetOpCode (fst rp) = OP_cmp) \<longrightarrow> IsSignedInteger q)"

lemma PairToExpr_opcode:
  assumes "PairToExpr p (e, k) = Some e'"
  shows "GetOpCode e' = GetOpCode e \<or> GetOpCode e' \<in> {OP_add, OP_sub}"
  using assms unfolding PairToExpr_def
  by (cases e) (auto simp: bind_eq_Some_conv split: if_splits opcode.splits)

lemma FoldCompare_ok:
  assumes n: "wt (ECompare op p q x y)" "eval \<rho> (ECompare op p q x y) = Some v"
    and x: "eval \<rho> x = Some a" "eval \<rho> y = Some b"
    and ok: "pair_ok \<rho> x a (l, k)" "pair_ok \<rho> y b (r, j)"
    and safe: "compare_pairs_safe op q (l, k) (r, j)"
  shows "step_ok \<rho> (ECompare op p q x y) v (FoldCompare op p q x y (l, k) (r, j))"
proof -
  let ?n = "ECompare op p q x y"
  have wx: "wt x" "wt y" and q: "scalar_int q" using n(1) by auto
  have i: "IsPrimitiveInteger q" "\<not> IsPrimitiveDynType q" using q by simp_all
  obtain l' r' where e: "PairToExpr (GetPrimType x) (l, k) = Some l'" "sim \<rho> x a l'"
    "PairToExpr (GetPrimType y) (r, j) = Some r'" "sim \<rho> y b r'"
    using PairToExpr_sim [OF ok(1) wx(1) x(1)] PairToExpr_sim [OF ok(2) wx(2) x(2)] by blast
  note u = compare_node [OF n x e(2,4)]
  consider (both) t c s d where "l = EConst t c" "r = EConst s d"
    | (left) t c where "l = EConst t c" "as_const r = None" "op \<noteq> OP_cmp"
    | (rest) "as_const l = None \<or> as_const r = None" "as_const l = None \<or> op = OP_cmp"
    by (cases "as_const l"; cases "as_const r"; cases "op = OP_cmp") auto
  then show ?thesis
  proof cases
    case both
    then have "k = 0" "j = 0" using ok by (auto dest: pair_const)
    then have m: "sim \<rho> x a l" "sim \<rho> y b r" using ok wx x by (auto intro: pair_ok_sim)
    have "FoldIntConstComparisonMIRConst op p q c d = Some \<lparr>ic_type = p, ic_value = v\<rparr>"
      using compare_node [OF n x m] unfolding both by (rule FoldIntConstComparisonMIRConst_correct)
    with const_result_ok [OF n] both i show ?thesis
      by (simp add: FoldCompare_def FoldConstComparison_def step_ok_def)
  next
    case left
    then have "k = 0" using ok by (auto dest: pair_const)
    then have l': "l' = l" using e(1) by (simp add: PairToExpr_def)
    have "op \<in> test_ops" using n(1) left(3) by auto
    then have "\<exists>op'. (op, op') \<in> {(OP_ne, OP_ne), (OP_eq, OP_eq), (OP_gt, OP_lt), (OP_lt, OP_gt), (OP_ge, OP_le), (OP_le, OP_ge)}
        \<and> FoldConstComparisonReverse op p q l r' = Some (ECompare op' p q r' l)"
      unfolding test_ops_def by (elim insertE emptyE) (simp_all add: FoldConstComparisonReverse_def)
    then obtain op' where o: "(op, op') \<in> {(OP_ne, OP_ne), (OP_eq, OP_eq), (OP_gt, OP_lt), (OP_lt, OP_gt), (OP_ge, OP_le), (OP_le, OP_ge)}"
      and f: "FoldConstComparisonReverse op p q l r' = Some (ECompare op' p q r' l)" by blast
    have "pair_ok \<rho> ?n v (ECompare op' p q r' l, 0)"
      using compare_swapped [OF u o] l' by (intro result_ok) simp_all
    then show ?thesis using left i e(3) f by (simp add: FoldCompare_def step_ok_def)
  next
    case rest
    have "compare_safe op q l' r'"
      using safe PairToExpr_opcode [OF e(1)] PairToExpr_opcode [OF e(3)]
      by (auto simp: compare_safe_def compare_pairs_safe_def)
    from SimplifyDoubleCompare_ok [OF u this]
    have "pair_ok \<rho> ?n v (SimplifyDoubleCompare op p q l' r', 0)" by (intro result_ok) simp_all
    moreover have "FoldCompare op p q x y (l, k) (r, j) = Some (SimplifyDoubleCompare op p q l' r', 0)"
      using rest i e(1,3) unfolding FoldCompare_def by (cases "as_const l"; cases "as_const r") auto
    ultimately show ?thesis by (simp add: step_ok_def)
  qed
qed

section \<open>The dispatcher\<close>

text \<open>
  \<open>fold_safe\<close>: no branch that loses information is taken anywhere in the folding of the
  expression. It is computed along the same recursion as the folding.
\<close>

definition node_safe :: "(expr \<Rightarrow> bool) \<Rightarrow> expr \<Rightarrow> (expr \<times> i64) option \<Rightarrow> (expr \<times> i64) option \<Rightarrow> bool" where
  "node_safe resafe e lp rp = (case (e, lp, rp) of
     (ETypeCvt op p q x, Some a, _) \<Rightarrow> as_const (fst a) \<noteq> None \<or> snd a = 0 \<or> \<not> widening_cvt op p q
   | (EBinary op p x y, Some a, Some b) \<Rightarrow> binary_safe op p a b \<and>
       (op = OP_bxor \<longrightarrow> (case fst a of ETypeCvt cop cp cq base \<Rightarrow>
          GetPrimType base = PTY_u1 \<longrightarrow> resafe base | _ \<Rightarrow> True))
   | (ECompare op p q x y, Some a, Some b) \<Rightarrow> compare_pairs_safe op q a b
   | _ \<Rightarrow> True)"

primrec safe_tree :: "(expr \<Rightarrow> (expr \<times> i64) option) \<Rightarrow> (expr \<Rightarrow> bool) \<Rightarrow> expr \<Rightarrow> bool" where
  "safe_tree rf rs (ELeaf op p n) = True"
| "safe_tree rf rs (EConst p c) = True"
| "safe_tree rf rs (EUnary op p x) = safe_tree rf rs x"
| "safe_tree rf rs (EBinary op p x y) =
     (safe_tree rf rs x \<and> safe_tree rf rs y \<and> node_safe rs (EBinary op p x y) (fold_tree rf x) (fold_tree rf y))"
| "safe_tree rf rs (ECompare op p q x y) =
     (safe_tree rf rs x \<and> safe_tree rf rs y \<and> node_safe rs (ECompare op p q x y) (fold_tree rf x) (fold_tree rf y))"
| "safe_tree rf rs (ETypeCvt op p q x) =
     (safe_tree rf rs x \<and> node_safe rs (ETypeCvt op p q x) (fold_tree rf x) None)"
| "safe_tree rf rs (EExtractbits op p off sz x) = safe_tree rf rs x"
| "safe_tree rf rs (EDepositbits p off sz x y) = (safe_tree rf rs x \<and> safe_tree rf rs y)"

primrec dispatch_safe :: "nat \<Rightarrow> expr \<Rightarrow> bool" where
  "dispatch_safe 0 = safe_tree (\<lambda>_. None) (\<lambda>_. False)"
| "dispatch_safe (Suc n) = safe_tree (dispatch_fold n) (dispatch_safe n)"

definition fold_safe :: "expr \<Rightarrow> bool" where
  "fold_safe e = dispatch_safe (bxor_count e) e"

lemma step_okE: "step_ok \<rho> n v r \<Longrightarrow> (\<And>e k. r = Some (e, k) \<Longrightarrow> pair_ok \<rho> n v (e, k) \<Longrightarrow> P) \<Longrightarrow> P"
  by (auto simp: step_ok_def)

lemma fold_tree_ok:
  assumes re: "\<And>z w. wt z \<Longrightarrow> rs z \<Longrightarrow> eval \<rho> z = Some w \<Longrightarrow> step_ok \<rho> z w (rf z)"
  shows "wt e \<Longrightarrow> safe_tree rf rs e \<Longrightarrow> eval \<rho> e = Some v \<Longrightarrow> step_ok \<rho> e v (fold_tree rf e)"
proof (induction e arbitrary: v)
  case (ELeaf op p n)
  then show ?case by (auto simp: FoldBase_def intro!: step_okI result_ok)
next
  case (EConst p c)
  then show ?case by (auto simp: FoldBase_def intro!: step_okI result_ok)
next
  case (EUnary op p x)
  obtain a where a: "eval \<rho> x = Some a" using EUnary.prems(3) by (auto simp: bind_eq_Some_conv)
  have "step_ok \<rho> x a (fold_tree rf x)" using EUnary a by simp
  then obtain e k where e: "fold_tree rf x = Some (e, k)" "pair_ok \<rho> x a (e, k)" by (rule step_okE)
  from FoldUnary_ok [OF EUnary.prems(1,3) a e(2)] show ?case by (auto simp: e(1) step_ok_def)
next
  case (EBinary op p x y)
  obtain a b where a: "eval \<rho> x = Some a" "eval \<rho> y = Some b" using EBinary.prems(3) by (auto simp: bind_eq_Some_conv)
  have "step_ok \<rho> x a (fold_tree rf x)" "step_ok \<rho> y b (fold_tree rf y)" using EBinary a by simp_all
  then obtain l k r j where e: "fold_tree rf x = Some (l, k)" "pair_ok \<rho> x a (l, k)"
    "fold_tree rf y = Some (r, j)" "pair_ok \<rho> y b (r, j)" by (elim step_okE)
  have s: "binary_safe op p (l, k) (r, j)"
    "op = OP_bxor \<Longrightarrow> l = ETypeCvt cop cp cq base \<Longrightarrow> GetPrimType base = PTY_u1 \<Longrightarrow> rs base" for cop cp cq base
    using EBinary.prems(2) by (auto simp: node_safe_def e(1,3))
  have "step_ok \<rho> (EBinary op p x y) v (FoldBinary rf op p x y (l, k) (r, j))"
    by (rule FoldBinary_ok [OF EBinary.prems(1,3) a e(2,4) s(1)]) (use re s(2) in blast)
  then show ?case by (simp add: e)
next
  case (ECompare op p q x y)
  obtain a b where a: "eval \<rho> x = Some a" "eval \<rho> y = Some b" using ECompare.prems(3) by (auto simp: bind_eq_Some_conv)
  have "step_ok \<rho> x a (fold_tree rf x)" "step_ok \<rho> y b (fold_tree rf y)" using ECompare a by simp_all
  then obtain l k r j where e: "fold_tree rf x = Some (l, k)" "pair_ok \<rho> x a (l, k)"
    "fold_tree rf y = Some (r, j)" "pair_ok \<rho> y b (r, j)" by (elim step_okE)
  have s: "compare_pairs_safe op q (l, k) (r, j)" using ECompare.prems(2) by (auto simp: node_safe_def e(1,3))
  from FoldCompare_ok [OF ECompare.prems(1,3) a e(2,4) s] show ?case by (simp add: e)
next
  case (ETypeCvt op p q x)
  obtain a where a: "eval \<rho> x = Some a" using ETypeCvt.prems(3) by (auto simp: bind_eq_Some_conv)
  have "step_ok \<rho> x a (fold_tree rf x)" using ETypeCvt a by simp
  then obtain e k where e: "fold_tree rf x = Some (e, k)" "pair_ok \<rho> x a (e, k)" by (rule step_okE)
  have s: "k = 0 \<or> \<not> widening_cvt op p q"
    using ETypeCvt.prems(2) e(2) by (auto simp: node_safe_def e(1) dest: pair_const)
  from FoldTypeCvt_ok [OF ETypeCvt.prems(1,3) a e(2) s] show ?case by (auto simp: e(1) step_ok_def)
next
  case (EExtractbits op p off sz x)
  obtain a where a: "eval \<rho> x = Some a" using EExtractbits.prems(3) by (auto simp: bind_eq_Some_conv)
  have "step_ok \<rho> x a (fold_tree rf x)" using EExtractbits a by simp
  then obtain e k where e: "fold_tree rf x = Some (e, k)" "pair_ok \<rho> x a (e, k)" by (rule step_okE)
  from FoldExtractbits_ok [OF EExtractbits.prems(1,3) a e(2)] show ?case by (auto simp: e(1) step_ok_def)
next
  case (EDepositbits p off sz x y)
  obtain a b where a: "eval \<rho> x = Some a" "eval \<rho> y = Some b" using EDepositbits.prems(3) by (auto simp: bind_eq_Some_conv)
  have "step_ok \<rho> x a (fold_tree rf x)" "step_ok \<rho> y b (fold_tree rf y)" using EDepositbits a by simp_all
  then obtain l k r j where e: "fold_tree rf x = Some (l, k)" "pair_ok \<rho> x a (l, k)"
    "fold_tree rf y = Some (r, j)" "pair_ok \<rho> y b (r, j)" by (elim step_okE)
  from FoldDepositbits_ok [OF EDepositbits.prems(1,3) a e(2,4)] show ?case by (auto simp: e(1,3) step_ok_def)
qed

lemma dispatch_fold_ok:
  "wt e \<Longrightarrow> dispatch_safe n e \<Longrightarrow> eval \<rho> e = Some v \<Longrightarrow> step_ok \<rho> e v (dispatch_fold n e)"
proof (induction n arbitrary: e v)
  case 0
  then show ?case using fold_tree_ok [of "\<lambda>_. False" \<rho> "\<lambda>_. None" e v] by simp
next
  case (Suc n)
  then show ?case using fold_tree_ok [of "dispatch_safe n" \<rho> "dispatch_fold n" e v] by simp
qed

text \<open>What \<open>Fold\<close> returns stands for the expression wherever that has a value.\<close>

lemma Fold_sim:
  assumes "wt e" "fold_safe e" "eval \<rho> e = Some v"
  shows "\<exists>r. Fold e = Some r \<and> (case r of None \<Rightarrow> True | Some e' \<Rightarrow> FoldSteps.sim \<rho> e v e')"
proof -
  have "step_ok \<rho> e v (DispatchFold e)"
    using dispatch_fold_ok [OF assms(1) _ assms(3)] assms(2) by (simp add: DispatchFold_def fold_safe_def)
  then obtain l k where l: "DispatchFold e = Some (l, k)" "pair_ok \<rho> e v (l, k)" by (rule step_okE)
  from PairToExpr_sim [OF l(2) assms(1,3)] l(1) show ?thesis by (auto simp: Fold_def)
qed

text \<open>
  C1. \<open>ConstantFold::Fold\<close> is sound. Where a well-typed expression has a value and no folding step
  takes a branch that loses information, folding does not fail (no failed check, no undefined
  operation, no \<open>NegateTree\<close> of a constant), and a replacement it returns is well typed, has the
  width of the original and the same value on that width, in every environment.
\<close>

theorem Fold_sound:
  assumes "wt e" "fold_safe e" "eval \<rho> e = Some v"
  shows "\<exists>r. Fold e = Some r \<and> (\<forall>e'. r = Some e' \<longrightarrow> wt e' \<and> esize e' = esize e \<and>
     (\<exists>w. eval \<rho> e' = Some w \<and> take_bit (ebits e) w = take_bit (ebits e) v))"
  using Fold_sim [OF assms] by (auto elim!: simE dest: same_valueD(1) split: option.splits)


text \<open>The theorem at \<open>(x + 5) - (y - 3)\<close>, which folds to \<open>(x - y) + 8\<close>.\<close>

lemma Fold_sound_witness:
  "let e = EBinary OP_sub PTY_i32
       (EBinary OP_add PTY_i32 (ELeaf OP_dread PTY_i32 0) (EConst PTY_i32 \<lparr>ic_type = PTY_i32, ic_value = 5\<rparr>))
       (EBinary OP_sub PTY_i32 (ELeaf OP_dread PTY_i32 1) (EConst PTY_i32 \<lparr>ic_type = PTY_i32, ic_value = 3\<rparr>))
   in \<exists>r. Fold e = Some r \<and> (\<forall>e'. r = Some e' \<longrightarrow> wt e' \<and> esize e' = esize e \<and>
     (\<exists>w. eval (\<lambda>n. of_nat (n * 10)) e' = Some w \<and> take_bit (ebits e) w = take_bit (ebits e) (- 2)))"
  unfolding Let_def by (rule Fold_sound; code_simp)

text \<open>
  The side condition holds for every expression without \<open>&&\<close>, \<open>||\<close>, \<open>bxor\<close> and widening conversions
  of a signed type, whose orderings are on signed types.
\<close>

primrec plain :: "expr \<Rightarrow> bool" where
  "plain (ELeaf op p n) = True"
| "plain (EConst p c) = True"
| "plain (EUnary op p e) = plain e"
| "plain (EBinary op p l r) = (plain l \<and> plain r \<and> op \<notin> logic_ops \<and> op \<noteq> OP_bxor)"
| "plain (ECompare op p q l r) = (plain l \<and> plain r \<and> (op \<in> {OP_gt, OP_lt} \<longrightarrow> IsSignedInteger q))"
| "plain (ETypeCvt op p q e) = (plain e \<and> \<not> widening_cvt op p q)"
| "plain (EExtractbits op p off sz e) = plain e"
| "plain (EDepositbits p off sz l r) = (plain l \<and> plain r)"

lemma plain_safe_tree: "plain e \<Longrightarrow> safe_tree rf rs e"
proof (induction e)
  case (EBinary op p x y)
  then have "op \<noteq> OP_lior" "op \<noteq> OP_cior" "op \<noteq> OP_land" "op \<noteq> OP_cand" "op \<noteq> OP_bxor"
    by (auto simp: logic_ops_def)
  with EBinary show ?case
    by (auto simp: node_safe_def binary_safe_def split: option.split)
qed (auto simp: node_safe_def compare_pairs_safe_def split: option.split)

lemma plain_fold_safe: "plain e \<Longrightarrow> fold_safe e"
  unfolding fold_safe_def by (cases "bxor_count e") (simp_all add: plain_safe_tree)

text \<open>
  C24. On arithmetic the condition on the steps can be read off the expression. Take a well-typed
  expression without \<open>&&\<close>, \<open>||\<close>, \<open>bxor\<close> and widening conversions of a signed type, whose \<open>gt\<close> and
  \<open>lt\<close> compare at signed types (\<open>plain\<close>), and that has a value in some environment. Folding does not fail
  on it, and a replacement is well typed, has the width of the original, and has the same value on that
  width in every environment in which the original has one.
\<close>

theorem Fold_sound_plain:
  assumes "wt e" "plain e" "eval \<sigma> e \<noteq> None"
  shows "\<exists>r. Fold e = Some r \<and> (\<forall>e'. r = Some e' \<longrightarrow> wt e' \<and> esize e' = esize e \<and>
     (\<forall>\<rho> v. eval \<rho> e = Some v \<longrightarrow> (\<exists>w. eval \<rho> e' = Some w \<and> take_bit (ebits e) w = take_bit (ebits e) v)))"
proof -
  note sim = Fold_sim [OF assms(1) plain_fold_safe [OF assms(2)]]
  from assms(3) obtain v0 where "eval \<sigma> e = Some v0" by blast
  from sim [OF this] obtain r where r: "Fold e = Some r" "case r of None \<Rightarrow> True | Some e' \<Rightarrow> FoldSteps.sim \<sigma> e v0 e'" by blast
  have "\<exists>w. eval \<rho> e' = Some w \<and> take_bit (ebits e) w = take_bit (ebits e) v" if "r = Some e'" "eval \<rho> e = Some v" for \<rho> v e'
    using sim [OF that(2)] r(1) that(1) by (auto elim!: simE dest: same_valueD(1))
  then show ?thesis using r by (auto elim!: simE)
qed

text \<open>\<open>3 * (x + 7)\<close> at \<open>u64\<close> becomes \<open>3 * x + 21\<close>, for every \<open>x\<close>.\<close>

lemma Fold_sound_plain_witness:
  "let e = EBinary OP_mul PTY_u64 (EConst PTY_u64 \<lparr>ic_type = PTY_u64, ic_value = 3\<rparr>)
       (EBinary OP_add PTY_u64 (ELeaf OP_dread PTY_u64 0) (EConst PTY_u64 \<lparr>ic_type = PTY_u64, ic_value = 7\<rparr>))
   in \<exists>r. Fold e = Some r \<and> (\<forall>e'. r = Some e' \<longrightarrow> wt e' \<and> esize e' = esize e \<and>
     (\<forall>\<rho> v. eval \<rho> e = Some v \<longrightarrow> (\<exists>w. eval \<rho> e' = Some w \<and> take_bit (ebits e) w = take_bit (ebits e) v)))"
  unfolding Let_def by (rule Fold_sound_plain [where \<sigma> = "\<lambda>_. 5"]; code_simp)

end
