(* ===== verification/FoldFuel.thy ===== *)
theory FoldFuel
  imports FoldSound
begin

text \<open>
  The fuel of the dispatcher: folding never increases the number of \<open>bxor\<close> nodes, and the
  re-dispatch in \<open>FoldBinary\<close> is on an expression with fewer of them, so the fuel that
  \<open>DispatchFold\<close> starts with is never used up.
\<close>

lemma bxor_PairToExpr: "PairToExpr p (e, k) = Some e' \<Longrightarrow> bxor_count e' = bxor_count e"
  unfolding PairToExpr_def
  by (cases e) (auto simp: bind_eq_Some_conv CreateIntConst_def split: if_splits opcode.splits)

lemma bxor_NegateTree: "NegateTree e = Some e' \<Longrightarrow> bxor_count e' = bxor_count e"
  by (cases e) (auto simp: NegateTree_def Negate_unary_def Negate_base_def split: opcode.splits)

lemma bxor_consts:
  "CreateIntConst v p = Some e \<Longrightarrow> bxor_count e = 0"
  "FoldConstUnary op p c = Some e \<Longrightarrow> bxor_count e = 0"
  "FoldConstBinary op p c d = Some e \<Longrightarrow> bxor_count e = 0"
  "FoldConstComparison op p q c d = Some e \<Longrightarrow> bxor_count e = 0"
  "FoldTypeCvt_const c p q = Some (Some e) \<Longrightarrow> bxor_count e = 0"
  "FoldSignExtend op p sz c = Some e \<Longrightarrow> bxor_count e = 0"
  by (auto simp: CreateIntConst_def FoldConstUnary_def FoldIntConstUnary_def FoldConstBinary_def
    FoldConstComparison_def FoldTypeCvt_const_def FoldSignExtend_def Let_def bind_eq_Some_conv
    split: if_splits option.splits)

lemma bxor_as_type [simp]: "bxor_count (as_type p e) = bxor_count e"
  by (simp add: as_type_def)

lemma bxor_ne_zero: "ne_zero p r = Some e \<Longrightarrow> bxor_count e = bxor_count r"
  by (auto simp: ne_zero_def bind_eq_Some_conv dest: bxor_consts)

lemma bxor_FoldUnary: "FoldUnary op p x (e, k) = Some (e', k') \<Longrightarrow> bxor_count e' \<le> bxor_count e"
  by (auto simp: FoldUnary_def bind_eq_Some_conv dest: bxor_consts bxor_NegateTree bxor_PairToExpr
    split: option.splits if_splits)

lemma bxor_cvt_rest: "cvt_rest op p q x (e, k) = Some (e', k') \<Longrightarrow> bxor_count e' \<le> bxor_count e"
  by (auto simp: cvt_rest_def bind_eq_Some_conv dest: bxor_PairToExpr)

lemma bxor_FoldTypeCvt: "FoldTypeCvt op p q x (e, k) = Some (e', k') \<Longrightarrow> bxor_count e' \<le> bxor_count e"
  by (auto simp: FoldTypeCvt_def bind_eq_Some_conv dest: bxor_consts bxor_cvt_rest
    split: option.splits if_splits)

lemma bxor_FoldExtractbits:
  "FoldExtractbits op p off sz x (e, k) = Some (e', k') \<Longrightarrow> bxor_count e' \<le> bxor_count e"
  by (auto simp: FoldExtractbits_def bind_eq_Some_conv dest: bxor_consts bxor_PairToExpr
    split: option.splits bool.splits)

lemma bxor_FoldDepositbits:
  "FoldDepositbits p off sz x y (e, k) (f, j) = Some (e', k') \<Longrightarrow> bxor_count e' \<le> bxor_count e + bxor_count f"
  by (auto simp: FoldDepositbits_def bind_eq_Some_conv dest: bxor_consts dest!: bxor_PairToExpr
    split: option.splits)

lemma bxor_strip: "strip_cvt b e = Some e' \<Longrightarrow> bxor_count e' \<le> bxor_count e"
  by (induction e) (auto split: if_splits)

lemma bxor_Simplify: "bxor_count (SimplifyDoubleCompare op p q l r) \<le> bxor_count l + bxor_count r"
  unfolding SimplifyDoubleCompare_def Let_def
  by (cases l; cases r) (auto split: option.split dest: bxor_strip)

lemma bxor_FoldCompare:
  assumes "FoldCompare op p q x y (e, k) (f, j) = Some (e', k')"
  shows "bxor_count e' \<le> bxor_count e + bxor_count f"
proof -
  have v: "FoldConstComparisonReverse op p q l r = Some e'' \<Longrightarrow> bxor_count e'' = bxor_count l + bxor_count r" for l r e''
    by (cases op) (auto simp: FoldConstComparisonReverse_def)
  show ?thesis using assms unfolding FoldCompare_def
    by (auto simp: bind_eq_Some_conv dest: bxor_consts dest!: v bxor_PairToExpr
      intro: order.trans [OF bxor_Simplify] split: option.splits if_splits prod.splits)
qed

lemma bxor_fold_both_const: "fold_both_const op p e f c d = Some (e', k') \<Longrightarrow>
    bxor_count e' \<le> (if op = OP_bxor then 1 else 0) + bxor_count e + bxor_count f"
  by (auto simp: fold_both_const_def bind_eq_Some_conv dest: bxor_consts split: if_splits)

lemma bxor_fold_left_const: "fold_left_const op p e y c (f, j) = Some (e', k') \<Longrightarrow>
    bxor_count e' \<le> (if op = OP_bxor then 1 else 0) + bxor_count e + bxor_count f"
  by (auto simp: fold_left_const_def Let_def bind_eq_Some_conv dest: bxor_consts dest!: bxor_NegateTree bxor_PairToExpr bxor_ne_zero
    split: if_splits)

definition bxor_decreasing :: "(expr \<Rightarrow> (expr \<times> i64) option) \<Rightarrow> bool" where
  "bxor_decreasing rf = (\<forall>z r j. rf z = Some (r, j) \<longrightarrow> bxor_count r \<le> bxor_count z)"

lemma bxor_fold_bxor_one:
  assumes "bxor_decreasing rf" "fold_bxor_one rf p x (e, k) r = Some e'"
  shows "bxor_count e' \<le> 1 + bxor_count e + bxor_count r"
proof -
  have d: "rf z = Some (z', i) \<Longrightarrow> bxor_count z' \<le> bxor_count z" for z z' i
    using assms(1) by (auto simp: bxor_decreasing_def)
  show ?thesis using assms(2) unfolding fold_bxor_one_def
    by (cases e) (auto simp: bind_eq_Some_conv dest!: bxor_consts(1) bxor_PairToExpr dest: d
      intro: trans_le_add1 split: if_splits)
qed

lemma bxor_fold_right_const:
  assumes "bxor_decreasing rf" "fold_right_const rf op p x f c (e, k) = Some (e', k')"
  shows "bxor_count e' \<le> (if op = OP_bxor then 1 else 0) + bxor_count e + bxor_count f"
  using assms(2) unfolding fold_right_const_def Let_def
  by (cases op) (auto simp: bind_eq_Some_conv
    dest!: bxor_consts(1) bxor_PairToExpr bxor_fold_bxor_one [OF assms(1)] split: if_split_asm)

lemma bxor_FoldBinary:
  assumes "bxor_decreasing rf" "FoldBinary rf op p x y (e, k) (f, j) = Some (e', k')"
  shows "bxor_count e' \<le> (if op = OP_bxor then 1 else 0) + bxor_count e + bxor_count f"
  using assms(2) unfolding FoldBinary_def
  by (auto simp: bind_eq_Some_conv dest!: bxor_PairToExpr
    dest: bxor_fold_both_const bxor_fold_left_const bxor_fold_right_const [OF assms(1)]
    split: option.splits if_splits)

lemma bxor_fold_tree:
  assumes "bxor_decreasing rf"
  shows "fold_tree rf e = Some (e', k) \<Longrightarrow> bxor_count e' \<le> bxor_count e"
proof (induction e arbitrary: e' k)
  case (EUnary op p x)
  then show ?case by (auto simp: bind_eq_Some_conv dest!: bxor_FoldUnary dest: order.trans)
next
  case (EBinary op p x y)
  then show ?case by (fastforce simp: bind_eq_Some_conv dest!: bxor_FoldBinary [OF assms])
next
  case (ECompare op p q x y)
  then show ?case by (fastforce simp: bind_eq_Some_conv dest!: bxor_FoldCompare)
next
  case (ETypeCvt op p q x)
  then show ?case by (auto simp: bind_eq_Some_conv dest!: bxor_FoldTypeCvt dest: order.trans)
next
  case (EExtractbits op p off sz x)
  then show ?case by (auto simp: bind_eq_Some_conv dest!: bxor_FoldExtractbits dest: order.trans)
next
  case (EDepositbits p off sz x y)
  then show ?case by (fastforce simp: bind_eq_Some_conv dest!: bxor_FoldDepositbits)
qed (auto simp: FoldBase_def)

lemma bxor_decreasing_dispatch: "bxor_decreasing (dispatch_fold n)"
proof (induction n)
  case 0
  have "bxor_decreasing (\<lambda>_. None)" by (simp add: bxor_decreasing_def)
  from bxor_fold_tree [OF this] show ?case unfolding bxor_decreasing_def dispatch_fold.simps by blast
next
  case (Suc n)
  from bxor_fold_tree [OF Suc] show ?case unfolding bxor_decreasing_def dispatch_fold.simps by blast
qed

lemma FoldBinary_cong:
  assumes "\<And>cp cq base. op = OP_bxor \<Longrightarrow> fst lp = ETypeCvt OP_cvt cp cq base \<Longrightarrow> rf base = rf' base"
  shows "FoldBinary rf op p x y lp rp = FoldBinary rf' op p x y lp rp"
proof -
  have "fold_bxor_one rf p x lp r = fold_bxor_one rf' p x lp r" if "op = OP_bxor" for r
    using assms that by (cases "fst lp") (auto simp: fold_bxor_one_def intro!: Option.bind_cong)
  then have e: "fold_right_const rf op p x r c lp = fold_right_const rf' op p x r c lp" for r c
    by (cases lp; cases "op = OP_bxor") (simp_all add: fold_right_const_def Let_def)
  show ?thesis by (simp only: FoldBinary_def e)
qed

lemma fold_tree_cong:
  assumes "bxor_decreasing rf" "\<And>z. bxor_count z < m \<Longrightarrow> rf z = rf' z"
  shows "bxor_count e \<le> m \<Longrightarrow> fold_tree rf e = fold_tree rf' e"
proof (induction e)
  case (EBinary op p x y)
  have xy: "fold_tree rf x = fold_tree rf' x" "fold_tree rf y = fold_tree rf' y" using EBinary by auto
  have "FoldBinary rf op p x y (l, k) b = FoldBinary rf' op p x y (l, k) b" if "fold_tree rf x = Some (l, k)" for l k b
  proof (rule FoldBinary_cong)
    fix cp cq base assume "op = OP_bxor" "fst (l, k) = ETypeCvt OP_cvt cp cq base"
    then have "bxor_count base < m" using bxor_fold_tree [OF assms(1) that] EBinary.prems by simp
    then show "rf base = rf' base" by (rule assms(2))
  qed
  then show ?case by (auto simp: xy [symmetric] intro!: Option.bind_cong)
qed auto

text \<open>
  The folder with fuel, where \<open>rf0\<close> answers the re-dispatch that comes when the fuel is used up:
  \<open>dispatch_fold\<close> is the case where that answer is \<open>None\<close>.
\<close>

primrec dispatch_from :: "(expr \<Rightarrow> (expr \<times> i64) option) \<Rightarrow> nat \<Rightarrow> expr \<Rightarrow> (expr \<times> i64) option" where
  "dispatch_from rf0 0 = fold_tree rf0"
| "dispatch_from rf0 (Suc n) = fold_tree (dispatch_from rf0 n)"

lemma dispatch_from_None: "dispatch_fold n = dispatch_from (\<lambda>_. None) n"
  by (induction n) simp_all

lemma dispatch_from_enough: "bxor_count e \<le> n \<Longrightarrow> dispatch_from rf0 n e = dispatch_fold (bxor_count e) e"
proof (induction "bxor_count e" arbitrary: e n rf0 rule: less_induct)
  case less
  define g where "g = (case bxor_count e of 0 \<Rightarrow> (\<lambda>_. None) | Suc m \<Rightarrow> dispatch_fold m)"
  define h where "h = (case n of 0 \<Rightarrow> rf0 | Suc n' \<Rightarrow> dispatch_from rf0 n')"
  have g: "dispatch_fold (bxor_count e) e = fold_tree g e" by (simp add: g_def split: nat.split)
  have h: "dispatch_from rf0 n e = fold_tree h e" by (simp add: h_def split: nat.split)
  have "bxor_decreasing g"
    unfolding g_def by (auto simp: bxor_decreasing_dispatch split: nat.split) (simp add: bxor_decreasing_def)
  moreover have "g z = h z" if z: "bxor_count z < bxor_count e" for z
  proof -
    obtain m n' where m: "bxor_count e = Suc m" "n = Suc n'"
      using z less.prems by (cases "bxor_count e"; cases n) auto
    have "h z = dispatch_fold (bxor_count z) z" unfolding h_def m(2) nat.case by (rule less.hyps) (use z less.prems m in auto)
    also have "\<dots> = g z" unfolding g_def m(1) nat.case dispatch_from_None [of m]
      by (rule less.hyps [symmetric]) (use z m in auto)
    finally show ?thesis ..
  qed
  ultimately show ?case unfolding g h by (intro fold_tree_cong [symmetric, where m = "bxor_count e"]) auto
qed

text \<open>
  C25. The recursion of \<open>DispatchFold\<close>, which folds an operand again from inside \<open>FoldBinary\<close>, ends.
  A node with \<open>n\<close> \<open>bxor\<close> nodes is folded with at most \<open>n\<close> nested re-dispatches, whatever a further one
  would answer (\<open>rf0\<close>): none is reached. So the equation the code states, a fold of the tree in which the
  re-dispatch is the folder itself, has one solution, and that is \<open>DispatchFold\<close>.
\<close>

theorem DispatchFold_terminates:
  "dispatch_from rf0 (bxor_count e + n) e = DispatchFold e \<and> (f = fold_tree f \<longleftrightarrow> f = DispatchFold)"
proof (intro conjI iffI)
  have enough: "dispatch_from b (bxor_count z + k) z = DispatchFold z" for b k z
    by (simp add: dispatch_from_enough DispatchFold_def)
  show "dispatch_from rf0 (bxor_count e + n) e = DispatchFold e" by (rule enough)
  have from_f: "dispatch_from f k = f" if "f = fold_tree f" for k
    by (induction k) (simp_all add: that [symmetric])
  show "f = DispatchFold" if "f = fold_tree f"
    using enough [of f _ 0] from_f [OF that] by (auto simp: fun_eq_iff)
  show "f = fold_tree f" if "f = DispatchFold"
  proof (rule ext)
    fix z
    have dec: "bxor_decreasing DispatchFold"
      using bxor_decreasing_dispatch unfolding bxor_decreasing_def DispatchFold_def by blast
    have "f z = fold_tree (dispatch_fold (bxor_count z)) z"
      using enough [of "\<lambda>_. None" z 1] that by (simp add: dispatch_from_None [symmetric])
    also have "\<dots> = fold_tree DispatchFold z"
      using fold_tree_cong [OF dec, of "bxor_count z" "dispatch_fold (bxor_count z)" z]
        dispatch_from_enough [of _ "bxor_count z" "\<lambda>_. None"]
      by (simp add: dispatch_from_None [symmetric] DispatchFold_def)
    finally show "f z = fold_tree f z" using that by simp
  qed
qed

end
