(* ===== verification/FoldFindings.thy ===== *)
theory FoldFindings
  imports FoldSound
begin

text \<open>
  The branches of the folder that change the value of an expression. Each theorem gives a
  well-typed expression, the replacement that \<open>Fold\<close> computes for it, and an environment in which
  the two have different values.
\<close>

definition changes_value :: "expr \<Rightarrow> expr \<Rightarrow> (nat \<Rightarrow> i64) \<Rightarrow> bool" where
  "changes_value e e' \<rho> =
     (wt e \<and> Fold e = Some (Some e') \<and>
      (case (eval \<rho> e, eval \<rho> e') of
         (Some v, Some w) \<Rightarrow> take_bit (ebits e) w \<noteq> take_bit (ebits e) v
       | _ \<Rightarrow> False))"

definition int_const :: "prim_type \<Rightarrow> i64 \<Rightarrow> expr" where
  "int_const p v = EConst p \<lparr>ic_type = p, ic_value = v\<rparr>"

definition var :: "prim_type \<Rightarrow> expr" where
  "var p = ELeaf OP_dread p 0"

text \<open>
  A pending sum is moved out of a widening conversion, although the narrow addition may
  wrap: \<open>cvt i64 i32 (x + 5)\<close> becomes \<open>(cvt i64 i32 x) + 5\<close>, different at the largest \<open>i32\<close>.
\<close>

lemma widening_cvt_moves_sum:
  "changes_value
     (ETypeCvt OP_cvt PTY_i64 PTY_i32 (EBinary OP_add PTY_i32 (var PTY_i32) (int_const PTY_i32 5)))
     (EBinary OP_add PTY_i64 (ETypeCvt OP_cvt PTY_i64 PTY_i32 (var PTY_i32)) (int_const PTY_i64 5))
     (\<lambda>_. 2147483647)"
  by code_simp

text \<open>
  \<open>bxor\<close> with 1 of a converted truth value drops the pending sum of the operand:
  \<open>((cvt i32 u1 b) + 5) ^ 1\<close> becomes \<open>cvt i32 u1 (b ^ 1)\<close>.
\<close>

lemma bxor_one_drops_sum:
  "changes_value
     (EBinary OP_bxor PTY_i32 (EBinary OP_add PTY_i32 (ETypeCvt OP_cvt PTY_i32 PTY_u1 (var PTY_u1))
         (int_const PTY_i32 5)) (int_const PTY_i32 1))
     (ETypeCvt OP_cvt PTY_i32 PTY_u1 (EBinary OP_bxor PTY_u1 (var PTY_u1) (int_const PTY_u1 1)))
     (\<lambda>_. 0)"
  by code_simp

text \<open>
  \<open>0 || (x + 5)\<close> becomes \<open>x != 0\<close>: the pending sum of the right operand is dropped.
\<close>

lemma lior_zero_drops_sum:
  "changes_value
     (EBinary OP_lior PTY_u1 (int_const PTY_i32 0) (EBinary OP_add PTY_i32 (var PTY_i32) (int_const PTY_i32 5)))
     (ECompare OP_ne PTY_u1 PTY_i32 (var PTY_i32) (int_const PTY_i32 0))
     (\<lambda>_. 0)"
  by code_simp

text \<open>
  \<open>x || 0\<close> becomes \<open>x\<close>, which is 7 and not 1 when \<open>x\<close> is 7.
\<close>

lemma lior_zero_returns_operand:
  "changes_value
     (EBinary OP_lior PTY_i32 (var PTY_i32) (int_const PTY_i32 0))
     (var PTY_i32)
     (\<lambda>_. 7)"
  by code_simp

text \<open>
  A three-way comparison whose result is tested with an unsigned \<open>gt 0\<close> (true for \<open>-1\<close>)
  becomes the signed comparison of its operands.
\<close>

lemma unsigned_gt_of_cmp:
  "changes_value
     (ECompare OP_gt PTY_u1 PTY_u32 (ECompare OP_cmp PTY_i32 PTY_i32 (var PTY_i32) (int_const PTY_i32 3))
         (int_const PTY_u32 0))
     (ECompare OP_gt PTY_u1 PTY_i32 (var PTY_i32) (int_const PTY_i32 3))
     (\<lambda>_. 1)"
  by code_simp

end
