(* ===== verification/Stmt.thy ===== *)
theory Stmt
  imports IRExpr
begin

text \<open>
  Statements of Maple IR (the \<open>StmtNode\<close> classes of maple_ir/include/mir_nodes.h that the
  modelled lowerings handle) and what they mean. A statement list is a \<open>BlockNode\<close>. Labels are
  label indices, \<open>nat\<close>; a variable or register is the storage cell that \<open>ELeaf\<close> nodes read, and an
  assignment stores the value in the canonical form of the type it names.

  \<open>exec_by ev\<close> is the meaning of structured statements, with the outcome of leaving the statement:
  falling through, jumping to a label, or returning; \<open>step_by ev\<close> and \<open>runs_by ev\<close> are the meaning of
  flat code, a statement list whose branches go to the labels in it. The meaning \<open>ev\<close> of expressions
  is a parameter. \<open>exec\<close> and \<open>runs\<close> take \<open>eval\<close>, where every operand has to have a value; theory
  ShortCircuit has the language's own \<open>seval\<close>, where \<open>cand\<close> and \<open>cior\<close> leave their second operand
  alone when the first decides.
\<close>

section \<open>Statements\<close>

datatype branch_op = OP_brtrue | OP_brfalse

datatype stmt =
    SAssign bool nat prim_type expr  \<comment> \<open>\<open>regassign\<close> or \<open>dassign\<close>, cell, type, value\<close>
  | SEval expr
  | SGoto nat
  | SCondGoto branch_op expr nat
  | SRangeGoto expr i64 "(u32 \<times> nat) list"  \<comment> \<open>operand, tag offset, table\<close>
  | SSwitch expr nat "(i64 \<times> nat) list"  \<comment> \<open>operand, default label, table\<close>
  | SLabel nat
  | SReturn
  | SIf expr "stmt list" "stmt list option"
  | SWhile expr "stmt list"
  | SDoWhile "stmt list" expr
  | SDoloop bool nat prim_type expr expr expr "stmt list"  \<comment> \<open>start, condition, increment, body\<close>
  | SBlock "stmt list"

type_synonym env = "nat \<Rightarrow> i64"

datatype outcome = Normal | Jump nat | Returned

abbreviation else_part :: "stmt list option \<Rightarrow> stmt list" where
  "else_part e \<equiv> (case e of None \<Rightarrow> [] | Some b \<Rightarrow> b)"

section \<open>What a table transfers to\<close>

definition taken :: "branch_op \<Rightarrow> i64 \<Rightarrow> bool" where
  "taken br v = (case br of OP_brtrue \<Rightarrow> v \<noteq> 0 | OP_brfalse \<Rightarrow> v = 0)"

definition range_target :: "i64 \<Rightarrow> (u32 \<times> nat) list \<Rightarrow> i64 \<Rightarrow> nat option" where
  "range_target off tbl v = map_of (map (\<lambda>(k, l). (ucast k :: i64, l)) tbl) (v - off)"

definition switch_target :: "nat \<Rightarrow> (i64 \<times> nat) list \<Rightarrow> i64 \<Rightarrow> nat" where
  "switch_target d tbl v = (case map_of tbl v of Some l \<Rightarrow> l | None \<Rightarrow> d)"

section \<open>Structured execution\<close>

text \<open>The add at the end of a \<open>doloop\<close> body.\<close>

definition doloop_incr :: "bool \<Rightarrow> nat \<Rightarrow> prim_type \<Rightarrow> expr \<Rightarrow> expr" where
  "doloop_incr preg x p incr =
     EBinary OP_add p incr (ELeaf (if preg then OP_regread else OP_dread) p x)"

inductive exec_by :: "(env \<Rightarrow> expr \<Rightarrow> i64 option) \<Rightarrow> stmt \<Rightarrow> env \<Rightarrow> outcome \<Rightarrow> env \<Rightarrow> bool"
  and execs_by :: "(env \<Rightarrow> expr \<Rightarrow> i64 option) \<Rightarrow> stmt list \<Rightarrow> env \<Rightarrow> outcome \<Rightarrow> env \<Rightarrow> bool"
  for ev where
  Assign: "ev \<rho> e = Some v \<Longrightarrow> exec_by ev (SAssign r x p e) \<rho> Normal (\<rho>(x := norm p v))"
| Eval: "ev \<rho> e = Some v \<Longrightarrow> exec_by ev (SEval e) \<rho> Normal \<rho>"
| Goto: "exec_by ev (SGoto l) \<rho> (Jump l) \<rho>"
| CondTaken: "ev \<rho> c = Some v \<Longrightarrow> taken br v \<Longrightarrow> exec_by ev (SCondGoto br c l) \<rho> (Jump l) \<rho>"
| CondNot: "ev \<rho> c = Some v \<Longrightarrow> \<not> taken br v \<Longrightarrow> exec_by ev (SCondGoto br c l) \<rho> Normal \<rho>"
| Range: "ev \<rho> e = Some v \<Longrightarrow> range_target off tbl v = Some l \<Longrightarrow> exec_by ev (SRangeGoto e off tbl) \<rho> (Jump l) \<rho>"
| Switch: "ev \<rho> e = Some v \<Longrightarrow> exec_by ev (SSwitch e d tbl) \<rho> (Jump (switch_target d tbl v)) \<rho>"
| Label: "exec_by ev (SLabel l) \<rho> Normal \<rho>"
| Return: "exec_by ev SReturn \<rho> Returned \<rho>"
| IfTrue: "ev \<rho> c = Some v \<Longrightarrow> v \<noteq> 0 \<Longrightarrow> execs_by ev t \<rho> out \<rho>' \<Longrightarrow> exec_by ev (SIf c t e) \<rho> out \<rho>'"
| IfFalse: "ev \<rho> c = Some 0 \<Longrightarrow> execs_by ev (else_part e) \<rho> out \<rho>' \<Longrightarrow> exec_by ev (SIf c t e) \<rho> out \<rho>'"
| WhileFalse: "ev \<rho> c = Some 0 \<Longrightarrow> exec_by ev (SWhile c b) \<rho> Normal \<rho>"
| WhileTrue: "ev \<rho> c = Some v \<Longrightarrow> v \<noteq> 0 \<Longrightarrow> execs_by ev b \<rho> Normal \<rho>' \<Longrightarrow> exec_by ev (SWhile c b) \<rho>' out \<rho>''
    \<Longrightarrow> exec_by ev (SWhile c b) \<rho> out \<rho>''"
| WhileExit: "ev \<rho> c = Some v \<Longrightarrow> v \<noteq> 0 \<Longrightarrow> execs_by ev b \<rho> out \<rho>' \<Longrightarrow> out \<noteq> Normal
    \<Longrightarrow> exec_by ev (SWhile c b) \<rho> out \<rho>'"
| DoWhileFalse: "execs_by ev b \<rho> Normal \<rho>' \<Longrightarrow> ev \<rho>' c = Some 0 \<Longrightarrow> exec_by ev (SDoWhile b c) \<rho> Normal \<rho>'"
| DoWhileTrue: "execs_by ev b \<rho> Normal \<rho>' \<Longrightarrow> ev \<rho>' c = Some v \<Longrightarrow> v \<noteq> 0 \<Longrightarrow> exec_by ev (SDoWhile b c) \<rho>' out \<rho>''
    \<Longrightarrow> exec_by ev (SDoWhile b c) \<rho> out \<rho>''"
| DoWhileExit: "execs_by ev b \<rho> out \<rho>' \<Longrightarrow> out \<noteq> Normal \<Longrightarrow> exec_by ev (SDoWhile b c) \<rho> out \<rho>'"
| Doloop: "ev \<rho> s = Some v \<Longrightarrow>
    exec_by ev (SWhile c (b @ [SAssign r x p (doloop_incr r x p i)])) (\<rho>(x := norm p v)) out \<rho>' \<Longrightarrow>
    exec_by ev (SDoloop r x p s c i b) \<rho> out \<rho>'"
| Block: "execs_by ev b \<rho> out \<rho>' \<Longrightarrow> exec_by ev (SBlock b) \<rho> out \<rho>'"
| Nil: "execs_by ev [] \<rho> Normal \<rho>"
| Cons: "exec_by ev s \<rho> Normal \<rho>' \<Longrightarrow> execs_by ev ss \<rho>' out \<rho>'' \<Longrightarrow> execs_by ev (s # ss) \<rho> out \<rho>''"
| ConsExit: "exec_by ev s \<rho> out \<rho>' \<Longrightarrow> out \<noteq> Normal \<Longrightarrow> execs_by ev (s # ss) \<rho> out \<rho>'"

abbreviation exec :: "stmt \<Rightarrow> env \<Rightarrow> outcome \<Rightarrow> env \<Rightarrow> bool" where
  "exec \<equiv> exec_by eval"

abbreviation execs :: "stmt list \<Rightarrow> env \<Rightarrow> outcome \<Rightarrow> env \<Rightarrow> bool" where
  "execs \<equiv> execs_by eval"

inductive_cases execs_ConsE [elim!]: "execs_by ev (s # ss) \<rho> out \<rho>'"
inductive_cases execs_NilE [elim!]: "execs_by ev [] \<rho> out \<rho>'"
inductive_cases exec_simpleE [elim!]:
  "exec_by ev (SAssign r x p e) \<rho> out \<rho>'" "exec_by ev (SEval e) \<rho> out \<rho>'" "exec_by ev (SGoto l) \<rho> out \<rho>'"
  "exec_by ev (SCondGoto br c l) \<rho> out \<rho>'" "exec_by ev (SRangeGoto e off tbl) \<rho> out \<rho>'"
  "exec_by ev (SSwitch e d tbl) \<rho> out \<rho>'" "exec_by ev (SLabel l) \<rho> out \<rho>'" "exec_by ev SReturn \<rho> out \<rho>'"
  "exec_by ev (SBlock b) \<rho> out \<rho>'"
inductive_cases exec_IfE: "exec_by ev (SIf c t e) \<rho> out \<rho>'"
inductive_cases exec_WhileE: "exec_by ev (SWhile c b) \<rho> out \<rho>'"
inductive_cases exec_DoWhileE: "exec_by ev (SDoWhile b c) \<rho> out \<rho>'"
inductive_cases exec_DoloopE: "exec_by ev (SDoloop r x p s c i b) \<rho> out \<rho>'"

lemma execs_append:
  "execs_by ev (as @ bs) \<rho> out \<rho>' \<longleftrightarrow>
   (\<exists>\<rho>1. execs_by ev as \<rho> Normal \<rho>1 \<and> execs_by ev bs \<rho>1 out \<rho>') \<or> (execs_by ev as \<rho> out \<rho>' \<and> out \<noteq> Normal)"
proof (induction as arbitrary: \<rho>)
  case Nil
  then show ?case by (auto intro: exec_by_execs_by.intros)
next
  case (Cons s as)
  show ?case
    using Cons.IH by (auto intro: exec_by_execs_by.intros; blast intro: exec_by_execs_by.intros)
qed

text \<open>Execution is deterministic: a statement has at most one outcome.\<close>

lemma exec_det_aux:
  "exec_by ev s \<rho> out \<rho>' \<Longrightarrow> \<forall>out2 \<rho>2. exec_by ev s \<rho> out2 \<rho>2 \<longrightarrow> out2 = out \<and> \<rho>2 = \<rho>'"
  "execs_by ev ss \<rho> out \<rho>' \<Longrightarrow> \<forall>out2 \<rho>2. execs_by ev ss \<rho> out2 \<rho>2 \<longrightarrow> out2 = out \<and> \<rho>2 = \<rho>'"
proof (induction rule: exec_by_execs_by.inducts)
  case IfTrue then show ?case by - (intro allI impI, rotate_tac -1, erule exec_IfE; metis option.inject)
next
  case IfFalse then show ?case by - (intro allI impI, rotate_tac -1, erule exec_IfE; metis option.inject)
next
  case WhileFalse then show ?case by - (intro allI impI, rotate_tac -1, erule exec_WhileE; metis option.inject)
next
  case WhileTrue then show ?case by - (intro allI impI, rotate_tac -1, erule exec_WhileE; metis option.inject)
next
  case WhileExit then show ?case by - (intro allI impI, rotate_tac -1, erule exec_WhileE; metis option.inject)
next
  case DoWhileFalse then show ?case by - (intro allI impI, rotate_tac -1, erule exec_DoWhileE; metis option.inject)
next
  case DoWhileTrue then show ?case by - (intro allI impI, rotate_tac -1, erule exec_DoWhileE; metis option.inject)
next
  case DoWhileExit then show ?case by - (intro allI impI, rotate_tac -1, erule exec_DoWhileE; metis option.inject)
next
  case Doloop then show ?case by - (intro allI impI, rotate_tac -1, erule exec_DoloopE; metis option.inject)
next
  case Block then show ?case by blast
next
  case Cons then show ?case by (metis execs_ConsE)
next
  case ConsExit then show ?case by (metis execs_ConsE)
qed auto

lemma exec_det:
  "exec_by ev s \<rho> out \<rho>' \<Longrightarrow> exec_by ev s \<rho> out2 \<rho>2 \<Longrightarrow> out2 = out \<and> \<rho>2 = \<rho>'"
  "execs_by ev ss \<rho> out \<rho>' \<Longrightarrow> execs_by ev ss \<rho> out2 \<rho>2 \<Longrightarrow> out2 = out \<and> \<rho>2 = \<rho>'"
  using exec_det_aux by blast+

section \<open>Flat code\<close>

fun label_pos :: "stmt list \<Rightarrow> nat \<Rightarrow> nat option" where
  "label_pos [] l = None"
| "label_pos (s # ss) l = (if s = SLabel l then Some 0 else map_option Suc (label_pos ss l))"

text \<open>Where control goes after the statement at \<open>pc\<close>: a target label, the next statement, or it returns.\<close>

fun transfer_by :: "(env \<Rightarrow> expr \<Rightarrow> i64 option) \<Rightarrow> stmt \<Rightarrow> env \<Rightarrow> (outcome \<times> env) option" where
  "transfer_by ev (SAssign r x p e) \<rho> = (case ev \<rho> e of Some v \<Rightarrow> Some (Normal, \<rho>(x := norm p v)) | None \<Rightarrow> None)"
| "transfer_by ev (SEval e) \<rho> = (case ev \<rho> e of Some v \<Rightarrow> Some (Normal, \<rho>) | None \<Rightarrow> None)"
| "transfer_by ev (SGoto l) \<rho> = Some (Jump l, \<rho>)"
| "transfer_by ev (SCondGoto br c l) \<rho> =
     (case ev \<rho> c of Some v \<Rightarrow> Some (if taken br v then Jump l else Normal, \<rho>) | None \<Rightarrow> None)"
| "transfer_by ev (SRangeGoto e off tbl) \<rho> =
     (case ev \<rho> e of
        Some v \<Rightarrow> map_option (\<lambda>l. (Jump l, \<rho>)) (range_target off tbl v)
      | None \<Rightarrow> None)"
| "transfer_by ev (SSwitch e d tbl) \<rho> =
     (case ev \<rho> e of Some v \<Rightarrow> Some (Jump (switch_target d tbl v), \<rho>) | None \<Rightarrow> None)"
| "transfer_by ev (SLabel l) \<rho> = Some (Normal, \<rho>)"
| "transfer_by ev SReturn \<rho> = Some (Returned, \<rho>)"
| "transfer_by ev _ \<rho> = None"

inductive step_by :: "(env \<Rightarrow> expr \<Rightarrow> i64 option) \<Rightarrow> stmt list \<Rightarrow> nat \<times> env \<Rightarrow> nat \<times> env \<Rightarrow> bool" for ev C where
  Next: "pc < length C \<Longrightarrow> transfer_by ev (C ! pc) \<rho> = Some (Normal, \<rho>') \<Longrightarrow> step_by ev C (pc, \<rho>) (Suc pc, \<rho>')"
| Branch: "pc < length C \<Longrightarrow> transfer_by ev (C ! pc) \<rho> = Some (Jump l, \<rho>') \<Longrightarrow> label_pos C l = Some k
    \<Longrightarrow> step_by ev C (pc, \<rho>) (k, \<rho>')"

inductive exits_by :: "(env \<Rightarrow> expr \<Rightarrow> i64 option) \<Rightarrow> stmt list \<Rightarrow> nat \<times> env \<Rightarrow> outcome \<Rightarrow> env \<Rightarrow> bool" for ev C where
  End: "pc = length C \<Longrightarrow> exits_by ev C (pc, \<rho>) Normal \<rho>"
| Out: "pc < length C \<Longrightarrow> transfer_by ev (C ! pc) \<rho> = Some (Jump l, \<rho>') \<Longrightarrow> label_pos C l = None
    \<Longrightarrow> exits_by ev C (pc, \<rho>) (Jump l) \<rho>'"
| Ret: "pc < length C \<Longrightarrow> transfer_by ev (C ! pc) \<rho> = Some (Returned, \<rho>') \<Longrightarrow> exits_by ev C (pc, \<rho>) Returned \<rho>'"

inductive_cases stepE: "step_by ev C (pc, \<rho>) c'"
inductive_cases exitsE: "exits_by ev C (pc, \<rho>) out \<rho>'"

abbreviation steps_by :: "(env \<Rightarrow> expr \<Rightarrow> i64 option) \<Rightarrow> stmt list \<Rightarrow> nat \<times> env \<Rightarrow> nat \<times> env \<Rightarrow> bool" where
  "steps_by ev C \<equiv> (step_by ev C)\<^sup>*\<^sup>*"

definition runs_by :: "(env \<Rightarrow> expr \<Rightarrow> i64 option) \<Rightarrow> stmt list \<Rightarrow> env \<Rightarrow> outcome \<Rightarrow> env \<Rightarrow> bool" where
  "runs_by ev C \<rho> out \<rho>' = (\<exists>c. steps_by ev C (0, \<rho>) c \<and> exits_by ev C c out \<rho>')"

abbreviation steps :: "stmt list \<Rightarrow> nat \<times> env \<Rightarrow> nat \<times> env \<Rightarrow> bool" where
  "steps \<equiv> steps_by eval"

abbreviation runs :: "stmt list \<Rightarrow> env \<Rightarrow> outcome \<Rightarrow> env \<Rightarrow> bool" where
  "runs \<equiv> runs_by eval"

lemma step_det: "step_by ev C c c1 \<Longrightarrow> step_by ev C c c2 \<Longrightarrow> c1 = c2"
  by (cases c) (auto elim!: stepE)

lemma step_not_exits: "step_by ev C c c1 \<Longrightarrow> \<not> exits_by ev C c out \<rho>"
  by (cases c) (auto elim!: stepE exitsE)

lemma exits_det: "exits_by ev C c out \<rho> \<Longrightarrow> exits_by ev C c out' \<rho>' \<Longrightarrow> out' = out \<and> \<rho>' = \<rho>"
  by (cases c) (auto elim!: exitsE)

lemma steps_exit_unique:
  assumes "steps_by ev C c c1" "exits_by ev C c1 out \<rho>" "steps_by ev C c c2" "exits_by ev C c2 out' \<rho>'"
  shows "c2 = c1"
  using assms(1,3)
proof (induction rule: converse_rtranclp_induct)
  case base
  then show ?case using assms(2) step_not_exits by (metis converse_rtranclpE)
next
  case (step c d)
  then have "c2 \<noteq> c" using assms(4) step_not_exits by blast
  with step.prems obtain d' where "step_by ev C c d'" "steps_by ev C d' c2" by (metis converse_rtranclpE)
  with step step_det show ?case by metis
qed

lemma runs_det: "runs_by ev C \<rho> out \<rho>1 \<Longrightarrow> runs_by ev C \<rho> out' \<rho>2 \<Longrightarrow> out' = out \<and> \<rho>2 = \<rho>1"
  unfolding runs_by_def using steps_exit_unique exits_det by metis


text \<open>Running flat code for at most \<open>k\<close> steps; \<open>None\<close> is no outcome within them.\<close>

fun run_flat :: "(env \<Rightarrow> expr \<Rightarrow> i64 option) \<Rightarrow> nat \<Rightarrow> stmt list \<Rightarrow> nat \<times> env \<Rightarrow> (outcome \<times> env) option" where
  "run_flat ev 0 C c = None"
| "run_flat ev (Suc k) C (pc, \<rho>) =
     (if pc \<ge> length C then (if pc = length C then Some (Normal, \<rho>) else None)
      else case transfer_by ev (C ! pc) \<rho> of
        None \<Rightarrow> None
      | Some (Normal, \<rho>') \<Rightarrow> run_flat ev k C (Suc pc, \<rho>')
      | Some (Returned, \<rho>') \<Rightarrow> Some (Returned, \<rho>')
      | Some (Jump l, \<rho>') \<Rightarrow>
          (case label_pos C l of None \<Rightarrow> Some (Jump l, \<rho>') | Some q \<Rightarrow> run_flat ev k C (q, \<rho>')))"

lemma run_flat_steps: "run_flat ev k C c = Some (out, \<rho>') \<Longrightarrow> \<exists>d. steps_by ev C c d \<and> exits_by ev C d out \<rho>'"
proof (induction ev k C c rule: run_flat.induct)
  case (2 ev k C pc \<rho>)
  show ?case
  proof (cases "pc < length C")
    case False
    then show ?thesis using 2(3) by (auto split: if_splits intro: exits_by.End)
  next
    case True
    then obtain o1 \<rho>1 where t: "transfer_by ev (C ! pc) \<rho> = Some (o1, \<rho>1)" using 2(3) by (auto split: option.splits)
    show ?thesis
    proof (cases o1)
      case Normal
      then have "step_by ev C (pc, \<rho>) (Suc pc, \<rho>1)" using t True by (intro step_by.Next) auto
      moreover have "\<exists>d. steps_by ev C (Suc pc, \<rho>1) d \<and> exits_by ev C d out \<rho>'"
        using 2(1) [OF _ t _ Normal] 2(3) True t Normal by auto
      ultimately show ?thesis by (meson converse_rtranclp_into_rtranclp)
    next
      case (Jump l)
      show ?thesis
      proof (cases "label_pos C l")
        case None
        then show ?thesis using 2(3) True t Jump by (auto intro: exits_by.Out)
      next
        case (Some q)
        then have "step_by ev C (pc, \<rho>) (q, \<rho>1)" using t True Jump by (intro step_by.Branch) auto
        moreover have "\<exists>d. steps_by ev C (q, \<rho>1) d \<and> exits_by ev C d out \<rho>'"
          using 2(2) [OF _ t _ Jump Some] 2(3) True t Jump Some by auto
        ultimately show ?thesis by (meson converse_rtranclp_into_rtranclp)
      qed
    next
      case Returned
      then show ?thesis using 2(3) True t by (auto intro: exits_by.Ret)
    qed
  qed
qed simp

lemma run_flat_runs: "run_flat ev k C (0, \<rho>) = Some (out, \<rho>') \<Longrightarrow> runs_by ev C \<rho> out \<rho>'"
  unfolding runs_by_def by (rule run_flat_steps)

end
