(* ===== verification/MirLower.thy ===== *)
theory MirLower
  imports Stmt
begin

text \<open>
  Lowering of structured statements to branches: \<open>MIRLower::LowerBlock\<close> and the functions it
  calls (maple_ir/src/mir_lower.cpp). \<open>CreateLabel\<close> gives the next label index, the size of the
  label table, which the functions thread. Appending a block moves its statements
  (\<open>splice\<close>). \<open>None\<close> is the dereference of a null pointer: the functions take the emptiness of
  a part again after it has been lowered, and lowering can empty a part that holds only empty
  blocks.
\<close>

section \<open>Branches around the parts of an \<open>if\<close>\<close>

definition OpCodeNoFallThrough :: "stmt \<Rightarrow> bool" where
  "OpCodeNoFallThrough s =
     (case s of SGoto l \<Rightarrow> True | SReturn \<Rightarrow> True | SSwitch e d t \<Rightarrow> True | _ \<Rightarrow> False)"

definition IfStmtNoFallThrough :: "stmt list \<Rightarrow> bool option" where
  "IfStmtNoFallThrough t = (if t = [] then None else Some (OpCodeNoFallThrough (last t)))"

text \<open>The branch, the part it guards, the label it goes to, and the next free label.\<close>

definition CreateCondGotoStmt ::
  "branch_op \<Rightarrow> nat \<Rightarrow> expr \<Rightarrow> stmt list \<Rightarrow> stmt list option \<Rightarrow> (stmt list \<times> nat \<times> nat) option" where
  "CreateCondGotoStmt op n c t e = do {
     part \<leftarrow> (if t = [] then e else Some t);
     Some (SCondGoto op c n # part, n, n + 1) }"

definition CreateBrFalseStmt ::
  "nat \<Rightarrow> expr \<Rightarrow> stmt list \<Rightarrow> stmt list option \<Rightarrow> (stmt list \<times> nat) option" where
  "CreateBrFalseStmt n c t e = do {
     (blk, l, n') \<leftarrow> CreateCondGotoStmt OP_brfalse n c t e;
     Some (blk @ [SLabel l], n') }"

definition CreateBrTrueStmt ::
  "nat \<Rightarrow> expr \<Rightarrow> stmt list \<Rightarrow> stmt list option \<Rightarrow> (stmt list \<times> nat) option" where
  "CreateBrTrueStmt n c t e = do {
     (blk, l, n') \<leftarrow> CreateCondGotoStmt OP_brtrue n c t e;
     Some (blk @ [SLabel l], n') }"

definition CreateBrFalseAndGotoStmt ::
  "nat \<Rightarrow> expr \<Rightarrow> stmt list \<Rightarrow> stmt list option \<Rightarrow> (stmt list \<times> nat) option" where
  "CreateBrFalseAndGotoStmt n c t e = do {
     (blk, l, n') \<leftarrow> CreateCondGotoStmt OP_brfalse n c t e;
     noFall \<leftarrow> IfStmtNoFallThrough t;
     els \<leftarrow> e;
     (if \<not> noFall
      then Some (blk @ [SGoto n', SLabel l] @ els @ [SLabel n'], n' + 1)
      else Some (blk @ [SLabel l] @ els, n')) }"

text \<open>\<open>LowerIfStmt\<close> after the parts have been lowered (or with \<open>recursive\<close> false).\<close>

definition lower_if ::
  "bool \<Rightarrow> bool \<Rightarrow> nat \<Rightarrow> expr \<Rightarrow> stmt list \<Rightarrow> stmt list option \<Rightarrow> (stmt list \<times> nat) option" where
  "lower_if thenEmpty elseEmpty n c t e =
     (if thenEmpty \<and> elseEmpty then Some ([SEval c], n)
      else if elseEmpty then CreateBrFalseStmt n c t e
      else if thenEmpty then CreateBrTrueStmt n c t e
      else CreateBrFalseAndGotoStmt n c t e)"

section \<open>Statements and blocks\<close>

fun LowerStmt :: "nat \<Rightarrow> stmt \<Rightarrow> (stmt list \<times> nat) option"
  and LowerBlock :: "nat \<Rightarrow> stmt list \<Rightarrow> (stmt list \<times> nat) option" where
  "LowerStmt n (SIf c t None) = do {
     (t', n1) \<leftarrow> LowerBlock n t;
     lower_if (t = []) True n1 c t' None }"
| "LowerStmt n (SIf c t (Some e)) = do {
     (t', n1) \<leftarrow> LowerBlock n t;
     (e', n2) \<leftarrow> LowerBlock n1 e;
     lower_if (t = []) (e = []) n2 c t' (Some e') }"
| "LowerStmt n (SWhile c b) = do {
     (b', n1) \<leftarrow> LowerBlock n b;
     let l = n1; body = n1 + 1 in
     Some ([SCondGoto OP_brfalse c l, SLabel body] @ b' @ [SCondGoto OP_brtrue c body, SLabel l], n1 + 2) }"
| "LowerStmt n (SDoWhile b c) = do {
     (b', n1) \<leftarrow> LowerBlock n b;
     Some ([SLabel n1] @ b' @ [SCondGoto OP_brtrue c n1], n1 + 1) }"
| "LowerStmt n (SDoloop preg x p start cond incr b) = do {
     (b', n1) \<leftarrow> LowerBlock n b;
     let l = n1; body = n1 + 1 in
     Some ([SAssign preg x p start, SCondGoto OP_brfalse cond l, SLabel body] @ b' @
           [SAssign preg x p (doloop_incr preg x p incr), SCondGoto OP_brtrue cond body, SLabel l], n1 + 2) }"
| "LowerStmt n (SBlock b) = LowerBlock n b"
| "LowerStmt n s = Some ([s], n)"
| "LowerBlock n [] = Some ([], n)"
| "LowerBlock n (s # ss) = do {
     (c, n1) \<leftarrow> LowerStmt n s;
     (cs, n2) \<leftarrow> LowerBlock n1 ss;
     Some (c @ cs, n2) }"

definition LowerIfStmt ::
  "nat \<Rightarrow> expr \<Rightarrow> stmt list \<Rightarrow> stmt list option \<Rightarrow> bool \<Rightarrow> (stmt list \<times> nat) option" where
  "LowerIfStmt n c t e recursive =
     (if recursive then LowerStmt n (SIf c t e)
      else lower_if (t = []) (else_part e = []) n c t e)"

section \<open>Labels of the lowered code\<close>

fun labels :: "stmt list \<Rightarrow> nat list" where
  "labels [] = []"
| "labels (SLabel l # ss) = l # labels ss"
| "labels (s # ss) = labels ss"

lemma labels_append [simp]: "labels (as @ bs) = labels as @ labels bs"
  by (induction as rule: labels.induct) auto

lemma label_pos_None: "label_pos C l = None \<longleftrightarrow> l \<notin> set (labels C)"
  by (induction C rule: labels.induct) auto

lemma label_pos_append:
  "l \<notin> set (labels pre) \<Longrightarrow> label_pos (pre @ SLabel l # post) l = Some (length pre)"
  by (induction pre rule: labels.induct) auto

text \<open>
  The structured source: it has no labels of its own, and its jumps go to labels below \<open>m\<close>,
  which the function had before lowering. An \<open>if\<close> part is empty or lowers to something.
\<close>

fun emits :: "stmt \<Rightarrow> bool" and emits_block :: "stmt list \<Rightarrow> bool" where
  "emits (SBlock b) = emits_block b"
| "emits s = True"
| "emits_block [] = False"
| "emits_block (s # ss) = (emits s \<or> emits_block ss)"

fun src_ok :: "nat \<Rightarrow> stmt \<Rightarrow> bool" and src_ok_block :: "nat \<Rightarrow> stmt list \<Rightarrow> bool" where
  "src_ok m (SGoto l) = (l < m)"
| "src_ok m (SCondGoto br c l) = (l < m)"
| "src_ok m (SRangeGoto e off tbl) = (\<forall>l \<in> snd ` set tbl. l < m)"
| "src_ok m (SSwitch e d tbl) = (d < m \<and> (\<forall>l \<in> snd ` set tbl. l < m))"
| "src_ok m (SLabel l) = False"
| "src_ok m (SIf c t None) = (src_ok_block m t \<and> (t = [] \<or> emits_block t))"
| "src_ok m (SIf c t (Some e)) =
     (src_ok_block m t \<and> src_ok_block m e \<and> (t = [] \<or> emits_block t))"
| "src_ok m (SWhile c b) = src_ok_block m b"
| "src_ok m (SDoWhile b c) = src_ok_block m b"
| "src_ok m (SDoloop r x p s c i b) = src_ok_block m b"
| "src_ok m (SBlock b) = src_ok_block m b"
| "src_ok m s = True"
| "src_ok_block m [] = True"
| "src_ok_block m (s # ss) = (src_ok m s \<and> src_ok_block m ss)"

end
