(* ===== verification/MirLowerSound.thy ===== *)
theory MirLowerSound
  imports MirLower
begin

text \<open>
  Correctness of the lowering of MirLower: it succeeds, the labels it makes are fresh and each at
  one place, and the lowered code simulates the structured code (rule induction on its execution).
\<close>

section \<open>Lowering succeeds, and its labels are fresh\<close>

lemma lower_if_nonempty: "lower_if te ee n c t e \<noteq> Some ([], n')"
  by (auto simp: bind_eq_Some_conv lower_if_def CreateBrFalseStmt_def CreateBrTrueStmt_def
      CreateBrFalseAndGotoStmt_def CreateCondGotoStmt_def split: if_splits)

lemma lower_emits:
  "LowerStmt n s = Some (code, n') \<Longrightarrow> emits s \<Longrightarrow> code \<noteq> []"
  "LowerBlock n ss = Some (code, n') \<Longrightarrow> emits_block ss \<Longrightarrow> code \<noteq> []"
proof (induction n s and n ss arbitrary: code n' and code n' rule: LowerStmt_LowerBlock.induct)
  case (9 n s ss)
  then obtain c n1 cs where c: "LowerStmt n s = Some (c, n1)" "LowerBlock n1 ss = Some (cs, n')" "code = c @ cs"
    by (auto simp: bind_eq_Some_conv)
  from 9(1) [OF c(1)] 9(2) [OF c(1) refl c(2)] 9(4) c(3) show ?case by auto
qed (auto simp: bind_eq_Some_conv lower_if_nonempty Let_def)

text \<open>The four shapes of a lowered \<open>if\<close>.\<close>

lemma lower_if_shapes:
  assumes "t = [] \<or> t' \<noteq> []" "t \<noteq> [] \<or> t' = []" "els \<noteq> [] \<Longrightarrow> e' \<noteq> None"
  shows "\<exists>code n'. lower_if (t = []) (els = []) n c t' e' = Some (code, n') \<and>
     (t = [] \<and> els = [] \<and> code = [SEval c] \<and> n' = n
      \<or> t \<noteq> [] \<and> els = [] \<and> code = SCondGoto OP_brfalse c n # t' @ [SLabel n] \<and> n' = n + 1
      \<or> t = [] \<and> els \<noteq> [] \<and> code = SCondGoto OP_brtrue c n # the e' @ [SLabel n] \<and> n' = n + 1
      \<or> t \<noteq> [] \<and> els \<noteq> [] \<and> OpCodeNoFallThrough (last t') \<and>
          code = SCondGoto OP_brfalse c n # t' @ [SLabel n] @ the e' \<and> n' = n + 1
      \<or> t \<noteq> [] \<and> els \<noteq> [] \<and> \<not> OpCodeNoFallThrough (last t') \<and>
          code = SCondGoto OP_brfalse c n # t' @ [SGoto (n + 1), SLabel n] @ the e' @ [SLabel (n + 1)] \<and> n' = n + 2)"
  using assms
  by (cases e') (auto simp: lower_if_def CreateBrFalseStmt_def CreateBrTrueStmt_def
      CreateBrFalseAndGotoStmt_def CreateCondGotoStmt_def IfStmtNoFallThrough_def)

lemma lower_total:
  "src_ok m s \<Longrightarrow> \<exists>code n'. LowerStmt n s = Some (code, n')"
  "src_ok_block m ss \<Longrightarrow> \<exists>code n'. LowerBlock n ss = Some (code, n')"
proof (induction n s and n ss rule: LowerStmt_LowerBlock.induct)
  case (1 n c t)
  then obtain t' n1 where t': "LowerBlock n t = Some (t', n1)" by auto
  have "t = [] \<or> t' \<noteq> []" "t \<noteq> [] \<or> t' = []" using 1 t' lower_emits(2) [OF t'] by auto
  from lower_if_shapes [OF this, of "[]" None n1 c] t' show ?case by auto
next
  case (2 n c t e)
  then obtain t' n1 where t': "LowerBlock n t = Some (t', n1)" by auto
  then obtain e' n2 where e': "LowerBlock n1 e = Some (e', n2)" using 2 by fastforce
  have "t = [] \<or> t' \<noteq> []" "t \<noteq> [] \<or> t' = []" using "2.prems" t' lower_emits(2) [OF t'] by auto
  from lower_if_shapes [OF this, of e "Some e'" n2 c] t' e' show ?case by auto
qed (fastforce simp: Let_def)+

lemma lower_labels:
  "LowerStmt n s = Some (code, n') \<Longrightarrow> src_ok m s \<Longrightarrow>
     n \<le> n' \<and> set (labels code) \<subseteq> {n..<n'} \<and> distinct (labels code)"
  "LowerBlock n ss = Some (code, n') \<Longrightarrow> src_ok_block m ss \<Longrightarrow>
     n \<le> n' \<and> set (labels code) \<subseteq> {n..<n'} \<and> distinct (labels code)"
proof (induction n s and n ss arbitrary: code n' and code n' rule: LowerStmt_LowerBlock.induct)
  case (1 n c t)
  then obtain t' n1 where t': "LowerBlock n t = Some (t', n1)" by (auto simp: bind_eq_Some_conv)
  then have L: "n \<le> n1" "set (labels t') \<subseteq> {n..<n1}" "distinct (labels t')" using 1 by auto
  have "t = [] \<or> t' \<noteq> []" "t \<noteq> [] \<or> t' = []" using 1 t' lower_emits(2) [OF t'] by auto
  from lower_if_shapes [OF this, of "[]" None n1 c] t' 1(2) L show ?case by auto
next
  case (2 n c t e)
  then obtain t' n1 where t': "LowerBlock n t = Some (t', n1)" by (auto simp: bind_eq_Some_conv)
  then obtain e' n2 where e': "LowerBlock n1 e = Some (e', n2)" using 2 by (auto simp: bind_eq_Some_conv)
  have L: "n \<le> n1" "set (labels t') \<subseteq> {n..<n1}" "distinct (labels t')" using 2 t' by auto
  have M: "n1 \<le> n2" "set (labels e') \<subseteq> {n1..<n2}" "distinct (labels e')"
    using 2(2) [OF t' refl e'] 2 by auto
  have s: "t = [] \<or> t' \<noteq> []" "t \<noteq> [] \<or> t' = []" using "2.prems" t' lower_emits(2) [OF t'] by auto
  from lower_if_shapes [OF s, of e "Some e'" n2 c] t' e' 2(3)
  have "(code = [SEval c] \<and> n' = n2) \<or> (code = SCondGoto OP_brfalse c n2 # t' @ [SLabel n2] \<and> n' = n2 + 1)
      \<or> (code = SCondGoto OP_brtrue c n2 # e' @ [SLabel n2] \<and> n' = n2 + 1)
      \<or> (code = SCondGoto OP_brfalse c n2 # t' @ [SLabel n2] @ e' \<and> n' = n2 + 1)
      \<or> (code = SCondGoto OP_brfalse c n2 # t' @ [SGoto (n2 + 1), SLabel n2] @ e' @ [SLabel (n2 + 1)] \<and> n' = n2 + 2)"
    by auto
  moreover have "set (labels t') \<inter> set (labels e') = {}" using L(2) M(2) by fastforce
  ultimately show ?case using L M by (elim disjE conjE) auto
qed (fastforce simp: bind_eq_Some_conv Let_def)+

section \<open>Simulation\<close>

definition sim :: "(env \<Rightarrow> expr \<Rightarrow> i64 option) \<Rightarrow> stmt list \<Rightarrow> nat \<Rightarrow> nat \<Rightarrow> env \<Rightarrow> outcome \<Rightarrow> env \<Rightarrow> bool" where
  "sim ev C p q \<rho> out \<rho>' =
     (if out = Normal then steps_by ev C (p, \<rho>) (q, \<rho>') else \<exists>c. steps_by ev C (p, \<rho>) c \<and> exits_by ev C c out \<rho>')"

lemma two_steps: "step_by ev C a b \<Longrightarrow> step_by ev C b c \<Longrightarrow> steps_by ev C a c"
  by (rule converse_rtranclp_into_rtranclp [OF _ r_into_rtranclp])

lemma sim_steps: "steps_by ev C (p, \<rho>) (q, \<rho>1) \<Longrightarrow> sim ev C q e \<rho>1 out \<rho>' \<Longrightarrow> sim ev C p e \<rho> out \<rho>'"
  unfolding sim_def by (auto split: if_splits) (meson rtranclp_trans)+

lemma sim_step: "step_by ev C (p, \<rho>) (q, \<rho>1) \<Longrightarrow> sim ev C q e \<rho>1 out \<rho>' \<Longrightarrow> sim ev C p e \<rho> out \<rho>'"
  by (rule sim_steps [OF r_into_rtranclp])

lemma sim_seq: "sim ev C p q \<rho> Normal \<rho>1 \<Longrightarrow> sim ev C q e \<rho>1 out \<rho>' \<Longrightarrow> sim ev C p e \<rho> out \<rho>'"
  by (rule sim_steps) (simp_all add: sim_def)

lemma sim_exit: "sim ev C p q \<rho> out \<rho>' \<Longrightarrow> out \<noteq> Normal \<Longrightarrow> sim ev C p e \<rho> out \<rho>'"
  by (simp add: sim_def)

lemma sim_then: "sim ev C p q \<rho> out \<rho>' \<Longrightarrow> steps_by ev C (q, \<rho>') (e, \<rho>') \<Longrightarrow> sim ev C p e \<rho> out \<rho>'"
  by (auto simp: sim_def split: if_splits)

lemma sim_refl: "sim ev C p p \<rho> Normal \<rho>"
  by (simp add: sim_def)

lemma step_at:
  "C = pre @ s # post \<Longrightarrow> transfer_by ev s \<rho> = Some (Normal, \<rho>') \<Longrightarrow> p = length pre \<Longrightarrow> step_by ev C (p, \<rho>) (Suc p, \<rho>')"
  by (auto intro!: step_by.Next)

lemma branch_at:
  "C = pre @ s # post \<Longrightarrow> transfer_by ev s \<rho> = Some (Jump l, \<rho>') \<Longrightarrow> C = pre' @ SLabel l # post' \<Longrightarrow>
   l \<notin> set (labels pre') \<Longrightarrow> p = length pre \<Longrightarrow> k = length pre' \<Longrightarrow> step_by ev C (p, \<rho>) (k, \<rho>')"
  using label_pos_append [of l pre' post'] by (auto intro!: step_by.Branch)

lemma exit_at:
  "C = pre @ s # post \<Longrightarrow> transfer_by ev s \<rho> = Some (out, \<rho>') \<Longrightarrow> out = Jump l \<and> l \<notin> set (labels C) \<or> out = Returned
   \<Longrightarrow> sim ev C (length pre) q \<rho> out \<rho>'"
proof -
  assume C: "C = pre @ s # post" and t: "transfer_by ev s \<rho> = Some (out, \<rho>')"
    and o: "out = Jump l \<and> l \<notin> set (labels C) \<or> out = Returned"
  have "exits_by ev C (length pre, \<rho>) out \<rho>'"
    using o
  proof (elim disjE conjE)
    assume l: "out = Jump l" "l \<notin> set (labels C)"
    then have "label_pos C l = None" by (simp add: label_pos_None)
    then show ?thesis using C t l by (auto intro: exits_by.Out)
  next
    assume "out = Returned"
    then show ?thesis using C t by (auto intro: exits_by.Ret)
  qed
  moreover have "out \<noteq> Normal" using o by auto
  ultimately show ?thesis by (auto simp: sim_def)
qed

lemma label_at: "C = pre @ SLabel l # post \<Longrightarrow> p = length pre \<Longrightarrow> step_by ev C (p, \<rho>) (Suc p, \<rho>)"
  by (rule step_at [where s = "SLabel l"]) simp_all

text \<open>Code that \<open>LowerBlock\<close> produced for labels from \<open>n\<close> to \<open>n'\<close>, at its place in \<open>C\<close>.\<close>

definition fresh_in :: "stmt list \<Rightarrow> stmt list \<Rightarrow> nat \<Rightarrow> nat \<Rightarrow> bool" where
  "fresh_in pre post n n' = (\<forall>l \<in> set (labels pre) \<union> set (labels post). l < n \<or> n' \<le> l)"

lemma fresh_inD:
  "fresh_in pre post n n' \<Longrightarrow> l \<in> set (labels pre) \<or> l \<in> set (labels post) \<Longrightarrow> l < n \<or> n' \<le> l"
  by (auto simp: fresh_in_def)

text \<open>A \<open>while\<close> loop goes on at its bottom test as it would at its top test.\<close>

definition sim_stmt :: "(env \<Rightarrow> expr \<Rightarrow> i64 option) \<Rightarrow> nat \<Rightarrow> stmt list \<Rightarrow> stmt \<Rightarrow> env \<Rightarrow> outcome \<Rightarrow> env \<Rightarrow> bool" where
  "sim_stmt ev m C s \<rho> out \<rho>' = (\<forall>n code n' pre post.
     LowerStmt n s = Some (code, n') \<longrightarrow> src_ok m s \<longrightarrow> C = pre @ code @ post \<longrightarrow> fresh_in pre post n n' \<longrightarrow>
     sim ev C (length pre) (length pre + length code) \<rho> out \<rho>' \<and>
     (\<forall>c b. s = SWhile c b \<longrightarrow> sim ev C (length pre + length code - 2) (length pre + length code) \<rho> out \<rho>'))"

definition sim_block :: "(env \<Rightarrow> expr \<Rightarrow> i64 option) \<Rightarrow> nat \<Rightarrow> stmt list \<Rightarrow> stmt list \<Rightarrow> env \<Rightarrow> outcome \<Rightarrow> env \<Rightarrow> bool" where
  "sim_block ev m C ss \<rho> out \<rho>' = (\<forall>n code n' pre post.
     LowerBlock n ss = Some (code, n') \<longrightarrow> src_ok_block m ss \<longrightarrow> C = pre @ code @ post \<longrightarrow> fresh_in pre post n n' \<longrightarrow>
     sim ev C (length pre) (length pre + length code) \<rho> out \<rho>')"

lemma sim_stmtI:
  "(\<And>n code n' pre post. LowerStmt n s = Some (code, n') \<Longrightarrow> src_ok m s \<Longrightarrow> C = pre @ code @ post \<Longrightarrow>
     fresh_in pre post n n' \<Longrightarrow> sim ev C (length pre) (length pre + length code) \<rho> out \<rho>') \<Longrightarrow>
   \<nexists>c b. s = SWhile c b \<Longrightarrow> sim_stmt ev m C s \<rho> out \<rho>'"
  by (simp add: sim_stmt_def)

lemma sim_stmtD:
  "sim_stmt ev m C s \<rho> out \<rho>' \<Longrightarrow> LowerStmt n s = Some (code, n') \<Longrightarrow> src_ok m s \<Longrightarrow> C = pre @ code @ post \<Longrightarrow>
     fresh_in pre post n n' \<Longrightarrow> p = length pre \<Longrightarrow> q = length pre + length code \<Longrightarrow> sim ev C p q \<rho> out \<rho>'"
  by (simp add: sim_stmt_def)

lemma sim_blockD:
  "sim_block ev m C ss \<rho> out \<rho>' \<Longrightarrow> LowerBlock n ss = Some (code, n') \<Longrightarrow> src_ok_block m ss \<Longrightarrow> C = pre @ code @ post \<Longrightarrow>
     fresh_in pre post n n' \<Longrightarrow> p = length pre \<Longrightarrow> q = length pre + length code \<Longrightarrow> sim ev C p q \<rho> out \<rho>'"
  by (simp add: sim_block_def)

text \<open>Statements that lowering keeps.\<close>

lemma kept_sim:
  assumes "LowerStmt n s = Some ([s], n) \<and> transfer_by ev s \<rho> = Some (out, \<rho>')"
    and "out = Normal \<or> (\<exists>l. out = Jump l \<and> l < m) \<or> out = Returned"
    and "\<forall>l \<in> set (labels C). m \<le> l"
  shows "C = pre @ [s] @ post \<Longrightarrow> sim ev C (length pre) (Suc (length pre)) \<rho> out \<rho>'"
  using assms
proof (elim conjE disjE exE)
  assume C: "C = pre @ [s] @ post" and "transfer_by ev s \<rho> = Some (out, \<rho>')" "out = Normal"
  then show ?thesis using step_at [of C pre s post ev \<rho> \<rho>'] by (simp add: sim_def r_into_rtranclp)
next
  fix l
  assume C: "C = pre @ [s] @ post" and t: "transfer_by ev s \<rho> = Some (out, \<rho>')" and l: "out = Jump l" "l < m"
  have "l \<notin> set (labels C)" using assms(3) l(2) by auto
  then show ?thesis using exit_at [of C pre s post ev \<rho> out \<rho>' l] C t l by simp
next
  assume C: "C = pre @ [s] @ post" and t: "transfer_by ev s \<rho> = Some (out, \<rho>')" and l: "out = Returned"
  then show ?thesis using exit_at [of C pre s post ev \<rho> out \<rho>'] by simp
qed

lemma range_target_in: "range_target off tbl v = Some l \<Longrightarrow> l \<in> snd ` set tbl"
  unfolding range_target_def by (drule map_of_SomeD) force

lemma switch_target_in: "switch_target d tbl v = d \<or> switch_target d tbl v \<in> snd ` set tbl"
  unfolding switch_target_def by (auto split: option.splits dest!: map_of_SomeD) force


text \<open>The statement at a branch is reached, the branch is decided, and control goes on at \<open>k\<close>.\<close>

lemma cond_taken:
  "C = pre @ SCondGoto br c l # post \<Longrightarrow> ev \<rho> c = Some v \<Longrightarrow> taken br v \<Longrightarrow> C = pre' @ SLabel l # post'
   \<Longrightarrow> l \<notin> set (labels pre') \<Longrightarrow> p = length pre \<Longrightarrow> k = length pre' \<Longrightarrow> step_by ev C (p, \<rho>) (k, \<rho>)"
  by (rule branch_at [of C pre "SCondGoto br c l" post ev \<rho> l \<rho> pre' post']) simp_all

lemma cond_not_taken:
  "C = pre @ SCondGoto br c l # post \<Longrightarrow> ev \<rho> c = Some v \<Longrightarrow> \<not> taken br v \<Longrightarrow> p = length pre
   \<Longrightarrow> step_by ev C (p, \<rho>) (Suc p, \<rho>)"
  by (rule step_at [of C pre "SCondGoto br c l" post]) simp_all

lemma guarded_run:
  assumes "C = pre @ SCondGoto br c l # as @ SLabel l # post" "ev \<rho> c = Some v" "\<not> taken br v"
    and "sim ev C (Suc (length pre)) (Suc (length pre) + length as) \<rho> out \<rho>'"
  shows "sim ev C (length pre) (length pre + length as + 2) \<rho> out \<rho>'"
proof (rule sim_step [OF cond_not_taken [where ev = ev, OF assms(1-3) refl]], rule sim_then [OF assms(4)])
  have "step_by ev C (Suc (length pre) + length as, \<rho>') (Suc (Suc (length pre) + length as), \<rho>')"
    by (rule label_at [of C "pre @ SCondGoto br c l # as" l post]) (simp_all add: assms(1))
  then show "steps_by ev C (Suc (length pre) + length as, \<rho>') (length pre + length as + 2, \<rho>')"
    by (simp add: r_into_rtranclp)
qed

lemma guarded_skip:
  assumes "C = pre @ SCondGoto br c l # as @ SLabel l # post" "ev \<rho> c = Some v" "taken br v"
    and "l \<notin> set (labels pre)" "l \<notin> set (labels as)"
  shows "steps_by ev C (length pre, \<rho>) (length pre + length as + 2, \<rho>)"
proof -
  have 1: "step_by ev C (length pre, \<rho>) (length pre + length as + 1, \<rho>)"
    by (rule cond_taken [where ev = ev, OF assms(1-3), of "pre @ SCondGoto br c l # as" post]) (use assms in simp_all)
  have 2: "step_by ev C (length pre + length as + 1, \<rho>) (Suc (length pre + length as + 1), \<rho>)"
    by (rule label_at [of C "pre @ SCondGoto br c l # as" l post]) (simp_all add: assms(1))
  from two_steps [OF 1 2] show ?thesis by simp
qed

lemma goto_label:
  assumes "C = pre @ SGoto l # as @ SLabel l # post" "l \<notin> set (labels pre)" "l \<notin> set (labels as)"
  shows "steps_by ev C (length pre, \<rho>) (length pre + length as + 2, \<rho>)"
proof -
  have 1: "step_by ev C (length pre, \<rho>) (length pre + length as + 1, \<rho>)"
    by (rule branch_at [of C pre "SGoto l" "as @ SLabel l # post" ev \<rho> l \<rho> "pre @ SGoto l # as" post]) (use assms in simp_all)
  have 2: "step_by ev C (length pre + length as + 1, \<rho>) (Suc (length pre + length as + 1), \<rho>)"
    by (rule label_at [of C "pre @ SGoto l # as" l post]) (simp_all add: assms(1))
  from two_steps [OF 1 2] show ?thesis by simp
qed

text \<open>Code that ends in a jump is not left at its end.\<close>

lemma no_fall_through:
  "LowerStmt n s = Some (code, n') \<Longrightarrow> code \<noteq> [] \<Longrightarrow> OpCodeNoFallThrough (last code) \<Longrightarrow> src_ok m s
     \<Longrightarrow> \<not> exec_by ev s \<rho> Normal \<rho>'"
  "LowerBlock n ss = Some (code, n') \<Longrightarrow> code \<noteq> [] \<Longrightarrow> OpCodeNoFallThrough (last code) \<Longrightarrow> src_ok_block m ss
     \<Longrightarrow> \<not> execs_by ev ss \<rho> Normal \<rho>'"
proof (induction n s and n ss arbitrary: code n' \<rho> \<rho>' and code n' \<rho> \<rho>' rule: LowerStmt_LowerBlock.induct)
  case (1 n c t)
  then obtain t' n1 where t': "LowerBlock n t = Some (t', n1)" by (auto simp: bind_eq_Some_conv)
  have "t = [] \<or> t' \<noteq> []" "t \<noteq> [] \<or> t' = []" using "1.prems" t' lower_emits(2) [OF t'] by auto
  from lower_if_shapes [OF this, of "[]" None n1 c] t' 1 show ?case by (auto simp: OpCodeNoFallThrough_def)
next
  case (2 n c t e)
  then obtain t' n1 where t': "LowerBlock n t = Some (t', n1)" by (auto simp: bind_eq_Some_conv)
  then obtain e' n2 where e': "LowerBlock n1 e = Some (e', n2)" using 2 by (auto simp: bind_eq_Some_conv)
  have s: "t = [] \<or> t' \<noteq> []" "t \<noteq> [] \<or> t' = []" using "2.prems" t' lower_emits(2) [OF t'] by auto
  have li: "lower_if (t = []) (e = []) n2 c t' (Some e') = Some (code, n')" using 2(3) t' e' by simp
  from lower_if_shapes [OF s, of e "Some e'" n2 c] li "2.prems"(2,3)
  have g: "t \<noteq> []" "OpCodeNoFallThrough (last t')" "e' \<noteq> []" "OpCodeNoFallThrough (last e')"
    by (auto simp: OpCodeNoFallThrough_def split: if_splits)
  from 2(1) [OF t'] 2(2) [OF t' refl e'] g s "2.prems"(4) show ?case by (auto elim!: exec_IfE)
next
  case (9 n s ss)
  then obtain c n1 cs where c: "LowerStmt n s = Some (c, n1)" "LowerBlock n1 ss = Some (cs, n')" "code = c @ cs"
    by (auto simp: bind_eq_Some_conv)
  show ?case
  proof (cases "cs = []")
    case True
    then show ?thesis using 9(1) [OF c(1)] 9(4-6) c(3) by auto
  next
    case False
    then show ?thesis using 9(2) [OF c(1) refl c(2)] 9(4-6) c(3) by auto
  qed
qed (auto simp: bind_eq_Some_conv Let_def OpCodeNoFallThrough_def)

text \<open>The three ways a branch chooses between the parts of an \<open>if\<close>.\<close>

lemma one_arm_sim:
  assumes C: "C = pre @ SCondGoto br c l # as @ SLabel l # post" and c: "ev \<rho> c = Some v"
    and l: "l \<notin> set (labels pre)" "l \<notin> set (labels as)"
    and skip: "taken br v \<Longrightarrow> out = Normal \<and> \<rho>' = \<rho>"
    and run: "\<not> taken br v \<Longrightarrow> sim ev C (Suc (length pre)) (Suc (length pre) + length as) \<rho> out \<rho>'"
  shows "sim ev C (length pre) (length pre + length as + 2) \<rho> out \<rho>'"
proof (cases "taken br v")
  case True
  then show ?thesis using guarded_skip [where ev = ev, OF C c True l] skip by (simp add: sim_def)
next
  case False
  then show ?thesis using guarded_run [where ev = ev, OF C c False run] by simp
qed

lemma two_arm_stop_sim:
  assumes C: "C = pre @ SCondGoto br c l # as @ SLabel l # bs @ post" and c: "ev \<rho> c = Some v"
    and l: "l \<notin> set (labels pre)" "l \<notin> set (labels as)"
    and runb: "taken br v \<Longrightarrow> sim ev C (length pre + length as + 2) (length pre + length as + 2 + length bs) \<rho> out \<rho>'"
    and runa: "\<not> taken br v \<Longrightarrow> sim ev C (Suc (length pre)) (Suc (length pre) + length as) \<rho> out \<rho>' \<and> out \<noteq> Normal"
  shows "sim ev C (length pre) (length pre + length as + 2 + length bs) \<rho> out \<rho>'"
proof (cases "taken br v")
  case True
  show ?thesis by (rule sim_steps [OF guarded_skip [where ev = ev, OF C c True l] runb [OF True]])
next
  case False
  show ?thesis
    by (rule sim_step [OF cond_not_taken [where ev = ev, OF C c False refl]]) (rule sim_exit, use runa [OF False] in auto)
qed

lemma two_arm_join_sim:
  assumes C: "C = pre @ SCondGoto br c l # (as @ [SGoto k]) @ SLabel l # bs @ SLabel k # post"
    and c: "ev \<rho> c = Some v"
    and l: "l \<notin> set (labels pre)" "l \<notin> set (labels as)"
    and k: "k \<notin> set (labels pre)" "k \<notin> set (labels as)" "k \<noteq> l" "k \<notin> set (labels bs)"
    and runb: "taken br v \<Longrightarrow> sim ev C (length pre + length as + 3) (length pre + length as + 3 + length bs) \<rho> out \<rho>'"
    and runa: "\<not> taken br v \<Longrightarrow> sim ev C (Suc (length pre)) (Suc (length pre) + length as) \<rho> out \<rho>'"
  shows "sim ev C (length pre) (length pre + length as + length bs + 4) \<rho> out \<rho>'"
proof (cases "taken br v")
  case True
  have "steps_by ev C (length pre, \<rho>) (length pre + length (as @ [SGoto k]) + 2, \<rho>)"
    by (rule guarded_skip [where ev = ev, OF C c True]) (use l in simp_all)
  then have 1: "steps_by ev C (length pre, \<rho>) (length pre + length as + 3, \<rho>)" by (simp add: numeral_3_eq_3)
  have 2: "step_by ev C (length pre + length as + 3 + length bs, \<rho>') (Suc (length pre + length as + 3 + length bs), \<rho>')"
    by (rule label_at [of C "pre @ SCondGoto br c l # as @ [SGoto k, SLabel l] @ bs" k post]) (use C in simp_all)
  have "sim ev C (length pre) (Suc (length pre + length as + 3 + length bs)) \<rho> out \<rho>'"
    by (rule sim_steps [OF 1 sim_then [OF runb [OF True] r_into_rtranclp [of "step_by ev C", OF 2]]])
  then show ?thesis by (simp add: ac_simps)
next
  case False
  have "steps_by ev C (length (pre @ SCondGoto br c l # as), \<rho>')
      (length (pre @ SCondGoto br c l # as) + length (SLabel l # bs) + 2, \<rho>')"
    by (rule goto_label [of C _ k "SLabel l # bs" post]) (use C k in simp_all)
  then have 2: "steps_by ev C (Suc (length pre) + length as, \<rho>') (length pre + length as + length bs + 4, \<rho>')" by (simp add: eval_nat_numeral)
  show ?thesis
    by (rule sim_step [OF cond_not_taken [where ev = ev, OF C c False refl] sim_then [OF runa [OF False] 2]])
qed

lemma if_sim:
  assumes l: "LowerStmt n (SIf c t e) = Some (code, n')" "src_ok m (SIf c t e)" "C = pre @ code @ post" "fresh_in pre post n n'"
    and c: "ev \<rho> c = Some v"
    and T: "v \<noteq> 0 \<Longrightarrow> execs_by ev t \<rho> out \<rho>' \<and> sim_block ev m C t \<rho> out \<rho>'"
    and E: "v = 0 \<Longrightarrow> execs_by ev (else_part e) \<rho> out \<rho>' \<and> sim_block ev m C (else_part e) \<rho> out \<rho>'"
  shows "sim ev C (length pre) (length pre + length code) \<rho> out \<rho>'"
proof -
  obtain t' n1 where t': "LowerBlock n t = Some (t', n1)" using l(1) by (cases e) (auto simp: bind_eq_Some_conv)
  have ok: "src_ok_block m t" "t = [] \<or> emits_block t" "src_ok_block m (else_part e)" using l(2) by (cases e; simp)+
  have s: "t = [] \<or> t' \<noteq> []" "t \<noteq> [] \<or> t' = []" using ok t' lower_emits(2) [OF t'] by auto
  have L: "n \<le> n1" "set (labels t') \<subseteq> {n..<n1}" using lower_labels(2) [OF t' ok(1)] by auto
  have "\<exists>e' n2. LowerBlock n1 (else_part e) = Some (e', n2) \<and>
      lower_if (t = []) (else_part e = []) n2 c t' (case e of None \<Rightarrow> None | Some b \<Rightarrow> Some e') = Some (code, n')"
    using l(1) t' by (cases e) (auto simp: bind_eq_Some_conv)
  then obtain e' n2 where e': "LowerBlock n1 (else_part e) = Some (e', n2)"
    and li: "lower_if (t = []) (else_part e = []) n2 c t' (case e of None \<Rightarrow> None | Some b \<Rightarrow> Some e') = Some (code, n')" by blast
  have M: "n1 \<le> n2" "set (labels e') \<subseteq> {n1..<n2}" using lower_labels(2) [OF e' ok(3)] by auto
  have the_e: "else_part e \<noteq> [] \<Longrightarrow> the (case e of None \<Rightarrow> None | Some b \<Rightarrow> Some e') = e'" by (cases e) auto
  have fr: "x \<notin> set (labels pre)" if "n \<le> x" "x < n'" for x using fresh_inD [OF l(4), of x] that by auto
  have l1: "\<forall>x \<in> set (labels pre) \<union> set (labels post). x < n1 \<or> n' \<le> x"
    using fresh_inD [OF l(4)] L(1) by (metis Un_iff order_less_le_trans)
  have fl: "n2 \<notin> set (labels t')" "n2 \<notin> set (labels e')" "Suc n2 \<notin> set (labels t')" "Suc n2 \<notin> set (labels e')"
    using L M by auto
  have runT: "sim ev C p (p + length t') \<rho> out \<rho>'"
    if "v \<noteq> 0" "C = pa @ t' @ pb" "fresh_in pa pb n n1" "p = length pa" for pa pb p
    using T [OF that(1)] that(4) by (intro sim_blockD [OF _ t' ok(1) that(2,3)]) simp_all
  have runE: "sim ev C p (p + length e') \<rho> out \<rho>'"
    if "v = 0" "C = pa @ e' @ pb" "fresh_in pa pb n1 n2" "p = length pa" for pa pb p
    using E [OF that(1)] that(4) by (intro sim_blockD [OF _ e' ok(3) that(2,3)]) simp_all
  have nil: "v \<noteq> 0 \<Longrightarrow> t = [] \<Longrightarrow> out = Normal \<and> \<rho>' = \<rho>" "v = 0 \<Longrightarrow> else_part e = [] \<Longrightarrow> out = Normal \<and> \<rho>' = \<rho>"
    using T E by auto
  have tk: "taken OP_brtrue v = (v \<noteq> 0)" "taken OP_brfalse v = (v = 0)" by (simp_all add: taken_def)
  from lower_if_shapes [OF s, of "else_part e" "case e of None \<Rightarrow> None | Some b \<Rightarrow> Some e'" n2 c] li the_e
  consider (none) "t = []" "else_part e = []" "code = [SEval c]"
    | (tonly) "else_part e = []" "code = SCondGoto OP_brfalse c n2 # t' @ [SLabel n2]" "n' = n2 + 1"
    | (eonly) "t = []" "code = SCondGoto OP_brtrue c n2 # e' @ [SLabel n2]" "n' = n2 + 1"
    | (stops) "t \<noteq> []" "OpCodeNoFallThrough (last t')"
        "code = SCondGoto OP_brfalse c n2 # t' @ [SLabel n2] @ e'" "n' = n2 + 1"
    | (full) "code = SCondGoto OP_brfalse c n2 # t' @ [SGoto (n2 + 1), SLabel n2] @ e' @ [SLabel (n2 + 1)]" "n' = n2 + 2"
    by (cases e) auto
  then show ?thesis
  proof cases
    case none
    have "step_by ev C (length pre, \<rho>) (Suc (length pre), \<rho>)"
      by (rule step_at [of C pre "SEval c" post]) (use l(3) none c in simp_all)
    then show ?thesis using nil none by (cases "v = 0") (auto simp: sim_def r_into_rtranclp)
  next
    case tonly
    have C: "C = pre @ SCondGoto OP_brfalse c n2 # t' @ SLabel n2 # post" using l(3) tonly by simp
    have "sim ev C (length pre) (length pre + length t' + 2) \<rho> out \<rho>'"
      by (rule one_arm_sim [where ev = ev, OF C c]; (rule runT [where pb = "SLabel n2 # post" and pa = "pre @ [SCondGoto OP_brfalse c n2]"])?)
        (use fr [of n2] fl L M l(4) l1 nil tonly tk C in \<open>auto simp: fresh_in_def\<close>)
    then show ?thesis using tonly by simp
  next
    case eonly
    have C: "C = pre @ SCondGoto OP_brtrue c n2 # e' @ SLabel n2 # post" using l(3) eonly by simp
    have "sim ev C (length pre) (length pre + length e' + 2) \<rho> out \<rho>'"
      by (rule one_arm_sim [where ev = ev, OF C c]; (rule runE [where pb = "SLabel n2 # post" and pa = "pre @ [SCondGoto OP_brtrue c n2]"])?)
        (use fr [of n2] fl L M l(4) l1 nil eonly tk C in \<open>auto simp: fresh_in_def\<close>)
    then show ?thesis using eonly by simp
  next
    case stops
    have C: "C = pre @ SCondGoto OP_brfalse c n2 # t' @ SLabel n2 # e' @ post" using l(3) stops by simp
    have 1: "\<not> taken OP_brfalse v \<Longrightarrow> out \<noteq> Normal"
      using no_fall_through(2) [OF t' _ stops(2) ok(1), of ev \<rho>] s(1) stops(1) T tk by auto
    have "sim ev C (length pre) (length pre + length t' + 2 + length e') \<rho> out \<rho>'"
      by (rule two_arm_stop_sim [where ev = ev, OF C c]; (rule conjI [OF runT [where pb = "SLabel n2 # e' @ post" and pa = "pre @ [SCondGoto OP_brfalse c n2]"] 1]
            runE [where pb = post and pa = "pre @ SCondGoto OP_brfalse c n2 # t' @ [SLabel n2]"])?)
        (use fr [of n2] fl L M l(4) l1 stops tk C in \<open>auto simp: fresh_in_def\<close>)
    then show ?thesis using stops by (simp add: add.assoc)
  next
    case full
    have C: "C = pre @ SCondGoto OP_brfalse c n2 # (t' @ [SGoto (Suc n2)]) @ SLabel n2 # e' @ SLabel (Suc n2) # post"
      using l(3) full by simp
    have "sim ev C (length pre) (length pre + length t' + length e' + 4) \<rho> out \<rho>'"
      by (rule two_arm_join_sim [where ev = ev, OF C c]; (rule runT [where pa = "pre @ [SCondGoto OP_brfalse c n2]"
              and pb = "SGoto (Suc n2) # SLabel n2 # e' @ SLabel (Suc n2) # post"]
            runE [where pb = "SLabel (Suc n2) # post" and pa = "pre @ SCondGoto OP_brfalse c n2 # t' @ [SGoto (Suc n2), SLabel n2]"])?)
        (use fr [of n2] fr [of "Suc n2"] fl L M l(4) l1 full tk C in \<open>auto simp: fresh_in_def\<close>)
    then show ?thesis using full by (simp add: add.assoc eval_nat_numeral)
  qed
qed


text \<open>Loops.\<close>

lemma fresh_in_split:
  assumes "fresh_in pre post n n'" "n \<le> k" "k \<le> n'" "set (labels as) \<subseteq> {n..<k}" "set (labels bs) \<subseteq> {k..<n'}"
  shows "fresh_in pre (bs @ post) n k" "fresh_in (pre @ as) post k n'"
proof -
  have old: "l < n \<or> n' \<le> l" if "l \<in> set (labels pre) \<or> l \<in> set (labels post)" for l
    using fresh_inD [OF assms(1) that] .
  have new: "l \<in> set (labels as) \<Longrightarrow> n \<le> l \<and> l < k" "l \<in> set (labels bs) \<Longrightarrow> k \<le> l \<and> l < n'" for l
    using assms(4,5) by auto
  show "fresh_in pre (bs @ post) n k" "fresh_in (pre @ as) post k n'"
    using old new assms(2,3) unfolding fresh_in_def
    by (metis Un_iff labels_append le_trans set_append order_less_le_trans)+
qed

lemma while_parts:
  assumes "LowerStmt n (SWhile c b) = Some (code, n')" "src_ok m (SWhile c b)" "C = pre @ code @ post" "fresh_in pre post n n'"
  obtains b' k where "LowerBlock n b = Some (b', k)"
    and "C = (pre @ [SCondGoto OP_brfalse c k, SLabel (Suc k)]) @ b' @ SCondGoto OP_brtrue c (Suc k) # SLabel k # post"
    and "length code = length b' + 4"
    and "fresh_in (pre @ [SCondGoto OP_brfalse c k, SLabel (Suc k)]) (SCondGoto OP_brtrue c (Suc k) # SLabel k # post) n k"
    and "k \<notin> set (labels pre)" "Suc k \<notin> set (labels pre)" "k \<notin> set (labels b')"
proof -
  obtain b' k where b: "LowerBlock n b = Some (b', k)" and n': "n' = Suc (Suc k)"
    and code: "code = [SCondGoto OP_brfalse c k, SLabel (Suc k)] @ b' @ [SCondGoto OP_brtrue c (Suc k), SLabel k]"
    using assms(1) by (auto simp: bind_eq_Some_conv Let_def)
  have L: "n \<le> k" "set (labels b') \<subseteq> {n..<k}" using lower_labels(2) [OF b] assms(2) by auto
  show ?thesis
  proof (rule that [OF b])
    show "C = (pre @ [SCondGoto OP_brfalse c k, SLabel (Suc k)]) @ b' @ SCondGoto OP_brtrue c (Suc k) # SLabel k # post"
      using assms(3) code by simp
    show "length code = length b' + 4" using code by simp
    show "fresh_in (pre @ [SCondGoto OP_brfalse c k, SLabel (Suc k)]) (SCondGoto OP_brtrue c (Suc k) # SLabel k # post) n k"
      using assms(4) L n' by (auto simp: fresh_in_def)
    show "k \<notin> set (labels pre)" "Suc k \<notin> set (labels pre)"
      using fresh_inD [OF assms(4), of k] fresh_inD [OF assms(4), of "Suc k"] L n' by auto
    show "k \<notin> set (labels b')" using L by auto
  qed
qed

text \<open>The tests of a lowered \<open>while\<close>, at its top and at its bottom.\<close>

lemma while_tests:
  assumes C: "C = (pre @ [SCondGoto OP_brfalse c k, SLabel (Suc k)]) @ b' @ SCondGoto OP_brtrue c (Suc k) # SLabel k # post"
    and k: "k \<notin> set (labels pre)" "Suc k \<notin> set (labels pre)" "k \<notin> set (labels b')"
    and v: "ev \<rho> c = Some v"
  shows "v = 0 \<Longrightarrow> steps_by ev C (length pre, \<rho>) (length pre + length b' + 4, \<rho>)"
    and "v = 0 \<Longrightarrow> steps_by ev C (length pre + length b' + 2, \<rho>) (length pre + length b' + 4, \<rho>)"
    and "v \<noteq> 0 \<Longrightarrow> steps_by ev C (length pre, \<rho>) (length pre + 2, \<rho>)"
    and "v \<noteq> 0 \<Longrightarrow> steps_by ev C (length pre + length b' + 2, \<rho>) (length pre + 2, \<rho>)"
proof -
  let ?top = "SCondGoto OP_brfalse c k" and ?bot = "SCondGoto OP_brtrue c (Suc k)"
  have tk: "taken OP_brtrue v = (v \<noteq> 0)" "taken OP_brfalse v = (v = 0)" by (simp_all add: taken_def)
  have end': "step_by ev C (length pre + length b' + 3, \<rho>) (Suc (length pre + length b' + 3), \<rho>)"
    by (rule label_at [of C "pre @ ?top # SLabel (Suc k) # b' @ [?bot]" k post]) (use C in simp_all)
  have lab: "step_by ev C (Suc (length pre), \<rho>) (Suc (Suc (length pre)), \<rho>)"
    by (rule label_at [of C "pre @ [?top]" "Suc k" "b' @ ?bot # SLabel k # post"]) (use C in simp_all)
  {
    assume "v = 0"
    have 1: "step_by ev C (length pre, \<rho>) (length pre + length b' + 3, \<rho>)"
      by (rule cond_taken [of C pre OP_brfalse c k "SLabel (Suc k) # b' @ ?bot # SLabel k # post" ev \<rho> v
            "pre @ ?top # SLabel (Suc k) # b' @ [?bot]" post]) (use C v tk \<open>v = 0\<close> k in simp_all)
    from two_steps [OF 1 end'] show "steps_by ev C (length pre, \<rho>) (length pre + length b' + 4, \<rho>)" by (simp add: eval_nat_numeral)
    have 2: "step_by ev C (length pre + length b' + 2, \<rho>) (Suc (length pre + length b' + 2), \<rho>)"
      by (rule cond_not_taken [of C "pre @ ?top # SLabel (Suc k) # b'" OP_brtrue c "Suc k" "SLabel k # post" ev \<rho> v])
        (use C v tk \<open>v = 0\<close> in simp_all)
    with end' show "steps_by ev C (length pre + length b' + 2, \<rho>) (length pre + length b' + 4, \<rho>)"
      using two_steps [OF 2] by (simp add: eval_nat_numeral)
  }
  {
    assume "v \<noteq> 0"
    have 1: "step_by ev C (length pre, \<rho>) (Suc (length pre), \<rho>)"
      by (rule cond_not_taken [of C pre OP_brfalse c k "SLabel (Suc k) # b' @ ?bot # SLabel k # post" ev \<rho> v])
        (use C v tk \<open>v \<noteq> 0\<close> in simp_all)
    with lab show "steps_by ev C (length pre, \<rho>) (length pre + 2, \<rho>)"
      using two_steps [OF 1] by (simp add: eval_nat_numeral)
    have 2: "step_by ev C (length pre + length b' + 2, \<rho>) (Suc (length pre), \<rho>)"
      by (rule cond_taken [of C "pre @ ?top # SLabel (Suc k) # b'" OP_brtrue c "Suc k" "SLabel k # post" ev \<rho> v
            "pre @ [?top]" "b' @ ?bot # SLabel k # post"]) (use C v tk \<open>v \<noteq> 0\<close> k in simp_all)
    with lab show "steps_by ev C (length pre + length b' + 2, \<rho>) (length pre + 2, \<rho>)"
      using two_steps [OF 2] by (simp add: eval_nat_numeral)
  }
qed


lemma while_exit_sim:
  assumes "ev \<rho> c = Some 0"
  shows "sim_stmt ev m C (SWhile c b) \<rho> Normal \<rho>"
  unfolding sim_stmt_def
proof (intro allI impI)
  fix n code n' pre post
  assume l: "LowerStmt n (SWhile c b) = Some (code, n')" "src_ok m (SWhile c b)" "C = pre @ code @ post" "fresh_in pre post n n'"
  from while_parts [OF l] obtain b' k where
    C: "C = (pre @ [SCondGoto OP_brfalse c k, SLabel (Suc k)]) @ b' @ SCondGoto OP_brtrue c (Suc k) # SLabel k # post"
    and len: "length code = length b' + 4"
    and k: "k \<notin> set (labels pre)" "Suc k \<notin> set (labels pre)" "k \<notin> set (labels b')" by metis
  show "sim ev C (length pre) (length pre + length code) \<rho> Normal \<rho> \<and>
      (\<forall>d ba. SWhile c b = SWhile d ba \<longrightarrow> sim ev C (length pre + length code - 2) (length pre + length code) \<rho> Normal \<rho>)"
    using while_tests(1,2) [where ev = ev, OF C k assms refl] len by (simp add: sim_def add.assoc)
qed

lemma while_body_sim:
  assumes v: "ev \<rho> c = Some v" "v \<noteq> 0" and b: "sim_block ev m C b \<rho> out \<rho>1"
    and rest: "if out = Normal then sim_stmt ev m C (SWhile c b) \<rho>1 out' \<rho>' else out' = out \<and> \<rho>' = \<rho>1"
  shows "sim_stmt ev m C (SWhile c b) \<rho> out' \<rho>'"
  unfolding sim_stmt_def
proof (intro allI impI)
  fix n code n' pre post
  assume l: "LowerStmt n (SWhile c b) = Some (code, n')" "src_ok m (SWhile c b)" "C = pre @ code @ post" "fresh_in pre post n n'"
  from while_parts [OF l] obtain b' k where lb: "LowerBlock n b = Some (b', k)" and
    C: "C = (pre @ [SCondGoto OP_brfalse c k, SLabel (Suc k)]) @ b' @ SCondGoto OP_brtrue c (Suc k) # SLabel k # post"
    and len: "length code = length b' + 4"
    and fr: "fresh_in (pre @ [SCondGoto OP_brfalse c k, SLabel (Suc k)]) (SCondGoto OP_brtrue c (Suc k) # SLabel k # post) n k"
    and k: "k \<notin> set (labels pre)" "Suc k \<notin> set (labels pre)" "k \<notin> set (labels b')" by metis
  have ok: "src_ok_block m b" using l(2) by simp
  let ?b = "length pre + 2" and ?q = "length pre + length b' + 2" and ?e = "length pre + length code"
  have q: "?e - 2 = ?q" "?e = length pre + length b' + 4" using len by simp_all
  have body: "sim ev C ?b ?q \<rho> out \<rho>1"
    by (rule sim_blockD [OF b lb ok C fr]) simp_all
  have "sim ev C ?b ?e \<rho> out' \<rho>'"
  proof (cases "out = Normal")
    case True
    then have "sim ev C ?q ?e \<rho>1 out' \<rho>'" using rest l q(1) unfolding sim_stmt_def by (metis (full_types))
    then show ?thesis using sim_seq body True by simp
  next
    case False
    then show ?thesis using rest body sim_exit by auto
  qed
  then show "sim ev C (length pre) ?e \<rho> out' \<rho>' \<and> (\<forall>d ba. SWhile c b = SWhile d ba \<longrightarrow> sim ev C (?e - 2) ?e \<rho> out' \<rho>')"
    using while_tests(3,4) [where ev = ev, OF C k v(1) v(2)] sim_steps q(1) by metis
qed

lemma dowhile_sim:
  assumes b: "sim_block ev m C b \<rho> out \<rho>1"
    and rest: "if out = Normal then \<exists>v. ev \<rho>1 c = Some v \<and>
        (if v = 0 then out' = Normal \<and> \<rho>' = \<rho>1 else sim_stmt ev m C (SDoWhile b c) \<rho>1 out' \<rho>')
      else out' = out \<and> \<rho>' = \<rho>1"
  shows "sim_stmt ev m C (SDoWhile b c) \<rho> out' \<rho>'"
proof (rule sim_stmtI)
  fix n code n' pre post
  assume l: "LowerStmt n (SDoWhile b c) = Some (code, n')" "src_ok m (SDoWhile b c)" "C = pre @ code @ post" "fresh_in pre post n n'"
  from l(1) obtain b' k where lb: "LowerBlock n b = Some (b', k)" and n': "n' = Suc k"
    and code: "code = SLabel k # b' @ [SCondGoto OP_brtrue c k]" by (auto simp: bind_eq_Some_conv)
  have ok: "src_ok_block m b" using l(2) by simp
  have L: "n \<le> k" "set (labels b') \<subseteq> {n..<k}" using lower_labels(2) [OF lb ok] by auto
  have C: "C = (pre @ [SLabel k]) @ b' @ SCondGoto OP_brtrue c k # post" using l(3) code by simp
  have fr: "fresh_in (pre @ [SLabel k]) (SCondGoto OP_brtrue c k # post) n k" using l(4) L n' by (auto simp: fresh_in_def)
  have k: "k \<notin> set (labels pre)" using fresh_inD [OF l(4), of k] L n' by auto
  have top: "step_by ev C (length pre, \<rho>) (Suc (length pre), \<rho>)"
    by (rule label_at [of C pre k "b' @ SCondGoto OP_brtrue c k # post"]) (use C in simp_all)
  let ?q = "Suc (length pre) + length b'" and ?e = "length pre + length code"
  have body: "sim ev C (Suc (length pre)) ?q \<rho> out \<rho>1" by (rule sim_blockD [OF b lb ok C fr]) simp_all
  have "sim ev C (Suc (length pre)) ?e \<rho> out' \<rho>'"
  proof (cases "out = Normal")
    case True
    then obtain v where v: "ev \<rho>1 c = Some v"
        "if v = 0 then out' = Normal \<and> \<rho>' = \<rho>1 else sim_stmt ev m C (SDoWhile b c) \<rho>1 out' \<rho>'" using rest by auto
    have "sim ev C ?q ?e \<rho>1 out' \<rho>'"
    proof (cases "v = 0")
      case True
      have "step_by ev C (?q, \<rho>1) (Suc ?q, \<rho>1)"
        by (rule cond_not_taken [of C "pre @ SLabel k # b'" OP_brtrue c k post ev \<rho>1 v]) (use C v True in \<open>simp_all add: taken_def\<close>)
      then show ?thesis using v True code by (simp add: sim_def r_into_rtranclp)
    next
      case False
      have "step_by ev C (?q, \<rho>1) (length pre, \<rho>1)"
        by (rule cond_taken [of C "pre @ SLabel k # b'" OP_brtrue c k post ev \<rho>1 v pre "b' @ SCondGoto OP_brtrue c k # post"])
          (use C v False k in \<open>simp_all add: taken_def\<close>)
      moreover have "sim ev C (length pre) ?e \<rho>1 out' \<rho>'" by (rule sim_stmtD [OF _ l]) (use v False in simp_all)
      ultimately show ?thesis by (rule sim_step)
    qed
    then show ?thesis using sim_seq body True by simp
  next
    case False
    then show ?thesis using rest body sim_exit by auto
  qed
  then show "sim ev C (length pre) ?e \<rho> out' \<rho>'" by (rule sim_step [OF top])
qed simp

lemma lower_append_assign:
  "LowerBlock n b = Some (b', k) \<Longrightarrow> LowerBlock n (b @ [SAssign r x p e]) = Some (b' @ [SAssign r x p e], k)"
proof (induction b arbitrary: n b')
  case (Cons s b)
  then obtain c n1 cs where "LowerStmt n s = Some (c, n1)" "LowerBlock n1 b = Some (cs, k)" "b' = c @ cs"
    by (auto simp: bind_eq_Some_conv)
  then show ?case using Cons.IH by simp
qed simp

lemma src_ok_append [simp]: "src_ok_block m (as @ bs) = (src_ok_block m as \<and> src_ok_block m bs)"
  by (induction as) auto

lemma doloop_sim:
  assumes s: "ev \<rho> s = Some v"
    and w: "sim_stmt ev m C (SWhile c (b @ [SAssign r x p (doloop_incr r x p i)])) (\<rho>(x := norm p v)) out \<rho>'"
  shows "sim_stmt ev m C (SDoloop r x p s c i b) \<rho> out \<rho>'"
proof (rule sim_stmtI)
  fix n code n' pre post
  let ?i = "SAssign r x p (doloop_incr r x p i)" and ?s = "SAssign r x p s"
  assume l: "LowerStmt n (SDoloop r x p s c i b) = Some (code, n')" "src_ok m (SDoloop r x p s c i b)"
    "C = pre @ code @ post" "fresh_in pre post n n'"
  from l(1) obtain code2 where c2: "LowerStmt n (SWhile c (b @ [?i])) = Some (code2, n')" "code = ?s # code2"
    by (auto simp: bind_eq_Some_conv Let_def lower_append_assign)
  have "step_by ev C (length pre, \<rho>) (Suc (length pre), \<rho>(x := norm p v))"
    by (rule step_at [of C pre ?s "code2 @ post"]) (use l(3) c2 s in simp_all)
  moreover have "sim ev C (Suc (length pre)) (length pre + length code) (\<rho>(x := norm p v)) out \<rho>'"
    by (rule sim_stmtD [OF w c2(1), of "pre @ [?s]" post]) (use l c2 in \<open>simp_all add: fresh_in_def\<close>)
  ultimately show "sim ev C (length pre) (length pre + length code) \<rho> out \<rho>'" by (rule sim_step)
qed simp

lemma cons_sim:
  assumes s: "sim_stmt ev m C s \<rho> out \<rho>1"
    and rest: "if out = Normal then sim_block ev m C ss \<rho>1 out' \<rho>' else out' = out \<and> \<rho>' = \<rho>1"
  shows "sim_block ev m C (s # ss) \<rho> out' \<rho>'"
  unfolding sim_block_def
proof (intro allI impI)
  fix n code n' pre post
  assume l: "LowerBlock n (s # ss) = Some (code, n')" "src_ok_block m (s # ss)" "C = pre @ code @ post" "fresh_in pre post n n'"
  from l(1) obtain c k cs where c: "LowerStmt n s = Some (c, k)" "LowerBlock k ss = Some (cs, n')" "code = c @ cs"
    by (auto simp: bind_eq_Some_conv)
  have ok: "src_ok m s" "src_ok_block m ss" using l(2) by simp_all
  note L = lower_labels(1) [OF c(1) ok(1)] lower_labels(2) [OF c(2) ok(2)]
  have fr: "fresh_in pre (cs @ post) n k" "fresh_in (pre @ c) post k n'"
    using fresh_in_split [OF l(4), of k "c" cs] L by auto
  have 1: "sim ev C (length pre) (length (pre @ c)) \<rho> out \<rho>1"
    by (rule sim_stmtD [OF s c(1) ok(1) _ fr(1)]) (use l c in simp_all)
  show "sim ev C (length pre) (length pre + length code) \<rho> out' \<rho>'"
  proof (cases "out = Normal")
    case True
    then have "sim ev C (length (pre @ c)) (length pre + length code) \<rho>1 out' \<rho>'"
      by (intro sim_blockD [OF _ c(2) ok(2) _ fr(2)]) (use l c rest in simp_all)
    with 1 True show ?thesis using sim_seq by simp
  next
    case False
    then show ?thesis using 1 rest sim_exit by auto
  qed
qed

lemma kept_stmt_sim:
  assumes "transfer_by ev s \<rho> = Some (out, \<rho>')" "\<And>n. LowerStmt n s = Some ([s], n)"
    and "src_ok m s \<Longrightarrow> out = Normal \<or> (\<exists>l. out = Jump l \<and> l < m) \<or> out = Returned"
    and "\<forall>l \<in> set (labels C). m \<le> l"
  shows "sim_stmt ev m C s \<rho> out \<rho>'"
proof (rule sim_stmtI)
  fix n code n' pre post
  assume l: "LowerStmt n s = Some (code, n')" "src_ok m s" "C = pre @ code @ post"
  then have "code = [s]" using assms(2) [of n] by simp
  then show "sim ev C (length pre) (length pre + length code) \<rho> out \<rho>'"
    using kept_sim [of n s ev \<rho> out \<rho>' m C pre post] assms l by simp
qed (use assms(2) in \<open>auto simp: bind_eq_Some_conv Let_def split: option.splits\<close>)

theorem lower_sim:
  assumes "\<forall>l \<in> set (labels C). m \<le> l"
  shows "exec_by ev s \<rho> out \<rho>' \<Longrightarrow> sim_stmt ev m C s \<rho> out \<rho>'"
    and "execs_by ev ss \<rho> out \<rho>' \<Longrightarrow> sim_block ev m C ss \<rho> out \<rho>'"
proof (induction rule: exec_by_execs_by.inducts)
  case (IfTrue \<rho> c v t out \<rho>' e)
  then show ?case by (intro sim_stmtI if_sim [where ev = ev and v = v and c = c and t = t and e = e]) auto
next
  case (IfFalse \<rho> c e out \<rho>' t)
  then show ?case by (intro sim_stmtI if_sim [where ev = ev and v = 0 and c = c and t = t and e = e]) auto
next
  case (Range \<rho> e v off tbl l)
  then show ?case by (intro kept_stmt_sim assms) (auto dest: range_target_in)
next
  case (Switch \<rho> e v d tbl)
  then show ?case using switch_target_in [of d tbl v] by (intro kept_stmt_sim assms) auto
next
  case (Assign \<rho> e v r x p)
  then show ?case by (intro kept_stmt_sim assms) auto
next
  case (Goto l \<rho>)
  then show ?case by (intro kept_stmt_sim assms) auto
next
  case (CondTaken \<rho> c v br l)
  then show ?case by (intro kept_stmt_sim assms) auto
next
  case (Doloop \<rho> s v c b r x p i out \<rho>')
  then show ?case using doloop_sim by blast
next
  case (Block b \<rho> out \<rho>')
  then show ?case by (auto simp: sim_stmt_def sim_block_def)
next
  case (Nil \<rho>)
  then show ?case by (auto simp: sim_block_def sim_refl)
qed (simp_all add: while_exit_sim while_body_sim dowhile_sim doloop_sim cons_sim kept_stmt_sim assms)


lemma lowered_runs:
  assumes "LowerBlock n ss = Some (code, n')" "src_ok_block m ss" "m \<le> n" "execs_by ev ss \<rho> out \<rho>'"
  shows "runs_by ev code \<rho> out2 \<rho>2 \<longleftrightarrow> out2 = out \<and> \<rho>2 = \<rho>'"
proof -
  have "\<forall>l \<in> set (labels code). m \<le> l" using lower_labels(2) [OF assms(1,2)] assms(3) by fastforce
  from lower_sim(2) [OF this assms(4)] have "sim ev code 0 (length code) \<rho> out \<rho>'"
    by (rule sim_blockD [OF _ assms(1,2), where pre = "[]" and post = "[]"]) (simp_all add: fresh_in_def)
  then have "runs_by ev code \<rho> out \<rho>'" by (auto simp: sim_def runs_by_def split: if_splits intro: exits_by.End)
  then show ?thesis using runs_det by blast
qed

text \<open>
  C2. Lowering a structured block to branches keeps its meaning. The block has no labels of its own, jumps
  to labels below \<open>m\<close>, which are older than the counter, and every \<open>if\<close> has a then part that is empty or
  holds more than empty blocks (\<open>src_ok_block\<close>). If the block runs to an outcome (falling through, a jump to
  a label of the function, a return) with some final store, the lowered code runs to the same outcome and
  store, and to no other.
\<close>

theorem LowerBlock_correct:
  assumes "LowerBlock n ss = Some (code, n')" "src_ok_block m ss" "m \<le> n" "execs ss \<rho> out \<rho>'"
  shows "runs code \<rho> out2 \<rho>2 \<longleftrightarrow> out2 = out \<and> \<rho>2 = \<rho>'"
  using assms by (rule lowered_runs)

text \<open>
  Where lowering would read the first or last statement of an empty block: \<open>null_free\<close> asks that the then
  part of every \<open>if\<close> is empty, or lowers to something, or has an empty (but present) else part beside it.
\<close>

fun null_free :: "stmt \<Rightarrow> bool" and null_free_block :: "stmt list \<Rightarrow> bool" where
  "null_free (SIf c t None) = (null_free_block t \<and> (t = [] \<or> emits_block t))"
| "null_free (SIf c t (Some e)) =
     (null_free_block t \<and> null_free_block e \<and> (t = [] \<or> emits_block t \<or> e = []))"
| "null_free (SWhile c b) = null_free_block b"
| "null_free (SDoWhile b c) = null_free_block b"
| "null_free (SDoloop r x p s c i b) = null_free_block b"
| "null_free (SBlock b) = null_free_block b"
| "null_free s = True"
| "null_free_block [] = True"
| "null_free_block (s # ss) = (null_free s \<and> null_free_block ss)"

lemma lower_emits_none:
  "LowerStmt n s = Some (code, n') \<Longrightarrow> \<not> emits s \<Longrightarrow> code = []"
  "LowerBlock n ss = Some (code, n') \<Longrightarrow> \<not> emits_block ss \<Longrightarrow> code = []"
  by (induction n s and n ss arbitrary: code n' and code n' rule: LowerStmt_LowerBlock.induct)
    (auto simp: bind_eq_Some_conv)

lemma lower_if_None:
  "t = [] \<longrightarrow> t' = [] \<Longrightarrow> els \<noteq> [] \<longrightarrow> e' \<noteq> None \<Longrightarrow>
   lower_if (t = []) (els = []) n c t' e' = None \<longleftrightarrow> t \<noteq> [] \<and> t' = [] \<and> (els \<noteq> [] \<or> e' = None)"
  by (cases e') (auto simp: lower_if_def CreateBrFalseStmt_def CreateBrTrueStmt_def
      CreateBrFalseAndGotoStmt_def CreateCondGotoStmt_def IfStmtNoFallThrough_def)

lemma lower_None:
  "LowerStmt n s = None \<longleftrightarrow> \<not> null_free s"
  "LowerBlock n ss = None \<longleftrightarrow> \<not> null_free_block ss"
proof (induction n s and n ss rule: LowerStmt_LowerBlock.induct)
  case (1 n c t)
  show ?case
  proof (cases "LowerBlock n t")
    case (Some r)
    obtain t' n1 where t': "LowerBlock n t = Some (t', n1)" using Some by (cases r) simp
    have s: "t = [] \<longrightarrow> t' = []" using t' by (cases t) auto
    have "t' = [] \<longleftrightarrow> \<not> emits_block t" using lower_emits(2) [OF t'] lower_emits_none(2) [OF t'] by blast
    then show ?thesis using lower_if_None [of t t' "[]" None n1 c] s 1 t' by auto
  qed (use 1 in simp)
next
  case (2 n c t e)
  show ?case
  proof (cases "LowerBlock n t")
    case (Some r)
    obtain t' n1 where t': "LowerBlock n t = Some (t', n1)" using Some by (cases r) simp
    have s: "t = [] \<longrightarrow> t' = []" using t' by (cases t) auto
    have em: "t' = [] \<longleftrightarrow> \<not> emits_block t" using lower_emits(2) [OF t'] lower_emits_none(2) [OF t'] by blast
    have ih: "LowerBlock n1 e = None \<longleftrightarrow> \<not> null_free_block e" using 2(2) [OF t' refl] .
    show ?thesis
    proof (cases "LowerBlock n1 e")
      case None
      then show ?thesis using ih t' by simp
    next
      case (Some r2)
      obtain e' n2 where "LowerBlock n1 e = Some (e', n2)" using Some by (cases r2) simp
      then show ?thesis using lower_if_None [of t t' e "Some e'" n2 c] s em ih 2(1) t' by auto
    qed
  qed (use 2(1) in simp)
next
  case (9 n s ss)
  then show ?case by (cases "LowerStmt n s") (auto simp: bind_eq_None_conv split: prod.splits)
qed (auto simp: Let_def bind_eq_None_conv split: prod.splits)

text \<open>
  C31. Which blocks are lowered, and what labels their code has. Lowering fails, by dereferencing a null
  statement, exactly on the blocks that are not \<open>null_free\<close>: those with an \<open>if\<close> whose then part is written
  but holds only empty blocks, unless its else part is written and empty. On a block without labels of its
  own (\<open>src_ok_block\<close>) the labels in the code are new, from the counter as it was to the counter as it is
  afterwards, and each is at one place.
\<close>

theorem LowerBlock_labels:
  "(LowerBlock n ss = None \<longleftrightarrow> \<not> null_free_block ss) \<and>
   (src_ok_block m ss \<longrightarrow> (\<exists>code n'. LowerBlock n ss = Some (code, n') \<and> n \<le> n' \<and>
      set (labels code) \<subseteq> {n..<n'} \<and> distinct (labels code)))"
  using lower_None(2) lower_total(2) [of m ss n] lower_labels(2) by blast


definition countdown :: "stmt list" where
  "countdown =
     [SWhile (ELeaf OP_dread PTY_i32 0)
        [SIf (ECompare OP_eq PTY_u1 PTY_i32 (ELeaf OP_dread PTY_i32 0) (EConst PTY_i32 \<lparr>ic_type = PTY_i32, ic_value = 1\<rparr>))
           [SGoto 3] (Some [SEval (ELeaf OP_dread PTY_i32 1)]),
         SAssign False 0 PTY_i32 (EBinary OP_sub PTY_i32 (ELeaf OP_dread PTY_i32 0)
           (EConst PTY_i32 \<lparr>ic_type = PTY_i32, ic_value = 1\<rparr>))]]"

lemma countdown_runs: "execs countdown ((\<lambda>_. 0)(0 := 2)) (Jump 3) ((\<lambda>_. 0)(0 := 2, 0 := 1))"
proof -
  have one: "norm PTY_i32 1 = 1" by code_simp
  have "execs countdown ((\<lambda>_. 0)(0 := 2)) (Jump 3) ((\<lambda>_. 0)(0 := 2, 0 := norm PTY_i32 1))"
  unfolding countdown_def
  apply (rule exec_by_execs_by.ConsExit)
   apply (rule exec_by_execs_by.WhileTrue [where v = 2], code_simp, code_simp)
    apply (rule exec_by_execs_by.Cons)
     apply (rule exec_by_execs_by.IfFalse, code_simp)
     apply simp
     apply (rule exec_by_execs_by.Cons, rule exec_by_execs_by.Eval [where v = 0], code_simp, rule exec_by_execs_by.Nil)
    apply (rule exec_by_execs_by.Cons, rule exec_by_execs_by.Assign [where v = 1], code_simp, rule exec_by_execs_by.Nil)
   apply (rule exec_by_execs_by.WhileExit [where v = 1], code_simp, code_simp)
    apply (rule exec_by_execs_by.ConsExit)
     apply (rule exec_by_execs_by.IfTrue [where v = 1], code_simp, code_simp)
     apply (rule exec_by_execs_by.ConsExit, rule exec_by_execs_by.Goto)
    by simp_all
  then show ?thesis unfolding one .
qed

lemma LowerBlock_correct_witness:
  "runs (fst (the (LowerBlock 4 countdown))) ((\<lambda>_. 0)(0 := 2)) (Jump 3) ((\<lambda>_. 0)(0 := 2, 0 := 1))"
proof -
  have "LowerBlock 4 countdown = Some (fst (the (LowerBlock 4 countdown)), 7)" by code_simp
  moreover have "src_ok_block 4 countdown" by code_simp
  ultimately show ?thesis
    using LowerBlock_correct [of 4 countdown _ 7 4 _ "Jump 3"] countdown_runs by blast
qed

lemma LowerBlock_labels_witness:
  "LowerBlock 4 [SIf (ELeaf OP_dread PTY_i32 0) [SBlock []] None] = None \<and>
   (\<exists>code n'. LowerBlock 4 countdown = Some (code, n') \<and> 4 \<le> n' \<and> set (labels code) \<subseteq> {4..<n'} \<and> distinct (labels code))"
proof
  show "LowerBlock 4 [SIf (ELeaf OP_dread PTY_i32 0) [SBlock []] None] = None"
    using LowerBlock_labels [of 4 "[SIf (ELeaf OP_dread PTY_i32 0) [SBlock []] None]" 0] by simp
  have "src_ok_block 4 countdown" by code_simp
  then show "\<exists>code n'. LowerBlock 4 countdown = Some (code, n') \<and> 4 \<le> n' \<and> set (labels code) \<subseteq> {4..<n'} \<and> distinct (labels code)"
    using LowerBlock_labels [of 4 countdown 4] by blast
qed

text \<open>
  An \<open>if\<close> whose then part holds only an empty block is lowered through a null pointer:
  \<open>CreateCondGotoStmt\<close> looks at the emptiness of the lowered part where \<open>LowerIfStmt\<close>
  looked at the part as it was.
\<close>

lemma lower_if_empty_block_fails:
  "LowerStmt n (SIf c [SBlock []] None) = None"
  by (simp add: lower_if_def CreateBrFalseStmt_def CreateCondGotoStmt_def)

end
