(* ===== verification/SwitchLower.thy ===== *)
theory SwitchLower
  imports MirLowerSound
begin

text \<open>
  Lowering of \<open>switch\<close> (maple_be/src/be/switch_lowerer.cpp): the table is sorted by its signed
  64-bit tags, dense runs of it become one item each, and the items become a tree of comparisons
  with jumps and range gotos in its leaves. The record holds the fields of the \<open>SwitchNode\<close>.
  Labels are threaded as in MirLower, and \<open>jumpToDefaultBlockGenerated\<close> with them. Tables and
  items are read with \<open>nth\<close>: the indices are in range, the checked \<open>at(mid - 1)\<close> apart, which
  is the \<open>None\<close> of the model together with a constant that cannot be built.
\<close>

section \<open>The statement\<close>

record switch_stmt =
  sw_opnd :: expr
  sw_default :: nat
  sw_table :: "(i64 \<times> nat) list"

abbreviation tag :: "switch_stmt \<Rightarrow> nat \<Rightarrow> i64" where
  "tag sw i \<equiv> fst (sw_table sw ! i)"

definition kClusterSwitchCutoff :: nat where "kClusterSwitchCutoff = 5"
definition kMaxRangeGotoTableSize :: int where "kMaxRangeGotoTableSize = 127"

section \<open>Dense runs\<close>

text \<open>
  Single precision. The result of converting an integer, or of subtracting two converted
  integers, is an integer: \<open>to_float\<close> rounds it to 24 significant bits, ties to even. The two
  density bounds are \<open>13421773 / 2 ^ 25\<close> and \<open>13421773 / 2 ^ 26\<close>, the floats next to 0.4 and 0.2.
  The quotient \<open>a / b\<close> rounds to at least \<open>m / 2 ^ k\<close> (\<open>m\<close> odd with 24 bits) when it lies above
  the middle \<open>(2 m - 1) / 2 ^ (k + 1)\<close> between that float and the one below; \<open>a / 0\<close> is infinite.
\<close>

function float_exp :: "int \<Rightarrow> nat" where
  "float_exp n = (if n < 2 ^ 24 then 0 else Suc (float_exp (n div 2)))"
  by pat_completeness auto

termination float_exp
  by (relation "measure nat") auto

declare float_exp.simps [simp del]

definition to_float :: "int \<Rightarrow> int" where
  "to_float x =
     (let a = \<bar>x\<bar>; e = float_exp a; q = a div 2 ^ e; r = a mod 2 ^ e;
          up = (2 * r > 2 ^ e \<or> 2 * r = 2 ^ e \<and> odd q)
      in sgn x * (if up then q + 1 else q) * 2 ^ e)"

definition quotient_ge :: "int \<Rightarrow> int \<Rightarrow> int \<Rightarrow> nat \<Rightarrow> bool" where
  "quotient_ge a b m k = (b = 0 \<or> 0 < b \<and> (2 * m - 1) * b < 2 ^ (k + 1) * a)"

definition dense :: "switch_stmt \<Rightarrow> nat \<Rightarrow> nat \<Rightarrow> bool" where
  "dense sw i j =
     (let tmp1 = to_float (int j - int i);
          tmp2 = to_float (to_float (sint (tag sw j)) - to_float (sint (tag sw i)))
      in kClusterSwitchCutoff \<le> j - i \<and>
         (quotient_ge tmp1 tmp2 13421773 25
          \<or> quotient_ge tmp1 tmp2 13421773 26 \<and> tmp2 < kMaxRangeGotoTableSize))"

text \<open>The inner loop of \<open>FindClusters\<close>: the largest \<open>j\<close> above \<open>i\<close>, from the given one down.\<close>

fun dense_end :: "switch_stmt \<Rightarrow> nat \<Rightarrow> nat \<Rightarrow> nat option" where
  "dense_end sw i 0 = None"
| "dense_end sw i (Suc j) =
     (if i < Suc j then (if dense sw i (Suc j) then Some (Suc j) else dense_end sw i j) else None)"

lemma dense_end_Some: "dense_end sw i k = Some j \<Longrightarrow> i < j \<and> j \<le> k \<and> dense sw i j"
  by (induction sw i k rule: dense_end.induct) (auto split: if_splits)

function clusters_from :: "switch_stmt \<Rightarrow> nat \<Rightarrow> (nat \<times> nat) list" where
  "clusters_from sw i =
     (if i + kClusterSwitchCutoff < length (sw_table sw)
      then (case dense_end sw i (length (sw_table sw) - 1) of
              Some j \<Rightarrow> (i, j) # clusters_from sw (j + 1)
            | None \<Rightarrow> clusters_from sw (i + 1))
      else [])"
  by pat_completeness auto

termination clusters_from
  by (relation "measure (\<lambda>(sw, i). length (sw_table sw) - i)") (auto dest!: dense_end_Some)

declare clusters_from.simps [simp del]

definition FindClusters :: "switch_stmt \<Rightarrow> (nat \<times> nat) list" where
  "FindClusters sw = clusters_from sw 0"

text \<open>An item \<open>(i, 0)\<close> is the entry \<open>i\<close> of the table, an item \<open>(i, j)\<close> a dense run.\<close>

function items_from :: "nat \<Rightarrow> nat \<Rightarrow> (nat \<times> nat) list \<Rightarrow> (nat \<times> nat) list" where
  "items_from count i clusters =
     (if i < count then
        (case clusters of
           [] \<Rightarrow> (i, 0) # items_from count (i + 1) []
         | front # rest \<Rightarrow>
             if i = fst front then (i, snd front) # items_from count (snd front + 1) rest
             else (i, 0) # items_from count (i + 1) clusters)
      else [])"
  by pat_completeness auto

termination items_from
  by (relation "measures [\<lambda>(count, i, clusters). length clusters, \<lambda>(count, i, clusters). count - i]") auto

declare items_from.simps [simp del]

definition InitSwitchItems :: "switch_stmt \<Rightarrow> (nat \<times> nat) list \<Rightarrow> (nat \<times> nat) list" where
  "InitSwitchItems sw clusters = items_from (length (sw_table sw)) 0 clusters"

section \<open>Nodes\<close>

text \<open>The gaps between two tags of a run go to the default label.\<close>

function range_gap :: "nat \<Rightarrow> i64 \<Rightarrow> i64 \<Rightarrow> i64 \<Rightarrow> (u32 \<times> nat) list" where
  "range_gap d off lastCaseTag t =
     (if t \<noteq> lastCaseTag + 1 \<and> t \<noteq> lastCaseTag
      then (ucast (lastCaseTag + 1 - off), d) # range_gap d off (lastCaseTag + 1) t
      else [])"
  by pat_completeness auto

lemma unat_diff_less: "(t :: i64) \<noteq> l \<Longrightarrow> unat (t - (l + 1)) < unat (t - l)"
proof -
  assume "t \<noteq> l"
  then have "t - l \<noteq> 0" by simp
  then have "unat (t - l - 1) = unat (t - l) - 1" "0 < unat (t - l)" by (simp_all add: unat_minus_one unat_gt_0)
  then show ?thesis by (simp add: algebra_simps)
qed

termination range_gap
  by (relation "measure (\<lambda>(d, off, l, t). unat (t - l))") (auto simp: unat_diff_less)

declare range_gap.simps [simp del]

fun range_table :: "nat \<Rightarrow> i64 \<Rightarrow> i64 \<Rightarrow> (i64 \<times> nat) list \<Rightarrow> (u32 \<times> nat) list" where
  "range_table d off lastCaseTag [] = []"
| "range_table d off lastCaseTag ((t, l) # rest) =
     range_gap d off lastCaseTag t @ (ucast (t - off), l) # range_table d off t rest"

definition BuildRangeGotoNode :: "switch_stmt \<Rightarrow> nat \<Rightarrow> nat \<Rightarrow> stmt" where
  "BuildRangeGotoNode sw startIdx endIdx =
     (let off = tag sw startIdx in
      SRangeGoto (sw_opnd sw) off
        ((0, snd (sw_table sw ! startIdx)) #
         range_table (sw_default sw) off off
           (map (\<lambda>i. sw_table sw ! i) [startIdx + 1..<endIdx + 1])))"

definition BuildCmpNode :: "switch_stmt \<Rightarrow> opcode \<Rightarrow> nat \<Rightarrow> expr option" where
  "BuildCmpNode sw op idx = do {
     let ty = GetPrimType (sw_opnd sw);
     c \<leftarrow> MIRIntConst (tag sw idx) ty;
     Some (ECompare op PTY_u32 ty (sw_opnd sw) (EConst ty c)) }"

text \<open>The index -1 of the code is the default label.\<close>

definition sw_label :: "switch_stmt \<Rightarrow> nat option \<Rightarrow> nat" where
  "sw_label sw idx = (case idx of None \<Rightarrow> sw_default sw | Some i \<Rightarrow> snd (sw_table sw ! i))"

definition BuildGotoNode :: "switch_stmt \<Rightarrow> nat option \<Rightarrow> stmt" where
  "BuildGotoNode sw idx = SGoto (sw_label sw idx)"

definition BuildCondGotoNode :: "switch_stmt \<Rightarrow> nat option \<Rightarrow> branch_op \<Rightarrow> expr \<Rightarrow> stmt" where
  "BuildCondGotoNode sw idx op cond = SCondGoto op cond (sw_label sw idx)"

section \<open>The code for a range of items\<close>

definition tag_adjacent :: "switch_stmt \<Rightarrow> nat \<Rightarrow> nat \<Rightarrow> bool" where
  "tag_adjacent sw i j = (tag sw i + 1 = tag sw j)"

text \<open>The dense items at the low side: code, first item left, low bound checked, next label.\<close>

function build_low ::
  "switch_stmt \<Rightarrow> (nat \<times> nat) list \<Rightarrow> nat \<Rightarrow> nat \<Rightarrow> bool \<Rightarrow> nat \<Rightarrow> (stmt list \<times> nat \<times> bool \<times> nat) option" where
  "build_low sw items start end lowChk n =
     (if start \<le> end \<and> snd (items ! start) \<noteq> 0 then do {
        let (lo, hi) = items ! start;
        pre \<leftarrow> (if lowChk \<or> IsUnsignedInteger (GetPrimType (sw_opnd sw)) \<and> tag sw lo = 0 then Some []
               else do { c \<leftarrow> BuildCmpNode sw OP_lt lo; Some [BuildCondGotoNode sw None OP_brtrue c] });
        cmp \<leftarrow> BuildCmpNode sw OP_le hi;
        (blk, n1) \<leftarrow> LowerIfStmt n cmp [BuildRangeGotoNode sw lo hi] None False;
        let low' = (if start < end then tag_adjacent sw hi (fst (items ! (start + 1))) else True);
        (rest, start', low'', n2) \<leftarrow> build_low sw items (start + 1) end low' n1;
        Some (pre @ blk @ rest, start', low'', n2) }
      else Some ([], start, lowChk, n))"
  by pat_completeness auto

termination build_low
  by (relation "measure (\<lambda>(sw, items, start, end, lowChk, n). Suc end - start)") auto

declare build_low.simps [simp del]

text \<open>
  The dense items at the high side. The item range is \<open>start \<le> end\<close> as long as it is not empty;
  \<open>end\<close> here is the number of items up to it, so that an \<open>end\<close> of -1 is 0.
\<close>

fun build_high ::
  "switch_stmt \<Rightarrow> (nat \<times> nat) list \<Rightarrow> nat \<Rightarrow> nat \<Rightarrow> bool \<Rightarrow> nat \<Rightarrow> (stmt list \<times> nat \<times> bool \<times> nat) option" where
  "build_high sw items start 0 highChk n = Some ([], 0, highChk, n)"
| "build_high sw items start (Suc end) highChk n =
     (if start \<le> end \<and> snd (items ! end) \<noteq> 0 then do {
        let (lo, hi) = items ! end;
        pre \<leftarrow> (if highChk then Some []
               else do { c \<leftarrow> BuildCmpNode sw OP_gt hi; Some [BuildCondGotoNode sw None OP_brtrue c] });
        cmp \<leftarrow> BuildCmpNode sw OP_ge lo;
        (blk, n1) \<leftarrow> LowerIfStmt n cmp [BuildRangeGotoNode sw lo hi] None False;
        let high' = (if start < end
                     then tag sw lo - 1 = tag sw (fst (items ! (end - 1)))
                        \<or> tag sw lo - 1 = tag sw (snd (items ! (end - 1)))
                     else True);
        (rest, end', high'', n2) \<leftarrow> build_high sw items start end high' n1;
        Some (pre @ blk @ rest, end', high'', n2) }
      else Some ([], Suc end, highChk, n))"

text \<open>The equality tests for what remains: code, first item left, low bound checked.\<close>

function build_eq ::
  "switch_stmt \<Rightarrow> (nat \<times> nat) list \<Rightarrow> nat \<Rightarrow> nat \<Rightarrow> bool \<Rightarrow> bool \<Rightarrow> (stmt list \<times> nat \<times> bool) option" where
  "build_eq sw items start end lowChk highChk =
     (if start \<le> end \<and> snd (items ! start) = 0 then do {
        let i = fst (items ! start);
        s \<leftarrow> (if start = end \<and> lowChk \<and> highChk then Some (BuildGotoNode sw (Some i))
              else do { c \<leftarrow> BuildCmpNode sw OP_eq i; Some (BuildCondGotoNode sw (Some i) OP_brtrue c) });
        let low' = (if lowChk \<and> start < end then tag_adjacent sw i (fst (items ! (start + 1))) else lowChk);
        (rest, start', low'') \<leftarrow> build_eq sw items (start + 1) end low' highChk;
        Some (s # rest, start', low'') }
      else Some ([], start, lowChk))"
  by pat_completeness auto

termination build_eq
  by (relation "measure (\<lambda>(sw, items, start, end, lowChk, highChk). Suc end - start)") auto

declare build_eq.simps [simp del]

text \<open>The tag that splits the range: no signed overflow, whatever the signs.\<close>

definition middle_tag :: "i64 \<Rightarrow> i64 \<Rightarrow> i64" where
  "middle_tag lowestTag highestTag =
     (if (lowestTag XOR highestTag) AND push_bit 63 1 = 0
      then word_of_int (sint (highestTag - lowestTag) sdiv 2) + lowestTag
      else word_of_int (sint (highestTag + lowestTag) sdiv 2))"

fun find_mid :: "switch_stmt \<Rightarrow> (nat \<times> nat) list \<Rightarrow> i64 \<Rightarrow> nat \<Rightarrow> nat" where
  "find_mid sw [] middle mid = mid"
| "find_mid sw (it # items) middle mid =
     (if tag sw (fst it) <s middle then find_mid sw items middle (mid + 1) else mid)"

text \<open>
  \<open>BuildCodeForSwitchItems\<close>: the code, the next label, and whether a jump to the default label
  was generated. The depth of the recursion is at most the number of items, which is the fuel
  \<open>LowerSwitch\<close> gives.
\<close>

definition default_jump :: "switch_stmt \<Rightarrow> stmt list \<Rightarrow> bool \<Rightarrow> bool \<Rightarrow> nat \<Rightarrow> bool \<Rightarrow> (stmt list \<times> nat \<times> bool) option" where
  "default_jump sw code lowChk highChk n jd =
     (if \<not> lowChk \<or> \<not> highChk then Some (code @ [BuildGotoNode sw None], n, True) else Some (code, n, jd))"

type_synonym builder =
  "switch_stmt \<Rightarrow> (nat \<times> nat) list \<Rightarrow> nat \<Rightarrow> nat \<Rightarrow> bool \<Rightarrow> bool \<Rightarrow> nat \<Rightarrow> bool \<Rightarrow> (stmt list \<times> nat \<times> bool) option"

definition build_few :: "builder \<Rightarrow> builder" where
  "build_few rec sw items start end lowChk highChk n jd = do {
     (code3, start', lowChk') \<leftarrow> build_eq sw items start end lowChk highChk;
     (if start' \<le> end then do {
        (tmp, n', jd') \<leftarrow> rec sw items start' end lowChk' highChk n jd;
        Some (code3 @ tmp, n', jd') }
      else default_jump sw code3 lowChk' highChk n jd) }"

definition build_split :: "builder \<Rightarrow> builder" where
  "build_split rec sw items start end lowChk highChk n jd = do {
     let lowestTag = tag sw (fst (items ! start));
     let highestTag = tag sw (fst (items ! end));
     let mid = find_mid sw (drop start items) (middle_tag lowestTag highestTag) start;
     cmp \<leftarrow> BuildCmpNode sw OP_lt (fst (items ! mid));
     (if mid = 0 then None else do {
        let prev = items ! (mid - 1);
        let leftHigh = (tag_adjacent sw (fst prev) (fst (items ! mid))
                      \<or> tag_adjacent sw (snd prev) (fst (items ! mid)));
        (t, n1, jd1) \<leftarrow> rec sw items start (mid - 1) lowChk leftHigh n jd;
        (e, n2, jd2) \<leftarrow> rec sw items mid end True highChk n1 jd1;
        (blk, n3) \<leftarrow> LowerIfStmt n2 cmp t (Some e) False;
        Some (blk, n3, jd2) }) }"

definition build_rest :: "builder \<Rightarrow> builder" where
  "build_rest rec sw items start end1 lowChk highChk n jd =
     (let end = end1 - 1 in
      if start \<ge> end1 then default_jump sw [] lowChk highChk n jd
      else if start = end \<and> lowChk \<and> highChk
      then Some ([BuildGotoNode sw (Some (fst (items ! start)))], n, jd)
      else if end < start + kClusterSwitchCutoff
      then build_few rec sw items start end lowChk highChk n jd
      else build_split rec sw items start end lowChk highChk n jd)"

definition build_items :: "builder \<Rightarrow> builder" where
  "build_items rec sw items start end lowChk highChk n jd =
     (if start > end then Some ([], n, jd) else do {
        (code1, start', lowChk', n1) \<leftarrow> build_low sw items start end lowChk n;
        (code2, end1, highChk', n2) \<leftarrow> build_high sw items start' (end + 1) highChk n1;
        (code3, n3, jd') \<leftarrow> build_rest rec sw items start' end1 lowChk' highChk' n2 jd;
        Some (code1 @ code2 @ code3, n3, jd') })"

primrec BuildCodeForSwitchItems :: "nat \<Rightarrow> builder" where
  "BuildCodeForSwitchItems 0 = (\<lambda>sw items start end lowChk highChk n jd. None)"
| "BuildCodeForSwitchItems (Suc fuel) = build_items (BuildCodeForSwitchItems fuel)"

definition LowerSwitch :: "switch_stmt \<Rightarrow> nat \<Rightarrow> (stmt list \<times> nat) option" where
  "LowerSwitch sw0 n =
     (if sw_table sw0 = [] then Some ([BuildGotoNode sw0 None], n)
      else do {
        let sw = sw0\<lparr>sw_table := sort_key (sint \<circ> fst) (sw_table sw0)\<rparr>;
        let items = InitSwitchItems sw (FindClusters sw);
        (code, n', jd) \<leftarrow> BuildCodeForSwitchItems (length items) sw items 0 (length items - 1) False False n False;
        Some (if jd then code else code @ [BuildGotoNode sw None], n') })"

end
