(* ===== verification/SwitchItems.thy ===== *)
theory SwitchItems
  imports SwitchLower
begin

text \<open>
  Facts about the parts of SwitchLower: the dense runs are disjoint and in order, the items cover
  the table, the comparison nodes compare tags, a range goto finds the entry of a tag.
\<close>

section \<open>Items cover the table in order\<close>

abbreviation ilo :: "(nat \<times> nat) list \<Rightarrow> nat \<Rightarrow> nat" where "ilo items k \<equiv> fst (items ! k)"
definition ihi :: "(nat \<times> nat) list \<Rightarrow> nat \<Rightarrow> nat" where
  "ihi items k = (if snd (items ! k) = 0 then fst (items ! k) else snd (items ! k))"

text \<open>The items from table index \<open>i\<close> to \<open>N\<close>, as a list property.\<close>

fun cover :: "nat \<Rightarrow> nat \<Rightarrow> (nat \<times> nat) list \<Rightarrow> bool" where
  "cover i N [] = (i = N)"
| "cover i N ((a, b) # rest) = (a = i \<and> (b = 0 \<and> i < N \<and> cover (Suc i) N rest \<or> a < b \<and> b < N \<and> cover (Suc b) N rest))"

lemma cover_le: "cover i N items \<Longrightarrow> i \<le> N"
  by (induction i N items rule: cover.induct) auto

fun ascending :: "nat \<Rightarrow> nat \<Rightarrow> (nat \<times> nat) list \<Rightarrow> bool" where
  "ascending i N [] = True"
| "ascending i N ((a, b) # rest) = (i \<le> a \<and> a < b \<and> b < N \<and> ascending (Suc b) N rest)"

lemma ascending_mono: "ascending j N cs \<Longrightarrow> i \<le> j \<Longrightarrow> ascending i N cs"
  by (cases cs) auto

lemma clusters_ascending: "ascending i (length (sw_table sw)) (clusters_from sw i)"
proof (induction sw i rule: clusters_from.induct)
  case (1 sw i)
  show ?case
    using 1 by (subst clusters_from.simps) (auto split: option.splits dest!: dense_end_Some intro: ascending_mono)
qed

lemma clusters_dense: "(a, b) \<in> set (clusters_from sw i) \<Longrightarrow> dense sw a b"
proof (induction sw i rule: clusters_from.induct)
  case (1 sw i)
  from 1(3) show ?case
    by (subst (asm) clusters_from.simps)
      (auto split: option.splits if_splits dest: dense_end_Some intro: 1)
qed

lemma items_cover: "ascending i N cs \<Longrightarrow> i \<le> N \<Longrightarrow> cover i N (items_from N i cs)"
proof (induction N i cs rule: items_from.induct)
  case (1 N i cs)
  show ?case
  proof (cases cs)
    case Nil
    then show ?thesis using 1 by (subst items_from.simps) auto
  next
    case (Cons c rest)
    then obtain a b where c: "cs = (a, b) # rest" by (cases c) auto
    then show ?thesis using 1 by (subst items_from.simps) (auto simp: Suc_le_eq)
  qed
qed

lemma items_clusters: "ascending i N cs \<Longrightarrow> (a, b) \<in> set (items_from N i cs) \<Longrightarrow> b \<noteq> 0 \<Longrightarrow> (a, b) \<in> set cs"
proof (induction N i cs rule: items_from.induct)
  case (1 N i cs)
  show ?case
  proof (cases cs)
    case Nil
    then show ?thesis using 1 by (subst (asm) items_from.simps) (auto split: if_splits)
  next
    case (Cons c rest)
    then obtain x y where c: "cs = (x, y) # rest" by (cases c) auto
    then show ?thesis
      using 1 by (subst (asm) (2) items_from.simps) (auto split: if_splits)
  qed
qed

text \<open>The same, by position.\<close>

lemma cover_nth:
  "cover i N items \<Longrightarrow> k < length items \<Longrightarrow>
     i \<le> ilo items k \<and> ilo items k \<le> ihi items k \<and> ihi items k < N \<and> (snd (items ! k) \<noteq> 0 \<longrightarrow> ilo items k < snd (items ! k))"
proof (induction i N items arbitrary: k rule: cover.induct)
  case (2 i N a b rest)
  show ?case
  proof (cases k)
    case 0
    then show ?thesis using 2 by (auto simp: ihi_def)
  next
    case (Suc k')
    then show ?thesis using 2 by (fastforce simp: ihi_def)
  qed
qed auto

lemma cover_next:
  "cover i N items \<Longrightarrow> Suc k < length items \<Longrightarrow> ilo items (Suc k) = Suc (ihi items k)"
proof (induction i N items arbitrary: k rule: cover.induct)
  case (2 i N a b rest)
  show ?case
  proof (cases k)
    case 0
    then obtain c d r where "rest = (c, d) # r" using 2(4) by (cases rest) auto
    then show ?thesis using 0 2(3) by (auto simp: ihi_def)
  next
    case (Suc k')
    then show ?thesis using 2 by (auto simp: ihi_def)
  qed
qed auto

lemma cover_first: "cover i N items \<Longrightarrow> items \<noteq> [] \<Longrightarrow> ilo items 0 = i"
  by (cases items) auto

lemma cover_last: "cover i N items \<Longrightarrow> items \<noteq> [] \<Longrightarrow> Suc (ihi items (length items - 1)) = N"
proof (induction i N items rule: cover.induct)
  case (2 i N a b rest)
  then show ?case by (cases "rest = []") (auto simp: ihi_def nth_Cons')
qed auto


section \<open>The table and the operand\<close>

abbreviation sw_type :: "switch_stmt \<Rightarrow> prim_type" where
  "sw_type sw \<equiv> GetPrimType (sw_opnd sw)"

definition key :: "prim_type \<Rightarrow> i64 \<Rightarrow> int" where
  "key p v = (if IsSignedInteger p then sint v else uint v)"

text \<open>
  The tags are values of the operand's type, sorted and distinct. The code sorts them as signed
  64-bit values, so those of an unsigned type must not reach the sign bit.
\<close>

definition tags_ok :: "prim_type \<Rightarrow> (i64 \<times> nat) list \<Rightarrow> bool" where
  "tags_ok p tbl = (scalar_int p \<and>
     (\<forall>t \<in> fst ` set tbl. at_type p t = Some t \<and> (IsSignedInteger p \<or> 0 \<le> sint t)))"

definition sw_ok :: "switch_stmt \<Rightarrow> bool" where
  "sw_ok sw = (tags_ok (sw_type sw) (sw_table sw) \<and>
     sorted_wrt (\<lambda>a b. sint (fst a) < sint (fst b)) (sw_table sw))"

abbreviation sw_target :: "switch_stmt \<Rightarrow> i64 \<Rightarrow> nat" where
  "sw_target sw v \<equiv> switch_target (sw_default sw) (sw_table sw) v"

lemma sint_inj: "sint a = sint b \<Longrightarrow> a = b" for a b :: i64
  by (metis signed_word_eqI)

lemma uint_of_nonneg: "0 \<le> sint t \<Longrightarrow> uint (t :: i64) = sint t"
  using sint_lt [of t] by (simp add: uint_sint take_bit_int_eq_self)

lemma key_tag: "tags_ok p tbl \<Longrightarrow> t \<in> fst ` set tbl \<Longrightarrow> key p t = sint t"
  using uint_of_nonneg [of t] by (auto simp: key_def tags_ok_def)

lemma key_inj: "key p v = key p w \<longleftrightarrow> v = w"
  by (simp add: key_def signed_word_eqI word_uint_eqI) (metis signed_word_eqI word_uint_eqI)

lemma word_less_key: "word_less p v w \<longleftrightarrow> key p v < key p w"
  by (simp add: IRExpr.word_less_def key_def word_sless_alt word_less_alt)

lemma tag_mem: "i < length (sw_table sw) \<Longrightarrow> tag sw i \<in> fst ` set (sw_table sw)"
  by auto

lemma tag_less: "sw_ok sw \<Longrightarrow> i < j \<Longrightarrow> j < length (sw_table sw) \<Longrightarrow> sint (tag sw i) < sint (tag sw j)"
  by (auto simp: sw_ok_def sorted_wrt_iff_nth_less)

lemma tag_le: "sw_ok sw \<Longrightarrow> i \<le> j \<Longrightarrow> j < length (sw_table sw) \<Longrightarrow> sint (tag sw i) \<le> sint (tag sw j)"
  using tag_less [of sw i j] by (cases "i = j") auto

lemma tag_key: "sw_ok sw \<Longrightarrow> i < length (sw_table sw) \<Longrightarrow> key (sw_type sw) (tag sw i) = sint (tag sw i)"
  by (auto simp: sw_ok_def intro!: key_tag)

lemma sw_distinct: "sw_ok sw \<Longrightarrow> distinct (map fst (sw_table sw))"
  unfolding distinct_conv_nth by (metis length_map less_irrefl linorder_neqE_nat nth_map tag_less)

lemma target_hit: "sw_ok sw \<Longrightarrow> i < length (sw_table sw) \<Longrightarrow> sw_target sw (tag sw i) = snd (sw_table sw ! i)"
  using map_of_is_SomeI [OF sw_distinct, of sw "tag sw i" "snd (sw_table sw ! i)"]
  by (simp add: switch_target_def)

lemma target_miss: "\<forall>i < length (sw_table sw). tag sw i \<noteq> v \<Longrightarrow> sw_target sw v = sw_default sw"
proof -
  assume "\<forall>i < length (sw_table sw). tag sw i \<noteq> v"
  then have "v \<notin> fst ` set (sw_table sw)" by (auto simp: in_set_conv_nth) (metis fst_conv)
  then show ?thesis by (simp add: switch_target_def map_of_eq_None_iff [THEN iffD2])
qed

text \<open>The comparison nodes compare keys.\<close>

lemma BuildCmpNode_eval:
  assumes ok: "sw_ok sw" and i: "i < length (sw_table sw)"
  shows "\<exists>c. BuildCmpNode sw op i = Some c \<and>
    (\<forall>\<rho> v. eval \<rho> (sw_opnd sw) = Some v \<longrightarrow> eval \<rho> c = do {
        x \<leftarrow> eval_compare op (sw_type sw) v (tag sw i); at_type PTY_u32 x })"
proof -
  let ?p = "sw_type sw"
  have p: "scalar_int ?p" and t: "at_type ?p (tag sw i) = Some (tag sw i)"
    using ok tag_mem [OF i] by (auto simp: sw_ok_def tags_ok_def)
  from t have n: "norm ?p (tag sw i) = tag sw i" using at_type_Some by metis
  show ?thesis using p t n by (auto simp: BuildCmpNode_def MIRIntConst_norm)
qed

lemma at_type_idem: "at_type p a = Some v \<Longrightarrow> scalar_int p \<Longrightarrow> at_type p v = Some v"
proof -
  assume a: "at_type p a = Some v" and p: "scalar_int p"
  have "norm p v = v" using at_type_Some [OF a] norm_norm [OF p] by metis
  with a at_type_Some [OF a] show ?thesis by (auto simp: at_type_def split: if_splits)
qed

lemma operand_at_type: "eval \<rho> e = Some v \<Longrightarrow> scalar_int (GetPrimType e) \<Longrightarrow> at_type (GetPrimType e) v = Some v"
  by (cases e) (auto simp: bind_eq_Some_conv intro: at_type_idem)

lemma at_type_bool [simp]: "at_type PTY_u32 0 = Some 0" "at_type PTY_u32 1 = Some 1"
  by (simp_all add: at_type_def norm_def tbits_def GetPrimTypeBitSize_def)

definition cmp_holds :: "opcode \<Rightarrow> int \<Rightarrow> int \<Rightarrow> bool" where
  "cmp_holds op x y = (case op of OP_lt \<Rightarrow> x < y | OP_gt \<Rightarrow> x > y | OP_le \<Rightarrow> x \<le> y | OP_ge \<Rightarrow> x \<ge> y | _ \<Rightarrow> x = y)"

lemma BuildCmpNode_holds:
  assumes ok: "sw_ok sw" and i: "i < length (sw_table sw)" and op: "op \<in> {OP_lt, OP_gt, OP_le, OP_ge, OP_eq}"
  obtains c where "BuildCmpNode sw op i = Some c"
    and "\<And>\<rho> v. eval \<rho> (sw_opnd sw) = Some v \<Longrightarrow>
      eval \<rho> c = Some (bool_word (cmp_holds op (key (sw_type sw) v) (sint (tag sw i))))"
proof -
  let ?p = "sw_type sw"
  from BuildCmpNode_eval [OF ok i, of op] obtain c where c: "BuildCmpNode sw op i = Some c"
    "\<And>\<rho> v. eval \<rho> (sw_opnd sw) = Some v \<Longrightarrow> eval \<rho> c = do {
        x \<leftarrow> eval_compare op ?p v (tag sw i); at_type PTY_u32 x }" by blast
  have p: "scalar_int ?p" and t: "at_type ?p (tag sw i) = Some (tag sw i)"
    using ok tag_mem [OF i] by (auto simp: sw_ok_def tags_ok_def)
  note k = tag_key [OF ok i, symmetric]
  have "eval \<rho> c = Some (bool_word (cmp_holds op (key ?p v) (sint (tag sw i))))"
    if v: "eval \<rho> (sw_opnd sw) = Some v" for \<rho> v
    using op operand_at_type [OF v p] t c(2) [OF v]
    by (auto simp: eval_compare_def cmp_holds_def word_less_key key_inj at_type_bool k not_less bool_word_def)
  with c(1) that show ?thesis by blast
qed


section \<open>Range gotos\<close>

text \<open>
  A table entry is looked up by the distance of the operand from the offset, which fits 32 bits
  within a run.
\<close>

abbreviation wide :: "(u32 \<times> nat) list \<Rightarrow> (i64 \<times> nat) list" where
  "wide tbl \<equiv> map (\<lambda>(k, l). (ucast k, l)) tbl"

definition in_span :: "i64 \<Rightarrow> i64 \<Rightarrow> bool" where
  "in_span off w = (sint off \<le> sint w \<and> sint w - sint off < 2 ^ 32)"

lemma span_distance: "in_span off w \<Longrightarrow> (ucast (ucast (w - off) :: u32) :: i64) = w - off"
proof -
  assume s: "in_span off w"
  have "sint w - sint off = sint (w - off)"
    using s sint_ge [of off] sint_lt [of w] by (subst sint_word_ariths) (simp add: in_span_def signed_take_bit_int_eq_self)
  then have "uint (w - off) < 2 ^ 32" using s uint_of_nonneg [of "w - off"] by (simp add: in_span_def)
  then have "take_bit 32 (w - off) = w - off" 
    by (intro word_uint_eqI) (simp add: unsigned_take_bit_eq take_bit_int_eq_self)
  then show ?thesis by (simp add: ucast_ucast_32)
qed

lemma sint_suc: "sint l < sint t \<Longrightarrow> sint (l + 1) = sint l + 1" for l t :: i64
  using sint_lt [of t] sint_ge [of l] by (subst sint_word_ariths) (simp add: signed_take_bit_int_eq_self)

lemma gap_lookup:
  assumes "sint l < sint t" "sint off \<le> sint l" "in_span off t"
  shows "sint l < sint v \<Longrightarrow> sint v < sint t \<Longrightarrow> map_of (wide (range_gap d off l t @ rest)) (v - off) = Some d"
    and "sint t \<le> sint v \<Longrightarrow> map_of (wide (range_gap d off l t @ rest)) (v - off) = map_of (wide rest) (v - off)"
proof (atomize (full), use assms in \<open>induction d off l t rule: range_gap.induct\<close>)
  case (1 d off l t)
  note nx = sint_suc [OF 1(2)]
  show ?case
  proof (cases "t = l + 1")
    case True
    then show ?thesis using nx by (subst (1 2) range_gap.simps) simp
  next
    case False
    then have "sint t \<noteq> sint l + 1" using nx sint_inj by metis
    then have lt: "sint (l + 1) < sint t" using 1(2) nx by simp
    have tl: "t \<noteq> l + 1 \<and> t \<noteq> l" using False 1(2) by auto
    have "in_span off (l + 1)" using 1 nx lt by (auto simp: in_span_def)
    then have k: "(ucast (ucast (l + 1 - off) :: u32) :: i64) = l + 1 - off" by (rule span_distance)
    have first: "v = l + 1" if "sint l < sint v" "\<not> sint (l + 1) < sint v"
      using that nx by (intro sint_inj) simp
    have later: "sint t \<le> sint v \<Longrightarrow> v \<noteq> l + 1" using lt by auto
    have g: "range_gap d off l t @ rest = (ucast (l + 1 - off), d) # range_gap d off (l + 1) t @ rest"
      by (subst range_gap.simps) (simp add: tl)
    have hd: "map_of (wide (range_gap d off l t @ rest)) (v - off) =
        (if v = l + 1 then Some d else map_of (wide (range_gap d off (l + 1) t @ rest)) (v - off))"
      unfolding g by (simp add: k)
    note IH = 1(1) [OF tl lt _ 1(4)]
    have "sint off \<le> sint (l + 1)" using 1(3) nx by simp
    from IH [OF this] show ?thesis
      unfolding hd using first later by (metis (no_types, lifting))
  qed
qed

lemma range_lookup:
  assumes "sorted_wrt (\<lambda>a b. sint (fst a) < sint (fst b)) ((t0, l0) # tbl)" "sint off \<le> sint t0"
    and "\<forall>t \<in> fst ` set ((t0, l0) # tbl). in_span off t"
    and "sint t0 \<le> sint v" "sint v \<le> sint (fst (last ((t0, l0) # tbl)))"
  shows "map_of (wide ((ucast (t0 - off), l0) # range_table d off t0 tbl)) (v - off)
     = Some (switch_target d ((t0, l0) # tbl) v)"
  using assms
proof (induction tbl arbitrary: t0 l0)
  case Nil
  then have "v = t0" by (intro sint_inj) simp
  then show ?case using Nil by (simp add: switch_target_def span_distance)
next
  case (Cons c tbl)
  obtain t l where c: "c = (t, l)" by (cases c)
  have lt: "sint t0 < sint t" using Cons.prems(1) c by simp
  have k: "(ucast (ucast (t0 - off) :: u32) :: i64) = t0 - off" using Cons.prems(3) by (simp add: span_distance)
  let ?rest = "(ucast (t - off), l) # range_table d off t tbl"
  have sp: "in_span off t" using Cons.prems(3) c by simp
  show ?case
  proof (cases "sint v < sint t")
    case True
    have "v \<notin> fst ` set tbl" "v \<noteq> t" using Cons.prems(1) c True by auto
    moreover have "v \<noteq> t0 \<Longrightarrow> sint t0 < sint v" using Cons.prems(4) sint_inj [of t0 v] by force
    ultimately show ?thesis
      using gap_lookup(1) [OF lt Cons.prems(2) sp _ True, of d ?rest] c k
      by (auto simp: switch_target_def map_of_eq_None_iff [THEN iffD2])
  next
    case False
    have "v \<noteq> t0" using False lt by auto
    have "map_of (wide ?rest) (v - off) = Some (switch_target d ((t, l) # tbl) v)"
      using Cons.prems c lt False by (intro Cons.IH) auto
    with gap_lookup(2) [OF lt Cons.prems(2) sp, of v d ?rest] False \<open>v \<noteq> t0\<close> c k
    show ?thesis by (auto simp: switch_target_def)
  qed
qed


lemma key_sint:
  assumes "sw_ok sw" "i < length (sw_table sw)" "key (sw_type sw) v \<le> sint (tag sw i)"
  shows "key (sw_type sw) v = sint v"
proof (cases "IsSignedInteger (sw_type sw)")
  case False
  then have "uint v \<le> sint (tag sw i)" using assms(3) by (simp add: key_def)
  then have "uint v < 2 ^ 63" using sint_lt [of "tag sw i"] by simp
  then have "signed_take_bit 63 (uint v) = uint v"
    using unsigned_greater_eq [of v, where 'a = int] by (intro signed_take_bit_int_eq_self) linarith+
  then have "sint v = uint v" by (simp add: sint_uint)
  with False show ?thesis by (simp add: key_def)
qed (simp add: key_def)

lemma run_slice: "lo \<le> hi \<Longrightarrow> (sw_table sw ! lo) # map (\<lambda>i. sw_table sw ! i) [lo + 1..<hi + 1] = map (\<lambda>i. sw_table sw ! i) [lo..<hi + 1]"
  by (simp add: upt_conv_Cons del: upt_Suc)

lemma switch_target_iff:
  "distinct (map fst tbl) \<Longrightarrow> (v, l) \<in> set tbl \<Longrightarrow> switch_target d tbl v = l"
  "v \<notin> fst ` set tbl \<Longrightarrow> switch_target d tbl v = d"
  by (simp_all add: switch_target_def map_of_is_SomeI map_of_eq_None_iff [THEN iffD2])

lemma run_target:
  assumes ok: "sw_ok sw" and i: "lo \<le> hi" "hi < length (sw_table sw)"
    and v: "sint (tag sw lo) \<le> sint v" "sint v \<le> sint (tag sw hi)" "key (sw_type sw) v = sint v"
  shows "switch_target d (map (\<lambda>i. sw_table sw ! i) [lo..<hi + 1]) v = (if v \<in> fst ` set (sw_table sw) then sw_target sw v else d)"
proof (cases "v \<in> fst ` set (sw_table sw)")
  case True
  then obtain k where k: "k < length (sw_table sw)" "v = tag sw k" by (auto simp: in_set_conv_nth)
  have "lo \<le> k" using tag_less [OF ok, of k lo] i k v(1) by (cases "lo \<le> k") auto
  moreover have "k \<le> hi" using tag_less [OF ok, of hi k] k v(2) by (cases "k \<le> hi") auto
  ultimately have m: "(v, snd (sw_table sw ! k)) \<in> set (map (\<lambda>i. sw_table sw ! i) [lo..<hi + 1])"
    using k i by (auto simp del: upt_Suc intro!: image_eqI [where x = k])
  have "map (\<lambda>i. sw_table sw ! i) [lo..<hi + 1] = take (hi + 1 - lo) (drop lo (sw_table sw))"
    using i by (intro nth_equalityI) (auto simp del: upt_Suc)
  then have "distinct (map fst (map (\<lambda>i. sw_table sw ! i) [lo..<hi + 1]))"
    using sw_distinct [OF ok] by (metis distinct_drop distinct_take drop_map take_map)
  from switch_target_iff(1) [OF this m] True k target_hit [OF ok k(1)] show ?thesis by simp
next
  case False
  then have "v \<notin> fst ` set (map (\<lambda>i. sw_table sw ! i) [lo..<hi + 1])" using i by (auto simp del: upt_Suc)
  with False show ?thesis by (simp add: switch_target_iff(2) del: upt_Suc)
qed

definition span_ok :: "switch_stmt \<Rightarrow> nat \<Rightarrow> nat \<Rightarrow> bool" where
  "span_ok sw lo hi = in_span (tag sw lo) (tag sw hi)"

lemma run_lookup:
  assumes ok: "sw_ok sw" and i: "lo < hi" "hi < length (sw_table sw)" and sp: "span_ok sw lo hi"
    and v: "sint (tag sw lo) \<le> key (sw_type sw) v" "key (sw_type sw) v \<le> sint (tag sw hi)"
    and ev: "eval \<rho> (sw_opnd sw) = Some v"
  shows "exec (BuildRangeGotoNode sw lo hi) \<rho> (Jump (sw_target sw v)) \<rho>"
proof -
  let ?tbl = "map (\<lambda>i. sw_table sw ! i) [lo + 1..<hi + 1]" and ?d = "sw_default sw"
  obtain t0 l0 where c: "sw_table sw ! lo = (t0, l0)" by (cases "sw_table sw ! lo")
  note kv = key_sint [OF ok i(2) v(2)]
  have sl: "(t0, l0) # ?tbl = map (\<lambda>i. sw_table sw ! i) [lo..<hi + 1]"
    using run_slice [of lo hi sw] i c by simp
  have last: "last ((t0, l0) # ?tbl) = sw_table sw ! hi" unfolding sl using i by (simp add: last_map)
  have "map_of (wide ((ucast (t0 - t0), l0) # range_table ?d t0 t0 ?tbl)) (v - t0) = Some (switch_target ?d ((t0, l0) # ?tbl) v)"
  proof (rule range_lookup)
    show "sorted_wrt (\<lambda>a b. sint (fst a) < sint (fst b)) ((t0, l0) # ?tbl)"
      unfolding sl using tag_less [OF ok] i by (auto simp: sorted_wrt_iff_nth_less simp del: upt_Suc)
    show "\<forall>t\<in>fst ` set ((t0, l0) # ?tbl). in_span t0 t"
      unfolding sl using tag_le [OF ok] i sp c
      by (auto simp: span_ok_def in_span_def simp del: upt_Suc) (smt (verit) fst_conv less_Suc_eq_le order_le_less_trans)+
  qed (use v kv c last in simp_all)
  moreover have "switch_target ?d ((t0, l0) # ?tbl) v = sw_target sw v"
    unfolding sl using run_target [OF ok, of lo hi v ?d] i v kv
    by (auto simp: switch_target_iff(2) simp del: upt_Suc)
  ultimately have "range_target t0 ((0, l0) # range_table ?d t0 t0 ?tbl) v = Some (sw_target sw v)"
    by (simp add: range_target_def)
  then show ?thesis using ev c by (simp add: BuildRangeGotoNode_def exec_by_execs_by.Range del: upt_Suc)
qed

end
