(* ===== verification/SwitchSound.thy ===== *)
theory SwitchSound
  imports SwitchItems
begin

text \<open>
  Correctness of SwitchLower. The code of every builder is the lowering of a structured block
  (a segment); a segment runs to the target of the switch or falls through with what is then known
  of the operand. The segments compose to the theorem about \<open>LowerSwitch\<close>.
\<close>

section \<open>Segments of the generated code\<close>

lemma LowerBlock_append:
  "LowerBlock n as = Some (c1, n1) \<Longrightarrow> LowerBlock n1 bs = Some (c2, n2) \<Longrightarrow> LowerBlock n (as @ bs) = Some (c1 @ c2, n2)"
proof (induction as arbitrary: n c1)
  case (Cons s as)
  then obtain c k cs where "LowerStmt n s = Some (c, k)" "LowerBlock k as = Some (cs, n1)" "c1 = c @ cs"
    by (auto simp: bind_eq_Some_conv)
  then show ?case using Cons by simp
qed simp

lemma emits_append [simp]: "emits_block (as @ bs) = (emits_block as \<or> emits_block bs)"
  by (induction as) auto

text \<open>
  The code is the lowering of a structured block that, run where the operand's value satisfies
  \<open>P\<close>, either jumps to the target of the switch, or falls through where it satisfies \<open>Q\<close>.
\<close>

definition seg :: "nat \<Rightarrow> switch_stmt \<Rightarrow> (i64 \<Rightarrow> bool) \<Rightarrow> nat \<Rightarrow> stmt list \<Rightarrow> nat \<Rightarrow> (i64 \<Rightarrow> bool) \<Rightarrow> bool" where
  "seg m sw P n code n' Q = (\<exists>ss. LowerBlock n ss = Some (code, n') \<and> src_ok_block m ss \<and> (ss = [] \<or> emits_block ss) \<and>
     (\<forall>\<rho> v. eval \<rho> (sw_opnd sw) = Some v \<longrightarrow> P v \<longrightarrow>
        execs ss \<rho> (Jump (sw_target sw v)) \<rho> \<or> execs ss \<rho> Normal \<rho> \<and> Q v))"

lemma segI:
  assumes "LowerBlock n ss = Some (code, n')" "src_ok_block m ss" "ss = [] \<or> emits_block ss"
    and "\<And>\<rho> v. eval \<rho> (sw_opnd sw) = Some v \<Longrightarrow> P v \<Longrightarrow>
        execs ss \<rho> (Jump (sw_target sw v)) \<rho> \<or> execs ss \<rho> Normal \<rho> \<and> Q v"
  shows "seg m sw P n code n' Q"
  using assms unfolding seg_def by blast

lemma seg_nil: "(\<And>v. P v \<Longrightarrow> Q v) \<Longrightarrow> seg m sw P n [] n Q"
  by (rule segI [where ss = "[]"]) (auto intro: exec_by_execs_by.Nil)

lemma seg_weaken: "seg m sw P n c n' Q \<Longrightarrow> (\<And>v. P' v \<Longrightarrow> P v) \<Longrightarrow> (\<And>v. Q v \<Longrightarrow> Q' v) \<Longrightarrow> seg m sw P' n c n' Q'"
  unfolding seg_def by blast

lemma seg_append:
  assumes "seg m sw P n c1 n1 Q" "seg m sw Q n1 c2 n2 R"
  shows "seg m sw P n (c1 @ c2) n2 R"
proof -
  from assms(1) obtain s1 where s1: "LowerBlock n s1 = Some (c1, n1)" "src_ok_block m s1" "s1 = [] \<or> emits_block s1"
    and r1: "\<And>\<rho> v. eval \<rho> (sw_opnd sw) = Some v \<Longrightarrow> P v \<Longrightarrow>
        execs s1 \<rho> (Jump (sw_target sw v)) \<rho> \<or> execs s1 \<rho> Normal \<rho> \<and> Q v" unfolding seg_def by blast
  from assms(2) obtain s2 where s2: "LowerBlock n1 s2 = Some (c2, n2)" "src_ok_block m s2" "s2 = [] \<or> emits_block s2"
    and r2: "\<And>\<rho> v. eval \<rho> (sw_opnd sw) = Some v \<Longrightarrow> Q v \<Longrightarrow>
        execs s2 \<rho> (Jump (sw_target sw v)) \<rho> \<or> execs s2 \<rho> Normal \<rho> \<and> R v" unfolding seg_def by blast
  show ?thesis
  proof (rule segI [OF LowerBlock_append [OF s1(1) s2(1)]])
    fix \<rho> v assume "eval \<rho> (sw_opnd sw) = Some v" "P v"
    then show "execs (s1 @ s2) \<rho> (Jump (sw_target sw v)) \<rho> \<or> execs (s1 @ s2) \<rho> Normal \<rho> \<and> R v"
      using r1 r2 by (metis execs_append outcome.distinct(1))
  qed (use s1 s2 in auto)
qed

lemma seg_goto:
  assumes "l < m" "\<And>v. P v \<Longrightarrow> sw_target sw v = l"
  shows "seg m sw P n [SGoto l] n Q"
proof (rule segI [where ss = "[SGoto l]"])
  fix \<rho> v assume "P v"
  then show "execs [SGoto l] \<rho> (Jump (sw_target sw v)) \<rho> \<or> execs [SGoto l] \<rho> Normal \<rho> \<and> Q v"
    using assms by (auto intro: exec_by_execs_by.intros)
qed (use assms in auto)

lemma seg_cond:
  assumes c: "\<And>\<rho> v. eval \<rho> (sw_opnd sw) = Some v \<Longrightarrow> eval \<rho> c = Some (bool_word (B v))" and "l < m"
    and "\<And>v. P v \<Longrightarrow> B v \<Longrightarrow> sw_target sw v = l"
  shows "seg m sw P n [SCondGoto OP_brtrue c l] n (\<lambda>v. P v \<and> \<not> B v)"
proof (rule segI [where ss = "[SCondGoto OP_brtrue c l]"])
  fix \<rho> v assume v: "eval \<rho> (sw_opnd sw) = Some v" "P v"
  show "execs [SCondGoto OP_brtrue c l] \<rho> (Jump (sw_target sw v)) \<rho> \<or>
      execs [SCondGoto OP_brtrue c l] \<rho> Normal \<rho> \<and> P v \<and> \<not> B v"
  proof (cases "B v")
    case True
    then have "exec (SCondGoto OP_brtrue c l) \<rho> (Jump l) \<rho>"
      using c [OF v(1)] by (intro exec_by_execs_by.CondTaken) (auto simp: taken_def)
    from exec_by_execs_by.ConsExit [OF this] show ?thesis using True assms(3) [OF v(2)] by simp
  next
    case False
    then have "exec (SCondGoto OP_brtrue c l) \<rho> Normal \<rho>"
      using c [OF v(1)] by (intro exec_by_execs_by.CondNot) (auto simp: taken_def)
    from exec_by_execs_by.Cons [OF this exec_by_execs_by.Nil] show ?thesis using False v(2) by simp
  qed
qed (use assms in auto)

lemma seg_if:
  assumes c: "\<And>\<rho> v. eval \<rho> (sw_opnd sw) = Some v \<Longrightarrow> eval \<rho> c = Some (bool_word (B v))"
    and t: "seg m sw (\<lambda>v. P v \<and> B v) n t n1 R" and e: "seg m sw (\<lambda>v. P v \<and> \<not> B v) n1 e n2 R"
  shows "\<exists>blk n3. LowerIfStmt n2 c t (Some e) False = Some (blk, n3) \<and> seg m sw P n blk n3 R"
proof -
  from t obtain st where st: "LowerBlock n st = Some (t, n1)" "src_ok_block m st" "st = [] \<or> emits_block st"
    and rt: "\<And>\<rho> v. eval \<rho> (sw_opnd sw) = Some v \<Longrightarrow> P v \<Longrightarrow> B v \<Longrightarrow>
        execs st \<rho> (Jump (sw_target sw v)) \<rho> \<or> execs st \<rho> Normal \<rho> \<and> R v" unfolding seg_def by blast
  from e obtain se where se: "LowerBlock n1 se = Some (e, n2)" "src_ok_block m se" "se = [] \<or> emits_block se"
    and re: "\<And>\<rho> v. eval \<rho> (sw_opnd sw) = Some v \<Longrightarrow> P v \<Longrightarrow> \<not> B v \<Longrightarrow>
        execs se \<rho> (Jump (sw_target sw v)) \<rho> \<or> execs se \<rho> Normal \<rho> \<and> R v" unfolding seg_def by blast
  have tt: "st = [] \<longleftrightarrow> t = []" "se = [] \<longleftrightarrow> e = []"
    using st se lower_emits(2) [OF st(1)] lower_emits(2) [OF se(1)] by auto
  have ok: "src_ok m (SIf c st (Some se))" using st se by auto
  from lower_total(1) [OF this, of n] obtain blk n3 where b: "LowerStmt n (SIf c st (Some se)) = Some (blk, n3)" by blast
  then have l: "LowerIfStmt n2 c t (Some e) False = Some (blk, n3)"
    using st(1) se(1) tt by (simp add: LowerIfStmt_def)
  have "seg m sw P n blk n3 R"
  proof (rule segI [where ss = "[SIf c st (Some se)]"])
    fix \<rho> v assume v: "eval \<rho> (sw_opnd sw) = Some v" "P v"
    have "exec (SIf c st (Some se)) \<rho> out \<rho>" if "execs (if B v then st else se) \<rho> out \<rho>" for out
      using c [OF v(1)] that by (cases "B v") (auto intro: exec_by_execs_by.IfTrue exec_by_execs_by.IfFalse)
    then show "execs [SIf c st (Some se)] \<rho> (Jump (sw_target sw v)) \<rho> \<or> execs [SIf c st (Some se)] \<rho> Normal \<rho> \<and> R v"
      using rt [OF v] re [OF v] by (cases "B v") (auto intro: exec_by_execs_by.Cons exec_by_execs_by.ConsExit exec_by_execs_by.Nil)
  qed (use b ok in auto)
  with l show ?thesis by blast
qed

text \<open>One dense run behind its test.\<close>

lemma range_gap_labels: "snd ` set (range_gap d off l t) \<subseteq> {d}"
proof (induction d off l t rule: range_gap.induct)
  case (1 d off l t)
  show ?case
  proof (cases "t \<noteq> l + 1 \<and> t \<noteq> l")
    case True
    with 1 [OF True] show ?thesis by (subst range_gap.simps) simp
  next
    case False
    then show ?thesis by (subst range_gap.simps) auto
  qed
qed

lemma range_table_labels: "snd ` set (range_table d off t0 tbl) \<subseteq> insert d (snd ` set tbl)"
proof (induction d off t0 tbl rule: range_table.induct)
  case (2 d off t0 t l rest)
  have "snd ` set (range_gap d off t0 t) \<subseteq> {d}" by (rule range_gap_labels)
  with 2 show ?case by (simp add: image_Un) blast
qed simp

lemma seg_run:
  assumes ok: "sw_ok sw" and i: "lo < hi" "hi < length (sw_table sw)" and sp: "span_ok sw lo hi"
    and m: "sw_default sw < m" "\<forall>l \<in> snd ` set (sw_table sw). l < m"
    and c: "\<And>\<rho> v. eval \<rho> (sw_opnd sw) = Some v \<Longrightarrow> eval \<rho> c = Some (bool_word (B v))"
    and B: "\<And>v. P v \<Longrightarrow> B v \<Longrightarrow> sint (tag sw lo) \<le> key (sw_type sw) v \<and> key (sw_type sw) v \<le> sint (tag sw hi)"
  shows "\<exists>blk n'. LowerIfStmt n c [BuildRangeGotoNode sw lo hi] None False = Some (blk, n') \<and>
    seg m sw P n blk n' (\<lambda>v. P v \<and> \<not> B v)"
proof -
  let ?r = "BuildRangeGotoNode sw lo hi" and ?s = "SIf c [BuildRangeGotoNode sw lo hi] None"
  have "snd (sw_table sw ! k) < m" if "k \<le> hi" for k using m(2) i(2) that by auto
  then have ok_r: "src_ok m ?r"
    using m(1) i range_table_labels [of "sw_default sw" "tag sw lo" "tag sw lo" "map (\<lambda>i. sw_table sw ! i) [lo + 1..<hi + 1]"]
    by (fastforce simp: BuildRangeGotoNode_def Let_def simp del: upt_Suc)
  have lr: "LowerStmt n ?r = Some ([?r], n)" for n by (simp add: BuildRangeGotoNode_def Let_def)
  have ok_s: "src_ok m ?s" using ok_r by (simp add: BuildRangeGotoNode_def Let_def)
  from lower_total(1) [OF ok_s, of n] obtain blk n' where b: "LowerStmt n ?s = Some (blk, n')" by blast
  then have l: "LowerIfStmt n c [?r] None False = Some (blk, n')" by (simp add: LowerIfStmt_def lr)
  have "seg m sw P n blk n' (\<lambda>v. P v \<and> \<not> B v)"
  proof (rule segI [where ss = "[?s]"])
    fix \<rho> v assume v: "eval \<rho> (sw_opnd sw) = Some v" "P v"
    show "execs [?s] \<rho> (Jump (sw_target sw v)) \<rho> \<or> execs [?s] \<rho> Normal \<rho> \<and> P v \<and> \<not> B v"
    proof (cases "B v")
      case True
      have "exec ?r \<rho> (Jump (sw_target sw v)) \<rho>"
        using run_lookup [OF ok i sp _ _ v(1)] B [OF v(2) True] by blast
      then have "exec ?s \<rho> (Jump (sw_target sw v)) \<rho>"
        using c [OF v(1)] True by (intro exec_by_execs_by.IfTrue [where v = 1]) (auto intro: exec_by_execs_by.ConsExit)
      then show ?thesis by (auto intro: exec_by_execs_by.ConsExit)
    next
      case False
      then have "exec ?s \<rho> Normal \<rho>" using c [OF v(1)] by (intro exec_by_execs_by.IfFalse) (auto intro: exec_by_execs_by.Nil)
      then show ?thesis using False v(2) by (auto intro: exec_by_execs_by.Cons exec_by_execs_by.Nil)
    qed
  qed (use b ok_s in auto)
  with l show ?thesis by blast
qed


section \<open>The builders\<close>

definition pos :: "switch_stmt \<Rightarrow> (nat \<times> nat) list \<Rightarrow> nat \<Rightarrow> nat" where
  "pos sw items k = (if k < length items then ilo items k else length (sw_table sw))"

text \<open>What is known of the operand's value before the code for the items \<open>start \<le> k < end1\<close>.\<close>

definition reach :: "switch_stmt \<Rightarrow> (nat \<times> nat) list \<Rightarrow> nat \<Rightarrow> nat \<Rightarrow> bool \<Rightarrow> bool \<Rightarrow> i64 \<Rightarrow> bool" where
  "reach sw items start end1 low high v =
     (let L = pos sw items start; U = pos sw items end1; x = key (sw_type sw) v in
      (\<forall>k < length (sw_table sw). tag sw k = v \<longrightarrow> L \<le> k \<and> k < U) \<and>
      (if start < end1 then (low \<longrightarrow> sint (tag sw L) \<le> x) \<and> (high \<longrightarrow> x \<le> sint (tag sw (U - 1)))
       else \<not> (low \<and> high)))"

definition items_ok :: "nat \<Rightarrow> switch_stmt \<Rightarrow> (nat \<times> nat) list \<Rightarrow> bool" where
  "items_ok m sw items = (sw_ok sw \<and> cover 0 (length (sw_table sw)) items \<and> items \<noteq> [] \<and>
     sw_default sw < m \<and> (\<forall>l \<in> snd ` set (sw_table sw). l < m) \<and>
     (\<forall>(lo, hi) \<in> set items. hi \<noteq> 0 \<longrightarrow> span_ok sw lo hi))"

lemma pos_Suc: "items_ok m sw items \<Longrightarrow> k < length items \<Longrightarrow> pos sw items (Suc k) = Suc (ihi items k)"
  using cover_next [of 0 "length (sw_table sw)" items k] cover_last [of 0 "length (sw_table sw)" items]
  by (auto simp: items_ok_def pos_def not_less le_Suc_eq less_Suc_eq)

lemma item_bounds:
  assumes "items_ok m sw items" "k < length items"
  shows "pos sw items k = ilo items k" "ilo items k \<le> ihi items k" "ihi items k < length (sw_table sw)"
    and "snd (items ! k) \<noteq> 0 \<Longrightarrow> ilo items k < ihi items k \<and> ihi items k = snd (items ! k) \<and> span_ok sw (ilo items k) (ihi items k)"
    and "snd (items ! k) = 0 \<Longrightarrow> ihi items k = ilo items k"
proof -
  have m: "items ! k \<in> set items" using assms(2) by simp
  show "pos sw items k = ilo items k" "ilo items k \<le> ihi items k" "ihi items k < length (sw_table sw)"
    "snd (items ! k) = 0 \<Longrightarrow> ihi items k = ilo items k"
    using assms cover_nth [of 0 "length (sw_table sw)" items k] by (auto simp: items_ok_def pos_def ihi_def)
  show "snd (items ! k) \<noteq> 0 \<Longrightarrow> ilo items k < ihi items k \<and> ihi items k = snd (items ! k) \<and> span_ok sw (ilo items k) (ihi items k)"
    using assms cover_nth [of 0 "length (sw_table sw)" items k] m
    by (cases "items ! k") (fastforce simp: items_ok_def ihi_def)
qed

lemma pos_mono: "i \<le> j \<Longrightarrow> items_ok m sw items \<Longrightarrow> j \<le> length items \<Longrightarrow> pos sw items i \<le> pos sw items j"
proof (induction rule: dec_induct)
  case (step n)
  then show ?case using pos_Suc [of m sw items n] item_bounds(1,2) [of m sw items n] by auto
qed simp

lemma pos_strict: "items_ok m sw items \<Longrightarrow> i < j \<Longrightarrow> j \<le> length items \<Longrightarrow> pos sw items i < pos sw items j"
  using pos_mono [of "Suc i" j m sw items] pos_Suc [of m sw items i] item_bounds(1,2) [of m sw items i] by fastforce

lemma reachD:
  assumes "reach sw items start end1 low high v"
  shows "k < length (sw_table sw) \<Longrightarrow> tag sw k = v \<Longrightarrow> pos sw items start \<le> k \<and> k < pos sw items end1"
    and "low \<Longrightarrow> start < end1 \<Longrightarrow> sint (tag sw (pos sw items start)) \<le> key (sw_type sw) v"
    and "high \<Longrightarrow> start < end1 \<Longrightarrow> key (sw_type sw) v \<le> sint (tag sw (pos sw items end1 - 1))"
  using assms by (auto simp: reach_def Let_def)

lemma default_outside:
  assumes ok: "items_ok m sw items" and r: "reach sw items start end1 low high v"
    and b: "start \<le> end1" "end1 \<le> length items"
    and out: "start < end1 \<Longrightarrow> key (sw_type sw) v < sint (tag sw (pos sw items start))
      \<or> sint (tag sw (pos sw items end1 - 1)) < key (sw_type sw) v"
  shows "sw_target sw v = sw_default sw"
proof (rule target_miss, intro allI impI notI)
  fix k assume k: "k < length (sw_table sw)" "tag sw k = v"
  from reachD(1) [OF r k] have p: "pos sw items start \<le> k" "k < pos sw items end1" by auto
  then have "start < end1" using b by (cases "start = end1") auto
  have "pos sw items end1 \<le> length (sw_table sw)"
    using item_bounds(3) [OF ok, of end1] item_bounds(1,2) [OF ok, of end1] b by (cases "end1 < length items") (auto simp: pos_def)
  moreover have sw: "sw_ok sw" using ok by (simp add: items_ok_def)
  ultimately have "sint (tag sw (pos sw items start)) \<le> sint (tag sw k)" "sint (tag sw k) \<le> sint (tag sw (pos sw items end1 - 1))"
    using p k by (intro tag_le; simp)+
  with out [OF \<open>start < end1\<close>] tag_key [OF sw k(1)] k(2) show False by simp
qed

lemma seg_default:
  assumes ok: "items_ok m sw items" and b: "start \<le> end1" "end1 \<le> length items" "\<not> start < end1"
  shows "seg m sw (reach sw items start end1 low high) n [BuildGotoNode sw None] n Q"
  unfolding BuildGotoNode_def sw_label_def option.case
  by (rule seg_goto) (use ok default_outside [OF ok _ b(1,2)] b(3) in \<open>auto simp: items_ok_def\<close>)


text \<open>The bounds after an item at the low side, and after one at the high side.\<close>

lemma reach_low_step:
  assumes ok: "items_ok m sw items" and b: "start < end1" "end1 \<le> length items"
    and r: "reach sw items start end1 low high v"
    and x: "sint (tag sw (ihi items start)) < key (sw_type sw) v"
    and low': "low' \<Longrightarrow> Suc start < end1 \<Longrightarrow> tag_adjacent sw (ihi items start) (ilo items (Suc start))"
  shows "reach sw items (Suc start) end1 low' high v"
proof -
  let ?x = "key (sw_type sw) v" and ?N = "length (sw_table sw)"
  have sw: "sw_ok sw" using ok by (simp add: items_ok_def)
  have s: "start < length items" using b by simp
  note ps = pos_Suc [OF ok s] and ib = item_bounds [OF ok s]
  have later: "pos sw items (Suc start) \<le> k" if "k < ?N" "tag sw k = v" for k
  proof -
    have "sint (tag sw (ihi items start)) < sint (tag sw k)" using x tag_key [OF sw that(1)] that(2) by simp
    then have "\<not> k \<le> ihi items start" using tag_le [OF sw, of k "ihi items start"] ib(3) by auto
    then show ?thesis using ps by simp
  qed
  have next_low: "sint (tag sw (pos sw items (Suc start))) \<le> ?x" if "low'" "Suc start < end1"
  proof -
    have s': "Suc start < length items" using that b by simp
    have "tag sw (ihi items start) + 1 = tag sw (ilo items (Suc start))" using low' [OF that] by (simp add: tag_adjacent_def)
    moreover have "sint (tag sw (ihi items start)) < sint (tag sw (ilo items (Suc start)))"
      using tag_less [OF sw, of "ihi items start" "ilo items (Suc start)"] item_bounds(1,2,3) [OF ok s'] ps by auto
    ultimately have "sint (tag sw (ilo items (Suc start))) = sint (tag sw (ihi items start)) + 1"
      using sint_suc [of "tag sw (ihi items start)"] by metis
    then show ?thesis using x item_bounds(1) [OF ok s'] by simp
  qed
  have full: "\<not> high" if "\<not> Suc start < end1"
  proof
    assume high
    have "Suc start = end1" using that b by simp
    then show False using reachD(3) [OF r \<open>high\<close> b(1)] x ps by auto
  qed
  show ?thesis
    using r later next_low full b(1) reachD [OF r] unfolding reach_def Let_def by auto
qed

lemma reach_high_step:
  assumes ok: "items_ok m sw items" and b: "start \<le> end0" "end0 < length items" "end0 < end1"
    and r: "reach sw items start end1 low high v"
    and x: "key (sw_type sw) v < sint (tag sw (ilo items end0))"
    and high': "high' \<Longrightarrow> start < end0 \<Longrightarrow> \<exists>k < ilo items end0. tag_adjacent sw k (ilo items end0)"
  shows "reach sw items start end0 low high' v"
proof -
  let ?x = "key (sw_type sw) v" and ?N = "length (sw_table sw)" and ?M = "ilo items end0"
  have sw: "sw_ok sw" using ok by (simp add: items_ok_def)
  note ib = item_bounds [OF ok b(2)]
  have M: "?M < ?N" using ib by simp
  have before: "k < pos sw items end0" if "k < ?N" "tag sw k = v" for k
  proof -
    have "sint (tag sw k) < sint (tag sw ?M)" using x tag_key [OF sw that(1)] that(2) by simp
    then have "\<not> ?M \<le> k" using tag_le [OF sw, of ?M k] that(1) by auto
    then show ?thesis using ib(1) by simp
  qed
  have next_high: "?x \<le> sint (tag sw (pos sw items end0 - 1))" if h: "high'" "start < end0"
  proof -
    obtain k where k: "k < ?M" "tag sw k + 1 = tag sw ?M" using high' [OF h] by (auto simp: tag_adjacent_def)
    have "sint (tag sw k) < sint (tag sw ?M)" using tag_less [OF sw k(1) M] .
    then have "sint (tag sw ?M) = sint (tag sw k) + 1" using sint_suc [of "tag sw k"] k(2) by simp
    moreover have "sint (tag sw k) \<le> sint (tag sw (?M - 1))" using k M by (intro tag_le [OF sw]) auto
    ultimately show ?thesis using x ib(1) by simp
  qed
  have full: "\<not> low" if "\<not> start < end0"
  proof
    assume low
    have "start = end0" using that b by simp
    then show False using reachD(2) [OF r \<open>low\<close>] x ib(1) b(3) by auto
  qed
  show ?thesis
    using r before next_high full b reachD [OF r] unfolding reach_def Let_def by auto
qed


text \<open>The three loops.\<close>

lemma items_okD:
  assumes "items_ok m sw items"
  shows "sw_ok sw" "sw_default sw < m" "\<forall>l \<in> snd ` set (sw_table sw). l < m"
  using assms by (simp_all add: items_ok_def)

lemma reach_low_True:
  "reach sw items start end1 low high v \<Longrightarrow> start < end1 \<Longrightarrow>
   sint (tag sw (pos sw items start)) \<le> key (sw_type sw) v \<Longrightarrow> reach sw items start end1 True high v"
  by (simp add: reach_def Let_def)

lemma reach_high_True:
  "reach sw items start end1 low high v \<Longrightarrow> start < end1 \<Longrightarrow>
   key (sw_type sw) v \<le> sint (tag sw (pos sw items end1 - 1)) \<Longrightarrow> reach sw items start end1 low True v"
  by (simp add: reach_def Let_def)

lemma low_check_seg:
  assumes ok: "items_ok m sw items" and b: "start < end1" "end1 \<le> length items"
  shows "\<exists>pre. (if low \<or> IsUnsignedInteger (sw_type sw) \<and> tag sw (ilo items start) = 0 then Some []
      else do { c \<leftarrow> BuildCmpNode sw OP_lt (ilo items start); Some [BuildCondGotoNode sw None OP_brtrue c] }) = Some pre \<and>
    seg m sw (reach sw items start end1 low high) n pre n (reach sw items start end1 True high)"
proof -
  let ?lo = "ilo items start" and ?key = "key (sw_type sw)"
  have s: "start < length items" using b by simp
  note ib = item_bounds [OF ok s] and d = items_okD [OF ok]
  consider (low) low | (zero) "\<not> low" "IsUnsignedInteger (sw_type sw)" "tag sw ?lo = 0"
    | (test) "\<not> (low \<or> IsUnsignedInteger (sw_type sw) \<and> tag sw ?lo = 0)" by blast
  then show ?thesis
  proof cases
    case low
    then show ?thesis by (auto intro: seg_nil)
  next
    case zero
    have "scalar_int (sw_type sw)" using d(1) by (simp add: sw_ok_def tags_ok_def)
    then have "\<not> IsSignedInteger (sw_type sw)" using zero(2) IsUnsigned_iff_not_signed by blast
    then have "sint (tag sw (pos sw items start)) \<le> ?key v" for v using zero(3) ib(1) by (simp add: key_def)
    with zero show ?thesis using b(1) by (auto intro!: seg_nil reach_low_True [where low = low])
  next
    case test
    obtain c where c: "BuildCmpNode sw OP_lt ?lo = Some c"
      "\<And>\<rho> v. eval \<rho> (sw_opnd sw) = Some v \<Longrightarrow> eval \<rho> c = Some (bool_word (cmp_holds OP_lt (?key v) (sint (tag sw ?lo))))"
      using BuildCmpNode_holds [OF d(1), of ?lo OP_lt] ib(2,3) by auto
    have "seg m sw (reach sw items start end1 low high) n [SCondGoto OP_brtrue c (sw_default sw)] n
        (\<lambda>v. reach sw items start end1 low high v \<and> \<not> cmp_holds OP_lt (?key v) (sint (tag sw ?lo)))"
      by (rule seg_cond [OF c(2) d(2)])
        (use default_outside [OF ok _ less_imp_le [OF b(1)] b(2)] ib(1) in \<open>auto simp: cmp_holds_def\<close>)
    then have "seg m sw (reach sw items start end1 low high) n [SCondGoto OP_brtrue c (sw_default sw)] n
        (reach sw items start end1 True high)"
      by (rule seg_weaken) (use b(1) ib(1) in \<open>auto simp: cmp_holds_def intro: reach_low_True\<close>)
    with test c(1) show ?thesis by (auto simp: BuildCondGotoNode_def sw_label_def)
  qed
qed

lemma high_check_seg:
  assumes ok: "items_ok m sw items" and b: "start < end1" "end1 \<le> length items" and U: "pos sw items end1 - 1 = hi"
  shows "\<exists>pre. (if high then Some []
      else do { c \<leftarrow> BuildCmpNode sw OP_gt hi; Some [BuildCondGotoNode sw None OP_brtrue c] }) = Some pre \<and>
    seg m sw (reach sw items start end1 low high) n pre n (reach sw items start end1 low True)"
proof (cases high)
  case True
  then show ?thesis by (auto intro: seg_nil)
next
  case False
  let ?key = "key (sw_type sw)"
  note d = items_okD [OF ok]
  have hi: "hi < length (sw_table sw)"
    using U item_bounds(3) [OF ok, of "end1 - 1"] pos_Suc [OF ok, of "end1 - 1"] b by simp
  obtain c where c: "BuildCmpNode sw OP_gt hi = Some c"
    "\<And>\<rho> v. eval \<rho> (sw_opnd sw) = Some v \<Longrightarrow> eval \<rho> c = Some (bool_word (cmp_holds OP_gt (?key v) (sint (tag sw hi))))"
    using BuildCmpNode_holds [OF d(1) hi, of OP_gt] by auto
  have "seg m sw (reach sw items start end1 low high) n [SCondGoto OP_brtrue c (sw_default sw)] n
      (\<lambda>v. reach sw items start end1 low high v \<and> \<not> cmp_holds OP_gt (?key v) (sint (tag sw hi)))"
    by (rule seg_cond [OF c(2) d(2)])
      (use default_outside [OF ok _ less_imp_le [OF b(1)] b(2)] U in \<open>auto simp: cmp_holds_def\<close>)
  then have "seg m sw (reach sw items start end1 low high) n [SCondGoto OP_brtrue c (sw_default sw)] n
      (reach sw items start end1 low True)"
    by (rule seg_weaken) (use b(1) U in \<open>auto simp: cmp_holds_def intro: reach_high_True\<close>)
  with False c(1) show ?thesis by (auto simp: BuildCondGotoNode_def sw_label_def)
qed

lemma build_low_seg:
  assumes ok: "items_ok m sw items" and b: "start \<le> Suc end" "end < length items"
  shows "\<exists>code start' low' n'. build_low sw items start end low n = Some (code, start', low', n') \<and>
    start \<le> start' \<and> start' \<le> Suc end \<and> (start' \<le> end \<longrightarrow> snd (items ! start') = 0) \<and>
    seg m sw (reach sw items start (Suc end) low high) n code n' (reach sw items start' (Suc end) low' high)"
  using b(1)
proof (induction "Suc end - start" arbitrary: start low n rule: less_induct)
  case less
  let ?lo = "ilo items start" and ?hi = "snd (items ! start)" and ?key = "key (sw_type sw)"
  show ?case
  proof (cases "start \<le> end \<and> snd (items ! start) \<noteq> 0")
    case False
    then show ?thesis using less.prems by (subst build_low.simps) (auto intro: seg_nil)
  next
    case True
    have s: "start < length items" "start < Suc end" "Suc end \<le> length items" using True b by auto
    note ib = item_bounds [OF ok s(1)] and d = items_okD [OF ok]
    have hi: "ihi items start = ?hi" "?lo < ?hi" "?hi < length (sw_table sw)" "span_ok sw ?lo ?hi" using ib True by auto
    obtain pre where pre: "(if low \<or> IsUnsignedInteger (sw_type sw) \<and> tag sw ?lo = 0 then Some []
        else do { c \<leftarrow> BuildCmpNode sw OP_lt ?lo; Some [BuildCondGotoNode sw None OP_brtrue c] }) = Some pre"
      and s1: "seg m sw (reach sw items start (Suc end) low high) n pre n (reach sw items start (Suc end) True high)"
      using low_check_seg [OF ok s(2,3), of low high n] by blast
    obtain c where c: "BuildCmpNode sw OP_le ?hi = Some c"
      "\<And>\<rho> v. eval \<rho> (sw_opnd sw) = Some v \<Longrightarrow> eval \<rho> c = Some (bool_word (cmp_holds OP_le (?key v) (sint (tag sw ?hi))))"
      using BuildCmpNode_holds [OF d(1) hi(3), of OP_le] by auto
    have "\<exists>blk n1. LowerIfStmt n c [BuildRangeGotoNode sw ?lo ?hi] None False = Some (blk, n1) \<and>
      seg m sw (reach sw items start (Suc end) True high) n blk n1
        (\<lambda>v. reach sw items start (Suc end) True high v \<and> \<not> cmp_holds OP_le (?key v) (sint (tag sw ?hi)))"
      by (rule seg_run [OF d(1) hi(2-4) d(2,3) c(2)]) (use reachD(2) [OF _ TrueI s(2), of sw items high, unfolded ib(1)] in \<open>auto simp: cmp_holds_def\<close>)
    then obtain blk n1 where blk: "LowerIfStmt n c [BuildRangeGotoNode sw ?lo ?hi] None False = Some (blk, n1)"
      and s2: "seg m sw (reach sw items start (Suc end) True high) n blk n1
        (\<lambda>v. reach sw items start (Suc end) True high v \<and> \<not> cmp_holds OP_le (?key v) (sint (tag sw ?hi)))" by blast
    define low' where "low' = (if start < end then tag_adjacent sw ?hi (ilo items (start + 1)) else True)"
    have s2': "seg m sw (reach sw items start (Suc end) True high) n blk n1 (reach sw items (Suc start) (Suc end) low' high)"
      by (rule seg_weaken [OF s2])
        (use reach_low_step [OF ok s(2,3)] hi(1) in \<open>auto simp: cmp_holds_def low'_def\<close>)
    have dec: "Suc end - Suc start < Suc end - start" using True by (simp add: Suc_diff_le)
    obtain rest start' low'' n2 where r: "build_low sw items (Suc start) end low' n1 = Some (rest, start', low'', n2)"
      "Suc start \<le> start'" "start' \<le> Suc end" "start' \<le> end \<longrightarrow> snd (items ! start') = 0"
      and s3: "seg m sw (reach sw items (Suc start) (Suc end) low' high) n1 rest n2 (reach sw items start' (Suc end) low'' high)"
      using less.hyps [OF dec, of low' n1] True by auto
    have "build_low sw items start end low n = Some (pre @ blk @ rest, start', low'', n2)"
      using True pre c(1) blk r(1) by (subst build_low.simps) (simp add: case_prod_beta low'_def)
    with r(2-4) seg_append [OF s1 seg_append [OF s2' s3]] show ?thesis by auto
  qed
qed


lemma build_high_seg:
  assumes ok: "items_ok m sw items" and b: "start \<le> end1" "end1 \<le> length items"
    and single: "start < end1 \<longrightarrow> snd (items ! start) = 0"
  shows "\<exists>code end' high' n'. build_high sw items start end1 high n = Some (code, end', high', n') \<and>
    start \<le> end' \<and> end' \<le> end1 \<and> (start < end1 \<longrightarrow> start < end') \<and> (start < end' \<longrightarrow> snd (items ! (end' - 1)) = 0) \<and>
    seg m sw (reach sw items start end1 low high) n code n' (reach sw items start end' low high')"
  using b single
proof (induction end1 arbitrary: high n)
  case 0
  then show ?case by (auto intro: seg_nil)
next
  case (Suc e)
  let ?lo = "ilo items e" and ?hi = "snd (items ! e)" and ?key = "key (sw_type sw)"
  show ?case
  proof (cases "start \<le> e \<and> snd (items ! e) \<noteq> 0")
    case False
    then show ?thesis using Suc.prems by (auto intro: seg_nil)
  next
    case True
    have s: "e < length items" "start < Suc e" "start < e" using True Suc.prems by (auto simp: le_less)
    note ib = item_bounds [OF ok s(1)] and d = items_okD [OF ok]
    have hi: "ihi items e = ?hi" "?lo < ?hi" "?hi < length (sw_table sw)" "span_ok sw ?lo ?hi" using ib True by auto
    have U: "pos sw items (Suc e) - 1 = ?hi" using pos_Suc [OF ok s(1)] hi(1) by simp
    obtain pre where pre: "(if high then Some []
        else do { c \<leftarrow> BuildCmpNode sw OP_gt ?hi; Some [BuildCondGotoNode sw None OP_brtrue c] }) = Some pre"
      and s1: "seg m sw (reach sw items start (Suc e) low high) n pre n (reach sw items start (Suc e) low True)"
      using high_check_seg [OF ok s(2) _ U, of high low n] s(1) by auto
    obtain c where c: "BuildCmpNode sw OP_ge ?lo = Some c"
      "\<And>\<rho> v. eval \<rho> (sw_opnd sw) = Some v \<Longrightarrow> eval \<rho> c = Some (bool_word (cmp_holds OP_ge (?key v) (sint (tag sw ?lo))))"
      using BuildCmpNode_holds [OF d(1), of ?lo OP_ge] ib by auto
    have "\<exists>blk n1. LowerIfStmt n c [BuildRangeGotoNode sw ?lo ?hi] None False = Some (blk, n1) \<and>
      seg m sw (reach sw items start (Suc e) low True) n blk n1
        (\<lambda>v. reach sw items start (Suc e) low True v \<and> \<not> cmp_holds OP_ge (?key v) (sint (tag sw ?lo)))"
      by (rule seg_run [OF d(1) hi(2-4) d(2,3) c(2)]) (use reachD(3) [OF _ TrueI s(2), of sw items low, unfolded U] in \<open>auto simp: cmp_holds_def\<close>)
    then obtain blk n1 where blk: "LowerIfStmt n c [BuildRangeGotoNode sw ?lo ?hi] None False = Some (blk, n1)"
      and s2: "seg m sw (reach sw items start (Suc e) low True) n blk n1
        (\<lambda>v. reach sw items start (Suc e) low True v \<and> \<not> cmp_holds OP_ge (?key v) (sint (tag sw ?lo)))" by blast
    define high' where "high' = (if start < e then tag sw ?lo - 1 = tag sw (fst (items ! (e - 1)))
                        \<or> tag sw ?lo - 1 = tag sw (snd (items ! (e - 1))) else True)"
    have below: "fst (items ! (e - 1)) < ?lo" "snd (items ! (e - 1)) < ?lo"
    proof -
      have e1: "e - 1 < length items" "Suc (e - 1) = e" using s by auto
      have "ilo items (e - 1) \<le> ihi items (e - 1)" by (rule item_bounds(2) [OF ok e1(1)])
      moreover have "snd (items ! (e - 1)) \<le> ihi items (e - 1)" by (simp add: ihi_def)
      moreover have "ihi items (e - 1) < ?lo" using pos_Suc [OF ok e1(1)] ib(1) e1(2) by simp
      ultimately show "fst (items ! (e - 1)) < ?lo" "snd (items ! (e - 1)) < ?lo" by linarith+
    qed
    have "tag_adjacent sw k ?lo" if "tag sw ?lo - 1 = tag sw k" for k
      using that [symmetric] by (simp add: tag_adjacent_def)
    then have adj: "\<exists>k < ?lo. tag_adjacent sw k ?lo" if "high'"
      using that below s(3) unfolding high'_def by metis
    have s2': "seg m sw (reach sw items start (Suc e) low True) n blk n1 (reach sw items start e low high')"
      by (rule seg_weaken [OF s2])
        (use reach_high_step [OF ok _ s(1) lessI] adj s(2) in \<open>auto simp: cmp_holds_def less_Suc_eq_le\<close>)
    obtain rest end' high'' n2 where r: "build_high sw items start e high' n1 = Some (rest, end', high'', n2)"
      "start \<le> end'" "end' \<le> e" "start < e \<longrightarrow> start < end'" "start < end' \<longrightarrow> snd (items ! (end' - 1)) = 0"
      and s3: "seg m sw (reach sw items start e low high') n1 rest n2 (reach sw items start end' low high'')"
      using Suc.IH [of high' n1] Suc.prems s by auto
    have "build_high sw items start (Suc e) high n = Some (pre @ blk @ rest, end', high'', n2)"
      using True pre c(1) blk r(1) by (simp add: case_prod_beta high'_def)
    with r(2-5) s seg_append [OF s1 seg_append [OF s2' s3]] show ?thesis by auto
  qed
qed


lemma build_eq_seg:
  assumes ok: "items_ok m sw items" and b: "start \<le> Suc end" "end < length items"
  shows "\<exists>code start' low'. build_eq sw items start end low high = Some (code, start', low') \<and>
    start \<le> start' \<and> start' \<le> Suc end \<and> (start \<le> end \<longrightarrow> snd (items ! start) = 0 \<longrightarrow> start < start') \<and>
    seg m sw (reach sw items start (Suc end) low high) n code n (reach sw items start' (Suc end) low' high)"
  using b(1)
proof (induction "Suc end - start" arbitrary: start low rule: less_induct)
  case less
  let ?i = "ilo items start" and ?key = "key (sw_type sw)"
  show ?case
  proof (cases "start \<le> end \<and> snd (items ! start) = 0")
    case False
    then show ?thesis using less.prems by (subst build_eq.simps) (auto intro: seg_nil)
  next
    case True
    have s: "start < length items" "start < Suc end" "Suc end \<le> length items" using True b by auto
    note ib = item_bounds [OF ok s(1)] and d = items_okD [OF ok]
    have i: "ihi items start = ?i" "?i < length (sw_table sw)" "snd (sw_table sw ! ?i) < m" using ib True d(3) by auto
    define low' where "low' = (if low \<and> start < end then tag_adjacent sw ?i (ilo items (start + 1)) else low)"
    have only: "?key v = sint (tag sw ?i)" if "start = end" "low" "high" "reach sw items start (Suc end) low high v" for v
      using reachD(2) [OF that(4,2) s(2)] reachD(3) [OF that(4,3) s(2)] pos_Suc [OF ok s(1)] i(1) ib(1) that(1) by simp
    have hit: "sw_target sw v = snd (sw_table sw ! ?i)" if "?key v = sint (tag sw ?i)" for v
      using that tag_key [OF d(1) i(2)] key_inj target_hit [OF d(1) i(2)] by metis
    have after: "reach sw items (Suc start) (Suc end) low' high v"
      if r: "reach sw items start (Suc end) low high v" and ne: "?key v \<noteq> sint (tag sw ?i)" for v
    proof (cases low)
      case True
      show ?thesis
        by (rule reach_low_step [OF ok s(2,3) r])
          (use reachD(2) [OF r True s(2)] ne i(1) ib(1) True low'_def in \<open>auto split: if_splits\<close>)
    next
      case False
      have "tag sw ?i \<noteq> v" using ne tag_key [OF d(1) i(2)] by auto
      then have "Suc ?i \<le> k" if "k < length (sw_table sw)" "tag sw k = v" for k
        using reachD(1) [OF r that] ib(1) that by (cases "k = ?i") auto
      then show ?thesis
        using False r pos_Suc [OF ok s(1)] i(1) s(2) reachD [OF r] by (auto simp: reach_def Let_def low'_def)
    qed
    obtain c where c: "BuildCmpNode sw OP_eq ?i = Some c"
      "\<And>\<rho> v. eval \<rho> (sw_opnd sw) = Some v \<Longrightarrow> eval \<rho> c = Some (bool_word (cmp_holds OP_eq (?key v) (sint (tag sw ?i))))"
      using BuildCmpNode_holds [OF d(1) i(2), of OP_eq] by auto
    define st where "st = (if start = end \<and> low \<and> high then BuildGotoNode sw (Some ?i)
        else BuildCondGotoNode sw (Some ?i) OP_brtrue c)"
    have s1: "seg m sw (reach sw items start (Suc end) low high) n [st] n (reach sw items (Suc start) (Suc end) low' high)"
    proof (cases "start = end \<and> low \<and> high")
      case True
      have "seg m sw (reach sw items start (Suc end) low high) n [SGoto (snd (sw_table sw ! ?i))] n
          (reach sw items (Suc start) (Suc end) low' high)"
        by (rule seg_goto [OF i(3)]) (use only hit True in blast)
      with True show ?thesis by (simp add: st_def BuildGotoNode_def sw_label_def)
    next
      case False
      have "seg m sw (reach sw items start (Suc end) low high) n [SCondGoto OP_brtrue c (snd (sw_table sw ! ?i))] n
          (\<lambda>v. reach sw items start (Suc end) low high v \<and> \<not> cmp_holds OP_eq (?key v) (sint (tag sw ?i)))"
        by (rule seg_cond [OF c(2) i(3)]) (use hit in \<open>auto simp: cmp_holds_def\<close>)
      then have "seg m sw (reach sw items start (Suc end) low high) n [SCondGoto OP_brtrue c (snd (sw_table sw ! ?i))] n
          (reach sw items (Suc start) (Suc end) low' high)"
        by (rule seg_weaken) (use after in \<open>auto simp: cmp_holds_def\<close>)
      then show ?thesis unfolding st_def if_not_P [OF False] by (simp add: BuildCondGotoNode_def sw_label_def)
    qed
    have dec: "Suc end - Suc start < Suc end - start" using True by (simp add: Suc_diff_le)
    obtain rest start' low'' where r: "build_eq sw items (Suc start) end low' high = Some (rest, start', low'')"
      "Suc start \<le> start'" "start' \<le> Suc end"
      and s2: "seg m sw (reach sw items (Suc start) (Suc end) low' high) n rest n (reach sw items start' (Suc end) low'' high)"
      using less.hyps [OF dec, of low'] True by auto
    have "build_eq sw items start end low high = Some (st # rest, start', low'')"
      using True c(1) r(1) by (subst build_eq.simps) (auto simp: st_def low'_def)
    with r(2,3) seg_append [OF s1 s2] show ?thesis by auto
  qed
qed


section \<open>The decision tree\<close>

lemma reach_upper:
  assumes ok: "items_ok m sw items" and b: "mid < end1" "mid < length items"
    and r: "reach sw items start end1 low high v" and s: "start < end1"
    and x: "sint (tag sw (ilo items mid)) \<le> key (sw_type sw) v"
  shows "reach sw items mid end1 True high v"
proof -
  have sw: "sw_ok sw" using ok by (simp add: items_ok_def)
  note ib = item_bounds [OF ok b(2)]
  have "pos sw items mid \<le> k" if "k < length (sw_table sw)" "tag sw k = v" for k
  proof -
    have "sint (tag sw (ilo items mid)) \<le> sint (tag sw k)" using x tag_key [OF sw that(1)] that(2) by simp
    then have "\<not> k < ilo items mid" using tag_less [OF sw, of k "ilo items mid"] ib by auto
    then show ?thesis using ib(1) by simp
  qed
  then show ?thesis using r s b(1) x ib(1) reachD [OF r] unfolding reach_def Let_def by auto
qed

lemma find_mid_spec:
  assumes "start \<le> end" "end < length items" "\<not> tag sw (ilo items end) <s middle"
  shows "start \<le> find_mid sw (drop start items) middle start \<and> find_mid sw (drop start items) middle start \<le> end \<and>
    \<not> tag sw (ilo items (find_mid sw (drop start items) middle start)) <s middle"
  using assms(1)
proof (induction "end - start" arbitrary: start)
  case 0
  then have "start = end" by simp
  then show ?case using assms(2,3) by (simp add: Cons_nth_drop_Suc [symmetric])
next
  case (Suc k)
  then have s: "start < length items" "Suc start \<le> end" using assms(2) by auto
  show ?case
  proof (cases "tag sw (ilo items start) <s middle")
    case True
    then have "find_mid sw (drop start items) middle start = find_mid sw (drop (Suc start) items) middle (Suc start)"
      using s(1) by (simp add: Cons_nth_drop_Suc [symmetric])
    moreover have "k = end - Suc start" using Suc.hyps(2) by simp
    ultimately show ?thesis using Suc.hyps(1) [of "Suc start"] s by simp
  next
    case False
    then have "find_mid sw (drop start items) middle start = start"
      using s(1) by (simp add: Cons_nth_drop_Suc [symmetric])
    then show ?thesis using False Suc.prems by simp
  qed
qed

lemma sint_word_of_int_small: "- (2 ^ 63) \<le> k \<Longrightarrow> k < 2 ^ 63 \<Longrightarrow> sint (word_of_int k :: i64) = k"
  by (simp add: signed_of_int signed_take_bit_int_eq_self)

lemma middle_tag_between:
  assumes "sint a + 5 \<le> sint b"
  shows "sint a < sint (middle_tag a b) \<and> sint (middle_tag a b) \<le> sint b"
proof -
  have r: "- (2 ^ 63) \<le> sint a" "sint b < 2 ^ 63" using sint_ge [of a] sint_lt [of b] by auto
  have sgn: "bit w 63 \<longleftrightarrow> sint w < 0" for w :: i64 using bit_last_iff [of w] by simp
  have test: "(x AND push_bit 63 1 = 0) \<longleftrightarrow> \<not> bit x 63" for x :: i64
  proof -
    have "x AND push_bit 63 1 = (if bit x 63 then push_bit 63 1 else 0)"
    proof (rule bit_word_eqI)
      fix n assume "n < LENGTH(64)"
      then show "bit (x AND push_bit 63 1) n = bit (if bit x 63 then push_bit 63 1 else 0 :: i64) n"
        by (cases "n = 63") (auto simp: bit_simps simp flip: push_bit_of_1)
    qed
    moreover have "(push_bit 63 1 :: i64) \<noteq> 0" by simp
    ultimately show ?thesis by (metis (full_types))
  qed
  show ?thesis
  proof (cases "(sint a < 0) = (sint b < 0)")
    case True
    then have "\<not> bit (a XOR b) 63" by (simp add: bit_xor_iff sgn [of a] sgn [of b])
    then have m: "middle_tag a b = word_of_int (sint (b - a) sdiv 2) + a" unfolding middle_tag_def test by simp
    have d: "sint (b - a) = sint b - sint a"
      using r True assms by (subst sint_word_ariths) (auto intro!: signed_take_bit_int_eq_self)
    have q: "sint (b - a) sdiv 2 = (sint b - sint a) div 2" using d assms by (simp add: signed_divide_int_def)
    have "middle_tag a b = word_of_int ((sint b - sint a) div 2 + sint a)" using m q by simp
    moreover have "sint (word_of_int ((sint b - sint a) div 2 + sint a) :: i64) = (sint b - sint a) div 2 + sint a"
      using r assms by (intro sint_word_of_int_small) linarith+
    ultimately have "sint (middle_tag a b) = (sint b - sint a) div 2 + sint a" by (simp only:)
    then show ?thesis using assms by linarith
  next
    case False
    then have s: "sint a < 0" "0 \<le> sint b" using assms by auto
    then have "bit (a XOR b) 63" by (simp add: bit_xor_iff sgn [of a] sgn [of b])
    then have m: "middle_tag a b = word_of_int (sint (b + a) sdiv 2)" unfolding middle_tag_def test by simp
    have d: "sint (b + a) = sint b + sint a"
      using r s by (subst sint_word_ariths) (auto intro!: signed_take_bit_int_eq_self)
    define q where "q = (sint b + sint a) sdiv 2"
    have q: "sint a < q" "q \<le> sint b"
      using s assms unfolding q_def by (auto simp: signed_divide_int_def sgn_if abs_if)
    then have "sint (middle_tag a b) = q" using m d r by (simp add: q_def [symmetric] sint_word_of_int_small)
    with q show ?thesis by simp
  qed
qed


lemma tag_gap:
  "items_ok m sw items \<Longrightarrow> i \<le> j \<Longrightarrow> j < length items \<Longrightarrow> sint (tag sw (ilo items i)) + int (j - i) \<le> sint (tag sw (ilo items j))"
proof (induction j)
  case (Suc j)
  show ?case
  proof (cases "i = Suc j")
    case False
    then have ij: "i \<le> j" using Suc.prems(2) by simp
    have "sint (tag sw (ilo items j)) < sint (tag sw (ilo items (Suc j)))"
      using pos_strict [OF Suc.prems(1), of j "Suc j"] item_bounds(1) [OF Suc.prems(1)] Suc.prems(3)
        le_less_trans [OF item_bounds(2,3) [OF Suc.prems(1) Suc.prems(3)]]
      by (intro tag_less [OF items_okD(1) [OF Suc.prems(1)]]) auto
    then show ?thesis using Suc.IH [OF Suc.prems(1) ij] Suc.prems(3) ij by (simp add: Suc_diff_le)
  qed simp
qed simp

lemma default_jump_seg:
  assumes ok: "items_ok m sw items" and b: "start \<le> end1" "end1 \<le> length items" "\<not> start < end1"
    and code: "seg m sw P n code n (reach sw items start end1 low high)"
  shows "\<exists>code' jd'. default_jump sw code low high n jd = Some (code', n, jd') \<and> seg m sw P n code' n (\<lambda>_. False)"
proof (cases "low \<and> high")
  case True
  then have "seg m sw P n code n (\<lambda>_. False)" using b by (intro seg_weaken [OF code]) (auto simp: reach_def)
  with True show ?thesis by (auto simp: default_jump_def)
next
  case False
  have "seg m sw P n (code @ [BuildGotoNode sw None]) n (\<lambda>_. False)"
    by (rule seg_append [OF code seg_default [OF ok b]])
  with False show ?thesis by (auto simp: default_jump_def)
qed

definition builds :: "nat \<Rightarrow> switch_stmt \<Rightarrow> (nat \<times> nat) list \<Rightarrow> builder \<Rightarrow> nat \<Rightarrow> nat \<Rightarrow> bool" where
  "builds m sw items rec start end = (\<forall>low high n jd. \<exists>code n' jd'.
     rec sw items start end low high n jd = Some (code, n', jd') \<and>
     seg m sw (reach sw items start (Suc end) low high) n code n' (\<lambda>_. False))"

lemma buildsD:
  assumes "builds m sw items rec start end"
  obtains code n' jd' where "rec sw items start end low high n jd = Some (code, n', jd')"
    and "seg m sw (reach sw items start (Suc end) low high) n code n' (\<lambda>_. False)"
  using assms unfolding builds_def by blast

lemma build_few_seg:
  assumes ok: "items_ok m sw items" and b: "start \<le> end" "end < length items" and s: "snd (items ! start) = 0"
    and rec: "\<And>k. start < k \<Longrightarrow> k \<le> end \<Longrightarrow> builds m sw items rec k end"
  shows "builds m sw items (build_few rec) start end"
  unfolding builds_def
proof (intro allI)
  fix low high n jd
  obtain code k low' where eq: "build_eq sw items start end low high = Some (code, k, low')"
      "start < k" "k \<le> Suc end"
    and s1: "seg m sw (reach sw items start (Suc end) low high) n code n (reach sw items k (Suc end) low' high)"
    using build_eq_seg [OF ok _ b(2), of start low high n] b(1) s by auto
  show "\<exists>code n' jd'. build_few rec sw items start end low high n jd = Some (code, n', jd') \<and>
     seg m sw (reach sw items start (Suc end) low high) n code n' (\<lambda>_. False)"
  proof (cases "k \<le> end")
    case True
    obtain tmp n' jd' where r: "rec sw items k end low' high n jd = Some (tmp, n', jd')"
      and s2: "seg m sw (reach sw items k (Suc end) low' high) n tmp n' (\<lambda>_. False)"
      using rec [OF eq(2) True] by (rule buildsD)
    show ?thesis using eq(1) True r seg_append [OF s1 s2] by (simp add: build_few_def)
  next
    case False
    have "\<not> k < Suc end" "Suc end \<le> length items" using False b by auto
    from default_jump_seg [OF ok eq(3) this(2,1) s1, of jd] False eq(1) show ?thesis
      by (auto simp: build_few_def)
  qed
qed

lemma build_split_seg:
  assumes ok: "items_ok m sw items" and b: "start + kClusterSwitchCutoff \<le> end" "end < length items"
    and rec: "\<And>k l. start \<le> k \<Longrightarrow> k \<le> l \<Longrightarrow> l \<le> end \<Longrightarrow> l - k < end - start \<Longrightarrow> builds m sw items rec k l"
  shows "builds m sw items (build_split rec) start end"
  unfolding builds_def
proof (intro allI)
  fix low high n jd
  let ?key = "key (sw_type sw)"
  note d = items_okD [OF ok]
  have s: "start < length items" "start < end" using b by (auto simp: kClusterSwitchCutoff_def)
  define middle where "middle = middle_tag (tag sw (ilo items start)) (tag sw (ilo items end))"
  define mid where "mid = find_mid sw (drop start items) middle start"
  have gap: "sint (tag sw (ilo items start)) + int (end - start) \<le> sint (tag sw (ilo items end))"
    using tag_gap [OF ok _ b(2), of start] s by simp
  then have mt: "sint (tag sw (ilo items start)) < sint middle" "sint middle \<le> sint (tag sw (ilo items end))"
    using middle_tag_between [of "tag sw (ilo items start)" "tag sw (ilo items end)"] b(1)
    by (auto simp: middle_def kClusterSwitchCutoff_def)
  have mid: "start \<le> mid" "mid \<le> end" "\<not> tag sw (ilo items mid) <s middle"
    using find_mid_spec [OF less_imp_le [OF s(2)] b(2), of sw middle] mt by (auto simp: mid_def word_sless_alt)
  then have sm: "start < mid" using mt(1) by (cases "mid = start") (auto simp: word_sless_alt)
  have ml: "mid < length items" using mid b by simp
  note ib = item_bounds [OF ok ml]
  obtain c where c: "BuildCmpNode sw OP_lt (ilo items mid) = Some c"
    "\<And>\<rho> v. eval \<rho> (sw_opnd sw) = Some v \<Longrightarrow> eval \<rho> c = Some (bool_word (cmp_holds OP_lt (?key v) (sint (tag sw (ilo items mid)))))"
    using BuildCmpNode_holds [OF d(1), of "ilo items mid" OP_lt] ib by auto
  define prev where "prev = items ! (mid - 1)"
  define leftHigh where "leftHigh = (tag_adjacent sw (fst prev) (ilo items mid) \<or> tag_adjacent sw (snd prev) (ilo items mid))"
  have pl: "mid - 1 < length items" "Suc (mid - 1) = mid" using sm ml by auto
  have "ilo items (mid - 1) \<le> ihi items (mid - 1)" by (rule item_bounds(2) [OF ok pl(1)])
  moreover have "snd prev \<le> ihi items (mid - 1)" by (simp add: ihi_def prev_def)
  moreover have "ihi items (mid - 1) < ilo items mid" using pos_Suc [OF ok pl(1)] ib(1) pl(2) by simp
  ultimately have "fst prev < ilo items mid" "snd prev < ilo items mid" by (auto simp: prev_def)
  then have adj: "\<exists>k < ilo items mid. tag_adjacent sw k (ilo items mid)" if leftHigh
    using that unfolding leftHigh_def by blast
  let ?B = "\<lambda>v. cmp_holds OP_lt (?key v) (sint (tag sw (ilo items mid)))" and ?P = "reach sw items start (Suc end) low high"
  have "builds m sw items rec start (mid - 1)" by (rule rec) (use sm mid in linarith)+
  then obtain t n1 jd1 where t: "rec sw items start (mid - 1) low leftHigh n jd = Some (t, n1, jd1)"
    "seg m sw (reach sw items start (Suc (mid - 1)) low leftHigh) n t n1 (\<lambda>_. False)" by (rule buildsD)
  have "builds m sw items rec mid end" by (rule rec) (use sm mid in linarith)+
  then obtain e n2 jd2 where e: "rec sw items mid end True high n1 jd1 = Some (e, n2, jd2)"
    "seg m sw (reach sw items mid (Suc end) True high) n1 e n2 (\<lambda>_. False)" by (rule buildsD)
  have "seg m sw (\<lambda>v. ?P v \<and> ?B v) n t n1 (\<lambda>_. False)"
    by (rule seg_weaken [OF t(2)])
      (use reach_high_step [OF ok less_imp_le [OF sm] ml, of "Suc end"] adj mid pl(2) in \<open>auto simp: cmp_holds_def\<close>)
  moreover have "seg m sw (\<lambda>v. ?P v \<and> \<not> ?B v) n1 e n2 (\<lambda>_. False)"
    by (rule seg_weaken [OF e(2)])
      (use reach_upper [OF ok _ ml, of "Suc end" start] mid s in \<open>auto simp: cmp_holds_def\<close>)
  ultimately obtain blk n3 where "LowerIfStmt n2 c t (Some e) False = Some (blk, n3)" "seg m sw ?P n blk n3 (\<lambda>_. False)"
    using seg_if [where sw = sw and B = ?B and P = ?P, OF c(2)] by blast
  then show "\<exists>code n' jd'. build_split rec sw items start end low high n jd = Some (code, n', jd') \<and> seg m sw ?P n code n' (\<lambda>_. False)"
    using sm c(1) t(1) [unfolded leftHigh_def prev_def] e(1)
    by (simp add: build_split_def Let_def middle_def [symmetric] mid_def [symmetric])
qed


lemma build_rest_seg:
  assumes ok: "items_ok m sw items" and b: "start \<le> end1" "end1 \<le> length items"
    and s: "start < end1 \<longrightarrow> snd (items ! start) = 0"
    and rec: "\<And>k l. start \<le> k \<Longrightarrow> k \<le> l \<Longrightarrow> l < end1 \<Longrightarrow> l - k < end1 - 1 - start \<Longrightarrow> builds m sw items rec k l"
  shows "\<exists>code n' jd'. build_rest rec sw items start end1 low high n jd = Some (code, n', jd') \<and>
     seg m sw (reach sw items start end1 low high) n code n' (\<lambda>_. False)"
proof (cases "start < end1")
  case False
  have nil: "seg m sw (reach sw items start end1 low high) n [] n (reach sw items start end1 low high)" by (rule seg_nil)
  from default_jump_seg [OF ok b False nil, of jd] False show ?thesis by (auto simp: build_rest_def)
next
  case True
  define e where "e = end1 - 1"
  have e: "end1 = Suc e" "start \<le> e" "e < length items" using True b by (auto simp: e_def)
  note d = items_okD [OF ok]
  have single: "snd (items ! start) = 0" using s True by simp
  consider (one) "start = e" "low" "high"
    | (few) "\<not> (start = e \<and> low \<and> high)" "e < start + kClusterSwitchCutoff"
    | (split) "\<not> (start = e \<and> low \<and> high)" "start + kClusterSwitchCutoff \<le> e" by linarith
  then show ?thesis
  proof cases
    case one
    let ?i = "ilo items start"
    have st: "start < length items" using e by simp
    note ib = item_bounds [OF ok st]
    have i: "ihi items start = ?i" "?i < length (sw_table sw)" "snd (sw_table sw ! ?i) < m"
      using ib single d(3) by auto
    have "sw_target sw v = snd (sw_table sw ! ?i)" if r: "reach sw items start end1 low high v" for v
    proof -
      have "key (sw_type sw) v = sint (tag sw ?i)"
        using reachD(2) [OF r one(2) True] reachD(3) [OF r one(3) True] pos_Suc [OF ok st] i(1) ib(1) one(1) e(1) by simp
      then show ?thesis using tag_key [OF d(1) i(2)] key_inj target_hit [OF d(1) i(2)] by metis
    qed
    then have "seg m sw (reach sw items start end1 low high) n [BuildGotoNode sw (Some ?i)] n (\<lambda>_. False)"
      unfolding BuildGotoNode_def sw_label_def option.case by (intro seg_goto i(3))
    with one e True show ?thesis by (auto simp: build_rest_def Let_def)
  next
    case few
    have "builds m sw items (build_few rec) start e"
      by (rule build_few_seg [OF ok e(2,3) single]) (use rec e in auto)
    then show ?thesis using few e by (auto simp: builds_def build_rest_def Let_def)
  next
    case split
    have "builds m sw items (build_split rec) start e"
      by (rule build_split_seg [OF ok split(2) e(3)]) (use rec e in auto)
    then show ?thesis using split e by (auto simp: builds_def build_rest_def Let_def)
  qed
qed

lemma build_seg:
  assumes ok: "items_ok m sw items"
  shows "start \<le> end \<Longrightarrow> end < length items \<Longrightarrow> end - start < fuel \<Longrightarrow>
    builds m sw items (BuildCodeForSwitchItems fuel) start end"
proof (induction fuel arbitrary: start "end")
  case (Suc fuel)
  show ?case
    unfolding builds_def
  proof (intro allI)
    fix low high n jd
    let ?rec = "BuildCodeForSwitchItems fuel"
    obtain c1 s1 low1 n1 where l: "build_low sw items start end low n = Some (c1, s1, low1, n1)"
      "start \<le> s1" "s1 \<le> Suc end" "s1 \<le> end \<longrightarrow> snd (items ! s1) = 0"
      and g1: "seg m sw (reach sw items start (Suc end) low high) n c1 n1 (reach sw items s1 (Suc end) low1 high)"
      using build_low_seg [OF ok _ Suc.prems(2), of start low n high] Suc.prems(1) by auto
    obtain c2 e1 high1 n2 where h: "build_high sw items s1 (Suc end) high n1 = Some (c2, e1, high1, n2)"
      "s1 \<le> e1" "e1 \<le> Suc end"
      and g2: "seg m sw (reach sw items s1 (Suc end) low1 high) n1 c2 n2 (reach sw items s1 e1 low1 high1)"
      using build_high_seg [OF ok l(3), of high n1 low1] l(4) Suc.prems(2) by (auto simp: less_Suc_eq_le)
    have "\<exists>c3 n3 jd3. build_rest ?rec sw items s1 e1 low1 high1 n2 jd = Some (c3, n3, jd3) \<and>
        seg m sw (reach sw items s1 e1 low1 high1) n2 c3 n3 (\<lambda>_. False)"
    proof (rule build_rest_seg [OF ok h(2)])
      show "e1 \<le> length items" using h(3) Suc.prems(2) by simp
      show "s1 < e1 \<longrightarrow> snd (items ! s1) = 0" using l(4) h(3) by auto
      fix k j assume "s1 \<le> k" "k \<le> j" "j < e1" "j - k < e1 - 1 - s1"
      then show "builds m sw items ?rec k j" using h(3) l(2) Suc.prems by (intro Suc.IH) linarith+
    qed
    then obtain c3 n3 jd3 where r: "build_rest ?rec sw items s1 e1 low1 high1 n2 jd = Some (c3, n3, jd3)"
      and g3: "seg m sw (reach sw items s1 e1 low1 high1) n2 c3 n3 (\<lambda>_. False)" by blast
    show "\<exists>code n' jd'. BuildCodeForSwitchItems (Suc fuel) sw items start end low high n jd = Some (code, n', jd') \<and>
        seg m sw (reach sw items start (Suc end) low high) n code n' (\<lambda>_. False)"
      using Suc.prems(1) l(1) h(1) r seg_append [OF g1 seg_append [OF g2 g3]] by (auto simp: build_items_def)
  qed
qed simp


section \<open>The whole statement\<close>

definition sorted_switch :: "switch_stmt \<Rightarrow> switch_stmt" where
  "sorted_switch sw = sw\<lparr>sw_table := sort_key (sint \<circ> fst) (sw_table sw)\<rparr>"

lemma sorted_strict: "distinct (map f xs) \<Longrightarrow> sorted (map f xs) \<Longrightarrow> sorted_wrt (\<lambda>a b. f a < f b) xs" for f :: "'a \<Rightarrow> int"
  by (induction xs) (auto simp: le_less)

lemma sorted_switch_ok:
  assumes "tags_ok (sw_type sw) (sw_table sw)" "distinct (map fst (sw_table sw))"
  shows "sw_ok (sorted_switch sw)"
proof -
  have "distinct (map (sint \<circ> fst) (sw_table sw))"
    using assms(2) by (auto simp: distinct_map inj_on_def dest!: sint_inj)
  then have "distinct (map (sint \<circ> fst) (sort_key (sint \<circ> fst) (sw_table sw)))"
    by (simp add: distinct_map)
  from sorted_strict [OF this] assms(1) show ?thesis
    by (simp add: sw_ok_def sorted_switch_def tags_ok_def comp_def)
qed

lemma sorted_switch_target:
  assumes "distinct (map fst (sw_table sw))"
  shows "switch_target d (sw_table (sorted_switch sw)) v = switch_target d (sw_table sw) v"
proof (cases "v \<in> fst ` set (sw_table sw)")
  case True
  then obtain l where l: "(v, l) \<in> set (sw_table sw)" by auto
  have "distinct (map fst (sw_table (sorted_switch sw)))"
    using assms by (simp add: sorted_switch_def distinct_map)
  then show ?thesis using l assms by (simp add: switch_target_iff(1) [where l = l] sorted_switch_def)
next
  case False
  then show ?thesis by (simp add: switch_target_iff(2) sorted_switch_def)
qed

text \<open>
  Clusters whose tags lie less than \<open>2 ^ 32\<close> apart: the entries of a range goto are numbered by
  32-bit words.
\<close>

definition spans_ok :: "switch_stmt \<Rightarrow> bool" where
  "spans_ok sw = (\<forall>(i, j) \<in> set (FindClusters (sorted_switch sw)). span_ok (sorted_switch sw) i j)"

definition switch_ok :: "nat \<Rightarrow> switch_stmt \<Rightarrow> bool" where
  "switch_ok m sw = (tags_ok (sw_type sw) (sw_table sw) \<and> distinct (map fst (sw_table sw)) \<and> spans_ok sw \<and>
     sw_default sw < m \<and> (\<forall>l \<in> snd ` set (sw_table sw). l < m))"

lemma switch_items_ok:
  assumes "switch_ok m sw" "sw_table sw \<noteq> []"
  shows "items_ok m (sorted_switch sw) (InitSwitchItems (sorted_switch sw) (FindClusters (sorted_switch sw)))"
proof -
  let ?sw = "sorted_switch sw"
  have c: "ascending 0 (length (sw_table ?sw)) (FindClusters ?sw)" by (simp add: FindClusters_def clusters_ascending)
  have cov: "cover 0 (length (sw_table ?sw)) (InitSwitchItems ?sw (FindClusters ?sw))"
    by (simp add: InitSwitchItems_def items_cover [OF c])
  moreover have "InitSwitchItems ?sw (FindClusters ?sw) \<noteq> []" using cov assms(2) by (auto simp: sorted_switch_def)
  moreover have "span_ok ?sw lo hi" if "(lo, hi) \<in> set (InitSwitchItems ?sw (FindClusters ?sw))" "hi \<noteq> 0" for lo hi
    using items_clusters [OF c that(1) [unfolded InitSwitchItems_def] that(2)] assms(1) by (auto simp: switch_ok_def spans_ok_def)
  moreover have "sw_ok ?sw" using assms(1) by (auto simp: switch_ok_def intro: sorted_switch_ok)
  moreover have "sw_default ?sw < m" "\<forall>l \<in> snd ` set (sw_table ?sw). l < m"
    using assms(1) by (auto simp: switch_ok_def sorted_switch_def)
  ultimately show ?thesis by (auto simp: items_ok_def)
qed

text \<open>
  C6. The code of a switch jumps where the switch goes. For a table of distinct tags of the
  operand's type (none beyond the sign bit for an unsigned type, runs spanning less than 32 bits)
  \<open>LowerSwitch\<close> succeeds, and on every value of the operand its code leaves, with the store
  unchanged, for the label the table gives that value, or for the default label.
\<close>

theorem LowerSwitch_correct:
  assumes "switch_ok m sw" "m \<le> n" "eval \<rho> (sw_opnd sw) = Some v"
  shows "\<exists>code n'. LowerSwitch sw n = Some (code, n') \<and>
    (\<forall>out \<rho>'. runs code \<rho> out \<rho>' \<longleftrightarrow> out = Jump (switch_target (sw_default sw) (sw_table sw) v) \<and> \<rho>' = \<rho>)"
proof (cases "sw_table sw = []")
  case True
  have d: "sw_default sw < m" using assms(1) by (simp add: switch_ok_def)
  have "execs [SGoto (sw_default sw)] \<rho> (Jump (sw_default sw)) \<rho>" by (auto intro: exec_by_execs_by.intros)
  from lowered_runs [OF _ _ assms(2) this] d True show ?thesis
    by (auto simp: LowerSwitch_def BuildGotoNode_def sw_label_def switch_target_def)
next
  case False
  define sw' where "sw' = sorted_switch sw"
  define items where "items = InitSwitchItems sw' (FindClusters sw')"
  have ok: "items_ok m sw' items" using switch_items_ok [OF assms(1) False] by (simp add: sw'_def items_def)
  have fields: "sw_opnd sw' = sw_opnd sw" "sw_default sw' = sw_default sw" by (simp_all add: sw'_def sorted_switch_def)
  have dist: "distinct (map fst (sw_table sw))" using assms(1) by (simp add: switch_ok_def)
  have len: "items \<noteq> []" using ok by (simp add: items_ok_def)
  then have "builds m sw' items (BuildCodeForSwitchItems (length items)) 0 (length items - 1)"
    by (intro build_seg [OF ok]) auto
  then obtain code n' jd where b: "BuildCodeForSwitchItems (length items) sw' items 0 (length items - 1) False False n False = Some (code, n', jd)"
    and g: "seg m sw' (reach sw' items 0 (Suc (length items - 1)) False False) n code n' (\<lambda>_. False)" by (rule buildsD)
  let ?d = "[BuildGotoNode sw' None]"
  have final: "seg m sw' (reach sw' items 0 (length items) False False) n (if jd then code else code @ ?d) n' (\<lambda>_. False)"
  proof (cases jd)
    case True
    then show ?thesis using g len by simp
  next
    case False
    have "seg m sw' (\<lambda>_. False) n' ?d n' (\<lambda>_. False)"
      unfolding BuildGotoNode_def sw_label_def option.case by (rule seg_goto) (use items_okD(2) [OF ok] in auto)
    from seg_append [OF g this] False len show ?thesis by simp
  qed
  have "pos sw' items 0 = 0" "pos sw' items (length items) = length (sw_table sw')"
    using ok len cover_first [of 0 _ items] by (auto simp: pos_def items_ok_def)
  then have "reach sw' items 0 (length items) False False v" using len by (simp add: reach_def Let_def)
  with final assms(3) obtain ss where ss: "LowerBlock n ss = Some (if jd then code else code @ ?d, n')" "src_ok_block m ss"
    "execs ss \<rho> (Jump (sw_target sw' v)) \<rho>" unfolding seg_def fields by blast
  have t: "sw_target sw' v = switch_target (sw_default sw) (sw_table sw) v"
    using sorted_switch_target [OF dist] fields by (simp add: sw'_def)
  have "LowerSwitch sw n = Some (if jd then code else code @ ?d, n')"
    using False b by (simp add: LowerSwitch_def Let_def sw'_def [unfolded sorted_switch_def, symmetric] items_def [symmetric])
  then show ?thesis using lowered_runs [OF ss(1,2) assms(2) ss(3)] t by auto
qed

definition sample_switch :: switch_stmt where
  "sample_switch = \<lparr>sw_opnd = ELeaf OP_dread PTY_i32 0, sw_default = 9,
     sw_table = [(1, 1), (2, 2), (4, 3), (5, 4), (6, 5), (7, 6), (100, 8), (- 5, 4), (1000, 2)]\<rparr>"

lemma LowerSwitch_correct_witness:
  "\<exists>code n'. LowerSwitch sample_switch 10 = Some (code, n') \<and> (\<forall>out \<rho>'. runs code (\<lambda>_. 4) out \<rho>' \<longleftrightarrow> out = Jump 3 \<and> \<rho>' = (\<lambda>_. 4))"
proof -
  have "switch_ok 10 sample_switch" by code_simp
  moreover have "eval (\<lambda>_. 4) (sw_opnd sample_switch) = Some 4" by code_simp
  moreover have "switch_target (sw_default sample_switch) (sw_table sample_switch) 4 = 3" by code_simp
  ultimately show ?thesis using LowerSwitch_correct [of 10 sample_switch 10 "\<lambda>_. 4" 4] by simp
qed


lemma upt_split: "i \<le> j \<Longrightarrow> j \<le> N \<Longrightarrow> [i..<j] @ [j..<N] = [i..<N]"
  by (metis le_add_diff_inverse upt_add_eq_append)

text \<open>
  C32. The items partition the table: laid end to end, the index ranges they stand for are the
  indices of the table in order.
\<close>

theorem InitSwitchItems_partition:
  "concat (map (\<lambda>(i, j). [i..<Suc (max i j)]) (InitSwitchItems sw (FindClusters sw))) = [0..<length (sw_table sw)]"
proof -
  have c: "ascending 0 (length (sw_table sw)) (FindClusters sw)" by (simp add: FindClusters_def clusters_ascending)
  have "cover i N items \<Longrightarrow> concat (map (\<lambda>(i, j). [i..<Suc (max i j)]) items) = [i..<N]" for i N items
  proof (induction i N items rule: cover.induct)
    case (2 i N a b rest)
    then show ?case
      using cover_le [of "Suc b" N rest] cover_le [of "Suc i" N rest]
      using upt_split [of a "Suc b" N] upt_split [of a "Suc a" N] by (auto simp: max_def simp del: upt_Suc)
  qed simp
  then show ?thesis using items_cover [OF c] by (simp add: InitSwitchItems_def)
qed

text \<open>
  Six 64-bit tags around \<open>2 ^ 62\<close>, \<open>2 ^ 35\<close> apart, become one dense run, since their single
  precision values are all the same and the quotient is infinite. The run would need a range goto
  of more than \<open>2 ^ 37\<close> entries, and its 32-bit entry numbers of different cases coincide.
\<close>

definition far_tags :: switch_stmt where
  "far_tags = \<lparr>sw_opnd = ELeaf OP_dread PTY_i64 0, sw_default = 9,
     sw_table = map (\<lambda>i. (2 ^ 62 + of_nat i * 2 ^ 35, i)) [0..<6]\<rparr>"

lemma far_tags_dense:
  "FindClusters far_tags = [(0, 5)] \<and> sint (tag far_tags 5) - sint (tag far_tags 0) > 2 ^ 37 \<and>
   (ucast (tag far_tags 1 - tag far_tags 0) :: u32) = ucast (tag far_tags 2 - tag far_tags 0)"
  by code_simp

text \<open>
  The tags of an unsigned 64-bit switch are sorted as signed values and compared as unsigned
  ones: with a tag beyond the sign bit the search tree goes the wrong way, and the value of that
  very case reaches the default label.
\<close>

definition high_tag :: switch_stmt where
  "high_tag = \<lparr>sw_opnd = ELeaf OP_dread PTY_u64 0, sw_default = 9,
     sw_table = [(2 ^ 63, 1), (0, 2), (1000, 3), (2000, 4), (3000, 5), (4000, 6)]\<rparr>"

lemma high_tag_missed:
  "switch_target (sw_default high_tag) (sw_table high_tag) (2 ^ 63) = 1 \<and>
   (\<exists>\<rho>. runs (fst (the (LowerSwitch high_tag 10))) (\<lambda>_. 2 ^ 63) (Jump 9) \<rho>)"
proof
  show "switch_target (sw_default high_tag) (sw_table high_tag) (2 ^ 63) = 1" by code_simp
  have "map_option fst (run_flat eval 20 (fst (the (LowerSwitch high_tag 10))) (0, \<lambda>_. 2 ^ 63)) = Some (Jump 9)" by code_simp
  then show "\<exists>\<rho>. runs (fst (the (LowerSwitch high_tag 10))) (\<lambda>_. 2 ^ 63) (Jump 9) \<rho>"
    by (auto intro: run_flat_runs)
qed

end
