(* ===== verification/Muid.thy ===== *)
theory Muid
  imports Prelude
begin

text \<open>
  The name identifiers of the compiler and the runtime (maple_util/src/muid.cpp and
  maple_util/include/muid.h): a streaming implementation of the MD5 message digest, and the
  \<open>MUID\<close> class made of its 16 bytes. The context record has the fields of \<open>MuidContext\<close>; a
  pointer into a byte array is the list of the bytes from there on. The buffer and the block are
  not initialised by \<open>MuidInit\<close>, which therefore takes the context it finds.
  \<open>memcpy_s\<close> and \<open>memset_s\<close> only fail above the buffer size, which the lengths here never are.
\<close>

section \<open>The context and the transformation\<close>

type_synonym regs = "u32 \<times> u32 \<times> u32 \<times> u32"

record muid_context =
  mc_a :: u32
  mc_b :: u32
  mc_c :: u32
  mc_d :: u32
  mc_count0 :: u32
  mc_count1 :: u32
  mc_block :: "u32 list"
  mc_buffer :: "byte list"

definition kGroupSize :: nat where "kGroupSize = 64"
definition kBitMask :: "'a::len word" where "kBitMask = 0x3f"
definition kByteLength :: nat where "kByteLength = 8"
definition kSystemNamespace :: byte where "kSystemNamespace = 0xc0"
definition kApkNamespace :: byte where "kApkNamespace = 0x80"

definition F_mix :: "u32 \<Rightarrow> u32 \<Rightarrow> u32 \<Rightarrow> u32" where
  "F_mix x y z = (x AND y) OR (NOT x AND z)"
definition G_mix :: "u32 \<Rightarrow> u32 \<Rightarrow> u32 \<Rightarrow> u32" where
  "G_mix x y z = (x AND z) OR (y AND NOT z)"
definition H_mix :: "u32 \<Rightarrow> u32 \<Rightarrow> u32 \<Rightarrow> u32" where
  "H_mix x y z = x XOR y XOR z"
definition I_mix :: "u32 \<Rightarrow> u32 \<Rightarrow> u32 \<Rightarrow> u32" where
  "I_mix x y z = y XOR (x OR NOT z)"

definition TRANS ::
  "(u32 \<Rightarrow> u32 \<Rightarrow> u32 \<Rightarrow> u32) \<Rightarrow> u32 \<Rightarrow> u32 \<Rightarrow> u32 \<Rightarrow> u32 \<Rightarrow> u32 \<Rightarrow> u32 \<Rightarrow> nat \<Rightarrow> u32" where
  "TRANS f a b c d x t s =
     (let a = a + (f b c d + x + t);
          a = push_bit s a OR drop_bit (32 - s) (a AND 0xffffffff)
      in a + b)"

definition DECODE :: "nat \<Rightarrow> byte list \<Rightarrow> u32" where
  "DECODE n input =
     ucast (input ! (n * 4)) OR push_bit 8 (ucast (input ! (n * 4 + 1)))
     OR push_bit 16 (ucast (input ! (n * 4 + 2))) OR push_bit 24 (ucast (input ! (n * 4 + 3)))"

definition ENCODE :: "u32 \<Rightarrow> byte list" where
  "ENCODE src = [ucast src, ucast (drop_bit 8 src), ucast (drop_bit 16 src), ucast (drop_bit 24 src)]"

definition muid_round1 :: "u32 list \<Rightarrow> regs \<Rightarrow> regs" where
  "muid_round1 block = (\<lambda>(a, b, c, d).
     let a = TRANS F_mix a b c d (block ! 0) 0xd76aa478 7 in
     let d = TRANS F_mix d a b c (block ! 1) 0xe8c7b756 12 in
     let c = TRANS F_mix c d a b (block ! 2) 0x242070db 17 in
     let b = TRANS F_mix b c d a (block ! 3) 0xc1bdceee 22 in
     let a = TRANS F_mix a b c d (block ! 4) 0xf57c0faf 7 in
     let d = TRANS F_mix d a b c (block ! 5) 0x4787c62a 12 in
     let c = TRANS F_mix c d a b (block ! 6) 0xa8304613 17 in
     let b = TRANS F_mix b c d a (block ! 7) 0xfd469501 22 in
     let a = TRANS F_mix a b c d (block ! 8) 0x698098d8 7 in
     let d = TRANS F_mix d a b c (block ! 9) 0x8b44f7af 12 in
     let c = TRANS F_mix c d a b (block ! 10) 0xffff5bb1 17 in
     let b = TRANS F_mix b c d a (block ! 11) 0x895cd7be 22 in
     let a = TRANS F_mix a b c d (block ! 12) 0x6b901122 7 in
     let d = TRANS F_mix d a b c (block ! 13) 0xfd987193 12 in
     let c = TRANS F_mix c d a b (block ! 14) 0xa679438e 17 in
     let b = TRANS F_mix b c d a (block ! 15) 0x49b40821 22 in
     (a, b, c, d))"

definition muid_round2 :: "u32 list \<Rightarrow> regs \<Rightarrow> regs" where
  "muid_round2 block = (\<lambda>(a, b, c, d).
     let a = TRANS G_mix a b c d (block ! 1) 0xf61e2562 5 in
     let d = TRANS G_mix d a b c (block ! 6) 0xc040b340 9 in
     let c = TRANS G_mix c d a b (block ! 11) 0x265e5a51 14 in
     let b = TRANS G_mix b c d a (block ! 0) 0xe9b6c7aa 20 in
     let a = TRANS G_mix a b c d (block ! 5) 0xd62f105d 5 in
     let d = TRANS G_mix d a b c (block ! 10) 0x02441453 9 in
     let c = TRANS G_mix c d a b (block ! 15) 0xd8a1e681 14 in
     let b = TRANS G_mix b c d a (block ! 4) 0xe7d3fbc8 20 in
     let a = TRANS G_mix a b c d (block ! 9) 0x21e1cde6 5 in
     let d = TRANS G_mix d a b c (block ! 14) 0xc33707d6 9 in
     let c = TRANS G_mix c d a b (block ! 3) 0xf4d50d87 14 in
     let b = TRANS G_mix b c d a (block ! 8) 0x455a14ed 20 in
     let a = TRANS G_mix a b c d (block ! 13) 0xa9e3e905 5 in
     let d = TRANS G_mix d a b c (block ! 2) 0xfcefa3f8 9 in
     let c = TRANS G_mix c d a b (block ! 7) 0x676f02d9 14 in
     let b = TRANS G_mix b c d a (block ! 12) 0x8d2a4c8a 20 in
     (a, b, c, d))"

definition muid_round3 :: "u32 list \<Rightarrow> regs \<Rightarrow> regs" where
  "muid_round3 block = (\<lambda>(a, b, c, d).
     let a = TRANS H_mix a b c d (block ! 5) 0xfffa3942 4 in
     let d = TRANS H_mix d a b c (block ! 8) 0x8771f681 11 in
     let c = TRANS H_mix c d a b (block ! 11) 0x6d9d6122 16 in
     let b = TRANS H_mix b c d a (block ! 14) 0xfde5380c 23 in
     let a = TRANS H_mix a b c d (block ! 1) 0xa4beea44 4 in
     let d = TRANS H_mix d a b c (block ! 4) 0x4bdecfa9 11 in
     let c = TRANS H_mix c d a b (block ! 7) 0xf6bb4b60 16 in
     let b = TRANS H_mix b c d a (block ! 10) 0xbebfbc70 23 in
     let a = TRANS H_mix a b c d (block ! 13) 0x289b7ec6 4 in
     let d = TRANS H_mix d a b c (block ! 0) 0xeaa127fa 11 in
     let c = TRANS H_mix c d a b (block ! 3) 0xd4ef3085 16 in
     let b = TRANS H_mix b c d a (block ! 6) 0x04881d05 23 in
     let a = TRANS H_mix a b c d (block ! 9) 0xd9d4d039 4 in
     let d = TRANS H_mix d a b c (block ! 12) 0xe6db99e5 11 in
     let c = TRANS H_mix c d a b (block ! 15) 0x1fa27cf8 16 in
     let b = TRANS H_mix b c d a (block ! 2) 0xc4ac5665 23 in
     (a, b, c, d))"

definition muid_round4 :: "u32 list \<Rightarrow> regs \<Rightarrow> regs" where
  "muid_round4 block = (\<lambda>(a, b, c, d).
     let a = TRANS I_mix a b c d (block ! 0) 0xf4292244 6 in
     let d = TRANS I_mix d a b c (block ! 7) 0x432aff97 10 in
     let c = TRANS I_mix c d a b (block ! 14) 0xab9423a7 15 in
     let b = TRANS I_mix b c d a (block ! 5) 0xfc93a039 21 in
     let a = TRANS I_mix a b c d (block ! 12) 0x655b59c3 6 in
     let d = TRANS I_mix d a b c (block ! 3) 0x8f0ccc92 10 in
     let c = TRANS I_mix c d a b (block ! 10) 0xffeff47d 15 in
     let b = TRANS I_mix b c d a (block ! 1) 0x85845dd1 21 in
     let a = TRANS I_mix a b c d (block ! 8) 0x6fa87e4f 6 in
     let d = TRANS I_mix d a b c (block ! 15) 0xfe2ce6e0 10 in
     let c = TRANS I_mix c d a b (block ! 6) 0xa3014314 15 in
     let b = TRANS I_mix b c d a (block ! 13) 0x4e0811a1 21 in
     let a = TRANS I_mix a b c d (block ! 4) 0xf7537e82 6 in
     let d = TRANS I_mix d a b c (block ! 11) 0xbd3af235 10 in
     let c = TRANS I_mix c d a b (block ! 2) 0x2ad7d2bb 15 in
     let b = TRANS I_mix b c d a (block ! 9) 0xeb86d391 21 in
     (a, b, c, d))"

definition muid_group :: "byte list \<Rightarrow> regs \<Rightarrow> regs" where
  "muid_group input r =
     (let block = map (\<lambda>i. DECODE i input) [0..<16];
          (a, b, c, d) = muid_round4 block (muid_round3 block (muid_round2 block (muid_round1 block r)))
      in (fst r + a, fst (snd r) + b, fst (snd (snd r)) + c, snd (snd (snd r)) + d))"

primrec MuidTransform :: "nat \<Rightarrow> muid_context \<Rightarrow> byte list \<Rightarrow> muid_context \<times> byte list" where
  "MuidTransform 0 status input = (status, input)"
| "MuidTransform (Suc count) status input =
     (let (a, b, c, d) = muid_group input (mc_a status, mc_b status, mc_c status, mc_d status)
      in MuidTransform count
           (status\<lparr>mc_a := a, mc_b := b, mc_c := c, mc_d := d,
              mc_block := map (\<lambda>i. DECODE i input) [0..<16]\<rparr>)
           (drop kGroupSize input))"

definition MuidInit :: "muid_context \<Rightarrow> muid_context" where
  "MuidInit status =
     status\<lparr>mc_a := 0x67452301, mc_b := 0xefcdab89, mc_c := 0x98badcfe, mc_d := 0x10325476,
       mc_count0 := 0, mc_count1 := 0\<rparr>"

section \<open>Decoding and encoding\<close>

text \<open>\<open>memcpy_s(&buffer[idx], kGroupSize, data, size)\<close>, and \<open>memset_s\<close> to zero.\<close>

definition copy_at :: "nat \<Rightarrow> byte list \<Rightarrow> byte list \<Rightarrow> byte list" where
  "copy_at idx bytes buffer = take idx buffer @ bytes @ drop (idx + length bytes) buffer"

definition muid_count :: "nat \<Rightarrow> muid_context \<Rightarrow> muid_context" where
  "muid_count count status =
     (let tmp = mc_count0 status;
          count0 = ucast ((ucast tmp + of_nat count :: u64) AND 0x1fffffff) :: u32;
          count1 = (if count0 < tmp then mc_count1 status + 1 else mc_count1 status);
          higherBits = ucast (drop_bit 32 (of_nat count :: u64)) :: u32
      in status\<lparr>mc_count0 := count0, mc_count1 := count1 + higherBits * of_nat kByteLength\<rparr>)"

definition muid_groups :: "muid_context \<Rightarrow> byte list \<Rightarrow> muid_context" where
  "muid_groups status position =
     (let (status, position) =
            (if kGroupSize \<le> length position
             then MuidTransform (length position div kGroupSize) status position
             else (status, position))
      in status\<lparr>mc_buffer := copy_at 0 position (mc_buffer status)\<rparr>)"

definition MuidDecode :: "muid_context \<Rightarrow> byte list \<Rightarrow> muid_context" where
  "MuidDecode status0 data =
     (let status = muid_count (length data) status0;
          idx = unat (mc_count0 status0 AND kBitMask);
          remain = kGroupSize - idx
      in if idx \<noteq> 0 then
           (if length data < remain
            then status\<lparr>mc_buffer := copy_at idx data (mc_buffer status)\<rparr>
            else let status = status\<lparr>mc_buffer := copy_at idx (take remain data) (mc_buffer status)\<rparr>;
                     (status, _) = MuidTransform 1 status (mc_buffer status)
                 in muid_groups status (drop remain data))
         else muid_groups status data)"

text \<open>The padding of \<open>FullEncode\<close>, and the eight bytes it writes; the callers write the rest.\<close>

definition pad_zero :: "nat \<Rightarrow> nat \<Rightarrow> muid_context \<Rightarrow> muid_context" where
  "pad_zero idx n status = status\<lparr>mc_buffer := copy_at idx (replicate n 0) (mc_buffer status)\<rparr>"

definition last_group :: "nat \<Rightarrow> nat \<Rightarrow> muid_context \<Rightarrow> muid_context" where
  "last_group idx remain status =
     (let status = pad_zero idx (remain - kByteLength) status;
          status = status\<lparr>mc_count0 := mc_count0 status * of_nat kByteLength\<rparr>;
          status = status\<lparr>mc_buffer := copy_at 56 (ENCODE (mc_count0 status)) (mc_buffer status)\<rparr>;
          status = status\<lparr>mc_buffer := copy_at 60 (ENCODE (mc_count1 status)) (mc_buffer status)\<rparr>
      in fst (MuidTransform 1 status (mc_buffer status)))"

definition FullEncode :: "muid_context \<Rightarrow> byte list \<times> muid_context" where
  "FullEncode status0 =
     (let idx = unat (mc_count0 status0 AND kBitMask);
          status1 = status0\<lparr>mc_buffer := (mc_buffer status0)[idx := 0x80]\<rparr>;
          remain = kGroupSize - (idx + 1);
          status2 =
            (if remain < kByteLength
             then let padded = pad_zero (idx + 1) remain status1 in
               last_group 0 kGroupSize (fst (MuidTransform 1 padded (mc_buffer padded)))
             else last_group (idx + 1) remain status1)
      in (ENCODE (mc_a status2) @ ENCODE (mc_b status2), status2))"

definition MuidEncode8 :: "muid_context \<Rightarrow> byte list" where
  "MuidEncode8 status = fst (FullEncode status)"

text \<open>With \<open>use64Bit\<close> the upper half of the result keeps what it held before.\<close>

definition MuidEncode16 :: "byte list \<Rightarrow> muid_context \<Rightarrow> bool \<Rightarrow> byte list" where
  "MuidEncode16 result status use64Bit =
     (let (low, status) = FullEncode status
      in low @ (if \<not> use64Bit then ENCODE (mc_c status) @ ENCODE (mc_d status) else drop 8 result))"

section \<open>The identifier\<close>

text \<open>The 128-bit form: two 64-bit words over the bytes, little endian.\<close>

datatype muid = MUID (word0: u64) (word1: u64)

definition word_of_bytes :: "byte list \<Rightarrow> u64" where
  "word_of_bytes bs = foldr (\<lambda>b w. ucast b OR push_bit 8 w) bs 0"

definition muid_of_bytes :: "byte list \<Rightarrow> muid" where
  "muid_of_bytes bs = MUID (word_of_bytes (take 8 bs)) (word_of_bytes (take 8 (drop 8 bs)))"

definition last_byte :: "muid \<Rightarrow> byte" where
  "last_byte m = ucast (drop_bit 56 (word1 m))"

definition set_last_byte :: "byte \<Rightarrow> muid \<Rightarrow> muid" where
  "set_last_byte b m = MUID (word0 m) (take_bit 56 (word1 m) OR push_bit 56 (ucast b))"

definition IsSystemNameSpace :: "muid \<Rightarrow> bool" where
  "IsSystemNameSpace m = (last_byte m AND NOT kBitMask = kSystemNamespace)"

definition IsApkNameSpace :: "muid \<Rightarrow> bool" where
  "IsApkNameSpace m = (last_byte m AND NOT kBitMask = kApkNamespace)"

definition SetSystemNameSpace :: "muid \<Rightarrow> muid" where
  "SetSystemNameSpace m =
     (let m = set_last_byte (last_byte m AND kBitMask) m in set_last_byte (last_byte m OR kSystemNamespace) m)"

definition SetApkNameSpace :: "muid \<Rightarrow> muid" where
  "SetApkNameSpace m =
     (let m = set_last_byte (last_byte m AND kBitMask) m in set_last_byte (last_byte m OR kApkNamespace) m)"

definition hex_digit :: "nat \<Rightarrow> char" where
  "hex_digit n = ''0123456789abcdef'' ! n"

definition hex16 :: "u64 \<Rightarrow> string" where
  "hex16 w = map (\<lambda>i. hex_digit (unat (drop_bit (4 * i) w AND 0xf))) (rev [0..<16])"

definition ToStr :: "muid \<Rightarrow> string" where
  "ToStr m = hex16 (word1 m) @ hex16 (word0 m)"

definition GetMUIDHash :: "muid_context \<Rightarrow> byte list \<Rightarrow> muid" where
  "GetMUIDHash status data =
     muid_of_bytes (MuidEncode16 (replicate 16 0) (MuidDecode (MuidInit status) data) False)"

definition GetDigestHash :: "muid_context \<Rightarrow> byte list \<Rightarrow> byte list" where
  "GetDigestHash digestContext bytes = MuidEncode16 (replicate 16 0) (MuidDecode (MuidInit digestContext) bytes) False"

definition GetMUID :: "muid_context \<Rightarrow> string \<Rightarrow> bool \<Rightarrow> muid" where
  "GetMUID status symbolName forSystem =
     (let m = GetMUIDHash status (bytes_of_string symbolName)
      in if forSystem then SetSystemNameSpace m else SetApkNameSpace m)"

section \<open>The order of identifiers\<close>

text \<open>\<open>operator<\<close> and \<open>operator==\<close> of the class, as the order of the type.\<close>

lemma muid_eq_iff: "m = n \<longleftrightarrow> word0 m = word0 n \<and> word1 m = word1 n"
  by (cases m; cases n) simp

text \<open>\<open>operator<\<close>.\<close>

definition muid_less :: "muid \<Rightarrow> muid \<Rightarrow> bool" where
  "muid_less m n = (word1 m < word1 n \<or> word1 m = word1 n \<and> word0 m < word0 n)"

instantiation muid :: linorder
begin

definition less_muid :: "muid \<Rightarrow> muid \<Rightarrow> bool" where
  "less_muid = muid_less"

definition less_eq_muid :: "muid \<Rightarrow> muid \<Rightarrow> bool" where
  "less_eq_muid m n = (m < n \<or> m = (n :: muid))"

instance
  by standard (auto simp: less_muid_def muid_less_def less_eq_muid_def muid_eq_iff)

end

end
