(* ===== verification/Md5.thy ===== *)
theory Md5
  imports Prelude
begin

text \<open>
  The message digest of RFC 1321, written from the RFC and not from the code: 64 steps over a
  register quadruple that is rotated after each, with the RFC's table \<open>T\<close>, its amounts of
  rotation and its order of the words of a block as formulas, and words as sums of their bytes.
  The line of its test suite for the message \<open>abc\<close> is evaluated below.
\<close>

type_synonym md5_state = "u32 \<times> u32 \<times> u32 \<times> u32"

definition md5_F :: "u32 \<Rightarrow> u32 \<Rightarrow> u32 \<Rightarrow> u32" where "md5_F X Y Z = (X AND Y) OR (NOT X AND Z)"
definition md5_G :: "u32 \<Rightarrow> u32 \<Rightarrow> u32 \<Rightarrow> u32" where "md5_G X Y Z = (X AND Z) OR (Y AND NOT Z)"
definition md5_H :: "u32 \<Rightarrow> u32 \<Rightarrow> u32 \<Rightarrow> u32" where "md5_H X Y Z = X XOR Y XOR Z"
definition md5_I :: "u32 \<Rightarrow> u32 \<Rightarrow> u32 \<Rightarrow> u32" where "md5_I X Y Z = Y XOR (X OR NOT Z)"

definition md5_mix :: "nat \<Rightarrow> u32 \<Rightarrow> u32 \<Rightarrow> u32 \<Rightarrow> u32" where
  "md5_mix i = (if i < 16 then md5_F else if i < 32 then md5_G else if i < 48 then md5_H else md5_I)"

text \<open>The integer part of \<open>2 ^ 32 * \<bar>sin (i + 1)\<bar>\<close>, in decimal.\<close>

definition md5_table :: "u32 list" where
  "md5_table =
    [3614090360, 3905402710, 606105819, 3250441966, 4118548399, 1200080426,
     2821735955, 4249261313, 1770035416, 2336552879, 4294925233, 2304563134,
     1804603682, 4254626195, 2792965006, 1236535329, 4129170786, 3225465664,
     643717713, 3921069994, 3593408605, 38016083, 3634488961, 3889429448,
     568446438, 3275163606, 4107603335, 1163531501, 2850285829, 4243563512,
     1735328473, 2368359562, 4294588738, 2272392833, 1839030562, 4259657740,
     2763975236, 1272893353, 4139469664, 3200236656, 681279174, 3936430074,
     3572445317, 76029189, 3654602809, 3873151461, 530742520, 3299628645,
     4096336452, 1126891415, 2878612391, 4237533241, 1700485571, 2399980690,
     4293915773, 2240044497, 1873313359, 4264355552, 2734768916, 1309151649,
     4149444226, 3174756917, 718787259, 3951481745]"

definition md5_index :: "nat \<Rightarrow> nat" where
  "md5_index i = (if i < 16 then i else if i < 32 then 5 * i + 1 else if i < 48 then 3 * i + 5 else 7 * i) mod 16"

definition md5_shift :: "nat \<Rightarrow> nat" where
  "md5_shift i = [[7, 12, 17, 22], [5, 9, 14, 20], [4, 11, 16, 23], [6, 10, 15, 21]] ! (i div 16) ! (i mod 4)"

text \<open>Rotation to the left, as multiplication with the part shifted out added at the bottom.\<close>

definition md5_rotate :: "nat \<Rightarrow> u32 \<Rightarrow> u32" where
  "md5_rotate s x = x * 2 ^ s + of_nat (unat x div 2 ^ (32 - s))"

definition md5_step :: "u32 list \<Rightarrow> md5_state \<Rightarrow> nat \<Rightarrow> md5_state" where
  "md5_step X = (\<lambda>(a, b, c, d) i.
     (d, b + md5_rotate (md5_shift i) (a + md5_mix i b c d + X ! md5_index i + md5_table ! i), b, c))"

text \<open>Words of four bytes, the lowest first.\<close>

definition md5_word :: "byte list \<Rightarrow> u32" where
  "md5_word bs = of_nat (foldr (\<lambda>b n. unat b + 256 * n) bs 0)"

definition md5_bytes :: "u32 \<Rightarrow> byte list" where
  "md5_bytes w = map (\<lambda>i. of_nat (unat w div 256 ^ i)) [0..<4]"

definition md5_compress :: "byte list \<Rightarrow> md5_state \<Rightarrow> md5_state" where
  "md5_compress bs = (\<lambda>(a, b, c, d).
     let X = map (\<lambda>i. md5_word (take 4 (drop (4 * i) bs))) [0..<16];
         (a', b', c', d') = foldl (md5_step X) (a, b, c, d) [0..<64]
     in (a + a', b + b', c + c', d + d'))"

function md5_blocks :: "md5_state \<Rightarrow> byte list \<Rightarrow> md5_state" where
  "md5_blocks r bs = (if length bs < 64 then r else md5_blocks (md5_compress (take 64 bs) r) (drop 64 bs))"
  by pat_completeness auto

termination md5_blocks
  by (relation "measure (\<lambda>(r, bs). length bs)") auto

declare md5_blocks.simps [simp del]

definition md5_start :: md5_state where
  "md5_start = (0x67452301, 0xefcdab89, 0x98badcfe, 0x10325476)"

text \<open>The message, a byte \<open>0x80\<close>, zeros up to 56 modulo 64 bytes, and the length in bits as eight bytes.\<close>

definition md5_pad :: "byte list \<Rightarrow> byte list" where
  "md5_pad msg = msg @ [0x80] @ replicate ((119 - length msg mod 64) mod 64) 0
     @ map (\<lambda>i. of_nat (8 * length msg div 256 ^ i)) [0..<8]"

definition md5 :: "byte list \<Rightarrow> byte list" where
  "md5 msg = (case md5_blocks md5_start (md5_pad msg) of
     (a, b, c, d) \<Rightarrow> md5_bytes a @ md5_bytes b @ md5_bytes c @ md5_bytes d)"

section \<open>The steps\<close>

lemma md5_mix_at:
  "md5_mix 0 = md5_F" "md5_mix 1 = md5_F" "md5_mix 2 = md5_F" "md5_mix 3 = md5_F"
  "md5_mix 4 = md5_F" "md5_mix 5 = md5_F" "md5_mix 6 = md5_F" "md5_mix 7 = md5_F"
  "md5_mix 8 = md5_F" "md5_mix 9 = md5_F" "md5_mix 10 = md5_F" "md5_mix 11 = md5_F"
  "md5_mix 12 = md5_F" "md5_mix 13 = md5_F" "md5_mix 14 = md5_F" "md5_mix 15 = md5_F"
  "md5_mix 16 = md5_G" "md5_mix 17 = md5_G" "md5_mix 18 = md5_G" "md5_mix 19 = md5_G"
  "md5_mix 20 = md5_G" "md5_mix 21 = md5_G" "md5_mix 22 = md5_G" "md5_mix 23 = md5_G"
  "md5_mix 24 = md5_G" "md5_mix 25 = md5_G" "md5_mix 26 = md5_G" "md5_mix 27 = md5_G"
  "md5_mix 28 = md5_G" "md5_mix 29 = md5_G" "md5_mix 30 = md5_G" "md5_mix 31 = md5_G"
  "md5_mix 32 = md5_H" "md5_mix 33 = md5_H" "md5_mix 34 = md5_H" "md5_mix 35 = md5_H"
  "md5_mix 36 = md5_H" "md5_mix 37 = md5_H" "md5_mix 38 = md5_H" "md5_mix 39 = md5_H"
  "md5_mix 40 = md5_H" "md5_mix 41 = md5_H" "md5_mix 42 = md5_H" "md5_mix 43 = md5_H"
  "md5_mix 44 = md5_H" "md5_mix 45 = md5_H" "md5_mix 46 = md5_H" "md5_mix 47 = md5_H"
  "md5_mix 48 = md5_I" "md5_mix 49 = md5_I" "md5_mix 50 = md5_I" "md5_mix 51 = md5_I"
  "md5_mix 52 = md5_I" "md5_mix 53 = md5_I" "md5_mix 54 = md5_I" "md5_mix 55 = md5_I"
  "md5_mix 56 = md5_I" "md5_mix 57 = md5_I" "md5_mix 58 = md5_I" "md5_mix 59 = md5_I"
  "md5_mix 60 = md5_I" "md5_mix 61 = md5_I" "md5_mix 62 = md5_I" "md5_mix 63 = md5_I"
  by (simp_all add: md5_mix_def)

lemma md5_index_at:
  "md5_index 0 = 0" "md5_index 1 = 1" "md5_index 2 = 2" "md5_index 3 = 3"
  "md5_index 4 = 4" "md5_index 5 = 5" "md5_index 6 = 6" "md5_index 7 = 7"
  "md5_index 8 = 8" "md5_index 9 = 9" "md5_index 10 = 10" "md5_index 11 = 11"
  "md5_index 12 = 12" "md5_index 13 = 13" "md5_index 14 = 14" "md5_index 15 = 15"
  "md5_index 16 = 1" "md5_index 17 = 6" "md5_index 18 = 11" "md5_index 19 = 0"
  "md5_index 20 = 5" "md5_index 21 = 10" "md5_index 22 = 15" "md5_index 23 = 4"
  "md5_index 24 = 9" "md5_index 25 = 14" "md5_index 26 = 3" "md5_index 27 = 8"
  "md5_index 28 = 13" "md5_index 29 = 2" "md5_index 30 = 7" "md5_index 31 = 12"
  "md5_index 32 = 5" "md5_index 33 = 8" "md5_index 34 = 11" "md5_index 35 = 14"
  "md5_index 36 = 1" "md5_index 37 = 4" "md5_index 38 = 7" "md5_index 39 = 10"
  "md5_index 40 = 13" "md5_index 41 = 0" "md5_index 42 = 3" "md5_index 43 = 6"
  "md5_index 44 = 9" "md5_index 45 = 12" "md5_index 46 = 15" "md5_index 47 = 2"
  "md5_index 48 = 0" "md5_index 49 = 7" "md5_index 50 = 14" "md5_index 51 = 5"
  "md5_index 52 = 12" "md5_index 53 = 3" "md5_index 54 = 10" "md5_index 55 = 1"
  "md5_index 56 = 8" "md5_index 57 = 15" "md5_index 58 = 6" "md5_index 59 = 13"
  "md5_index 60 = 4" "md5_index 61 = 11" "md5_index 62 = 2" "md5_index 63 = 9"
  by (simp_all add: md5_index_def)

lemma md5_shift_at:
  "md5_shift 0 = 7" "md5_shift 1 = 12" "md5_shift 2 = 17" "md5_shift 3 = 22"
  "md5_shift 4 = 7" "md5_shift 5 = 12" "md5_shift 6 = 17" "md5_shift 7 = 22"
  "md5_shift 8 = 7" "md5_shift 9 = 12" "md5_shift 10 = 17" "md5_shift 11 = 22"
  "md5_shift 12 = 7" "md5_shift 13 = 12" "md5_shift 14 = 17" "md5_shift 15 = 22"
  "md5_shift 16 = 5" "md5_shift 17 = 9" "md5_shift 18 = 14" "md5_shift 19 = 20"
  "md5_shift 20 = 5" "md5_shift 21 = 9" "md5_shift 22 = 14" "md5_shift 23 = 20"
  "md5_shift 24 = 5" "md5_shift 25 = 9" "md5_shift 26 = 14" "md5_shift 27 = 20"
  "md5_shift 28 = 5" "md5_shift 29 = 9" "md5_shift 30 = 14" "md5_shift 31 = 20"
  "md5_shift 32 = 4" "md5_shift 33 = 11" "md5_shift 34 = 16" "md5_shift 35 = 23"
  "md5_shift 36 = 4" "md5_shift 37 = 11" "md5_shift 38 = 16" "md5_shift 39 = 23"
  "md5_shift 40 = 4" "md5_shift 41 = 11" "md5_shift 42 = 16" "md5_shift 43 = 23"
  "md5_shift 44 = 4" "md5_shift 45 = 11" "md5_shift 46 = 16" "md5_shift 47 = 23"
  "md5_shift 48 = 6" "md5_shift 49 = 10" "md5_shift 50 = 15" "md5_shift 51 = 21"
  "md5_shift 52 = 6" "md5_shift 53 = 10" "md5_shift 54 = 15" "md5_shift 55 = 21"
  "md5_shift 56 = 6" "md5_shift 57 = 10" "md5_shift 58 = 15" "md5_shift 59 = 21"
  "md5_shift 60 = 6" "md5_shift 61 = 10" "md5_shift 62 = 15" "md5_shift 63 = 21"
  by (simp_all add: md5_shift_def)

lemma md5_table_at:
  "md5_table ! 0 = 3614090360" "md5_table ! 1 = 3905402710" "md5_table ! 2 = 606105819" "md5_table ! 3 = 3250441966"
  "md5_table ! 4 = 4118548399" "md5_table ! 5 = 1200080426" "md5_table ! 6 = 2821735955" "md5_table ! 7 = 4249261313"
  "md5_table ! 8 = 1770035416" "md5_table ! 9 = 2336552879" "md5_table ! 10 = 4294925233" "md5_table ! 11 = 2304563134"
  "md5_table ! 12 = 1804603682" "md5_table ! 13 = 4254626195" "md5_table ! 14 = 2792965006" "md5_table ! 15 = 1236535329"
  "md5_table ! 16 = 4129170786" "md5_table ! 17 = 3225465664" "md5_table ! 18 = 643717713" "md5_table ! 19 = 3921069994"
  "md5_table ! 20 = 3593408605" "md5_table ! 21 = 38016083" "md5_table ! 22 = 3634488961" "md5_table ! 23 = 3889429448"
  "md5_table ! 24 = 568446438" "md5_table ! 25 = 3275163606" "md5_table ! 26 = 4107603335" "md5_table ! 27 = 1163531501"
  "md5_table ! 28 = 2850285829" "md5_table ! 29 = 4243563512" "md5_table ! 30 = 1735328473" "md5_table ! 31 = 2368359562"
  "md5_table ! 32 = 4294588738" "md5_table ! 33 = 2272392833" "md5_table ! 34 = 1839030562" "md5_table ! 35 = 4259657740"
  "md5_table ! 36 = 2763975236" "md5_table ! 37 = 1272893353" "md5_table ! 38 = 4139469664" "md5_table ! 39 = 3200236656"
  "md5_table ! 40 = 681279174" "md5_table ! 41 = 3936430074" "md5_table ! 42 = 3572445317" "md5_table ! 43 = 76029189"
  "md5_table ! 44 = 3654602809" "md5_table ! 45 = 3873151461" "md5_table ! 46 = 530742520" "md5_table ! 47 = 3299628645"
  "md5_table ! 48 = 4096336452" "md5_table ! 49 = 1126891415" "md5_table ! 50 = 2878612391" "md5_table ! 51 = 4237533241"
  "md5_table ! 52 = 1700485571" "md5_table ! 53 = 2399980690" "md5_table ! 54 = 4293915773" "md5_table ! 55 = 2240044497"
  "md5_table ! 56 = 1873313359" "md5_table ! 57 = 4264355552" "md5_table ! 58 = 2734768916" "md5_table ! 59 = 1309151649"
  "md5_table ! 60 = 4149444226" "md5_table ! 61 = 3174756917" "md5_table ! 62 = 718787259" "md5_table ! 63 = 3951481745"
  by (simp_all add: md5_table_def)

lemmas md5_at = md5_mix_at md5_index_at md5_shift_at md5_table_at

section \<open>A line of the RFC's test suite\<close>

lemma md5_step_at: "md5_step X (a, b, c, d) i =
    (d, b + md5_rotate (md5_shift i) (a + md5_mix i b c d + X ! md5_index i + md5_table ! i), b, c)"
  by (simp add: md5_step_def)

text \<open>The padded message \<open>abc\<close> as words, and the registers after each of the 64 steps.\<close>

definition abc_words :: "u32 list" where
  "abc_words = [2153996897, 0, 0, 0, 0, 0, 0, 0, 0, 0, 0, 0, 0, 0, 24, 0]"

lemma abc_steps:
  "md5_step abc_words (1732584193, 4023233417, 2562383102, 271733878) 0 = (271733878, 3604027316, 4023233417, 2562383102)"
  "md5_step abc_words (271733878, 3604027316, 4023233417, 2562383102) 1 = (2562383102, 877298738, 3604027316, 4023233417)"
  "md5_step abc_words (2562383102, 877298738, 3604027316, 4023233417) 2 = (4023233417, 795852146, 877298738, 3604027316)"
  "md5_step abc_words (4023233417, 795852146, 877298738, 3604027316) 3 = (3604027316, 2061063922, 795852146, 877298738)"
  "md5_step abc_words (3604027316, 2061063922, 795852146, 877298738) 4 = (877298738, 3342287343, 2061063922, 795852146)"
  "md5_step abc_words (877298738, 3342287343, 2061063922, 795852146) 5 = (795852146, 2343317585, 3342287343, 2061063922)"
  "md5_step abc_words (795852146, 2343317585, 3342287343, 2061063922) 6 = (2061063922, 545113723, 2343317585, 3342287343)"
  "md5_step abc_words (2061063922, 545113723, 2343317585, 3342287343) 7 = (3342287343, 2458753526, 545113723, 2343317585)"
  "md5_step abc_words (3342287343, 2458753526, 545113723, 2343317585) 8 = (2343317585, 2236299026, 2458753526, 545113723)"
  "md5_step abc_words (2343317585, 2236299026, 2458753526, 545113723) 9 = (545113723, 1961030276, 2236299026, 2458753526)"
  "md5_step abc_words (545113723, 1961030276, 2236299026, 2458753526) 10 = (2458753526, 807419932, 1961030276, 2236299026)"
  "md5_step abc_words (2458753526, 807419932, 1961030276, 2236299026) 11 = (2236299026, 1590990230, 807419932, 1961030276)"
  "md5_step abc_words (2236299026, 1590990230, 807419932, 1961030276) 12 = (1961030276, 3718887846, 1590990230, 807419932)"
  "md5_step abc_words (1961030276, 3718887846, 1590990230, 807419932) 13 = (807419932, 2701465749, 3718887846, 1590990230)"
  "md5_step abc_words (807419932, 2701465749, 3718887846, 1590990230) 14 = (1590990230, 3818292587, 2701465749, 3718887846)"
  "md5_step abc_words (1590990230, 3818292587, 2701465749, 3718887846) 15 = (3718887846, 1924133600, 3818292587, 2701465749)"
  "md5_step abc_words (3718887846, 1924133600, 3818292587, 2701465749) 16 = (2701465749, 1050579238, 1924133600, 3818292587)"
  "md5_step abc_words (2701465749, 1050579238, 1924133600, 3818292587) 17 = (3818292587, 1243447374, 1050579238, 1924133600)"
  "md5_step abc_words (3818292587, 1243447374, 1050579238, 1924133600) 18 = (1924133600, 3797816914, 1243447374, 1050579238)"
  "md5_step abc_words (1924133600, 3797816914, 1243447374, 1050579238) 19 = (1050579238, 3048342756, 3797816914, 1243447374)"
  "md5_step abc_words (1050579238, 3048342756, 3797816914, 1243447374) 20 = (1243447374, 1504247770, 3048342756, 3797816914)"
  "md5_step abc_words (1243447374, 1504247770, 3048342756, 3797816914) 21 = (3797816914, 1828728606, 1504247770, 3048342756)"
  "md5_step abc_words (3797816914, 1828728606, 1504247770, 3048342756) 22 = (3048342756, 2885450016, 1828728606, 1504247770)"
  "md5_step abc_words (3048342756, 2885450016, 1828728606, 1504247770) 23 = (1504247770, 1191783431, 2885450016, 1828728606)"
  "md5_step abc_words (1504247770, 1191783431, 2885450016, 1828728606) 24 = (1828728606, 3086117071, 1191783431, 2885450016)"
  "md5_step abc_words (1828728606, 3086117071, 1191783431, 2885450016) 25 = (2885450016, 154701567, 3086117071, 1191783431)"
  "md5_step abc_words (2885450016, 154701567, 3086117071, 1191783431) 26 = (1191783431, 4262863793, 154701567, 3086117071)"
  "md5_step abc_words (1191783431, 4262863793, 154701567, 3086117071) 27 = (3086117071, 2020264847, 4262863793, 154701567)"
  "md5_step abc_words (3086117071, 2020264847, 4262863793, 154701567) 28 = (154701567, 2030729211, 2020264847, 4262863793)"
  "md5_step abc_words (154701567, 2030729211, 2020264847, 4262863793) 29 = (4262863793, 2672289016, 2030729211, 2020264847)"
  "md5_step abc_words (4262863793, 2672289016, 2030729211, 2020264847) 30 = (2020264847, 2787673258, 2672289016, 2030729211)"
  "md5_step abc_words (2020264847, 2787673258, 2672289016, 2030729211) 31 = (2030729211, 1919107795, 2787673258, 2672289016)"
  "md5_step abc_words (2030729211, 1919107795, 2787673258, 2672289016) 32 = (2672289016, 3010494143, 1919107795, 2787673258)"
  "md5_step abc_words (2672289016, 3010494143, 1919107795, 2787673258) 33 = (2787673258, 1611823918, 3010494143, 1919107795)"
  "md5_step abc_words (2787673258, 1611823918, 3010494143, 1919107795) 34 = (1919107795, 2367762421, 1611823918, 3010494143)"
  "md5_step abc_words (1919107795, 2367762421, 1611823918, 3010494143) 35 = (3010494143, 990410183, 2367762421, 1611823918)"
  "md5_step abc_words (3010494143, 990410183, 2367762421, 1611823918) 36 = (1611823918, 565254073, 990410183, 2367762421)"
  "md5_step abc_words (1611823918, 565254073, 990410183, 2367762421) 37 = (2367762421, 1853106645, 565254073, 990410183)"
  "md5_step abc_words (2367762421, 1853106645, 565254073, 990410183) 38 = (990410183, 896868990, 1853106645, 565254073)"
  "md5_step abc_words (990410183, 896868990, 1853106645, 565254073) 39 = (565254073, 1513053861, 896868990, 1853106645)"
  "md5_step abc_words (565254073, 1513053861, 896868990, 1853106645) 40 = (1853106645, 299767673, 1513053861, 896868990)"
  "md5_step abc_words (1853106645, 299767673, 1513053861, 896868990) 41 = (896868990, 4208765496, 299767673, 1513053861)"
  "md5_step abc_words (896868990, 4208765496, 299767673, 1513053861) 42 = (1513053861, 834954698, 4208765496, 299767673)"
  "md5_step abc_words (1513053861, 834954698, 4208765496, 299767673) 43 = (299767673, 1281434868, 834954698, 4208765496)"
  "md5_step abc_words (299767673, 1281434868, 834954698, 4208765496) 44 = (4208765496, 2133741691, 1281434868, 834954698)"
  "md5_step abc_words (4208765496, 2133741691, 1281434868, 834954698) 45 = (834954698, 2581161885, 2133741691, 1281434868)"
  "md5_step abc_words (834954698, 2581161885, 2133741691, 1281434868) 46 = (1281434868, 2410570649, 2581161885, 2133741691)"
  "md5_step abc_words (1281434868, 2410570649, 2581161885, 2133741691) 47 = (2133741691, 2079037184, 2410570649, 2581161885)"
  "md5_step abc_words (2133741691, 2079037184, 2410570649, 2581161885) 48 = (2581161885, 2065702392, 2079037184, 2410570649)"
  "md5_step abc_words (2581161885, 2065702392, 2079037184, 2410570649) 49 = (2410570649, 4108904814, 2065702392, 2079037184)"
  "md5_step abc_words (2410570649, 4108904814, 2065702392, 2079037184) 50 = (2079037184, 2996358909, 4108904814, 2065702392)"
  "md5_step abc_words (2079037184, 2996358909, 4108904814, 2065702392) 51 = (2065702392, 2347771332, 2996358909, 4108904814)"
  "md5_step abc_words (2065702392, 2347771332, 2996358909, 4108904814) 52 = (4108904814, 114056842, 2347771332, 2996358909)"
  "md5_step abc_words (4108904814, 114056842, 2347771332, 2996358909) 53 = (2996358909, 1527617450, 114056842, 2347771332)"
  "md5_step abc_words (2996358909, 1527617450, 114056842, 2347771332) 54 = (2347771332, 2103651792, 1527617450, 114056842)"
  "md5_step abc_words (2347771332, 2103651792, 1527617450, 114056842) 55 = (114056842, 1006251047, 2103651792, 1527617450)"
  "md5_step abc_words (114056842, 1006251047, 2103651792, 1527617450) 56 = (1527617450, 2139212853, 1006251047, 2103651792)"
  "md5_step abc_words (1527617450, 2139212853, 1006251047, 2103651792) 57 = (2103651792, 155473067, 2139212853, 1006251047)"
  "md5_step abc_words (2103651792, 155473067, 2139212853, 1006251047) 58 = (1006251047, 1335737919, 155473067, 2139212853)"
  "md5_step abc_words (1006251047, 1335737919, 155473067, 2139212853) 59 = (2139212853, 1931990532, 1335737919, 155473067)"
  "md5_step abc_words (2139212853, 1931990532, 1335737919, 155473067) 60 = (155473067, 822795919, 1931990532, 1335737919)"
  "md5_step abc_words (155473067, 822795919, 1931990532, 1335737919) 61 = (1335737919, 1649249458, 822795919, 1931990532)"
  "md5_step abc_words (1335737919, 1649249458, 822795919, 1931990532) 62 = (1931990532, 3833903576, 1649249458, 822795919)"
  "md5_step abc_words (1931990532, 3833903576, 1649249458, 822795919) 63 = (822795919, 3229755059, 3833903576, 1649249458)"
  by (simp_all add: abc_words_def md5_step_at md5_at [unfolded One_nat_def] md5_rotate_def md5_F_def md5_G_def md5_H_def md5_I_def)

text \<open>MD5 of \<open>abc\<close> is \<open>900150983cd24fb0d6963f7d28e17f72\<close>.\<close>

lemma md5_abc: "md5 [0x61, 0x62, 0x63] =
  [0x90, 0x01, 0x50, 0x98, 0x3c, 0xd2, 0x4f, 0xb0, 0xd6, 0x96, 0x3f, 0x7d, 0x28, 0xe1, 0x7f, 0x72]"
proof -
  have zeros: "replicate 52 (0 :: byte) = [0, 0, 0, 0, 0, 0, 0, 0, 0, 0, 0, 0, 0, 0, 0, 0, 0, 0, 0, 0, 0, 0, 0, 0, 0, 0, 0, 0, 0, 0, 0, 0, 0, 0, 0, 0, 0, 0, 0, 0, 0, 0, 0, 0, 0, 0, 0, 0, 0, 0, 0, 0]" by (simp add: eval_nat_numeral)
  have pad: "md5_pad [0x61, 0x62, 0x63] = [0x61, 0x62, 0x63, 0x80] @ [0, 0, 0, 0, 0, 0, 0, 0, 0, 0, 0, 0, 0, 0, 0, 0, 0, 0, 0, 0, 0, 0, 0, 0, 0, 0, 0, 0, 0, 0, 0, 0, 0, 0, 0, 0, 0, 0, 0, 0, 0, 0, 0, 0, 0, 0, 0, 0, 0, 0, 0, 0] @ [24, 0, 0, 0, 0, 0, 0, 0]"
    unfolding zeros [symmetric] by (simp add: md5_pad_def upt_rec)
  have words: "map (\<lambda>i. md5_word (take 4 (drop (4 * i) (md5_pad [0x61, 0x62, 0x63])))) [0..<16] = abc_words"
    unfolding pad abc_words_def by (simp add: md5_word_def upt_rec)
  have steps: "foldl (md5_step abc_words) md5_start [0..<64] = (822795919, 3229755059, 3833903576, 1649249458)"
  proof -
    have l: "[0..<64] = [0, 1, 2, 3, 4, 5, 6, 7, 8, 9, 10, 11, 12, 13, 14, 15, 16, 17, 18, 19, 20, 21, 22, 23, 24, 25, 26, 27, 28, 29, 30, 31, 32, 33, 34, 35, 36, 37, 38, 39, 40, 41, 42, 43, 44, 45, 46, 47, 48, 49, 50, 51, 52, 53, 54, 55, 56, 57, 58, 59, 60, 61, 62, 63]" by (simp add: upt_rec)
    show ?thesis unfolding l md5_start_def by (simp only: foldl.simps abc_steps)
  qed
  have "length (md5_pad [0x61, 0x62, 0x63]) = 64" by (simp add: pad)
  then have "md5_blocks md5_start (md5_pad [0x61, 0x62, 0x63]) = md5_compress (md5_pad [0x61, 0x62, 0x63]) md5_start"
    by (subst md5_blocks.simps) (simp add: md5_blocks.simps [of _ "[]"])
  also have "\<dots> = (2555380112, 2958021180, 2101319382, 1920983336)"
    using steps by (simp add: md5_compress_def words md5_start_def)
  finally show ?thesis by (simp add: md5_def md5_bytes_def upt_rec)
qed

end
