(* ===== verification/MuidSound.thy ===== *)
theory MuidSound
  imports Muid Md5
begin

text \<open>
  The streaming digest of Muid against the one-shot MD5 of RFC 1321 (theory Md5): the compression
  function of the code is the RFC's, and the context after any sequence of \<open>MuidDecode\<close> calls holds
  the digest state of the whole message so far and its unfinished last group. Above \<open>2 ^ 29 - 1\<close> bytes
  the counter loses bits.
\<close>

section \<open>The groups of a message\<close>

function digest_blocks :: "regs \<Rightarrow> byte list \<Rightarrow> regs" where
  "digest_blocks r bs = (if length bs < 64 then r else digest_blocks (muid_group (take 64 bs) r) (drop 64 bs))"
  by pat_completeness auto

termination digest_blocks
  by (relation "measure (\<lambda>(r, bs). length bs)") auto

declare digest_blocks.simps [simp del]

section \<open>The compression function of the RFC\<close>

lemma mix_md5: "F_mix = md5_F" "G_mix = md5_G" "H_mix = md5_H" "I_mix = md5_I"
  by (simp_all add: fun_eq_iff F_mix_def G_mix_def H_mix_def I_mix_def md5_F_def md5_G_def md5_H_def md5_I_def)

lemma word_of_nat_unat_drop: "of_nat (unat x div 2 ^ n) = drop_bit n x" for x :: u32
proof -
  have "unat x div 2 ^ n = unat (drop_bit n x)" by (simp only: unat_drop_bit_eq) (simp add: drop_bit_eq_div)
  then show ?thesis by (simp only:) simp
qed

lemma rotate_bits:
  assumes "0 < s" "s < 32"
  shows "push_bit s x OR drop_bit (32 - s) (x AND 0xffffffff) = md5_rotate s x"
proof -
  have ones: "(0xffffffff :: u32) = - 1" by simp
  have "push_bit s x AND drop_bit (32 - s) x = 0"
  proof (rule bit_word_eqI)
    fix n assume "n < LENGTH(32)"
    then show "bit (push_bit s x AND drop_bit (32 - s) x) n = bit (0 :: u32) n"
      using assms bit_imp_le_length [of x "32 - s + n"] by (auto simp: bit_simps)
  qed
  then have "push_bit s x OR drop_bit (32 - s) x = push_bit s x + drop_bit (32 - s) x"
    by (simp add: disjunctive_add_eq_or)
  then show ?thesis unfolding ones md5_rotate_def word_of_nat_unat_drop by (simp add: push_bit_eq_mult)
qed

lemma TRANS_md5: "0 < s \<Longrightarrow> s < 32 \<Longrightarrow> TRANS f a b c d x t s = b + md5_rotate s (a + f b c d + x + t)"
  unfolding TRANS_def Let_def by (simp only: rotate_bits) (simp add: ac_simps)

lemma md5_shift_range: "i < 64 \<Longrightarrow> 0 < md5_shift i \<and> md5_shift i < 32"
proof -
  assume "i < 64"
  then have "i div 16 \<in> {0, 1, 2, 3}" "i mod 4 \<in> {0, 1, 2, 3}" by auto
  then show ?thesis by (auto simp: md5_shift_def)
qed

lemma md5_step_TRANS:
  "i < 64 \<Longrightarrow> md5_step X (a, b, c, d) i =
     (d, TRANS (md5_mix i) a b c d (X ! md5_index i) (md5_table ! i) (md5_shift i), b, c)"
  using md5_shift_range [of i] by (simp add: md5_step_def TRANS_md5)

text \<open>Four steps bring every register back to its place.\<close>

lemma four_steps:
  assumes "i < 61"
  shows "foldl (md5_step X) (a, b, c, d) (i # (i + 1) # (i + 2) # (i + 3) # is) =
    (let a = TRANS (md5_mix i) a b c d (X ! md5_index i) (md5_table ! i) (md5_shift i);
         d = TRANS (md5_mix (i + 1)) d a b c (X ! md5_index (i + 1)) (md5_table ! (i + 1)) (md5_shift (i + 1));
         c = TRANS (md5_mix (i + 2)) c d a b (X ! md5_index (i + 2)) (md5_table ! (i + 2)) (md5_shift (i + 2));
         b = TRANS (md5_mix (i + 3)) b c d a (X ! md5_index (i + 3)) (md5_table ! (i + 3)) (md5_shift (i + 3))
     in foldl (md5_step X) (a, b, c, d) is)"
  using assms by (simp add: md5_step_TRANS Let_def)

lemma round1_md5: "foldl (md5_step X) q [0..<16] = muid_round1 X q"
proof (cases q)
  case (fields a b c d)
  have all: "[0..<16] = [0, 1, 2, 3, 4, 5, 6, 7, 8, 9, 10, 11, 12, 13, 14, 15]" by (simp add: upt_rec)
  have lt: "(0 :: nat) < 61" "(4 :: nat) < 61" "(8 :: nat) < 61" "(12 :: nat) < 61" by simp_all
  have at: "(0 :: nat) + 1 = 1" "(0 :: nat) + 2 = 2" "(0 :: nat) + 3 = 3" "(4 :: nat) + 1 = 5" "(4 :: nat) + 2 = 6" "(4 :: nat) + 3 = 7" "(8 :: nat) + 1 = 9" "(8 :: nat) + 2 = 10" "(8 :: nat) + 3 = 11" "(12 :: nat) + 1 = 13" "(12 :: nat) + 2 = 14" "(12 :: nat) + 3 = 15" by simp_all
  note four = four_steps [OF lt(1), unfolded at md5_at] four_steps [OF lt(2), unfolded at md5_at] four_steps [OF lt(3), unfolded at md5_at] four_steps [OF lt(4), unfolded at md5_at]
  show ?thesis
    unfolding fields all by (simp only: four foldl.simps(1) muid_round1_def mix_md5 prod.case)
qed

lemma round2_md5: "foldl (md5_step X) q [16..<32] = muid_round2 X q"
proof (cases q)
  case (fields a b c d)
  have all: "[16..<32] = [16, 17, 18, 19, 20, 21, 22, 23, 24, 25, 26, 27, 28, 29, 30, 31]" by (simp add: upt_rec)
  have lt: "(16 :: nat) < 61" "(20 :: nat) < 61" "(24 :: nat) < 61" "(28 :: nat) < 61" by simp_all
  have at: "(16 :: nat) + 1 = 17" "(16 :: nat) + 2 = 18" "(16 :: nat) + 3 = 19" "(20 :: nat) + 1 = 21" "(20 :: nat) + 2 = 22" "(20 :: nat) + 3 = 23" "(24 :: nat) + 1 = 25" "(24 :: nat) + 2 = 26" "(24 :: nat) + 3 = 27" "(28 :: nat) + 1 = 29" "(28 :: nat) + 2 = 30" "(28 :: nat) + 3 = 31" by simp_all
  note four = four_steps [OF lt(1), unfolded at md5_at] four_steps [OF lt(2), unfolded at md5_at] four_steps [OF lt(3), unfolded at md5_at] four_steps [OF lt(4), unfolded at md5_at]
  show ?thesis
    unfolding fields all by (simp only: four foldl.simps(1) muid_round2_def mix_md5 prod.case)
qed

lemma round3_md5: "foldl (md5_step X) q [32..<48] = muid_round3 X q"
proof (cases q)
  case (fields a b c d)
  have all: "[32..<48] = [32, 33, 34, 35, 36, 37, 38, 39, 40, 41, 42, 43, 44, 45, 46, 47]" by (simp add: upt_rec)
  have lt: "(32 :: nat) < 61" "(36 :: nat) < 61" "(40 :: nat) < 61" "(44 :: nat) < 61" by simp_all
  have at: "(32 :: nat) + 1 = 33" "(32 :: nat) + 2 = 34" "(32 :: nat) + 3 = 35" "(36 :: nat) + 1 = 37" "(36 :: nat) + 2 = 38" "(36 :: nat) + 3 = 39" "(40 :: nat) + 1 = 41" "(40 :: nat) + 2 = 42" "(40 :: nat) + 3 = 43" "(44 :: nat) + 1 = 45" "(44 :: nat) + 2 = 46" "(44 :: nat) + 3 = 47" by simp_all
  note four = four_steps [OF lt(1), unfolded at md5_at] four_steps [OF lt(2), unfolded at md5_at] four_steps [OF lt(3), unfolded at md5_at] four_steps [OF lt(4), unfolded at md5_at]
  show ?thesis
    unfolding fields all by (simp only: four foldl.simps(1) muid_round3_def mix_md5 prod.case)
qed

lemma round4_md5: "foldl (md5_step X) q [48..<64] = muid_round4 X q"
proof (cases q)
  case (fields a b c d)
  have all: "[48..<64] = [48, 49, 50, 51, 52, 53, 54, 55, 56, 57, 58, 59, 60, 61, 62, 63]" by (simp add: upt_rec)
  have lt: "(48 :: nat) < 61" "(52 :: nat) < 61" "(56 :: nat) < 61" "(60 :: nat) < 61" by simp_all
  have at: "(48 :: nat) + 1 = 49" "(48 :: nat) + 2 = 50" "(48 :: nat) + 3 = 51" "(52 :: nat) + 1 = 53" "(52 :: nat) + 2 = 54" "(52 :: nat) + 3 = 55" "(56 :: nat) + 1 = 57" "(56 :: nat) + 2 = 58" "(56 :: nat) + 3 = 59" "(60 :: nat) + 1 = 61" "(60 :: nat) + 2 = 62" "(60 :: nat) + 3 = 63" by simp_all
  note four = four_steps [OF lt(1), unfolded at md5_at] four_steps [OF lt(2), unfolded at md5_at] four_steps [OF lt(3), unfolded at md5_at] four_steps [OF lt(4), unfolded at md5_at]
  show ?thesis
    unfolding fields all by (simp only: four foldl.simps(1) muid_round4_def mix_md5 prod.case)
qed

text \<open>Words and their bytes.\<close>

lemma ucast_or: "ucast b OR push_bit 8 w = of_nat (unat b) + 256 * w" for b :: byte and w :: u32
proof -
  have "ucast b AND push_bit 8 w = 0"
  proof (rule bit_word_eqI)
    fix n assume "n < LENGTH(32)"
    then show "bit (ucast b AND push_bit 8 w) n = bit (0 :: u32) n"
      using bit_imp_le_length [of b n] by (auto simp: bit_simps)
  qed
  then have "ucast b OR push_bit 8 w = ucast b + push_bit 8 w" by (simp add: disjunctive_add_eq_or)
  then show ?thesis by (simp add: push_bit_eq_mult)
qed

lemma DECODE_md5: "4 * i + 4 \<le> length bs \<Longrightarrow> DECODE i bs = md5_word (take 4 (drop (4 * i) bs))"
proof -
  assume l: "4 * i + 4 \<le> length bs"
  define p q r t where "p = bs ! (4 * i)" and "q = bs ! (4 * i + 1)" and "r = bs ! (4 * i + 2)" and "t = bs ! (4 * i + 3)"
  have four: "take 4 (drop (4 * i) bs) = [p, q, r, t]"
    using l by (intro nth_equalityI) (auto simp: p_def q_def r_def t_def nth_Cons' less_Suc_eq numeral_eq_Suc)
  have "DECODE i bs = ucast p OR push_bit 8 (ucast q OR push_bit 8 (ucast r OR push_bit 8 (ucast t)))"
    by (simp add: DECODE_def p_def q_def r_def t_def push_bit_or push_bit_push_bit ac_simps)
  also have "\<dots> = md5_word [p, q, r, t]"
    unfolding ucast_or by (simp add: md5_word_def)
  finally show ?thesis unfolding four .
qed

lemma ENCODE_md5: "ENCODE w = md5_bytes w"
proof -
  have "(ucast (drop_bit (8 * i) w) :: byte) = of_nat (unat w div 256 ^ i)" for i
  proof -
    have "(ucast (drop_bit (8 * i) w) :: byte) = of_nat (unat (drop_bit (8 * i) w))" by simp
    also have "unat (drop_bit (8 * i) w) = unat w div 256 ^ i"
      by (simp only: unat_drop_bit_eq) (simp add: drop_bit_eq_div power_mult)
    finally show ?thesis .
  qed
  from this [of 0] this [of 1] this [of 2] this [of 3] show ?thesis
    by (simp add: ENCODE_def md5_bytes_def upt_rec)
qed

lemma group_md5: "length bs = 64 \<Longrightarrow> muid_group bs r = md5_compress bs r"
proof -
  assume l: "length bs = 64"
  have X: "map (\<lambda>i. DECODE i bs) [0..<16] = map (\<lambda>i. md5_word (take 4 (drop (4 * i) bs))) [0..<16]"
    using l by (intro map_cong refl DECODE_md5) auto
  have parts: "[0..<64] = [0..<16] @ [16..<32] @ [32..<48] @ [48..<64]"
    using upt_add_eq_append [of 0 16 48] upt_add_eq_append [of 16 32 32] upt_add_eq_append [of 32 48 16] by simp
  have steps: "foldl (md5_step Y) q [0..<64] = muid_round4 Y (muid_round3 Y (muid_round2 Y (muid_round1 Y q)))" for Y q
    unfolding parts foldl_append using round1_md5 round2_md5 round3_md5 round4_md5 by simp
  show ?thesis unfolding muid_group_def md5_compress_def X Let_def steps by (cases r) (simp split: prod.splits)
qed

lemma blocks_md5: "digest_blocks r bs = md5_blocks r bs"
proof (induction r bs rule: digest_blocks.induct)
  case (1 r bs)
  then show ?case by (subst digest_blocks.simps, subst md5_blocks.simps) (simp add: group_md5)
qed

lemma md5_groups:
  "md5 msg = (case digest_blocks md5_start (md5_pad msg) of (a, b, c, d) \<Rightarrow> ENCODE a @ ENCODE b @ ENCODE c @ ENCODE d)"
  by (simp add: md5_def blocks_md5 ENCODE_md5)

section \<open>Digesting groups\<close>

lemma digest_short: "length bs < 64 \<Longrightarrow> digest_blocks r bs = r"
  by (subst digest_blocks.simps) simp

lemma digest_group: "length bs = 64 \<Longrightarrow> digest_blocks r (bs @ cs) = digest_blocks (muid_group bs r) cs"
  by (subst digest_blocks.simps) simp

lemma digest_append: "length xs = 64 * n \<Longrightarrow> digest_blocks r (xs @ ys) = digest_blocks (digest_blocks r xs) ys"
proof (induction n arbitrary: xs r)
  case (Suc n)
  define hd tl where "hd = take 64 xs" and "tl = drop 64 xs"
  have x: "xs = hd @ tl" "length hd = 64" "length tl = 64 * n" using Suc.prems by (simp_all add: hd_def tl_def)
  show ?case using Suc.IH [OF x(3)] x(2) unfolding x(1) by (simp add: digest_group)
qed (simp add: digest_short)

lemma digest_part: "length xs = 64 * n \<Longrightarrow> length ys < 64 \<Longrightarrow> digest_blocks r (xs @ ys) = digest_blocks r xs"
  by (simp add: digest_append digest_short)

lemma muid_group_take: "64 \<le> length input \<Longrightarrow> muid_group (take 64 input) r = muid_group input r"
proof -
  assume "64 \<le> length input"
  have "map (\<lambda>i. DECODE i (take 64 input)) [0..<16] = map (\<lambda>i. DECODE i input) [0..<16]"
    by (rule map_cong) (auto simp: DECODE_def)
  then show ?thesis unfolding muid_group_def by (simp only:)
qed

definition regs_of :: "muid_context \<Rightarrow> regs" where
  "regs_of st = (mc_a st, mc_b st, mc_c st, mc_d st)"

lemma transform_spec:
  "64 * n \<le> length input \<Longrightarrow> \<exists>st'. MuidTransform n st input = (st', drop (64 * n) input) \<and>
     regs_of st' = digest_blocks (regs_of st) (take (64 * n) input) \<and> mc_buffer st' = mc_buffer st \<and>
     mc_count0 st' = mc_count0 st \<and> mc_count1 st' = mc_count1 st"
proof (induction n arbitrary: st input)
  case 0
  then show ?case by (simp add: digest_short)
next
  case (Suc n)
  obtain a b c d where g: "muid_group input (regs_of st) = (a, b, c, d)" by (cases "muid_group input (regs_of st)") auto
  define st1 where "st1 = st\<lparr>mc_a := a, mc_b := b, mc_c := c, mc_d := d,
              mc_block := map (\<lambda>i. DECODE i input) [0..<16]\<rparr>"
  have step: "MuidTransform (Suc n) st input = MuidTransform n st1 (drop 64 input)"
    using g by (simp add: st1_def regs_of_def kGroupSize_def)
  have r1: "regs_of st1 = muid_group (take 64 input) (regs_of st)"
    using g Suc.prems by (simp add: st1_def regs_of_def [of "_ \<lparr>mc_a := _\<rparr>"] muid_group_take) (simp add: regs_of_def)
  have t: "take (64 * Suc n) input = take 64 input @ take (64 * n) (drop 64 input)"
    by (metis mult_Suc_right take_add)
  have "digest_blocks (regs_of st) (take (64 * Suc n) input) = digest_blocks (regs_of st1) (take (64 * n) (drop 64 input))"
    unfolding t r1 using Suc.prems by (subst digest_group) auto
  moreover have "64 * n \<le> length (drop 64 input)" using Suc.prems by simp
  ultimately show ?case
    using Suc.IH [of "drop 64 input" st1] step by (auto simp: st1_def add.commute)
qed

lemma copy_at_length: "idx + length bs \<le> length buf \<Longrightarrow> length (copy_at idx bs buf) = length buf"
  by (simp add: copy_at_def)

lemma take_copy_at: "idx \<le> length buf \<Longrightarrow> take (idx + length bs) (copy_at idx bs buf) = take idx buf @ bs"
  by (simp add: copy_at_def)

section \<open>The invariant of the context\<close>

text \<open>The context has taken in the message \<open>msg\<close>.\<close>

definition groups_in :: "muid_context \<Rightarrow> byte list \<Rightarrow> bool" where
  "groups_in st msg = (length (mc_buffer st) = 64 \<and> regs_of st = digest_blocks md5_start msg \<and>
     take (length msg mod 64) (mc_buffer st) = drop (64 * (length msg div 64)) msg)"

definition taken_in :: "muid_context \<Rightarrow> byte list \<Rightarrow> bool" where
  "taken_in st msg = (groups_in st msg \<and> length msg < 2 ^ 29 \<and>
     mc_count0 st = of_nat (length msg) \<and> mc_count1 st = 0)"

lemma init_taken_in: "length (mc_buffer st) = 64 \<Longrightarrow> taken_in (MuidInit st) []"
  by (simp add: taken_in_def groups_in_def MuidInit_def regs_of_def md5_start_def digest_short)

lemma muid_groups_spec:
  assumes "length msg = 64 * n" "regs_of st = digest_blocks md5_start msg" "length (mc_buffer st) = 64"
  shows "groups_in (muid_groups st data) (msg @ data) \<and> mc_count0 (muid_groups st data) = mc_count0 st \<and>
    mc_count1 (muid_groups st data) = mc_count1 st"
proof -
  define q where "q = length data div 64"
  define hd tl where "hd = take (64 * q) data" and "tl = drop (64 * q) data"
  have d: "data = hd @ tl" "length hd = 64 * q" "length tl = length data mod 64"
    by (simp_all add: hd_def tl_def q_def minus_mult_div_eq_mod)
  obtain st' where t: "MuidTransform q st data = (st', tl)" "regs_of st' = digest_blocks (regs_of st) hd"
    "mc_buffer st' = mc_buffer st" "mc_count0 st' = mc_count0 st" "mc_count1 st' = mc_count1 st"
    using transform_spec [of q data st] by (auto simp: hd_def tl_def q_def)
  have m: "muid_groups st data = st'\<lparr>mc_buffer := copy_at 0 tl (mc_buffer st)\<rparr>"
  proof (cases "64 \<le> length data")
    case True
    then show ?thesis using t by (simp add: muid_groups_def kGroupSize_def q_def [symmetric])
  next
    case False
    then have "q = 0" "tl = data" by (simp_all add: q_def tl_def)
    then show ?thesis using t False by (simp add: muid_groups_def kGroupSize_def)
  qed
  have tl: "length tl < 64" using d(3) by simp
  have len: "length (msg @ data) div 64 = n + q" "length (msg @ data) mod 64 = length tl"
    using assms(1) d(3) by (simp_all add: q_def)
  have "regs_of (muid_groups st data) = digest_blocks md5_start (msg @ data)"
  proof -
    have "regs_of (muid_groups st data) = digest_blocks md5_start (msg @ hd)"
      using t(2) assms(1,2) by (simp add: m digest_append) (simp add: regs_of_def)
    also have "\<dots> = digest_blocks md5_start ((msg @ hd) @ tl)"
      using assms(1) d(2) tl by (intro digest_part [where n = "n + q", symmetric]) auto
    finally show ?thesis using d(1) by simp
  qed
  moreover have "take (length tl) (copy_at 0 tl (mc_buffer st)) = tl" using take_copy_at [of 0 "mc_buffer st" tl] by simp
  moreover have "drop (64 * (n + q)) (msg @ data) = tl" using assms(1) by (simp add: tl_def)
  ultimately show ?thesis
    using assms(3) tl t(4,5) copy_at_length [of 0 tl "mc_buffer st"] len by (simp add: groups_in_def m)
qed


lemma mod_64: "unat (of_nat n AND kBitMask :: u32) = n mod 64" if "n < 2 ^ 32"
proof -
  have "(of_nat n AND kBitMask :: u32) = take_bit 6 (of_nat n)" by (simp add: kBitMask_def take_bit_eq_mask mask_eq_exp_minus_1)
  then have "unat (of_nat n AND kBitMask :: u32) = take_bit 6 (unat (of_nat n :: u32))" by (simp add: unsigned_take_bit_eq)
  with that show ?thesis by (simp add: take_bit_eq_mod unat_of_nat)
qed

lemma muid_count_spec:
  assumes "mc_count0 st = of_nat n" "mc_count1 st = 0" "n + k < 2 ^ 29"
  shows "muid_count k st = st\<lparr>mc_count0 := of_nat (n + k)\<rparr>"
proof -
  have "ucast (of_nat n :: u32) + of_nat k = (of_nat (n + k) :: u64)"
    using assms(3) by (simp add: unsigned_of_nat take_bit_nat_eq_self)
  moreover have "(of_nat (n + k) :: u64) AND 0x1fffffff = of_nat (n + k)"
  proof -
    have "(of_nat (n + k) :: u64) AND 0x1fffffff = take_bit 29 (of_nat (n + k))" by (simp add: take_bit_eq_mask mask_eq_exp_minus_1)
    also have "\<dots> = of_nat (take_bit 29 (n + k))" by (simp only: take_bit_of_nat)
    also have "take_bit 29 (n + k) = n + k" using assms(3) by (intro take_bit_nat_eq_self) simp
    finally show ?thesis .
  qed
  moreover have "ucast (of_nat (n + k) :: u64) = (of_nat (n + k) :: u32)"
    using assms(3) by (simp only: unsigned_of_nat) (simp add: take_bit_nat_eq_self)
  ultimately have c0: "ucast ((ucast (mc_count0 st) + of_nat k :: u64) AND 0x1fffffff) = (of_nat (n + k) :: u32)"
    by (simp only: assms(1))
  have u: "unat (of_nat x :: u32) = x" if "x < 2 ^ 29" for x using that by (simp add: unat_of_nat)
  have "\<not> (of_nat (n + k) :: u32) < of_nat n"
    using assms(3) u [of "n + k"] u [of n] by (simp only: word_less_nat_alt)
  moreover have "drop_bit 32 (of_nat k :: u64) = 0"
    using assms(3) by (simp only: unat_eq_zero [symmetric] unat_drop_bit_eq unat_of_nat) (simp add: drop_bit_eq_div)
  ultimately show ?thesis using assms(1,2) c0 by (simp add: muid_count_def Let_def)
qed


lemma decode_taken_in:
  assumes "taken_in st msg" "length msg + length data < 2 ^ 29"
  shows "taken_in (MuidDecode st data) (msg @ data)"
proof -
  define n idx where "n = length msg div 64" and "idx = length msg mod 64"
  have a: "length (mc_buffer st) = 64" "regs_of st = digest_blocks md5_start msg"
    "take idx (mc_buffer st) = drop (64 * n) msg" "mc_count0 st = of_nat (length msg)" "mc_count1 st = 0"
    using assms(1) by (simp_all add: taken_in_def groups_in_def n_def idx_def)
  have lm: "length msg = 64 * n + idx" "idx < 64" by (simp_all add: n_def idx_def)
  define st1 where "st1 = st\<lparr>mc_count0 := of_nat (length (msg @ data)) :: u32\<rparr>"
  have c: "muid_count (length data) st = st1" using muid_count_spec [OF a(4,5) assms(2)] by (simp add: st1_def)
  have i: "unat (mc_count0 st AND kBitMask) = idx" using a(4) assms(2) mod_64 [of "length msg"] by (simp add: idx_def)
  have s1: "length (mc_buffer st1) = 64" "regs_of st1 = digest_blocks md5_start msg" "mc_buffer st1 = mc_buffer st"
    "mc_count0 st1 = of_nat (length (msg @ data))" "mc_count1 st1 = 0"
    using a by (simp_all add: st1_def regs_of_def)
  have fin: ?thesis if "groups_in (MuidDecode st data) (msg @ data)"
    "mc_count0 (MuidDecode st data) = mc_count0 st1" "mc_count1 (MuidDecode st data) = mc_count1 st1"
    using that assms(2) s1(4,5) by (simp add: taken_in_def)
  define P where "P = take (64 * n) msg"
  have msg: "msg = P @ take idx (mc_buffer st)" "length P = 64 * n" using a(3) lm by (simp_all add: P_def)
  consider (aligned) "idx = 0" | (small) "idx \<noteq> 0" "length data < 64 - idx" | (fill) "idx \<noteq> 0" "64 - idx \<le> length data" by linarith
  then show ?thesis
  proof cases
    case aligned
    then have "MuidDecode st data = muid_groups st1 data" by (simp add: MuidDecode_def c i)
    with muid_groups_spec [of msg n st1 data] s1 lm aligned show ?thesis by (intro fin) auto
  next
    case small
    define b where "b = copy_at idx data (mc_buffer st)"
    have m: "MuidDecode st data = st1\<lparr>mc_buffer := b\<rparr>"
      using small by (simp add: MuidDecode_def c i kGroupSize_def s1(3) b_def)
    have b: "take (idx + length data) b = take idx (mc_buffer st) @ data" "length b = 64"
      using small a(1) take_copy_at [of idx "mc_buffer st" data] copy_at_length [of idx data "mc_buffer st"] by (simp_all add: b_def)
    have "length (msg @ data) = (idx + length data) + 64 * n" "idx + length data < 64" using lm small by simp_all
    then have "length (msg @ data) div 64 = n" "length (msg @ data) mod 64 = idx + length data"
      by (simp_all only: mod_mult_self2 div_mult_self2) simp_all
    moreover have "drop (64 * n) (msg @ data) = take idx (mc_buffer st) @ data" using a(3) lm by simp
    moreover have "digest_blocks md5_start (msg @ data) = digest_blocks md5_start msg"
      using msg(2) small lm by (subst (1 2) msg(1)) (simp add: digest_part)
    ultimately show ?thesis using b s1 by (intro fin) (simp_all add: m groups_in_def regs_of_def)
  next
    case fill
    define r where "r = 64 - idx"
    define b where "b = copy_at idx (take r data) (mc_buffer st)"
    have b: "b = take idx (mc_buffer st) @ take r data" "length b = 64"
      using fill a(1) lm by (simp_all add: b_def copy_at_def r_def)
    obtain st2 rest where t: "MuidTransform 1 (st1\<lparr>mc_buffer := b\<rparr>) b = (st2, rest)"
      "regs_of st2 = digest_blocks (regs_of (st1\<lparr>mc_buffer := b\<rparr>)) b" "mc_buffer st2 = b"
      "mc_count0 st2 = mc_count0 st1" "mc_count1 st2 = mc_count1 st1"
      using transform_spec [of 1 b "st1\<lparr>mc_buffer := b\<rparr>"] b(2) by auto
    have m: "MuidDecode st data = muid_groups st2 (drop r data)"
      using fill t(1) by (simp add: MuidDecode_def c i kGroupSize_def s1(3) b_def r_def)
    have whole: "msg @ take r data = P @ b" using msg(1) b(1) by simp
    have "regs_of st2 = digest_blocks md5_start (P @ b)"
    proof -
      have "regs_of (st1\<lparr>mc_buffer := b\<rparr>) = digest_blocks md5_start P"
        using s1(2) msg(2) lm a(1) by (subst (asm) msg(1)) (simp add: digest_part regs_of_def)
      then show ?thesis using t(2) msg(2) by (simp add: digest_append)
    qed
    moreover have "length (P @ b) = 64 * (n + 1)" using msg(2) b(2) by simp
    ultimately have "groups_in (muid_groups st2 (drop r data)) ((P @ b) @ drop r data) \<and>
        mc_count0 (muid_groups st2 (drop r data)) = mc_count0 st2 \<and> mc_count1 (muid_groups st2 (drop r data)) = mc_count1 st2"
      using t(3) b(2) by (intro muid_groups_spec [where n = "n + 1"]) auto
    then show ?thesis using t(4,5) m whole [symmetric] by (intro fin) auto
  qed
qed


section \<open>The digest of a message\<close>

lemma transform_one:
  assumes "length buf = 64" "mc_buffer st = buf" "regs_of st = r"
  shows "regs_of (fst (MuidTransform 1 st buf)) = muid_group buf r" "mc_buffer (fst (MuidTransform 1 st buf)) = buf"
    "mc_count0 (fst (MuidTransform 1 st buf)) = mc_count0 st" "mc_count1 (fst (MuidTransform 1 st buf)) = mc_count1 st"
  using transform_spec [of 1 buf st] assms digest_group [of buf r "[]"] by (auto simp: digest_short)

lemma length_bytes:
  assumes "n < 2 ^ 29"
  shows "map (\<lambda>i. of_nat (8 * n div 256 ^ i)) [0..<8] = ENCODE (of_nat n * of_nat kByteLength) @ ENCODE 0"
proof -
  define w where "w = (of_nat (8 * n) :: u32)"
  have w: "of_nat n * of_nat kByteLength = w" by (simp add: w_def kByteLength_def)
  have u: "unat w = 8 * n" using assms by (simp only: w_def unat_of_nat) simp
  have b: "(ucast (drop_bit (8 * i) w) :: byte) = of_nat (8 * n div 256 ^ i)" for i
  proof -
    have "(ucast (drop_bit (8 * i) w) :: byte) = of_nat (unat (drop_bit (8 * i) w))" by simp
    also have "unat (drop_bit (8 * i) w) = 8 * n div 256 ^ i"
      by (simp only: unat_drop_bit_eq u) (simp add: drop_bit_eq_div power_mult)
    finally show ?thesis .
  qed
  have z: "8 * n div 256 ^ i = 0" if "4 \<le> i" for i
  proof -
    have "8 * n < 256 ^ 4" using assms by simp
    also have "(256 :: nat) ^ 4 \<le> 256 ^ i" using that by (intro power_increasing) auto
    finally show ?thesis by simp
  qed
  have "[0..<8] = [0, 1, 2, 3, 4, 5, 6, 7 :: nat]" by (simp add: upt_rec)
  then show ?thesis using b [of 0] b [of 1] b [of 2] b [of 3] z [of 4] z [of 5] z [of 6] z [of 7]
    by (simp add: w ENCODE_def)
qed

lemma encode_md5:
  assumes "taken_in st msg"
  shows "MuidEncode16 result st False = md5 msg"
proof -
  define n idx where "n = length msg div 64" and "idx = length msg mod 64"
  have lm: "length msg = 64 * n + idx" "idx < 64" by (simp_all add: n_def idx_def)
  have a: "length (mc_buffer st) = 64" "regs_of st = digest_blocks md5_start msg"
    "take idx (mc_buffer st) = drop (64 * n) msg" "mc_count0 st = of_nat (length msg)" "mc_count1 st = 0" "length msg < 2 ^ 29"
    using assms by (simp_all add: taken_in_def groups_in_def n_def idx_def)
  define P Q where "P = take (64 * n) msg" and "Q = drop (64 * n) msg"
  have msg: "msg = P @ Q" "length P = 64 * n" "length Q = idx" using lm by (simp_all add: P_def Q_def)
  have rP: "regs_of st = digest_blocks md5_start P" using a(2) msg lm(2) by (simp add: digest_part)
  have i: "unat (mc_count0 st AND kBitMask) = idx" using a(4,6) mod_64 [of "length msg"] by (simp add: idx_def)
  define len where "len = ENCODE (of_nat (length msg) * of_nat kByteLength) @ ENCODE 0"
  have ll: "length len = 8" by (simp add: len_def ENCODE_def)
  define st1 where "st1 = st\<lparr>mc_buffer := (mc_buffer st)[idx := 0x80]\<rparr>"
  have b1: "take (idx + 1) (mc_buffer st1) = Q @ [0x80]" "length (mc_buffer st1) = 64"
    using a(1,3) lm by (simp_all add: st1_def Q_def take_Suc_conv_app_nth)
  have r1: "regs_of st1 = digest_blocks md5_start P" using rP by (simp add: st1_def regs_of_def)
  have finish: "regs_of (last_group idx2 (64 - idx2) st2) = muid_group (take idx2 (mc_buffer st2) @ replicate (56 - idx2) 0 @ len) (regs_of st2)"
    if "idx2 \<le> 56" "length (mc_buffer st2) = 64" "mc_count0 st2 = of_nat (length msg)" "mc_count1 st2 = 0" for st2 idx2
  proof -
    define buf where "buf = copy_at 60 (ENCODE 0) (copy_at 56 (ENCODE (of_nat (length msg) * of_nat kByteLength)) (copy_at idx2 (replicate (56 - idx2) 0) (mc_buffer st2)))"
    have e: "length (ENCODE x) = 4" for x by (simp add: ENCODE_def)
    have "buf = take idx2 (mc_buffer st2) @ replicate (56 - idx2) 0 @ len"
      using that by (simp add: buf_def copy_at_def len_def e)
    moreover have lb: "length buf = 64" using that ll by (simp add: calculation)
    moreover define stb where "stb = st2\<lparr>mc_count0 := of_nat (length msg) * of_nat kByteLength, mc_buffer := buf\<rparr>"
    have "last_group idx2 (64 - idx2) st2 = fst (MuidTransform 1 stb buf)"
      using that by (simp add: last_group_def Let_def pad_zero_def buf_def stb_def kByteLength_def
          del: MuidTransform.simps One_nat_def)
    moreover have "mc_buffer stb = buf" "regs_of stb = regs_of st2" by (simp_all add: stb_def regs_of_def)
    ultimately show ?thesis using transform_one(1) [OF lb] by metis
  qed
  define stz where "stz = pad_zero (idx + 1) (63 - idx) st1"
  have F: "snd (FullEncode st) = (if 63 - idx < 8 then last_group 0 64 (fst (MuidTransform 1 stz (mc_buffer stz)))
      else last_group (idx + 1) (64 - (idx + 1)) st1)"
    by (simp add: FullEncode_def Let_def i st1_def stz_def kGroupSize_def kByteLength_def del: One_nat_def)
  have F1: "fst (FullEncode st) = ENCODE (mc_a (snd (FullEncode st))) @ ENCODE (mc_b (snd (FullEncode st)))"
    by (simp add: FullEncode_def Let_def case_prod_beta)
  have "md5_pad msg = msg @ [0x80] @ replicate ((119 - idx) mod 64) 0 @ len"
    unfolding md5_pad_def length_bytes [OF a(6)] idx_def len_def by (rule refl)
  then have pad: "md5_pad msg = P @ Q @ [0x80] @ replicate ((119 - idx) mod 64) 0 @ len"
    using msg(1) by (metis append.assoc)
  have "regs_of (snd (FullEncode st)) = digest_blocks md5_start (md5_pad msg)"
  proof (cases "63 - idx < 8")
    case True
    then have k: "(119 - idx) mod 64 = (63 - idx) + 56" using lm(2) by simp
    define b where "b = Q @ [0x80] @ replicate (63 - idx) 0"
    have b: "length b = 64" "mc_buffer stz = b" using msg(3) lm(2) b1 by (simp_all add: b_def stz_def pad_zero_def copy_at_def)
    have "md5_pad msg = (P @ b) @ (replicate 56 0 @ len)"
      unfolding pad k by (simp add: b_def replicate_add)
    then have "digest_blocks md5_start (md5_pad msg) = muid_group (replicate 56 0 @ len) (muid_group b (digest_blocks md5_start P))"
      using msg(2) b(1) ll digest_append [of "P @ b" "n + 1"] digest_append [OF msg(2)] digest_group [OF b(1), of _ "[]"]
        digest_group [of "replicate 56 0 @ len" _ "[]"] by (simp add: digest_short)
    moreover have "regs_of stz = digest_blocks md5_start P" "mc_count0 stz = of_nat (length msg)" "mc_count1 stz = 0"
      using r1 a(4,5) by (simp_all add: stz_def pad_zero_def regs_of_def st1_def)
    ultimately show ?thesis
      using F True finish [of 0 "fst (MuidTransform 1 stz (mc_buffer stz))"] transform_one [OF b(1,2), of "digest_blocks md5_start P"] b
      by simp
  next
    case False
    then have k: "(119 - idx) mod 64 = 56 - (idx + 1)" using lm(2) by (simp add: mod_if)
    define b where "b = Q @ [0x80] @ replicate (56 - (idx + 1)) 0 @ len"
    have b: "length b = 64" using msg(3) False ll by (simp add: b_def)
    have "md5_pad msg = P @ b" unfolding pad k by (simp add: b_def)
    then have "digest_blocks md5_start (md5_pad msg) = muid_group b (digest_blocks md5_start P)"
      using digest_append [OF msg(2)] digest_group [OF b, of _ "[]"] by (simp add: digest_short)
    moreover have "take (idx + 1) (mc_buffer st1) @ replicate (56 - (idx + 1)) 0 @ len = b" using b1 by (simp add: b_def)
    ultimately show ?thesis
      using F False finish [of "idx + 1" st1] b1 r1 a(4,5) by (simp add: st1_def)
  qed
  then have "digest_blocks md5_start (md5_pad msg) = (mc_a (snd (FullEncode st)), mc_b (snd (FullEncode st)),
      mc_c (snd (FullEncode st)), mc_d (snd (FullEncode st)))" by (simp add: regs_of_def)
  then show ?thesis using F1 by (simp add: MuidEncode16_def md5_groups case_prod_beta)
qed


lemma stream_taken_in:
  "taken_in st msg \<Longrightarrow> length msg + length (concat chunks) < 2 ^ 29 \<Longrightarrow> taken_in (foldl MuidDecode st chunks) (msg @ concat chunks)"
proof (induction chunks arbitrary: st msg)
  case (Cons c cs)
  then have "taken_in (MuidDecode st c) (msg @ c)" by (intro decode_taken_in) auto
  from Cons.IH [OF this] Cons.prems show ?case by simp
qed simp

text \<open>
  C7. The streaming digest is MD5. Starting from \<open>MuidInit\<close> on a context with a buffer of 64 bytes,
  whatever it held, and fed a message in any number of \<open>MuidDecode\<close> calls of any sizes, \<open>MuidEncode\<close> gives
  the digest of RFC 1321 (\<open>md5\<close>, written from the RFC: its table, rotations, word order and padding) of
  the whole message, as long as that has fewer than \<open>2 ^ 29\<close> bytes.
\<close>

theorem muid_streaming:
  assumes "length (mc_buffer st) = 64" "length (concat chunks) < 2 ^ 29"
  shows "MuidEncode16 result (foldl MuidDecode (MuidInit st) chunks) False = md5 (concat chunks)"
  using encode_md5 [OF stream_taken_in [OF init_taken_in [OF assms(1)]]] assms(2) by simp

definition blank_context :: muid_context where
  "blank_context = \<lparr>mc_a = 0, mc_b = 0, mc_c = 0, mc_d = 0, mc_count0 = 0, mc_count1 = 0, mc_block = [],
     mc_buffer = replicate 64 0\<rparr>"

text \<open>The message \<open>abc\<close> of the RFC's test suite, in three calls.\<close>

lemma muid_streaming_witness:
  "MuidEncode16 [] (foldl MuidDecode (MuidInit blank_context) [[0x61, 0x62], [], [0x63]]) False =
   [0x90, 0x01, 0x50, 0x98, 0x3c, 0xd2, 0x4f, 0xb0, 0xd6, 0x96, 0x3f, 0x7d, 0x28, 0xe1, 0x7f, 0x72]"
  using muid_streaming [of blank_context "[[0x61, 0x62], [], [0x63]]" "[]"] md5_abc by (simp add: blank_context_def)

text \<open>
  \<open>2 ^ 29\<close> bytes taken in at once leave the byte counter at zero: the digest of a message of
  that size ends in the length of the empty message, which MD5 does not.
\<close>

lemma muid_count_loses_length: "muid_count (2 ^ 29) (MuidInit st) = MuidInit st"
proof -
  have "(0x20000000 :: u64) AND 0x1fffffff = 0" "drop_bit 32 (0x20000000 :: u64) = 0" by code_simp+
  then show ?thesis by (simp add: muid_count_def MuidInit_def)
qed

section \<open>Identifiers\<close>

lemma last_byte_set [simp]: "last_byte (set_last_byte b m) = b"
  by (rule bit_word_eqI) (auto simp: last_byte_def set_last_byte_def bit_simps)

lemma set_last_byte_set [simp]: "set_last_byte b (set_last_byte c m) = set_last_byte b m"
proof -
  have "take_bit 56 (take_bit 56 (word1 m) OR push_bit 56 (ucast c)) = take_bit 56 (word1 m)"
    by (rule bit_word_eqI) (auto simp: bit_simps)
  then show ?thesis by (simp add: set_last_byte_def)
qed

lemma namespace_bits:
  "((b AND kBitMask) OR kSystemNamespace) AND NOT kBitMask = kSystemNamespace"
  "((b AND kBitMask) OR kApkNamespace) AND NOT kBitMask = kApkNamespace" for b :: byte
proof -
  have "(b AND kBitMask) AND NOT kBitMask = 0" by (simp add: and.assoc)
  moreover have "kSystemNamespace AND NOT kBitMask = kSystemNamespace" "kApkNamespace AND NOT kBitMask = kApkNamespace"
    by code_simp+
  ultimately show "((b AND kBitMask) OR kSystemNamespace) AND NOT kBitMask = kSystemNamespace"
    "((b AND kBitMask) OR kApkNamespace) AND NOT kBitMask = kApkNamespace"
    by (simp_all add: bit.conj_disj_distrib2)
qed

lemma set_namespace:
  "IsSystemNameSpace (SetSystemNameSpace m)" "IsApkNameSpace (SetApkNameSpace m)"
  by (simp_all add: IsSystemNameSpace_def SetSystemNameSpace_def IsApkNameSpace_def SetApkNameSpace_def Let_def namespace_bits)

lemma namespace_unique: "\<not> (IsSystemNameSpace m \<and> IsApkNameSpace m)"
  by (auto simp: IsSystemNameSpace_def IsApkNameSpace_def kSystemNamespace_def kApkNamespace_def)

text \<open>
  C34. Identifiers made for the system and for an application never coincide, whatever the names,
  and each is recognised as what it is.
\<close>

theorem GetMUID_namespaces:
  "GetMUID st n True \<noteq> GetMUID st' n' False \<and> IsSystemNameSpace (GetMUID st n True) \<and> IsApkNameSpace (GetMUID st' n' False)"
  using namespace_unique [of "GetMUID st n True"] set_namespace by (auto simp: GetMUID_def Let_def)

lemma hex_digit_inj: "m < 16 \<Longrightarrow> n < 16 \<Longrightarrow> hex_digit m = hex_digit n \<longleftrightarrow> m = n"
proof -
  have "distinct ''0123456789abcdef''" "length ''0123456789abcdef'' = 16" by simp_all
  then show "m < 16 \<Longrightarrow> n < 16 \<Longrightarrow> hex_digit m = hex_digit n \<longleftrightarrow> m = n"
    unfolding hex_digit_def by (metis nth_eq_iff_index_eq)
qed

lemma hex16_inj: "hex16 v = hex16 w \<longleftrightarrow> v = w"
proof
  assume h: "hex16 v = hex16 w"
  have nib: "unat (x AND 0xf :: u64) < 16" for x
  proof -
    have "x AND 0xf = take_bit 4 x" by (simp add: take_bit_eq_mask mask_eq_exp_minus_1)
    then have "unat (x AND 0xf) = take_bit 4 (unat x)" by (simp add: unsigned_take_bit_eq)
    then show ?thesis using take_bit_nat_less_exp [of 4 "unat x"] by simp
  qed
  have d: "drop_bit (4 * i) v AND 0xf = drop_bit (4 * i) w AND 0xf" if "i < 16" for i
  proof -
    have "unat (drop_bit (4 * i) v AND 0xf) = unat (drop_bit (4 * i) w AND 0xf)"
      using h that nib hex_digit_inj by (auto simp: hex16_def)
    then show ?thesis by (rule unsigned_word_eqI)
  qed
  show "v = w"
  proof (rule bit_word_eqI)
    fix n assume "n < LENGTH(64)"
    then have i: "n div 4 < 16" "4 * (n div 4) + n mod 4 = n" "n mod 4 < 4" by auto
    have m: "(0xf :: u64) = mask 4" by (simp add: mask_eq_exp_minus_1)
    from arg_cong [OF d [OF i(1)], of "\<lambda>x. bit x (n mod 4)"] i(2,3)
    show "bit v n = bit w n" unfolding m by (simp add: bit_simps)
  qed
qed simp

text \<open>The printed form of an identifier determines it.\<close>

lemma ToStr_inject: "ToStr m = ToStr n \<longleftrightarrow> m = n"
proof -
  have "length (hex16 w) = 16" for w by (simp add: hex16_def)
  then show ?thesis by (auto simp: ToStr_def muid_eq_iff hex16_inj)
qed

end
