(* ===== verification/Mangler.thy ===== *)
theory Mangler
  imports Prelude
begin

text \<open>
  Name mangling between Java names and assembler symbols, the UTF-8 and UTF-16 conversions and the
  LEB128 encodings (maple_util/src/namemangler.cpp). A \<open>std::string\<close> is its list of bytes; it
  can be read at its length, where it holds a zero, and not beyond (\<open>None\<close>). The compression
  flag \<open>doCompression\<close> is an argument.
\<close>

definition rd :: "byte list \<Rightarrow> nat \<Rightarrow> byte option" where
  "rd s i = (if i < length s then Some (s ! i) else if i = length s then Some 0 else None)"

abbreviation chr :: "char \<Rightarrow> 'a::len word" where
  "chr c \<equiv> of_nat (of_char c)"

section \<open>UTF-8 and UTF-16\<close>

definition ChangeEndian16 :: "u16 \<Rightarrow> u16" where
  "ChangeEndian16 w = drop_bit 8 (w AND 0xFF00) OR push_bit 8 (w AND 0xFF)"

definition NeedConvertUTF16 :: "byte list \<Rightarrow> bool" where
  "NeedConvertUTF16 str8 = (\<exists>a \<in> set str8. 0x7F < a)"

text \<open>The code point at \<open>i\<close> and the index after it. A stray continuation byte gives zero.\<close>

definition GetCodePoint :: "byte list \<Rightarrow> nat \<Rightarrow> (u32 \<times> nat) option" where
  "GetCodePoint str8 i = do {
     a' \<leftarrow> rd str8 i;
     let a = (ucast a' :: u32);
     (if a \<le> 0x7F then Some (a, i + 1)
      else if 0xF0 \<le> a then do {
        b \<leftarrow> rd str8 (i + 1); c \<leftarrow> rd str8 (i + 2); d \<leftarrow> rd str8 (i + 3);
        Some (push_bit 18 (a AND 0x7) OR push_bit 12 (ucast b AND 0x3F)
              OR push_bit 6 (ucast c AND 0x3F) OR (ucast d AND 0x3F), i + 4) }
      else if 0xE0 \<le> a then do {
        b \<leftarrow> rd str8 (i + 1); c \<leftarrow> rd str8 (i + 2);
        Some (push_bit 12 (a AND 0xF) OR push_bit 6 (ucast b AND 0x3F) OR (ucast c AND 0x3F), i + 3) }
      else if 0xC0 \<le> a then do {
        b \<leftarrow> rd str8 (i + 1);
        Some (push_bit 6 (a AND 0x1F) OR (ucast b AND 0x3F), i + 2) }
      else Some (0, i + 1)) }"

definition utf16_units :: "u32 \<Rightarrow> u16 \<Rightarrow> bool \<Rightarrow> u16 list" where
  "utf16_units codePoint num isBigEndian =
     (let out = (if isBigEndian \<or> num = 1 then (\<lambda>w. w) else ChangeEndian16)
      in if codePoint \<le> 0xFFFF then [out (ucast codePoint)]
         else let code = codePoint - 0x10000
              in [out (ucast (drop_bit 10 code OR 0xD800)), out (ucast ((code AND 0x3FF) OR 0xDC00))])"

lemma GetCodePoint_next: "GetCodePoint s i = Some (cp, j) \<Longrightarrow> i < j"
  by (auto simp: GetCodePoint_def bind_eq_Some_conv Let_def split: if_splits)

text \<open>The units, and the packed result: how many were made and how many bytes were used.\<close>

function utf8_loop :: "byte list \<Rightarrow> u16 \<Rightarrow> bool \<Rightarrow> nat \<Rightarrow> u16 \<Rightarrow> u16 \<Rightarrow> (u16 list \<times> u32) option" where
  "utf8_loop str8 num isBigEndian i count retNum =
     (if i < length str8 then
        (case GetCodePoint str8 i of
           None \<Rightarrow> None
         | Some (codePoint, j) \<Rightarrow>
             let units = utf16_units codePoint num isBigEndian;
                 retNum = retNum + of_nat (length units);
                 count = count + 1
             in if num = count then Some (units, push_bit 16 (ucast retNum) OR ucast (of_nat j :: u16))
                else map_option (\<lambda>(rest, n). (units @ rest, n)) (utf8_loop str8 num isBigEndian j count retNum))
      else Some ([], of_nat i))"
  by pat_completeness auto

termination utf8_loop
  by (relation "measure (\<lambda>(str8, num, isBigEndian, i, count, retNum). length str8 - i)")
    (auto dest!: GetCodePoint_next)

declare utf8_loop.simps [simp del]

definition UTF8ToUTF16 :: "byte list \<Rightarrow> u16 \<Rightarrow> bool \<Rightarrow> (u16 list \<times> u32) option" where
  "UTF8ToUTF16 str8 num isBigEndian = utf8_loop str8 num isBigEndian 0 0 0"

definition utf8_bytes :: "u32 \<Rightarrow> byte list" where
  "utf8_bytes codePoint =
     (if codePoint \<le> 0x7F then [ucast codePoint]
      else if codePoint \<le> 0x7FF
      then [ucast (0xC0 + drop_bit 6 codePoint), ucast (0x80 + (codePoint AND 0x3F))]
      else if codePoint \<le> 0xFFFF
      then [ucast (0xE0 + (drop_bit 12 codePoint AND 0xF)), ucast (0x80 + (drop_bit 6 codePoint AND 0x3F)),
            ucast (0x80 + (codePoint AND 0x3F))]
      else [ucast (0xF0 + (drop_bit 18 codePoint AND 0x7)), ucast (0x80 + (drop_bit 12 codePoint AND 0x3F)),
            ucast (0x80 + (drop_bit 6 codePoint AND 0x3F)), ucast (0x80 + (codePoint AND 0x3F))])"

text \<open>
  The test \<open>codePoint > 0xFFFF\<close> of the loop is made on one 16-bit unit and never holds; the
  branch behind it, which would read the second half of a pair, is \<open>None\<close> here.
\<close>

fun utf16_loop :: "u16 \<Rightarrow> bool \<Rightarrow> nat \<Rightarrow> u16 \<Rightarrow> u16 \<Rightarrow> u16 list \<Rightarrow> (byte list \<times> u32) option" where
  "utf16_loop num isBigEndian i count retNum [] = Some ([], of_nat i)"
| "utf16_loop num isBigEndian i count retNum (u # rest) =
     (let codePoint = ucast (if isBigEndian \<or> num = 1 then u else ChangeEndian16 u) :: u32
      in if 0xFFFF < codePoint then None
         else let bytes = utf8_bytes codePoint;
                  retNum = retNum + of_nat (length bytes);
                  count = count + 1
              in if num = count then Some (bytes, push_bit 16 (ucast retNum) OR of_nat (i + 1))
                 else map_option (\<lambda>(bs, n). (bytes @ bs, n)) (utf16_loop num isBigEndian (i + 1) count retNum rest))"

definition UTF16ToUTF8 :: "u16 list \<Rightarrow> u16 \<Rightarrow> bool \<Rightarrow> (byte list \<times> u32) option" where
  "UTF16ToUTF8 str16 num isBigEndian = utf16_loop num isBigEndian 0 0 0 str16"

section \<open>Encoding a name\<close>

definition GETHEXCHAR :: "u32 \<Rightarrow> byte" where
  "GETHEXCHAR n = ucast (if n < 10 then n + 48 else n - 10 + 97)"

definition GETHEXCHARU :: "u32 \<Rightarrow> byte" where
  "GETHEXCHARU n = ucast (if n < 10 then n + 48 else n - 10 + 65)"

definition kMaxCodecbufSize :: nat where "kMaxCodecbufSize = 2 ^ 16"
definition kLocalCodebufSize :: nat where "kLocalCodebufSize = 1024"

definition codec_buf_size :: "nat \<Rightarrow> nat" where
  "codec_buf_size maxLen = (if maxLen \<le> kLocalCodebufSize then 3 * maxLen else 3 * kMaxCodecbufSize)"

definition is_alnum :: "byte \<Rightarrow> bool" where
  "is_alnum c = (48 \<le> c \<and> c \<le> 57 \<or> 65 \<le> c \<and> c \<le> 90 \<or> 97 \<le> c \<and> c \<le> 122)"

definition hex4 :: "u16 \<Rightarrow> byte list" where
  "hex4 m = [GETHEXCHAR (ucast (drop_bit 12 (m AND 0xF000))), GETHEXCHAR (ucast (drop_bit 8 (m AND 0x0F00))),
     GETHEXCHAR (ucast (drop_bit 4 (m AND 0x00F0))), GETHEXCHAR (ucast (m AND 0x000F))]"

definition encode_ascii :: "byte \<Rightarrow> byte list" where
  "encode_ascii c =
     (if c = chr CHR ''_'' then [chr CHR ''_'', chr CHR ''_'']
      else if c = chr CHR ''['' then [chr CHR ''A'']
      else if is_alnum c then [c]
      else let c = (if c = chr CHR ''.'' then chr CHR ''/'' else c);
               n = drop_bit 4 c
           in [chr CHR ''_'', GETHEXCHARU (ucast n), GETHEXCHARU (ucast (c - push_bit 4 n))])"

text \<open>A character beyond ASCII, and how many bytes of the name it takes.\<close>

definition encode_wide :: "byte list \<Rightarrow> nat \<Rightarrow> (byte list \<times> nat) option" where
  "encode_wide name i =
     (case UTF8ToUTF16 (drop i name) 1 False of
        None \<Rightarrow> None
      | Some (str16, n) \<Rightarrow>
          Some (chr CHR ''_'' #
                (if drop_bit 16 n = 1 then chr CHR ''u'' # hex4 (str16 ! 0)
                 else chr CHR ''U'' # hex4 (str16 ! 0) @ hex4 (str16 ! 1)),
                unat (n AND 0xFFFF)))"

text \<open>
  The loop of \<open>EncodeName\<close> from \<open>i\<close> on. A character that took no bytes would be read for
  ever (\<open>None\<close>).
\<close>

function encode_from :: "byte list \<Rightarrow> nat \<Rightarrow> nat \<Rightarrow> byte list option" where
  "encode_from name nameLen i =
     (if i < nameLen \<and> i < length name then
        (let c = name ! i in
         if c \<le> 0x7F then map_option (\<lambda>rest. encode_ascii c @ rest) (encode_from name nameLen (i + 1))
         else case encode_wide name i of
             None \<Rightarrow> None
           | Some (out, used) \<Rightarrow>
               map_option (\<lambda>rest. out @ rest) (if used = 0 then None else encode_from name nameLen (i + used)))
      else Some [])"
  by pat_completeness auto

termination encode_from
  by (relation "measure (\<lambda>(name, nameLen, i). length name - i)") auto

declare encode_from.simps [simp del]

section \<open>Compression\<close>

definition is_prefix :: "byte list \<Rightarrow> byte list \<Rightarrow> bool" where
  "is_prefix p s = (take (length p) s = p)"

text \<open>\<open>std::regex_replace\<close> with a pattern without special characters.\<close>

function replace_all :: "byte list \<Rightarrow> byte list \<Rightarrow> byte list \<Rightarrow> byte list" where
  "replace_all from to [] = []"
| "replace_all from to (c # s) =
     (if from \<noteq> [] \<and> is_prefix from (c # s) then to @ replace_all from to (drop (length from) (c # s))
      else c # replace_all from to s)"
  by pat_completeness auto

termination replace_all
  by (relation "measure (\<lambda>(from, to, s). length s)") (auto simp: neq_Nil_conv)

text \<open>A \<open>std::map\<close> is walked in the order of its keys.\<close>

definition kInternalMangleTable :: "(byte list \<times> byte list) list" where
  "kInternalMangleTable =
     [(bytes_of_string ''Ljava_2Flang_2FClass_3B'', bytes_of_string ''L1_3B''),
      (bytes_of_string ''Ljava_2Flang_2FObject_3B'', bytes_of_string ''L0_3B''),
      (bytes_of_string ''Ljava_2Flang_2FString_3B'', bytes_of_string ''L2_3B'')]"

definition kOriginalMangleTable :: "(byte list \<times> byte list) list" where
  "kOriginalMangleTable =
     [(bytes_of_string ''Ljava/lang/Class'', bytes_of_string ''L1''),
      (bytes_of_string ''Ljava/lang/Object'', bytes_of_string ''L0''),
      (bytes_of_string ''Ljava/lang/String'', bytes_of_string ''L2'')]"

definition CompressName :: "(byte list \<times> byte list) list \<Rightarrow> byte list \<Rightarrow> byte list" where
  "CompressName mapping name = foldl (\<lambda>name (from, to). replace_all from to name) name mapping"

definition DecompressName :: "(byte list \<times> byte list) list \<Rightarrow> byte list \<Rightarrow> byte list" where
  "DecompressName mapping name = foldl (\<lambda>name (from, to). replace_all to from name) name mapping"

definition GetInternalNameLiteral :: "bool \<Rightarrow> byte list \<Rightarrow> byte list" where
  "GetInternalNameLiteral doCompression name =
     (if doCompression then CompressName kInternalMangleTable name else name)"

definition GetOriginalNameLiteral :: "bool \<Rightarrow> byte list \<Rightarrow> byte list" where
  "GetOriginalNameLiteral doCompression name =
     (if doCompression then CompressName kOriginalMangleTable name else name)"

text \<open>
  The encoded name is built in a buffer of \<open>codec_buf_size\<close> bytes and terminated by a zero; a
  write beyond the buffer is \<open>None\<close>.
\<close>

definition EncodeName :: "bool \<Rightarrow> byte list \<Rightarrow> byte list option" where
  "EncodeName doCompression name =
     (let nameLen = min (length name) kMaxCodecbufSize in
      if nameLen = 0 then Some name
      else do {
        newName \<leftarrow> encode_from name nameLen 0;
        (if codec_buf_size nameLen \<le> length newName then None
         else Some (if doCompression then CompressName kInternalMangleTable newName else newName)) })"

section \<open>Decoding a name\<close>

definition UpdatePrimType :: "bool \<Rightarrow> nat \<Rightarrow> u32 \<Rightarrow> bool" where
  "UpdatePrimType primType splitNo ch =
     (if ch = chr CHR ''L'' then False
      else if (ch = chr CHR '';'' \<or> ch = chr CHR ''('' \<or> ch = chr CHR '')'') \<and> 1 < splitNo then True
      else primType)"

definition hex_value :: "'a::len word \<Rightarrow> 'a word \<Rightarrow> 'a word" where
  "hex_value ten c = (if c \<le> chr CHR ''9'' then c - chr CHR ''0'' else c - ten + 10)"

text \<open>The bytes of \<open>_uXXXX\<close>; a unit below 0x80 leaves none, since only two to four are copied.\<close>

definition decode_unit :: "byte \<Rightarrow> byte \<Rightarrow> byte \<Rightarrow> byte \<Rightarrow> byte list option" where
  "decode_unit c1 c2 c3 c4 =
     (let digit = (\<lambda>c. ucast (hex_value (chr CHR ''a'') c) :: u32);
          codepoint = push_bit 12 (digit c1) OR push_bit 8 (digit c2) OR push_bit 4 (digit c3) OR digit c4
      in case UTF16ToUTF8 [ucast codepoint] 1 False of
           None \<Rightarrow> None
         | Some (str, n) \<Rightarrow> Some (if drop_bit 16 n \<in> {2, 3, 4} then str else []))"

definition decode_ascii :: "bool \<Rightarrow> byte \<Rightarrow> byte" where
  "decode_ascii primType c = (if primType \<and> c = chr CHR ''A'' then chr CHR ''['' else c)"

text \<open>
  The loop of \<open>DecodeName\<close>: \<open>splitNo\<close> counts the bars seen (class 0, method 1, signature 2).
\<close>

function decode_from :: "byte list \<Rightarrow> nat \<Rightarrow> bool \<Rightarrow> nat \<Rightarrow> byte list option" where
  "decode_from name i primType splitNo =
     (if length name \<le> i then Some []
      else let c = name ! i; i = i + 1 in
        if c = chr CHR ''_'' then
          (if length name \<le> i then Some []
           else if name ! i = chr CHR ''_''
           then map_option (\<lambda>out. name ! i # out) (decode_from name (i + 1) primType splitNo)
           else if name ! i = chr CHR ''u'' then do {
             c1 \<leftarrow> rd name (i + 1); c2 \<leftarrow> rd name (i + 2); c3 \<leftarrow> rd name (i + 3); c4 \<leftarrow> rd name (i + 4);
             str \<leftarrow> decode_unit c1 c2 c3 c4;
             map_option (\<lambda>out. str @ out) (decode_from name (i + 5) primType splitNo) }
           else let v = hex_value (chr CHR ''A'') (ucast (name ! i) :: u32); i = i + 1 in
             if length name \<le> i then Some []
             else let asc = push_bit 4 v + hex_value (chr CHR ''A'') (ucast (name ! i));
                      splitNo = (if asc = chr CHR ''|'' then splitNo + 1 else splitNo)
                  in map_option (\<lambda>out. ucast asc # out)
                       (decode_from name (i + 1) (UpdatePrimType primType splitNo asc) splitNo))
        else if splitNo < 2 then map_option (\<lambda>out. c # out) (decode_from name i primType splitNo)
        else let primType = UpdatePrimType primType splitNo (ucast c)
             in map_option (\<lambda>out. decode_ascii primType c # out) (decode_from name i primType splitNo))"
  by pat_completeness auto

termination decode_from
  by (relation "measure (\<lambda>(name, i, primType, splitNo). length name - i)") auto

declare decode_from.simps [simp del]

definition DecodeName :: "bool \<Rightarrow> byte list \<Rightarrow> byte list option" where
  "DecodeName doCompression name =
     (if chr CHR '';'' \<in> set name then Some name
      else decode_from (if doCompression then DecompressName kInternalMangleTable name else name) 0 True 0)"

definition DecodeMapleNameToJavaDescriptor :: "bool \<Rightarrow> byte list \<Rightarrow> byte list option" where
  "DecodeMapleNameToJavaDescriptor doCompression nameIn =
     map_option (\<lambda>nameOut. map (\<lambda>_. chr CHR ''['') (takeWhile ((=) (chr CHR ''A'')) nameOut)
         @ dropWhile ((=) (chr CHR ''A'')) nameOut) (DecodeName doCompression nameIn)"

section \<open>Names of native methods\<close>

text \<open>
  \<open>c\<close> is a \<open>char\<close> here, signed as on x86. \<open>kJavaStrLength\<close> more characters are counted than the
  name has, so that only a scan which ends at the closing parenthesis of a signature, or at its
  bar, stays inside the name. The loop over \<open>A\<close> reads \<open>name\<close>, not the decompressed name: when
  they differ at \<open>i\<close> it does not advance and the scan never ends (\<open>None\<close>).
\<close>

definition kJavaStrLength :: nat where "kJavaStrLength = 5"

fun skip_arrays :: "byte list \<Rightarrow> nat \<Rightarrow> nat \<Rightarrow> nat option" where
  "skip_arrays name i 0 = Some i"
| "skip_arrays name i (Suc n) =
     (case rd name i of None \<Rightarrow> None
      | Some c \<Rightarrow> if c = chr CHR ''A'' then skip_arrays name (i + 1) n else Some i)"

definition native_hex :: "byte \<Rightarrow> byte" where
  "native_hex c = (if c \<le>s chr CHR ''9'' then c - chr CHR ''0'' else c - chr CHR ''A'' + 10)"

text \<open>
  What an escaped character appends, and the flags \<open>isProto\<close>, \<open>isFuncname\<close> and
  \<open>isTypename\<close> after it; \<open>None\<close> ends the scan.
\<close>

type_synonym native_flags = "bool \<times> bool \<times> bool"

definition native_escape :: "bool \<Rightarrow> byte \<Rightarrow> native_flags \<Rightarrow> (string \<times> native_flags) option" where
  "native_escape overLoaded asc = (\<lambda>(isProto, isFuncname, isTypename).
     if asc = chr CHR ''/'' then Some (''_'', isProto, isFuncname, isTypename)
     else if asc = chr CHR ''|'' \<and> \<not> isFuncname then Some (''_'', isProto, True, isTypename)
     else if asc = chr CHR ''|'' \<and> isFuncname
     then (if \<not> overLoaded then None else Some (''_'', isProto, False, isTypename))
     else if asc = chr CHR ''('' then Some (''_'', True, isFuncname, isTypename)
     else if asc = chr CHR '')'' then None
     else if asc = chr CHR '';'' \<and> \<not> isFuncname
     then Some (if isProto then ''_2'' else [], isProto, isFuncname, False)
     else if asc = chr CHR ''$'' then Some (''_00024'', isProto, isFuncname, isTypename)
     else if asc = chr CHR ''-'' then Some (''_0002d'', isProto, isFuncname, isTypename)
     else Some ([], isProto, isFuncname, isTypename))"

function native_from ::
    "bool \<Rightarrow> byte list \<Rightarrow> byte list \<Rightarrow> nat \<Rightarrow> nat \<Rightarrow> native_flags \<Rightarrow> byte list option" where
  "native_from overLoaded name decompressedName nameLen i flags =
     (if nameLen \<le> i then Some []
      else (case rd decompressedName i of None \<Rightarrow> None | Some c \<Rightarrow>
        if c = chr CHR ''_'' then
          (case rd decompressedName (i + 1) of None \<Rightarrow> None | Some d \<Rightarrow>
             if d = chr CHR ''u'' then map_option (\<lambda>out. bytes_of_string ''_0'' @ out)
               (native_from overLoaded name decompressedName nameLen (i + 2) flags)
             else if d = chr CHR ''_'' then map_option (\<lambda>out. bytes_of_string ''_1'' @ out)
               (native_from overLoaded name decompressedName nameLen (i + 2) flags)
             else (case rd decompressedName (i + 2) of None \<Rightarrow> None | Some e \<Rightarrow>
               let asc = push_bit 4 (native_hex d) + native_hex e in
               (case native_escape overLoaded asc flags of
                 None \<Rightarrow> Some []
               | Some (text, flags) \<Rightarrow> map_option (\<lambda>out. bytes_of_string text @ out)
                   (native_from overLoaded name decompressedName nameLen (i + 3) flags))))
        else let (isProto, isFuncname, isTypename) = flags in
          if c = chr CHR ''L'' \<and> \<not> isFuncname \<and> \<not> isTypename then
            map_option (\<lambda>out. (if isProto then [c] else []) @ out)
              (native_from overLoaded name decompressedName nameLen (i + 1) (isProto, isFuncname, True))
          else if c = chr CHR ''A'' \<and> \<not> isTypename \<and> \<not> isFuncname then
            (case skip_arrays name i (length name + 1) of None \<Rightarrow> None | Some j \<Rightarrow>
               if j \<le> i then None
               else map_option (\<lambda>out. concat (replicate (j - i) (bytes_of_string ''_3'')) @ out)
                 (native_from overLoaded name decompressedName nameLen j flags))
          else map_option (\<lambda>out. c # out)
            (native_from overLoaded name decompressedName nameLen (i + 1) flags)))"
  by pat_completeness auto

termination native_from
  by (relation "measure (\<lambda>(overLoaded, name, decompressedName, nameLen, i, flags). nameLen - i)") auto

declare native_from.simps [simp del]

definition NativeJavaName :: "bool \<Rightarrow> byte list \<Rightarrow> bool \<Rightarrow> byte list option" where
  "NativeJavaName doCompression name overLoaded =
     (let decompressedName = (if doCompression then DecompressName kInternalMangleTable name else name);
          nameLen = length decompressedName + kJavaStrLength
      in case skip_arrays name 0 nameLen of None \<Rightarrow> None | Some i \<Rightarrow>
           map_option (\<lambda>out. bytes_of_string ''Java_'' @ concat (replicate i (bytes_of_string ''_3'')) @ out)
             (native_from overLoaded name decompressedName nameLen i (False, False, False)))"

end
