(* ===== verification/NameSound.thy ===== *)
theory NameSound
  imports MangleSound
begin

text \<open>
  \<open>DecodeName\<close> inverts \<open>EncodeName\<close>, and when the buffer of \<open>EncodeName\<close> is too small.
\<close>

section \<open>Hexadecimal digits\<close>

lemma all_digits: "list_all (\<lambda>n. P (of_nat n)) [0..<16] \<Longrightarrow> n < 16 \<Longrightarrow> P (n :: u32)"
proof -
  assume a: "list_all (\<lambda>n. P (of_nat n)) [0..<16]" and "n < 16"
  then have "unat n < 16" by (simp add: word_less_nat_alt)
  then have "unat n \<in> set [0..<16]" by simp
  then have "P (of_nat (unat n))" using a unfolding list_all_iff by blast
  then show ?thesis by simp
qed

lemma hex_value_upper: "n < 16 \<Longrightarrow> hex_value (chr CHR ''A'') (ucast (GETHEXCHARU n)) = n"
  by (rule all_digits [of "\<lambda>n. hex_value (chr CHR ''A'') (ucast (GETHEXCHARU n)) = n"]) code_simp

lemma hex_value_lower: "n < 16 \<Longrightarrow> hex_value (chr CHR ''a'') (GETHEXCHAR n) = ucast n"
  by (rule all_digits [of "\<lambda>n. hex_value (chr CHR ''a'') (GETHEXCHAR n) = ucast n"]) code_simp

lemma hex_digit_low: "n < 8 \<Longrightarrow> GETHEXCHARU n \<noteq> chr CHR ''_'' \<and> GETHEXCHARU n \<noteq> chr CHR ''u''"
proof -
  assume "n < 8"
  moreover have "n < 8 \<longrightarrow> GETHEXCHARU n \<noteq> chr CHR ''_'' \<and> GETHEXCHARU n \<noteq> chr CHR ''u''"
    if "n < 16" by (rule all_digits [OF _ that]) code_simp
  moreover have "n < 16" using \<open>n < 8\<close> by (simp add: word_less_nat_alt)
  ultimately show ?thesis by simp
qed

definition hex_pair :: "byte \<Rightarrow> byte \<Rightarrow> u32" where
  "hex_pair h l = push_bit 4 (hex_value (chr CHR ''A'') (ucast h)) + hex_value (chr CHR ''A'') (ucast l)"

lemma escape_ascii:
  assumes c: "c \<le> 0x7F" "\<not> is_alnum c" "c \<notin> {chr CHR ''_'', chr CHR ''['', chr CHR ''.''}"
  obtains h l where "encode_ascii c = [chr CHR ''_'', h, l]" "h \<noteq> chr CHR ''_''" "h \<noteq> chr CHR ''u''" "hex_pair h l = ucast c"
proof -
  define n where "n = drop_bit 4 c"
  have u: "unat n = unat c div 16"
    using drop_bit_eq_div [of 4 "unat c"] unat_drop_bit_eq [of 4 c] by (simp add: n_def)
  then have n: "n < 8" using c(1) by (simp add: word_le_nat_alt word_less_nat_alt)
  then have n8: "(ucast n :: u32) < 8" "(ucast n :: u32) < 16"
    by (simp_all add: word_less_nat_alt unsigned_ucast_eq take_bit_nat_eq_self)
  have l: "c - push_bit 4 n = take_bit 4 c" using bits_ident [of 4 c] by (simp add: n_def algebra_simps)
  have "(ucast (take_bit 4 c) :: u32) = take_bit 4 (ucast c)" by (rule bit_word_eqI) (auto simp: bit_simps)
  moreover have "ucast n = drop_bit 4 (ucast c :: u32)"
    unfolding n_def by (rule bit_word_eqI) (auto simp: bit_simps dest: bit_imp_le_length)
  moreover have "take_bit 4 (ucast c :: u32) < 16"
    using and_mask_less' [of 4 "ucast c :: u32"] by (simp add: take_bit_eq_mask)
  ultimately have "hex_pair (GETHEXCHARU (ucast n)) (GETHEXCHARU (ucast (c - push_bit 4 n))) = ucast c"
    using hex_value_upper [OF n8(2)] hex_value_upper [of "take_bit 4 (ucast c)"] bits_ident [of 4 "ucast c :: u32"]
    by (simp add: hex_pair_def l hex_value_upper)
  then show ?thesis
    using that [of "GETHEXCHARU (ucast n)" "GETHEXCHARU (ucast (c - push_bit 4 n))"] c hex_digit_low [OF n8(1)]
    by (simp add: encode_ascii_def Let_def flip: n_def)
qed

section \<open>One character\<close>

definition enc_cp :: "u32 \<Rightarrow> byte list" where
  "enc_cp cp = (if cp \<le> 0x7F then encode_ascii (ucast cp)
     else [chr CHR ''_'', chr CHR ''u''] @ hex4 (ucast cp))"

lemma decode_plain:
  assumes "c \<noteq> chr CHR ''_''"
  shows "decode_from (pre @ c # R) (length pre) p s =
    (let p' = (if s < 2 then p else UpdatePrimType p s (ucast c))
     in map_option ((#) (if s < 2 then c else decode_ascii p' c)) (decode_from ((pre @ [c]) @ R) (length (pre @ [c])) p' s))"
  using assms by (subst decode_from.simps) (simp add: Let_def)

lemma decode_underscore:
  "decode_from (pre @ chr CHR ''_'' # chr CHR ''_'' # R) (length pre) p s =
    map_option ((#) (chr CHR ''_''))
      (decode_from ((pre @ [chr CHR ''_'', chr CHR ''_'']) @ R) (length (pre @ [chr CHR ''_'', chr CHR ''_''])) p s)"
  by (subst decode_from.simps) (simp add: Let_def nth_append)

lemma decode_escape:
  assumes "h \<noteq> chr CHR ''_''" "h \<noteq> chr CHR ''u''" "hex_pair h l = a"
  shows "decode_from (pre @ chr CHR ''_'' # h # l # R) (length pre) p s =
    (let s' = (if a = chr CHR ''|'' then s + 1 else s)
     in map_option ((#) (ucast a))
         (decode_from ((pre @ [chr CHR ''_'', h, l]) @ R) (length (pre @ [chr CHR ''_'', h, l])) (UpdatePrimType p s' a) s'))"
  using assms by (subst decode_from.simps) (simp add: Let_def nth_append hex_pair_def)

lemma decode_wide_at:
  assumes "i + 1 < length name" "name ! i = chr CHR ''_''" "name ! (i + 1) = chr CHR ''u''"
    and "rd name (i + 2) = Some a" "rd name (i + 3) = Some b" "rd name (i + 4) = Some c" "rd name (i + 5) = Some d"
    and "decode_unit a b c d = Some str"
  shows "decode_from name i p s = map_option ((@) str) (decode_from name (i + 6) p s)"
  using assms by (subst decode_from.simps) (simp add: Let_def, simp add: eval_nat_numeral)

lemma decode_wide:
  assumes "decode_unit a b c d = Some str"
  shows "decode_from (pre @ chr CHR ''_'' # chr CHR ''u'' # a # b # c # d # R) (length pre) p s =
    map_option ((@) str) (decode_from ((pre @ [chr CHR ''_'', chr CHR ''u'', a, b, c, d]) @ R)
      (length (pre @ [chr CHR ''_'', chr CHR ''u'', a, b, c, d])) p s)"
  using decode_wide_at [OF _ _ _ _ _ _ _ assms, of "length pre" "pre @ chr CHR ''_'' # chr CHR ''u'' # a # b # c # d # R" p s]
  by (simp add: nth_append rd_append) (simp add: eval_nat_numeral)

lemma hex4_bits:
  fixes u :: u16
  shows "bit (drop_bit 12 (u AND 0xF000)) n \<longleftrightarrow> n < 4 \<and> bit u (n + 12)"
    and "bit (drop_bit 8 (u AND 0x0F00)) n \<longleftrightarrow> n < 4 \<and> bit u (n + 8)"
    and "bit (drop_bit 4 (u AND 0x00F0)) n \<longleftrightarrow> n < 4 \<and> bit u (n + 4)"
    and "bit (u AND 0x000F) n \<longleftrightarrow> n < 4 \<and> bit u n"
proof -
  have m: "(0xF000 :: u16) = push_bit 12 (mask 4)" "(0x0F00 :: u16) = push_bit 8 (mask 4)"
    "(0x00F0 :: u16) = push_bit 4 (mask 4)" "(0x000F :: u16) = mask 4"
    by (simp_all add: mask_eq_exp_minus_1 push_bit_eq_mult)
  show "bit (drop_bit 12 (u AND 0xF000)) n \<longleftrightarrow> n < 4 \<and> bit u (n + 12)"
    "bit (drop_bit 8 (u AND 0x0F00)) n \<longleftrightarrow> n < 4 \<and> bit u (n + 8)"
    "bit (drop_bit 4 (u AND 0x00F0)) n \<longleftrightarrow> n < 4 \<and> bit u (n + 4)"
    "bit (u AND 0x000F) n \<longleftrightarrow> n < 4 \<and> bit u n"
    unfolding m by (auto simp: bit_simps add.commute dest: bit_imp_le_length)
qed

lemma hex4_digits:
  fixes u :: u16
  shows "(ucast (drop_bit 12 (u AND 0xF000)) :: u32) < 16" "(ucast (drop_bit 8 (u AND 0x0F00)) :: u32) < 16"
    "(ucast (drop_bit 4 (u AND 0x00F0)) :: u32) < 16" "(ucast (u AND 0x000F) :: u32) < 16"
proof -
  have small: "(ucast x :: u32) < 16" if "\<And>n. bit x n \<Longrightarrow> n < 4" for x :: u16
  proof -
    have "take_bit 4 (ucast x :: u32) = ucast x"
      using that by (intro bit_word_eqI) (auto simp: bit_simps)
    then show ?thesis using and_mask_less' [of 4 "ucast x :: u32"] by (simp add: take_bit_eq_mask)
  qed
  show "(ucast (drop_bit 12 (u AND 0xF000)) :: u32) < 16" "(ucast (drop_bit 8 (u AND 0x0F00)) :: u32) < 16"
    "(ucast (drop_bit 4 (u AND 0x00F0)) :: u32) < 16" "(ucast (u AND 0x000F) :: u32) < 16"
    by (rule small, simp only: hex4_bits)+
qed

lemma decode_hex4:
  assumes "0x80 \<le> u"
  shows "\<exists>a b c d. hex4 u = [a, b, c, d] \<and> decode_unit a b c d = Some (utf8_bytes (ucast u))"
proof -
  define a b c d where "a = drop_bit 12 (u AND 0xF000)" and "b = drop_bit 8 (u AND 0x0F00)"
    and "c = drop_bit 4 (u AND 0x00F0)" and "d = u AND 0x000F"
  note abcd = this
  note bits = hex4_bits [of u, folded abcd]
  note digits = hex4_digits [of u, folded abcd]
  have narrow: "ucast (ucast (ucast x :: u32) :: byte) = (ucast x :: u32)" if "(ucast x :: u32) < 16" for x :: u16
    using that by (intro byte_roundtrip) (simp add: word_less_nat_alt)
  have "ucast (push_bit 12 (ucast a :: u32) OR push_bit 8 (ucast b) OR push_bit 4 (ucast c) OR ucast d) = u"
  proof (rule bit_word_eqI)
    fix n
    assume "n < LENGTH(16)"
    then show "bit (ucast (push_bit 12 (ucast a :: u32) OR push_bit 8 (ucast b) OR push_bit 4 (ucast c) OR ucast d) :: u16) n = bit u n"
      by (cases "n < 4"; cases "n < 8"; cases "n < 12") (auto simp: bit_simps bits not_less)
  qed
  moreover have "hex4 u = [GETHEXCHAR (ucast a), GETHEXCHAR (ucast b), GETHEXCHAR (ucast c), GETHEXCHAR (ucast d)]"
    by (simp add: hex4_def abcd)
  moreover have "length (utf8_bytes (ucast u)) \<in> {2, 3}"
    using assms unit_le [of u] unsigned_less [of u, where 'a = nat]
    by (auto simp: utf8_bytes_def word_le_nat_alt unsigned_ucast_eq take_bit_nat_eq_self split: if_splits)
  then have "UTF16ToUTF8 [u] 1 False = Some (utf8_bytes (ucast u), push_bit 16 (of_nat (length (utf8_bytes (ucast u)))) OR 1)
      \<and> drop_bit 16 (push_bit 16 (of_nat (length (utf8_bytes (ucast u)))) OR 1 :: u32) \<in> {2, 3, 4}"
    using unit_le [of u] by (auto simp: UTF16ToUTF8_def Let_def)
  ultimately show ?thesis
    using hex_value_lower [OF digits(1)] hex_value_lower [OF digits(2)] hex_value_lower [OF digits(3)]
      hex_value_lower [OF digits(4)] digits [THEN narrow]
    by (auto simp: decode_unit_def Let_def)
qed

section \<open>Whole names\<close>

lemmas encode_eval = EncodeName_def encode_from.simps encode_ascii_def Let_def is_alnum_def GETHEXCHARU_def
  codec_buf_size_def kLocalCodebufSize_def kMaxCodecbufSize_def
lemmas decode_eval = DecodeName_def decode_from.simps Let_def hex_value_def UpdatePrimType_def

text \<open>
  The code points of a name that \<open>DecodeName\<close> can tell apart. A dot is encoded as a slash and
  stays one. An array bracket and the letter A are encoded alike, so a bracket may stand only where
  a type of the signature begins, and the letter only elsewhere.
\<close>

fun decodable :: "bool \<Rightarrow> nat \<Rightarrow> u32 list \<Rightarrow> bool" where
  "decodable primType splitNo [] = True"
| "decodable primType splitNo (cp # cps) =
     (cp \<le> 0xFFFF \<and> cp \<noteq> chr CHR ''.'' \<and>
      (if cp = chr CHR ''['' then 2 \<le> splitNo \<and> primType \<and> decodable primType splitNo cps
       else if cp = chr CHR ''_'' \<or> 0x7F < cp then decodable primType splitNo cps
       else if is_alnum (ucast cp)
       then let primType = (if splitNo < 2 then primType else UpdatePrimType primType splitNo cp)
            in \<not> (2 \<le> splitNo \<and> primType \<and> cp = chr CHR ''A'') \<and> decodable primType splitNo cps
       else let splitNo = (if cp = chr CHR ''|'' then splitNo + 1 else splitNo)
            in decodable (UpdatePrimType primType splitNo cp) splitNo cps))"

lemma decodable_le: "decodable p s cps \<Longrightarrow> cp \<in> set cps \<Longrightarrow> cp \<le> 0xFFFF"
  by (induction p s cps rule: decodable.induct) (auto simp: Let_def split: if_splits)

lemma ucast_byte [simp]: "ucast (ucast (b :: byte) :: u32) = b"
  by (rule bit_word_eqI) (auto simp: bit_simps)

lemma byte_le: "(b :: byte) \<le> 0x7F \<longleftrightarrow> (ucast b :: u32) \<le> 0x7F"
  using unsigned_less [of b, where 'a = nat]
  by (simp add: word_le_nat_alt unsigned_ucast_eq take_bit_nat_eq_self)

lemma encode_ascii_char:
  fixes cp :: u32
  assumes "cp \<le> 0x7F"
  shows "utf8_bytes cp = [ucast cp]" "ucast (ucast cp :: byte) = cp" "(ucast cp :: byte) \<le> 0x7F"
proof -
  show "utf8_bytes cp = [ucast cp]" using assms by (simp add: utf8_bytes_def)
  show "ucast (ucast cp :: byte) = cp" using assms by (intro byte_roundtrip) (simp add: word_le_nat_alt word_less_nat_alt)
  then show "(ucast cp :: byte) \<le> 0x7F" using assms by (simp add: byte_le)
qed

lemma append_single [simp]: "(@) [c] = (#) c"
  by (rule ext) simp

lemma decode_char:
  assumes "decodable p s (cp # cps)"
  shows "\<exists>p' s'. decodable p' s' cps \<and> decode_from (pre @ enc_cp cp @ R) (length pre) p s =
    map_option ((@) (utf8_bytes cp)) (decode_from ((pre @ enc_cp cp) @ R) (length (pre @ enc_cp cp)) p' s')"
proof (cases "cp \<le> 0x7F")
  case False
  define u where "u = (ucast cp :: u16)"
  have "unat cp < 65536" using assms by (simp add: word_le_nat_alt)
  then have v: "unat u = unat cp" by (simp add: u_def unsigned_ucast_eq take_bit_nat_eq_self)
  then have "unat (ucast u :: u32) = unat cp" using \<open>unat cp < 65536\<close> by (simp add: unsigned_ucast_eq take_bit_nat_eq_self)
  then have cp: "ucast u = cp" "0x80 \<le> u"
    using v False by (simp_all add: word_unat_eq_iff word_le_nat_alt)
  obtain a b c d where "hex4 u = [a, b, c, d]" "decode_unit a b c d = Some (utf8_bytes cp)"
    using decode_hex4 [OF cp(2)] cp(1) by auto
  moreover have "decodable p s cps" using assms False by (auto split: if_splits)
  ultimately show ?thesis using decode_wide [of a b c d "utf8_bytes cp" pre R p s] False
    by (auto simp: enc_cp_def u_def)
next
  case True
  note char = encode_ascii_char [OF True]
  have e: "(ucast cp :: byte) = k \<longleftrightarrow> cp = ucast k" for k using char(2) by auto
  consider "cp = chr CHR ''_''" | "cp = chr CHR ''[''" | "is_alnum (ucast cp)" | "\<not> is_alnum (ucast cp)" "cp \<notin> {chr CHR ''_'', chr CHR ''[''}"
    by auto
  then show ?thesis
  proof cases
    case 1
    then have "decodable p s cps" "enc_cp cp = [chr CHR ''_'', chr CHR ''_'']" using assms by (simp_all add: enc_cp_def encode_ascii_def)
    then show ?thesis using 1 char decode_underscore [of pre R p s] by auto
  next
    case 2
    then have "enc_cp cp = [chr CHR ''A'']" by (simp add: enc_cp_def encode_ascii_def)
    moreover have "decodable p s cps" "2 \<le> s" p using 2 assms by auto
    ultimately show ?thesis using 2 char decode_plain [of "chr CHR ''A''" pre R p s]
      by (auto simp: UpdatePrimType_def decode_ascii_def)
  next
    case 3
    let ?p = "if s < 2 then p else UpdatePrimType p s cp"
    have ne: "(ucast cp :: byte) \<noteq> chr CHR ''_''" "(ucast cp :: byte) \<noteq> chr CHR ''[''" using 3 by (auto simp: is_alnum_def)
    then have "enc_cp cp = [ucast cp]" using 3 True by (simp add: enc_cp_def encode_ascii_def)
    moreover have "decodable ?p s cps" "\<not> (2 \<le> s \<and> ?p \<and> cp = chr CHR ''A'')"
      using assms 3 ne e True by (auto simp: Let_def split: if_splits)
    ultimately show ?thesis using char e decode_plain [OF ne(1), of pre R p s]
      by (intro exI [of _ ?p] exI [of _ s]) (auto simp: decode_ascii_def Let_def)
  next
    case 4
    let ?s = "if cp = chr CHR ''|'' then s + 1 else s"
    have d: "decodable (UpdatePrimType p ?s cp) ?s cps" "cp \<noteq> chr CHR ''.''" using assms 4 True by (auto simp: Let_def not_less [symmetric])
    obtain h l where "encode_ascii (ucast cp) = [chr CHR ''_'', h, l]" "h \<noteq> chr CHR ''_''" "h \<noteq> chr CHR ''u''" "hex_pair h l = cp"
      using escape_ascii [OF char(3) 4(1)] 4(2) d(2) e char(2) by auto
    then show ?thesis using d(1) True char decode_escape [of h l cp pre R p s]
      by (intro exI [of _ "UpdatePrimType p ?s cp"] exI [of _ ?s]) (simp add: enc_cp_def Let_def)
  qed
qed

lemma decode_name:
  "decodable p s cps \<Longrightarrow>
    decode_from (pre @ concat (map enc_cp cps)) (length pre) p s = Some (concat (map utf8_bytes cps))"
proof (induction cps arbitrary: pre p s)
  case Nil
  then show ?case by (subst decode_from.simps) simp
next
  case (Cons cp cps)
  obtain p' s' where "decodable p' s' cps"
    "decode_from (pre @ enc_cp cp @ concat (map enc_cp cps)) (length pre) p s = map_option ((@) (utf8_bytes cp))
       (decode_from ((pre @ enc_cp cp) @ concat (map enc_cp cps)) (length (pre @ enc_cp cp)) p' s')"
    using decode_char [OF Cons.prems] by blast
  then show ?case using Cons.IH [of p' s' "pre @ enc_cp cp"] by simp
qed

lemma encode_wide_char:
  assumes "cp \<le> 0xFFFF" and "\<not> cp \<le> 0x7F"
  shows "encode_wide (pre @ utf8_bytes cp @ R) (length pre) = Some (enc_cp cp, length (utf8_bytes cp))"
proof -
  have l: "length (utf8_bytes cp) \<in> {2, 3}" using assms by (simp add: utf8_bytes_def)
  have "UTF8ToUTF16 (utf8_bytes cp @ R) 1 False
      = Some ([ucast cp], push_bit 16 1 OR ucast (of_nat (length (utf8_bytes cp)) :: u16))"
    using GetCodePoint_utf8 [OF assms(1), of R] assms(1)
    by (subst UTF8ToUTF16_def, subst utf8_loop.simps) (simp add: utf16_units_def Let_def)
  then show ?thesis using l assms(2) by (auto simp: encode_wide_def enc_cp_def)
qed

lemma first_byte: "cp \<le> 0xFFFF \<Longrightarrow> hd (utf8_bytes cp) \<le> 0x7F \<longleftrightarrow> cp \<le> 0x7F"
proof (cases "cp \<le> 0x7F")
  case False
  assume cp: "cp \<le> 0xFFFF"
  have "unat (drop_bit 6 cp) = unat cp div 64"
    using drop_bit_eq_div [of 6 "unat cp"] unat_drop_bit_eq [of 6 cp] by simp
  moreover have "drop_bit 12 cp AND 0xF < 0x10"
    using and_mask_less' [of 4 "drop_bit 12 cp"] by (simp add: mask_eq_exp_minus_1)
  ultimately show ?thesis
    using False cp lead_byte(1,9) [of "drop_bit 6 cp"] lead_byte(3,12) [of "drop_bit 12 cp AND 0xF"]
    by (auto simp: utf8_bytes_def byte_le word_le_nat_alt [of cp "0x7FF"] word_less_nat_alt [of "drop_bit 6 cp"])
qed (simp add: encode_ascii_char)

lemma encode_name:
  "\<forall>cp \<in> set cps. cp \<le> 0xFFFF \<Longrightarrow>
    encode_from (pre @ concat (map utf8_bytes cps)) (length (pre @ concat (map utf8_bytes cps))) (length pre)
      = Some (concat (map enc_cp cps))"
proof (induction cps arbitrary: pre)
  case Nil
  then show ?case by (subst encode_from.simps) simp
next
  case (Cons cp cps)
  let ?R = "concat (map utf8_bytes cps)"
  have n: "(pre @ utf8_bytes cp @ ?R) ! length pre = hd (utf8_bytes cp)"
    by (simp add: nth_append hd_conv_nth)
  have IH: "encode_from ((pre @ utf8_bytes cp) @ ?R) (length (pre @ utf8_bytes cp @ ?R)) (length pre + length (utf8_bytes cp))
      = Some (concat (map enc_cp cps))" using Cons.IH [of "pre @ utf8_bytes cp"] Cons.prems by simp
  have l: "length pre < length (pre @ utf8_bytes cp @ ?R)" "0 < length (utf8_bytes cp)" using length_utf8_bytes(2) by auto
  show ?case
  proof (cases "cp \<le> 0x7F")
    case True
    then show ?thesis using n l IH first_byte [of cp] encode_ascii_char [OF True] Cons.prems
      by (subst encode_from.simps) (simp add: Let_def enc_cp_def)
  next
    case False
    then show ?thesis using n l IH first_byte [of cp] encode_wide_char [of cp pre ?R] Cons.prems
      by (subst encode_from.simps) (simp add: Let_def)
  qed
qed

lemma hex_chars: "n < 16 \<Longrightarrow> is_alnum (GETHEXCHAR n)" "n < 16 \<Longrightarrow> is_alnum (GETHEXCHARU n)"
proof -
  show "n < 16 \<Longrightarrow> is_alnum (GETHEXCHAR n)" by (rule all_digits [of "\<lambda>n. is_alnum (GETHEXCHAR n)"]) code_simp
  show "n < 16 \<Longrightarrow> is_alnum (GETHEXCHARU n)" by (rule all_digits [of "\<lambda>n. is_alnum (GETHEXCHARU n)"]) code_simp
qed

lemma is_alnum_letters: "is_alnum 65" "is_alnum 117"
  by (simp_all add: is_alnum_def)

lemma low_nibble: "c - push_bit 4 (drop_bit 4 c) = take_bit 4 (c :: byte)"
  using bits_ident [of 4 c] by (simp add: algebra_simps)

lemma nibbles: "(ucast (drop_bit 4 (c :: byte)) :: u32) < 16" "(ucast (take_bit 4 (c :: byte)) :: u32) < 16"
proof -
  have "unat (drop_bit 4 c) = unat c div 16"
    using drop_bit_eq_div [of 4 "unat c"] unat_drop_bit_eq [of 4 c] by simp
  moreover have "unat (take_bit 4 c) = unat c mod 16"
    using take_bit_eq_mod [of 4 "unat c"] unsigned_take_bit_eq [of 4 c, where 'a = nat] by simp
  ultimately have "unat (drop_bit 4 c) < 16" "unat (take_bit 4 c) < 16" using unsigned_less [of c, where 'a = nat] by auto
  then show "(ucast (drop_bit 4 c) :: u32) < 16" "(ucast (take_bit 4 c) :: u32) < 16"
    unfolding word_less_nat_alt by (simp_all add: unsigned_ucast_eq take_bit_nat_eq_self)
qed

lemma encode_ascii_chars: "set (encode_ascii c) \<subseteq> {chr CHR ''_''} \<union> Collect is_alnum"
  using hex_chars(2) [OF nibbles(1)] hex_chars(2) [OF nibbles(2)]
  by (auto simp: encode_ascii_def Let_def low_nibble is_alnum_letters)

lemma enc_cp_chars: "set (enc_cp cp) \<subseteq> {chr CHR ''_''} \<union> Collect is_alnum"
  using encode_ascii_chars [of "ucast cp"] hex4_digits [of "ucast cp", THEN hex_chars(1)]
  by (auto simp: enc_cp_def hex4_def is_alnum_letters)

lemma enc_cp_length: "cp \<le> 0xFFFF \<Longrightarrow> length (enc_cp cp) \<le> 3 * length (utf8_bytes cp)"
  by (simp add: enc_cp_def encode_ascii_def utf8_bytes_def hex4_def Let_def)

lemma enc_name_length:
  "\<forall>cp \<in> set cps. cp \<le> 0xFFFF \<Longrightarrow>
    length (concat (map enc_cp cps)) \<le> 3 * length (concat (map utf8_bytes cps)) \<and>
    (length (concat (map enc_cp cps)) = 3 * length (concat (map utf8_bytes cps)) \<longleftrightarrow>
      (\<forall>cp \<in> set cps. length (enc_cp cp) = 3 * length (utf8_bytes cp)))"
proof (induction cps)
  case (Cons cp cps)
  then show ?case using enc_cp_length [of cp] by simp arith
qed simp

text \<open>
  C8. \<open>DecodeName\<close> gives back every name that \<open>EncodeName\<close> writes within its buffer, if it has at
  most 65536 bytes, is the UTF-8 form of code points below 0x10000, holds no dot, and holds array
  brackets only where a type of the signature begins.
\<close>

theorem DecodeName_EncodeName:
  assumes "decodable True 0 cps"
    and "length (concat (map utf8_bytes cps)) \<le> kMaxCodecbufSize"
    and "EncodeName False (concat (map utf8_bytes cps)) = Some m"
  shows "DecodeName False m = Some (concat (map utf8_bytes cps))"
proof (cases "cps = []")
  case True
  then show ?thesis using assms(3)
    by (auto simp: EncodeName_def DecodeName_def decode_from.simps)
next
  case False
  let ?name = "concat (map utf8_bytes cps)"
  have "encode_from ?name (length ?name) 0 = Some (concat (map enc_cp cps))"
    using encode_name [of cps "[]"] decodable_le [OF assms(1)] by simp
  then have m: "m = concat (map enc_cp cps)"
    using False assms(2,3) by (auto simp: EncodeName_def Let_def min_absorb1 split: if_splits)
  have "chr CHR '';'' \<notin> set m"
    using enc_cp_chars unfolding m by (fastforce simp: is_alnum_def)
  then show ?thesis using decode_name [OF assms(1), of "[]"] m by (simp add: DecodeName_def)
qed

definition sample_name :: "u32 list" where
  "sample_name = map (\<lambda>c. of_nat (of_char c)) ''Lp/A;|f_1|([LA;)''"

theorem DecodeName_EncodeName_witness:
  "decodable True 0 sample_name \<and> length (concat (map utf8_bytes sample_name)) \<le> kMaxCodecbufSize
    \<and> (\<exists>m. EncodeName False (concat (map utf8_bytes sample_name)) = Some m
        \<and> DecodeName False m = Some (concat (map utf8_bytes sample_name)))"
proof -
  have "decodable True 0 sample_name" "length (concat (map utf8_bytes sample_name)) \<le> kMaxCodecbufSize"
    by (simp_all add: sample_name_def utf8_bytes_def kMaxCodecbufSize_def is_alnum_def UpdatePrimType_def Let_def)
  moreover have "EncodeName False (concat (map utf8_bytes sample_name)) \<noteq> None"
    by (simp add: sample_name_def utf8_bytes_def encode_eval)
  ultimately show ?thesis using DecodeName_EncodeName [of sample_name] by blast
qed

text \<open>
  C35. The buffer of \<open>EncodeName\<close> has three bytes for each byte of the name and none for the
  terminating zero: a name of up to 1024 bytes overflows it exactly when each of its characters
  takes three bytes for one, and a longer one never does unless it has 65536 bytes.
\<close>

theorem EncodeName_overflow:
  assumes "\<forall>cp \<in> set cps. cp \<le> 0xFFFF" and "cps \<noteq> []"
    and "length (concat (map utf8_bytes cps)) \<le> kMaxCodecbufSize"
  shows "EncodeName c (concat (map utf8_bytes cps)) = None \<longleftrightarrow>
    (length (concat (map utf8_bytes cps)) \<le> kLocalCodebufSize \<or> length (concat (map utf8_bytes cps)) = kMaxCodecbufSize)
    \<and> (\<forall>cp \<in> set cps. length (enc_cp cp) = 3 * length (utf8_bytes cp))"
proof -
  let ?name = "concat (map utf8_bytes cps)"
  have "?name \<noteq> []" using assms(2) by (cases cps) auto
  moreover have "encode_from ?name (length ?name) 0 = Some (concat (map enc_cp cps))"
    using encode_name [of cps "[]"] assms(1) by simp
  ultimately have "EncodeName c ?name = None \<longleftrightarrow> codec_buf_size (length ?name) \<le> length (concat (map enc_cp cps))"
    using assms(3) by (auto simp: EncodeName_def Let_def min_absorb1)
  then show ?thesis using enc_name_length [OF assms(1)] assms(3)
    by (auto simp: codec_buf_size_def kLocalCodebufSize_def kMaxCodecbufSize_def)
qed

definition slashes :: "u32 list" where
  "slashes = [chr CHR ''/'', chr CHR ''.'', chr CHR ''/'']"

theorem EncodeName_overflow_witness:
  "length (concat (map utf8_bytes slashes)) = 3 \<and> EncodeName False (concat (map utf8_bytes slashes)) = None"
proof -
  have s: "\<forall>cp \<in> set slashes. cp \<le> 0xFFFF" "slashes \<noteq> []" "length (concat (map utf8_bytes slashes)) \<le> kMaxCodecbufSize"
    "length (concat (map utf8_bytes slashes)) \<le> kLocalCodebufSize"
    "\<forall>cp \<in> set slashes. length (enc_cp cp) = 3 * length (utf8_bytes cp)"
    by (simp_all add: slashes_def utf8_bytes_def enc_cp_def encode_ascii_def is_alnum_def Let_def
        kMaxCodecbufSize_def kLocalCodebufSize_def)
  moreover have "length (concat (map utf8_bytes slashes)) = 3" by (simp add: slashes_def utf8_bytes_def)
  ultimately show ?thesis using EncodeName_overflow [OF s(1-3), of False] by blast
qed

section \<open>What is not inverted\<close>

text \<open>
  A character beyond the basic plane is encoded as \<open>_U\<close> and the two halves of its surrogate
  pair; \<open>DecodeName\<close> has no such case: U+1F600 followed by a letter comes back as a carriage
  return and plain letters.
\<close>

theorem supplementary_not_decoded:
  "EncodeName False [0xF0, 0x9F, 0x98, 0x80, 0x61] = Some (bytes_of_string ''_Ud83dde00a'') \<and>
   DecodeName False (bytes_of_string ''_Ud83dde00a'') = Some (0xD # bytes_of_string ''83dde00a'')"
proof
  show "EncodeName False [0xF0, 0x9F, 0x98, 0x80, 0x61] = Some (bytes_of_string ''_Ud83dde00a'')"
    by (simp add: encode_eval bytes_of_string_def GETHEXCHAR_def encode_wide_def UTF8ToUTF16_def
        utf8_loop.simps GetCodePoint_def rd_def utf16_units_def hex4_def)
  show "DecodeName False (bytes_of_string ''_Ud83dde00a'') = Some (0xD # bytes_of_string ''83dde00a'')"
    by (simp add: decode_eval bytes_of_string_def)
qed

text \<open>
  Nor does \<open>UTF16ToUTF8\<close> join a surrogate pair: it tests a 16-bit unit against 0xFFFF, so that
  U+1F600 comes out as two three-byte sequences and not as its four bytes.
\<close>

theorem surrogates_not_joined:
  "UTF8ToUTF16 [0xF0, 0x9F, 0x98, 0x80] 0 True = Some ([0xD83D, 0xDE00], 4) \<and>
   UTF16ToUTF8 [0xD83D, 0xDE00] 0 True = Some ([0xED, 0xA0, 0xBD, 0xED, 0xB8, 0x80], 2)"
  by (simp add: UTF8ToUTF16_def utf8_loop.simps GetCodePoint_def rd_def utf16_units_def UTF16ToUTF8_def
      utf8_bytes_def Let_def)

text \<open>
  With compression on, the class L0 and \<open>java.lang.Object\<close> have the same symbol.
\<close>

theorem compression_collides:
  "EncodeName True (bytes_of_string ''Ljava/lang/Object;'') = EncodeName True (bytes_of_string ''L0;'')
    \<and> EncodeName True (bytes_of_string ''L0;'') \<noteq> None"
  by (simp add: encode_eval bytes_of_string_def CompressName_def kInternalMangleTable_def is_prefix_def)

section \<open>Names of native methods\<close>

lemma skip_arrays_stop: "0 < n \<Longrightarrow> rd name i = Some c \<Longrightarrow> c \<noteq> chr CHR ''A'' \<Longrightarrow> skip_arrays name i n = Some i"
  by (cases n) simp_all

lemma rd_nil: "rd [] k = (if k = 0 then Some 0 else None)"
  by (simp add: rd_def)

lemmas native_eval = bytes_of_string_def Let_def NativeJavaName_def skip_arrays_stop [where c = "chr CHR ''L''"]
  native_from.simps native_hex_def native_escape_def kJavaStrLength_def rd_nil

text \<open>
  \<open>NativeJavaName\<close> counts five characters more than the name has: it gives the native name of a
  method, whose closing parenthesis ends the scan, but on the name of a class it reads behind the
  terminating zero.
\<close>

theorem NativeJavaName_overruns:
  "NativeJavaName False (bytes_of_string ''La_2Fb_3B_7Cf__g_7C_28I_29V'') True
      = Some (bytes_of_string ''Java_a_b_f_1g__I'')
    \<and> NativeJavaName False (bytes_of_string ''La_2Fb_3B'') True = None"
  by (simp add: native_eval)

end
