(* ===== verification/LebCodec.thy ===== *)
theory LebCodec
  imports Prelude
begin

text \<open>
  The LEB128 encodings of maple_util/src/namemangler.cpp. A pointer into the encoded bytes is the
  list of the bytes from there on; reading past the end, and a shift by the width or more, is
  \<open>None\<close>. \<open>stream_codec\<close> is the interface of an encoding whose values can be read off a byte
  stream one after the other; the unsigned 32-bit encoding provides it.
\<close>

section \<open>The interface\<close>

primrec dec_many :: "(byte list \<Rightarrow> ('a \<times> byte list) option) \<Rightarrow> nat \<Rightarrow> byte list \<Rightarrow> ('a list \<times> byte list) option" where
  "dec_many dec 0 bs = Some ([], bs)"
| "dec_many dec (Suc n) bs = do {
     (x, bs) \<leftarrow> dec bs;
     (xs, bs) \<leftarrow> dec_many dec n bs;
     Some (x # xs, bs) }"

locale stream_codec =
  fixes enc :: "'a \<Rightarrow> byte list"
    and dec :: "byte list \<Rightarrow> ('a \<times> byte list) option"
  assumes dec_enc: "dec (enc x @ rest) = Some (x, rest)"
begin

lemma enc_prefix_free: "enc x @ r = enc y @ s \<Longrightarrow> x = y \<and> r = s"
  by (metis dec_enc option.inject prod.inject)

lemma enc_inject: "enc x = enc y \<longleftrightarrow> x = y"
  by (metis enc_prefix_free)

lemma dec_many_concat: "dec_many dec (length xs) (concat (map enc xs) @ rest) = Some (xs, rest)"
proof (induction xs)
  case (Cons x xs)
  show ?case using dec_enc [of x "concat (map enc xs) @ rest"] Cons.IH by simp
qed simp

lemma concat_inject: "length xs = length ys \<Longrightarrow> concat (map enc xs) = concat (map enc ys) \<longleftrightarrow> xs = ys"
  by (metis dec_many_concat option.inject prod.inject)

end

section \<open>Unsigned 32-bit values\<close>

definition kGreybackOffset :: nat where "kGreybackOffset = 7"

function GetUnsignedLeb128Encode :: "u32 \<Rightarrow> byte list" where
  "GetUnsignedLeb128Encode value =
     (let byte = ucast (value AND 0x7f) :: byte; value' = drop_bit kGreybackOffset value
      in if value' = 0 then [byte] else (byte OR 0x80) # GetUnsignedLeb128Encode value')"
  by pat_completeness auto

lemma unat_drop_bit_less: "drop_bit n (v :: 'a::len word) \<noteq> 0 \<Longrightarrow> 0 < n \<Longrightarrow> unat (drop_bit n v) < unat v"
proof -
  assume nz: "drop_bit n v \<noteq> 0" and n: "0 < n"
  then have "0 < unat (drop_bit n v)" by (simp add: unat_gt_0)
  moreover have "unat (drop_bit n v) = unat v div 2 ^ n" by (metis drop_bit_eq_div unat_drop_bit_eq)
  moreover have "1 < (2::nat) ^ n" using n by (intro one_less_power) simp_all
  ultimately show ?thesis by (metis div_less_dividend div_0 gr0I)
qed

termination GetUnsignedLeb128Encode
  by (relation "measure unat") (auto simp: kGreybackOffset_def intro: unat_drop_bit_less)

declare GetUnsignedLeb128Encode.simps [simp del]

fun leb_decode :: "nat \<Rightarrow> u32 \<Rightarrow> byte list \<Rightarrow> (u32 \<times> byte list) option" where
  "leb_decode shift result [] = None"
| "leb_decode shift result (byte # ptr) =
     (if shift \<ge> 32 then None
      else let result = result OR push_bit shift (ucast (byte AND 0x7f))
           in if byte AND 0x80 = 0 then Some (result, ptr)
              else leb_decode (shift + kGreybackOffset) result ptr)"

definition GetUnsignedLeb128Decode :: "byte list \<Rightarrow> (u32 \<times> byte list) option" where
  "GetUnsignedLeb128Decode data = leb_decode 0 0 data"

section \<open>Values packed into 64 bits\<close>

function leb_pack :: "bool \<Rightarrow> i64 \<Rightarrow> nat \<Rightarrow> u64 \<Rightarrow> u64 option" where
  "leb_pack isUnsigned val count res =
     (if count \<ge> 8 then None
      else let byte = ucast (val AND 0x7f) :: byte;
               val' = signed_drop_bit kGreybackOffset val;
               done = (if isUnsigned then val' = 0 else val' = 0 \<or> val' = - 1);
               res' = res OR push_bit (8 * count) (ucast (if done then byte else byte OR 0x80))
           in if done then Some res' else leb_pack isUnsigned val' (count + 1) res')"
  by pat_completeness auto

termination leb_pack
  by (relation "measure (\<lambda>(isUnsigned, val, count, res). 8 - count)") auto

declare leb_pack.simps [simp del]

definition GetLEB128Encode :: "i64 \<Rightarrow> bool \<Rightarrow> u64 option" where
  "GetLEB128Encode val isUnsigned = leb_pack isUnsigned val 0 0"

definition GetUleb128Encode :: "u64 \<Rightarrow> u64 option" where
  "GetUleb128Encode val = GetLEB128Encode val True"

definition GetSleb128Encode :: "i64 \<Rightarrow> u64 option" where
  "GetSleb128Encode val = GetLEB128Encode val False"

definition GetUleb128Decode :: "u64 \<Rightarrow> u64" where
  "GetUleb128Decode val = val"

definition GetSleb128Decode :: "u64 \<Rightarrow> i64" where
  "GetSleb128Decode val = val"

section \<open>Sizes\<close>

text \<open>\<open>__builtin_clzll\<close>, undefined at zero.\<close>

definition clz64 :: "u64 \<Rightarrow> nat" where
  "clz64 v = length (takeWhile Not (map (bit v) (rev [0..<64])))"

definition GetUleb128Size :: "u64 \<Rightarrow> nat option" where
  "GetUleb128Size v = (if v = 0 then None else Some ((64 - clz64 v + 6) div 7))"

text \<open>The shifts keep the sign, so that \<open>end\<close> is the same in every round of the loop.\<close>

function GetSleb128Size :: "i32 \<Rightarrow> nat" where
  "GetSleb128Size v =
     (let rem = signed_drop_bit kGreybackOffset v;
          end = (if 0 \<le>s v then 0 else - 1);
          hasMore = (rem \<noteq> end \<or> rem AND 1 \<noteq> signed_drop_bit 6 v AND 1)
      in if hasMore then 1 + GetSleb128Size rem else 1)"
  by pat_completeness auto

lemma sint_drop7: "sint (signed_drop_bit 7 (v :: i32)) = sint v div 128"
  by (simp add: sint_signed_drop_bit_eq drop_bit_eq_div)

termination GetSleb128Size
proof (relation "measure (\<lambda>v. nat (if 0 \<le> sint v then sint v else - 1 - sint v))", goal_cases)
  case (2 v rem e more)
  have rem: "sint rem = sint v div 128" using 2(1) sint_drop7 by (simp add: kGreybackOffset_def)
  have "v \<noteq> 0" "v \<noteq> - 1" using 2 by (auto simp: kGreybackOffset_def word_sle_eq)
  then have "sint v \<noteq> 0" "sint v \<noteq> - 1" by (metis signed_word_eqI signed_0 signed_minus_1)+
  then have "sint v < - 1 \<or> 0 < sint v" by linarith
  then show ?case using rem by (auto simp: div_less_dividend)
qed simp

declare GetSleb128Size.simps [simp del]

end
