(* ===== verification/LebSound.thy ===== *)
theory LebSound
  imports LebCodec
begin

text \<open>
  The LEB128 round trip as an interpretation of \<open>stream_codec\<close>, the sizes, and how the encoding
  packed into 64 bits relates to the byte list.
\<close>

section \<open>The unsigned encoding is a stream codec\<close>

lemma bit_0x80 [simp]: "bit (0x80 :: int) n \<longleftrightarrow> n = 7"
proof -
  have "bit (2 ^ 7 :: int) n \<longleftrightarrow> n = 7" by (simp only: bit_exp_iff) auto
  then show ?thesis by simp
qed

lemma mask_7: "(0x7f :: 'a::len word) = mask 7"
  by (simp add: mask_eq_exp_minus_1)

lemma leb_payload:
  fixes v :: u32
  shows "ucast ((ucast (v AND 0x7f) OR 0x80 :: byte) AND 0x7f) = take_bit 7 v"
    and "ucast (ucast (v AND 0x7f) AND 0x7f :: byte) = take_bit 7 v"
    and "(ucast (v AND 0x7f) :: byte) AND 0x80 = 0"
    and "((ucast (v AND 0x7f) :: byte) OR 0x80) AND 0x80 \<noteq> 0"
proof -
  show "ucast ((ucast (v AND 0x7f) OR 0x80 :: byte) AND 0x7f) = take_bit 7 v"
    unfolding mask_7 by (rule bit_word_eqI) (auto simp: bit_simps)
  show "ucast (ucast (v AND 0x7f) AND 0x7f :: byte) = take_bit 7 v"
    unfolding mask_7 by (rule bit_word_eqI) (auto simp: bit_simps)
  show "(ucast (v AND 0x7f) :: byte) AND 0x80 = 0"
    unfolding mask_7 by (rule bit_word_eqI) (auto simp: bit_simps)
  have "bit (((ucast (v AND 0x7f :: u32) :: byte) OR 0x80) AND 0x80) 7"
    by (simp add: bit_simps)
  then show "((ucast (v AND 0x7f) :: byte) OR 0x80) AND 0x80 \<noteq> 0" by auto
qed

lemma unat_drop7: "unat (drop_bit 7 (v :: 'a::len word)) = unat v div 128"
  using drop_bit_eq_div [of 7 "unat v"] unat_drop_bit_eq [of 7 v] by simp

lemma drop7_0: "drop_bit 7 (v :: 'a::len word) = 0 \<longleftrightarrow> unat v < 128"
  using unat_drop7 [of v] by (metis div_eq_0_iff unat_eq_zero zero_neq_numeral)

lemma leb_decode_encode:
  "\<lbrakk>shift < 32; unat v < 2 ^ (32 - shift)\<rbrakk>
    \<Longrightarrow> leb_decode shift result (GetUnsignedLeb128Encode v @ rest) = Some (result OR push_bit shift v, rest)"
proof (induction v arbitrary: shift result rule: GetUnsignedLeb128Encode.induct)
  case (1 v)
  show ?case
  proof (cases "drop_bit 7 v = 0")
    case True
    then show ?thesis
      using push_take_or_drop [of shift 7 v] leb_payload [of v] \<open>shift < 32\<close>
      by (subst GetUnsignedLeb128Encode.simps) (simp add: kGreybackOffset_def Let_def)
  next
    case False
    then have v: "128 \<le> unat v" by (simp add: drop7_0)
    have s: "shift + 7 < 32"
    proof (rule ccontr)
      assume "\<not> shift + 7 < 32"
      then have "(2::nat) ^ (32 - shift) \<le> 2 ^ 7" by (intro power_increasing) auto
      then show False using v 1(3) by simp
    qed
    have "32 - shift = 7 + (32 - (shift + 7))" using s by simp
    then have "(2::nat) ^ (32 - shift) = 128 * 2 ^ (32 - (shift + 7))" by (simp only: power_add) simp
    then have u: "unat (drop_bit 7 v) < 2 ^ (32 - (shift + 7))"
      using 1(3) unat_drop7 [of v] by (simp add: less_mult_imp_div_less mult.commute)
    show ?thesis
      using False s push_take_or_drop [of shift 7 v] leb_payload [of v] 1(1) [OF refl refl, of "shift + 7"] u
      by (subst GetUnsignedLeb128Encode.simps) (simp add: kGreybackOffset_def Let_def or.assoc)
  qed
qed

interpretation leb: stream_codec GetUnsignedLeb128Encode GetUnsignedLeb128Decode
proof unfold_locales
  show "GetUnsignedLeb128Decode (GetUnsignedLeb128Encode x @ rest) = Some (x, rest)" for x rest
    using leb_decode_encode [of 0 x 0 rest] unsigned_less [of x] by (simp add: GetUnsignedLeb128Decode_def)
qed

section \<open>How long an encoding is\<close>

lemma leb_nonempty [simp]: "GetUnsignedLeb128Encode v \<noteq> []"
  by (subst GetUnsignedLeb128Encode.simps) (simp add: Let_def)

lemma length_leb: "length (GetUnsignedLeb128Encode v) \<le> Suc k \<longleftrightarrow> unat v < 128 ^ Suc k"
proof (induction k arbitrary: v)
  case 0
  show ?case using drop7_0 [of v]
    by (subst GetUnsignedLeb128Encode.simps) (auto simp: Let_def kGreybackOffset_def not_less_eq_eq)
next
  case (Suc k)
  show ?case
  proof (cases "drop_bit 7 v = 0")
    case True
    then have "unat v < 128" by (simp add: drop7_0)
    moreover have "(128::nat) \<le> 128 ^ Suc (Suc k)" using power_increasing [of 1 "Suc (Suc k)" "128::nat"] by simp
    ultimately have "unat v < 128 ^ Suc (Suc k)" by (rule order.strict_trans2)
    then show ?thesis using True
      by (subst GetUnsignedLeb128Encode.simps) (simp add: Let_def kGreybackOffset_def)
  next
    case False
    have "unat v div 128 < 128 ^ Suc k \<longleftrightarrow> unat v < 128 ^ Suc (Suc k)"
      by (simp add: div_less_iff_less_mult mult.commute)
    then show ?thesis using False Suc [of "drop_bit 7 v"] unat_drop7 [of v]
      by (subst GetUnsignedLeb128Encode.simps) (simp add: Let_def kGreybackOffset_def)
  qed
qed

lemma takeWhile_not_bits:
  "length (takeWhile Not (map (bit v) (rev [0..<n]))) + Suc m = n \<Longrightarrow> bit v m"
proof (induction n)
  case (Suc n)
  then show ?case by (auto split: if_splits)
qed simp

lemma high_bits_clear:
  "n - length (takeWhile Not (map (bit v) (rev [0..<n]))) \<le> m \<Longrightarrow> m < n \<Longrightarrow> \<not> bit v m"
proof (induction n)
  case (Suc n)
  then show ?case by (auto simp: less_Suc_eq split: if_splits)
qed simp

lemma clz64_le: "clz64 v \<le> 64"
  using length_takeWhile_le [of Not "map (bit v) (rev [0..<64])"] by (simp add: clz64_def)

lemma clz64_bound: "unat v < 2 ^ n \<longleftrightarrow> 64 - clz64 v \<le> n" if "v \<noteq> 0"
proof
  assume "64 - clz64 v \<le> n"
  then have "\<not> bit v m" if "n \<le> m" for m
    using that high_bits_clear [of 64 v m] bit_imp_le_length [of v m] by (force simp: clz64_def)
  then have "take_bit n v = v" by (intro bit_word_eqI) (metis bit_take_bit_iff not_less)
  then show "unat v < 2 ^ n" by (metis take_bit_nat_less_exp unsigned_take_bit_eq)
next
  assume l: "unat v < 2 ^ n"
  show "64 - clz64 v \<le> n"
  proof (rule ccontr)
    assume "\<not> 64 - clz64 v \<le> n"
    moreover define m where "m = 64 - clz64 v - 1"
    ultimately have m: "n \<le> m" "clz64 v + Suc m = 64" using clz64_le [of v] by auto
    then have "bit (unat v) m" using takeWhile_not_bits [of v 64 m] by (simp add: clz64_def bit_unsigned_iff)
    then have "2 ^ m \<le> unat v" by (simp add: bit_iff_odd) (metis div_less even_zero not_less)
    then show False using l m(1) by (meson leD le_less_trans not_less power_increasing one_le_numeral order.trans)
  qed
qed

lemma bits_groups: "(n + 6) div 7 \<le> k \<longleftrightarrow> n \<le> 7 * k" for n k :: nat
proof -
  have "(n + 6) div 7 < Suc k \<longleftrightarrow> n + 6 < Suc k * 7" by (rule div_less_iff_less_mult) simp
  then show ?thesis by (simp add: less_Suc_eq_le) arith
qed

lemma length_leb_size:
  assumes "v \<noteq> 0"
  shows "GetUleb128Size (ucast (v :: u32)) = Some (length (GetUnsignedLeb128Encode v))"
proof -
  have v: "(ucast v :: u64) \<noteq> 0" "unat (ucast v :: u64) = unat v"
    using assms unsigned_less [of v, where 'a = nat] by (auto simp: unsigned_ucast_eq take_bit_nat_eq_self simp flip: unat_eq_zero)
  have size: "(64 - clz64 (ucast v) + 6) div 7 \<le> k \<longleftrightarrow> unat v < 128 ^ k" for k
    using clz64_bound [OF v(1), of "7 * k"] v(2) bits_groups by (simp add: power_mult)
  have "length (GetUnsignedLeb128Encode v) \<le> k \<longleftrightarrow> unat v < 128 ^ k" for k
    using length_leb [of v "k - 1"] assms by (cases k) (simp_all add: unat_eq_zero)
  then have "(64 - clz64 (ucast v) + 6) div 7 = length (GetUnsignedLeb128Encode v)"
    using size by (meson order_antisym order_refl)
  then show ?thesis using v(1) by (simp add: GetUleb128Size_def)
qed

section \<open>The signed size\<close>

lemma sint_eq_iff: "x = y \<longleftrightarrow> sint x = sint y" for x y :: i32
  by (metis signed_word_eqI)

lemma low_bit_eq: "x AND 1 = y AND 1 \<longleftrightarrow> (even (sint x) \<longleftrightarrow> even (sint y))" for x y :: i32
proof -
  have e: "z AND 1 = of_bool (odd z)" for z :: i32 by (simp add: and_one_eq mod_2_eq_odd)
  have o: "odd (sint z) \<longleftrightarrow> odd z" for z :: i32
    using bit_sint_iff [of z 0] by (simp add: bit_0)
  show ?thesis using o [of x] o [of y] unfolding e by (cases "odd x"; cases "odd y") simp_all
qed

lemma sleb_last:
  "signed_drop_bit 7 v = (if 0 \<le>s v then 0 else - 1)
     \<and> signed_drop_bit 7 v AND 1 = signed_drop_bit 6 v AND 1 \<longleftrightarrow> - 64 \<le> sint v \<and> sint v < 64"
  for v :: i32
proof -
  have d: "sint (signed_drop_bit 6 v) = sint v div 64"
    by (simp add: sint_signed_drop_bit_eq drop_bit_eq_div)
  have e: "signed_drop_bit 7 v = (if 0 \<le>s v then 0 else - 1)
      \<longleftrightarrow> sint v div 128 = (if 0 \<le> sint v then 0 else - 1)"
    by (simp add: word_sle_eq sint_eq_iff sint_drop7)
  have h: "sint v div 128 = sint v div 64 div 2" by simp
  have r: "- 64 \<le> sint v \<and> sint v < 64 \<longleftrightarrow> sint v div 64 = (if 0 \<le> sint v then 0 else - 1)"
    by (auto simp: div_eq_dividend_iff)
  have p: "q div 2 = e \<and> (even (q div 2) \<longleftrightarrow> even q) \<longleftrightarrow> q = e" if "e = 0 \<or> e = - 1" for q e :: int
    using that by (auto elim!: evenE oddE) presburger+
  show ?thesis unfolding low_bit_eq d e r sint_drop7 unfolding h by (rule p) simp
qed

lemma GetSleb128Size_step:
  "GetSleb128Size v = (if - 64 \<le> sint v \<and> sint v < 64 then 1 else Suc (GetSleb128Size (signed_drop_bit 7 v)))"
  using sleb_last [of v] by (subst GetSleb128Size.simps) (auto simp: Let_def kGreybackOffset_def)

lemma div_128_bounds: "- n \<le> x div 128 \<longleftrightarrow> - (128 * n) \<le> x" "x div 128 < n \<longleftrightarrow> x < 128 * n" for x n :: int
  by linarith+

lemma length_sleb: "GetSleb128Size v \<le> Suc k \<longleftrightarrow> - (64 * 128 ^ k) \<le> sint v \<and> sint v < 64 * 128 ^ k"
proof (induction k arbitrary: v)
  case 0
  show ?case using sleb_last [of v] GetSleb128Size_step [of v] GetSleb128Size_step [of "signed_drop_bit 7 v"]
    by auto
next
  case (Suc k)
  have p: "(1::int) \<le> 128 ^ k" by simp
  show ?case
  proof (cases "- 64 \<le> sint v \<and> sint v < 64")
    case True
    then show ?thesis using p GetSleb128Size_step [of v] by (simp, linarith)
  next
    case False
    then have "GetSleb128Size v \<le> Suc (Suc k) \<longleftrightarrow> GetSleb128Size (signed_drop_bit 7 v) \<le> Suc k"
      by (subst GetSleb128Size_step) (simp only: False if_False Suc_le_mono)
    also have "\<dots> \<longleftrightarrow> - (64 * 128 ^ Suc k) \<le> sint v \<and> sint v < 64 * 128 ^ Suc k"
      unfolding Suc sint_drop7 div_128_bounds by (simp only: power_Suc mult.left_commute)
    finally show ?thesis .
  qed
qed

section \<open>The bytes packed into 64 bits\<close>

primrec pack_bytes :: "byte list \<Rightarrow> u64" where
  "pack_bytes [] = 0"
| "pack_bytes (b # bs) = ucast b OR push_bit 8 (pack_bytes bs)"

lemma leb_pack_leb:
  "count + length (GetUnsignedLeb128Encode v) \<le> 8
    \<Longrightarrow> leb_pack True (ucast v) count res = Some (res OR push_bit (8 * count) (pack_bytes (GetUnsignedLeb128Encode v)))"
proof (induction v arbitrary: count res rule: GetUnsignedLeb128Encode.induct)
  case (1 v)
  have d: "signed_drop_bit 7 (ucast v :: i64) = ucast (drop_bit 7 v)"
    by (rule bit_word_eqI) (auto simp: bit_simps dest: bit_imp_le_length)
  have u: "unat (ucast w :: u64) = unat w" for w :: u32
    using unsigned_less [of w, where 'a = nat] by (simp add: unsigned_ucast_eq take_bit_nat_eq_self)
  have z: "(ucast (drop_bit 7 v) :: u64) = 0 \<longleftrightarrow> drop_bit 7 v = 0"
    using u [of "drop_bit 7 v"] by (metis unat_eq_zero)
  have b: "(ucast ((ucast v :: i64) AND 0x7f) :: byte) = ucast (v AND 0x7f)"
    unfolding mask_7 by (rule bit_word_eqI) (auto simp: bit_simps)
  have p: "push_bit (8 * count) (ucast b OR push_bit 8 bs :: u64)
      = push_bit (8 * count) (ucast b) OR push_bit (8 * (count + 1)) bs" for b :: byte and bs
    by (simp add: push_bit_or push_bit_push_bit add.commute)
  show ?case
  proof (cases "drop_bit 7 v = 0")
    case True
    then show ?thesis using 1(2) d z b
      by (subst leb_pack.simps) (simp add: GetUnsignedLeb128Encode.simps [of v] Let_def kGreybackOffset_def)
  next
    case False
    note enc = GetUnsignedLeb128Encode.simps [of v]
    have l: "Suc count + length (GetUnsignedLeb128Encode (drop_bit 7 v)) \<le> 8"
      using 1(2) False by (simp add: enc Let_def kGreybackOffset_def)
    have c: "\<not> 8 \<le> count" using l by simp
    have "leb_pack True (ucast v) count res =
        leb_pack True (ucast (drop_bit 7 v)) (Suc count) (res OR push_bit (8 * count) (ucast (ucast (v AND 0x7f) OR 0x80 :: byte)))"
      using c False d z b by (subst leb_pack.simps) (simp add: Let_def kGreybackOffset_def)
    also have "\<dots> = Some (res OR push_bit (8 * count) (pack_bytes (GetUnsignedLeb128Encode v)))"
      using 1(1) [OF refl refl] False l p
      by (simp add: enc Let_def kGreybackOffset_def or.assoc)
    finally show ?thesis .
  qed
qed

lemma leb_pack_Some:
  "leb_pack True v count res \<noteq> None \<longleftrightarrow> count < 8 \<and> 0 \<le> sint v \<and> sint v < 2 ^ (7 * (8 - count))"
proof (induction "8 - count" arbitrary: v count res)
  case 0
  then show ?case by (subst leb_pack.simps) auto
next
  case (Suc k)
  have c: "count < 8" "k = 8 - Suc count" using Suc(2) by auto
  have d: "sint (signed_drop_bit 7 v) = sint v div 128"
    by (simp add: sint_signed_drop_bit_eq drop_bit_eq_div)
  have z: "signed_drop_bit 7 v = 0 \<longleftrightarrow> 0 \<le> sint v \<and> sint v < 128"
  proof -
    have "signed_drop_bit 7 v = 0 \<longleftrightarrow> sint (signed_drop_bit 7 v) = 0" by (metis signed_0 signed_word_eqI)
    then show ?thesis by (auto simp: d zdiv_eq_0_iff)
  qed
  have e: "7 * (8 - count) = 7 + 7 * (8 - Suc count)" using c by simp
  have p: "(2::int) ^ (7 * (8 - count)) = 128 * 2 ^ (7 * (8 - Suc count))" unfolding e power_add by simp
  have "count < 7" if "\<not> sint v < 128" "sint v < 128 * 2 ^ (7 * (7 - count))"
    using that c(1) by (cases "count = 7") auto
  then show ?case
    using c Suc(1) [OF c(2), of "signed_drop_bit 7 v"] z d p div_128_bounds(2) [of "sint v" "2 ^ (7 * (8 - Suc count))"]
    by (subst leb_pack.simps) (auto simp: Let_def kGreybackOffset_def)
qed

section \<open>The encodings and their sizes\<close>

text \<open>
  C23. \<open>GetUnsignedLeb128Decode\<close> reads back the values written one after the other by
  \<open>GetUnsignedLeb128Encode\<close>, each from where the last ended, and stops right after the last:
  the bytes that follow do not matter.
\<close>

theorem leb128_stream: "dec_many GetUnsignedLeb128Decode (length vs) (concat (map GetUnsignedLeb128Encode vs) @ rest) = Some (vs, rest)"
  by (rule leb.dec_many_concat)

text \<open>
  For every value of 32 bits but zero, for which \<open>__builtin_clzll\<close> is undefined,
  \<open>GetUleb128Size\<close> is the number of bytes that \<open>GetUnsignedLeb128Encode\<close> writes.
\<close>

lemma GetUleb128Size_length:
  "v \<noteq> 0 \<Longrightarrow> GetUleb128Size (ucast (v :: u32)) = Some (length (GetUnsignedLeb128Encode v))"
  by (rule length_leb_size)

theorem GetUleb128Size_length_witness:
  "(300 :: u32) \<noteq> 0 \<and> GetUleb128Size (ucast (300 :: u32)) = Some (length (GetUnsignedLeb128Encode 300))"
  using GetUleb128Size_length [of 300] by simp

text \<open>
  C37. \<open>GetSleb128Size\<close> is the least number of 7-bit groups that hold the value with its sign bit:
  it is at most \<open>k + 1\<close> exactly when the value is a two's complement number of
  \<open>7 * (k + 1)\<close> bits.
\<close>

theorem GetSleb128Size_least:
  "GetSleb128Size v \<le> Suc k \<longleftrightarrow> - (2 ^ (7 * Suc k - 1)) \<le> sint v \<and> sint v < 2 ^ (7 * Suc k - 1)"
proof -
  have "(2::int) ^ (7 * Suc k - 1) = 64 * 128 ^ k" by (simp add: power_add power_mult)
  then show ?thesis by (simp only: length_sleb)
qed

text \<open>
  The 64-bit form of the unsigned encoding exists exactly for values below \<open>2 ^ 56\<close>: from there
  on the shift amount of the ninth byte would reach the width.
\<close>

lemma GetUleb128Encode_range: "GetUleb128Encode v \<noteq> None \<longleftrightarrow> unat v < 2 ^ 56"
proof -
  have "uint v = sint v" if "0 \<le> sint v"
    using that sint_lt [of v] by (simp add: uint_sint take_bit_int_eq_self)
  moreover have "sint v = uint v" if "uint v < 2 ^ 56"
    using that order.trans [of "- (2 ^ 63)" 0 "uint v"]
    by (subst sint_uint) (intro signed_take_bit_int_eq_self, simp_all)
  moreover have "uint v < 2 ^ 56 \<longleftrightarrow> unat v < 2 ^ 56"
    using of_nat_less_iff [of "unat v" "2 ^ 56", where 'a = int] by simp
  moreover have "0 \<le> uint v" by simp
  ultimately have "0 \<le> sint v \<and> sint v < 2 ^ 56 \<longleftrightarrow> unat v < 2 ^ 56" by metis
  then show ?thesis using leb_pack_Some [of v 0 0] by (simp add: GetUleb128Encode_def GetLEB128Encode_def)
qed

text \<open>
  For values of 32 bits the two encoders agree: the 64-bit form is the byte list, the first byte
  lowest.
\<close>

lemma GetUleb128Encode_bytes: "GetUleb128Encode (ucast v) = Some (pack_bytes (GetUnsignedLeb128Encode v))"
proof -
  have "length (GetUnsignedLeb128Encode v) \<le> 5"
    using length_leb [of v 4] unsigned_less [of v, where 'a = nat] by simp
  then show ?thesis using leb_pack_leb [of 0 v 0] by (simp add: GetUleb128Encode_def GetLEB128Encode_def)
qed

text \<open>
  The signed 64-bit form drops the sign group: 64, whose encoding takes two bytes by
  \<open>GetSleb128Size\<close>, comes out as the one byte that LEB128 reads as -64, and is the encoding of -64
  as well.
\<close>

theorem GetSleb128Encode_collision:
  "GetSleb128Encode 64 = Some 64 \<and> GetSleb128Encode (- 64) = Some 64 \<and> GetSleb128Size 64 = 2 \<and> GetSleb128Size (- 64) = 1"
  by code_simp

end
