(* ===== verification/PtrList.thy ===== *)
theory PtrList
  imports Prelude
begin

text \<open>
  The intrusive doubly linked list of maple_util/include/ptr_list_ref.h. A node is its address; the
  \<open>prev\<close> and \<open>next\<close> fields of all nodes (\<open>PtrListNodeBase\<close>) are the heap \<open>links\<close>, and a
  \<open>PtrListRef\<close> is the pair of pointers \<open>ptr_list\<close>. A null pointer is \<open>None\<close>. Every
  operation takes the heap and the list and returns them updated; the dereference of a null pointer
  and a failed \<open>ASSERT\<close> make it \<open>None\<close>. An iterator is the pointer it wraps.
\<close>

section \<open>Nodes\<close>

type_synonym ptr = nat

record links =
  prv :: "ptr \<Rightarrow> ptr option"
  nxt :: "ptr \<Rightarrow> ptr option"

definition SetPrev :: "ptr \<Rightarrow> ptr option \<Rightarrow> links \<Rightarrow> links" where
  "SetPrev x p h = h\<lparr>prv := (prv h)(x := p)\<rparr>"

definition SetNext :: "ptr \<Rightarrow> ptr option \<Rightarrow> links \<Rightarrow> links" where
  "SetNext x n h = h\<lparr>nxt := (nxt h)(x := n)\<rparr>"

lemma set_link_simps [simp]:
  "prv (SetPrev x p h) = (prv h)(x := p)" "nxt (SetPrev x p h) = nxt h"
  "nxt (SetNext x n h) = (nxt h)(x := n)" "prv (SetNext x n h) = prv h"
  by (simp_all add: SetPrev_def SetNext_def)

section \<open>The list\<close>

record ptr_list =
  lfirst :: "ptr option"
  llast :: "ptr option"

type_synonym list_state = "links \<times> ptr_list"

definition list_end :: "list_state \<Rightarrow> ptr option" where
  "list_end = (\<lambda>(h, l). case llast l of None \<Rightarrow> None | Some x \<Rightarrow> nxt h x)"

definition list_rend :: "list_state \<Rightarrow> ptr option" where
  "list_rend = (\<lambda>(h, l). case lfirst l of None \<Rightarrow> None | Some x \<Rightarrow> prv h x)"

definition list_empty :: "list_state \<Rightarrow> bool" where
  "list_empty = (\<lambda>(h, l). lfirst l = None)"

definition update_front :: "ptr option \<Rightarrow> list_state \<Rightarrow> list_state" where
  "update_front v = (\<lambda>(h, l).
     ((case v of None \<Rightarrow> h | Some x \<Rightarrow> SetPrev x None h), l\<lparr>lfirst := v\<rparr>))"

definition update_back :: "ptr option \<Rightarrow> list_state \<Rightarrow> list_state" where
  "update_back v = (\<lambda>(h, l).
     ((case v of None \<Rightarrow> h | Some x \<Rightarrow> SetNext x None h), l\<lparr>llast := v\<rparr>))"

definition push_front :: "ptr \<Rightarrow> list_state \<Rightarrow> list_state option" where
  "push_front v = (\<lambda>(h, l).
     if llast l = None
     then Some (SetNext v None (SetPrev v None h), \<lparr>lfirst = Some v, llast = Some v\<rparr>)
     else do {
       f \<leftarrow> lfirst l;
       let h = SetPrev f (Some v) h;
       let h = SetPrev v None h;
       let h = SetNext v (Some f) h;
       Some (h, l\<lparr>lfirst := Some v\<rparr>) })"

definition pop_front :: "list_state \<Rightarrow> list_state" where
  "pop_front = (\<lambda>(h, l).
     case lfirst l of
       None \<Rightarrow> (h, l)
     | Some f \<Rightarrow>
         (case nxt h f of
            None \<Rightarrow> (h, l\<lparr>lfirst := None\<rparr>)
          | Some g \<Rightarrow> (SetPrev g None h, l\<lparr>lfirst := Some g\<rparr>)))"

definition push_back :: "ptr \<Rightarrow> list_state \<Rightarrow> list_state" where
  "push_back v = (\<lambda>(h, l).
     let (h, l) =
       (case llast l of
          None \<Rightarrow> (SetPrev v None h, \<lparr>lfirst = Some v, llast = Some v\<rparr>)
        | Some b \<Rightarrow> (SetPrev v (Some b) (SetNext b (Some v) h), l\<lparr>llast := Some v\<rparr>))
     in (SetNext v None h, l))"

definition pop_back :: "list_state \<Rightarrow> list_state" where
  "pop_back = (\<lambda>(h, l).
     case llast l of
       None \<Rightarrow> (h, l)
     | Some b \<Rightarrow>
         (case prv h b of
            None \<Rightarrow> (h, \<lparr>lfirst = None, llast = None\<rparr>)
          | Some p \<Rightarrow> (SetNext p None h, l\<lparr>llast := Some p\<rparr>)))"

definition list_insert :: "ptr option \<Rightarrow> ptr \<Rightarrow> list_state \<Rightarrow> list_state option" where
  "list_insert pos v s = (case s of (h, l) \<Rightarrow>
     if pos = lfirst l then push_front v s
     else if pos = list_end s then Some (push_back v s)
     else do {
       ptr \<leftarrow> pos;
       let h = SetPrev v (prv h ptr) h;
       let h = SetNext v (Some ptr) h;
       p \<leftarrow> prv h v;
       let h = SetNext p (Some v) h;
       Some (SetPrev ptr (Some v) h, l) })"

definition list_insertAfter :: "ptr option \<Rightarrow> ptr \<Rightarrow> list_state \<Rightarrow> list_state option" where
  "list_insertAfter pos v s = (case s of (h, l) \<Rightarrow>
     if pos = None then push_front v s
     else if pos = llast l then Some (push_back v s)
     else do {
       ptr \<leftarrow> pos;
       let h = SetPrev v (Some ptr) h;
       let h = SetNext v (nxt h ptr) h;
       n \<leftarrow> nxt h v;
       let h = SetPrev n (Some v) h;
       Some (SetNext ptr (Some v) h, l) })"

text \<open>\<open>splice\<close> links the nodes of the other list, which keeps its own two pointers.\<close>

definition list_splice :: "ptr option \<Rightarrow> ptr_list \<Rightarrow> list_state \<Rightarrow> list_state option" where
  "list_splice pos other s = (case s of (h, l) \<Rightarrow> do {
     front \<leftarrow> lfirst other;
     back \<leftarrow> llast other;
     (if lfirst l = None then Some (h, \<lparr>lfirst = Some front, llast = Some back\<rparr>)
      else if pos = list_end s \<or> pos = llast l then do {
        b \<leftarrow> llast l;
        let h = SetNext b (Some front) h;
        Some (SetPrev front (Some b) h, l\<lparr>llast := Some back\<rparr>) }
      else do {
        ptr \<leftarrow> pos;
        n \<leftarrow> nxt h ptr;
        let h = SetPrev front (Some ptr) h;
        let h = SetNext back (nxt h ptr) h;
        n \<leftarrow> nxt h ptr;
        let h = SetPrev n (Some back) h;
        Some (SetNext ptr (Some front) h, l) }) })"

definition list_clear :: "list_state \<Rightarrow> list_state" where
  "list_clear = (\<lambda>(h, l). (h, \<lparr>lfirst = None, llast = None\<rparr>))"

definition list_erase :: "ptr option \<Rightarrow> list_state \<Rightarrow> list_state option" where
  "list_erase pos s = (case s of (h, l) \<Rightarrow>
     if pos = lfirst l \<and> pos = llast l then Some (h, \<lparr>lfirst = None, llast = None\<rparr>)
     else if pos = lfirst l then do {
       ptr \<leftarrow> pos;
       f \<leftarrow> nxt h ptr;
       Some (SetPrev f None h, l\<lparr>lfirst := Some f\<rparr>) }
     else if pos = llast l then Some (pop_back s)
     else do {
       ptr \<leftarrow> pos;
       p \<leftarrow> prv h ptr;
       let h = SetNext p (nxt h ptr) h;
       n \<leftarrow> nxt h ptr;
       Some (SetPrev n (prv h ptr) h, l) })"

definition set_first :: "ptr option \<Rightarrow> list_state \<Rightarrow> list_state" where
  "set_first f = (\<lambda>(h, l). (h, l\<lparr>lfirst := f\<rparr>))"

definition set_last :: "ptr option \<Rightarrow> list_state \<Rightarrow> list_state" where
  "set_last f = (\<lambda>(h, l). (h, l\<lparr>llast := f\<rparr>))"

section \<open>Walking a list\<close>

text \<open>
  The nodes an iterator passes from \<open>it\<close> until it equals \<open>e\<close>, within \<open>n\<close> steps: forwards by
  \<open>operator++\<close>, and backwards by that of the reverse iterator.
\<close>

fun walk :: "(ptr \<Rightarrow> ptr option) \<Rightarrow> nat \<Rightarrow> ptr option \<Rightarrow> ptr option \<Rightarrow> ptr list option" where
  "walk step n it e =
     (if it = e then Some []
      else case n of 0 \<Rightarrow> None
       | Suc m \<Rightarrow> do { x \<leftarrow> it; xs \<leftarrow> walk step m (step x) e; Some (x # xs) })"

declare walk.simps [simp del]

definition forward :: "nat \<Rightarrow> list_state \<Rightarrow> ptr list option" where
  "forward n s = walk (nxt (fst s)) n (lfirst (snd s)) (list_end s)"

definition backward :: "nat \<Rightarrow> list_state \<Rightarrow> ptr list option" where
  "backward n s = walk (prv (fst s)) n (llast (snd s)) (list_rend s)"

end
