(* ===== verification/PtrListSound.thy ===== *)
theory PtrListSound
  imports PtrList
begin

text \<open>
  What a linked list holds, as the list of its nodes, and what every operation does to it. The
  interface \<open>node_sequence\<close> states the contract of the operations that the blocks of statements use;
  the linked list provides it.
\<close>

section \<open>Segments\<close>

definition hd_or :: "ptr option \<Rightarrow> ptr list \<Rightarrow> ptr option" where
  "hd_or n xs = (case xs of [] \<Rightarrow> n | x # _ \<Rightarrow> Some x)"

definition last_or :: "ptr option \<Rightarrow> ptr list \<Rightarrow> ptr option" where
  "last_or p xs = (if xs = [] then p else Some (last xs))"

lemma ends_simps [simp]:
  "hd_or n [] = n" "hd_or n (x # xs) = Some x" "hd_or n (xs @ ys) = hd_or (hd_or n ys) xs"
  "last_or p [] = p" "last_or p (x # xs) = last_or (Some x) xs" "last_or p (xs @ ys) = last_or (last_or p xs) ys"
  by (auto simp: hd_or_def last_or_def split: list.splits)

lemma ends_None: "hd_or None xs = None \<longleftrightarrow> xs = []" "last_or None xs = None \<longleftrightarrow> xs = []"
  by (auto simp: hd_or_def last_or_def split: list.splits)

lemma ends_not_None [simp]: "hd_or (Some x) xs \<noteq> None" "last_or (Some x) xs \<noteq> None"
  by (simp_all add: hd_or_def last_or_def split: list.splits)

lemma ends_mem: "hd_or n xs = Some x \<Longrightarrow> x \<in> set xs \<or> n = Some x" "last_or p xs = Some x \<Longrightarrow> x \<in> set xs \<or> p = Some x"
  by (auto simp: hd_or_def last_or_def split: list.splits if_splits)

text \<open>The nodes \<open>xs\<close> linked to each other, with \<open>p\<close> before and \<open>n\<close> behind them.\<close>

fun dlseg :: "links \<Rightarrow> ptr option \<Rightarrow> ptr list \<Rightarrow> ptr option \<Rightarrow> bool" where
  "dlseg h p [] n = True"
| "dlseg h p (x # xs) n = (prv h x = p \<and> nxt h x = hd_or n xs \<and> dlseg h (Some x) xs n)"

lemma dlseg_append:
  "dlseg h p (xs @ ys) n \<longleftrightarrow> dlseg h p xs (hd_or n ys) \<and> dlseg h (last_or p xs) ys n"
  by (induction xs arbitrary: p) auto

lemma dlseg_frame [simp]:
  "x \<notin> set xs \<Longrightarrow> dlseg (SetPrev x q h) p xs n = dlseg h p xs n"
  "x \<notin> set xs \<Longrightarrow> dlseg (SetNext x q h) p xs n = dlseg h p xs n"
  by (induction xs arbitrary: p) auto

text \<open>Relinking the first or the last node of a segment.\<close>

lemma dlseg_first:
  "dlseg h p (x # xs) n \<Longrightarrow> x \<notin> set xs \<Longrightarrow> dlseg (SetPrev x q h) q (x # xs) n"
  by simp

lemma dlseg_last:
  "dlseg h p (xs @ [x]) n \<Longrightarrow> x \<notin> set xs \<Longrightarrow> dlseg (SetNext x m h) p (xs @ [x]) m"
  by (simp add: dlseg_append)

section \<open>What a list holds\<close>

definition list_holds :: "list_state \<Rightarrow> ptr list \<Rightarrow> bool" where
  "list_holds s xs = (case s of (h, l) \<Rightarrow>
     distinct xs \<and> lfirst l = hd_or None xs \<and> llast l = last_or None xs \<and> dlseg h None xs None)"

lemma list_end_None [simp]: "list_holds s xs \<Longrightarrow> list_end s = None"
  by (cases xs rule: rev_cases) (auto simp: list_holds_def list_end_def dlseg_append last_or_def split: prod.splits)

lemma list_rend_None [simp]: "list_holds s xs \<Longrightarrow> list_rend s = None"
  by (cases xs) (auto simp: list_holds_def list_rend_def split: prod.splits)

lemma list_empty_holds: "list_holds s xs \<Longrightarrow> list_empty s \<longleftrightarrow> xs = []"
  by (auto simp: list_holds_def list_empty_def ends_None split: prod.splits)

lemma walk_forward: "dlseg h p xs None \<Longrightarrow> length xs \<le> n \<Longrightarrow> walk (nxt h) n (hd_or None xs) None = Some xs"
proof (induction xs arbitrary: p n)
  case (Cons x xs)
  then show ?case by (cases n) (auto simp: walk.simps [of _ _ "Some x"])
qed (simp add: walk.simps)

lemma walk_backward:
  "dlseg h None xs n' \<Longrightarrow> length xs \<le> n \<Longrightarrow> walk (prv h) n (last_or None xs) None = Some (rev xs)"
proof (induction xs arbitrary: n n' rule: rev_induct)
  case (snoc x xs)
  then show ?case by (cases n) (auto simp: walk.simps [of _ _ "Some x"] dlseg_append)
qed (simp add: walk.simps)

section \<open>The operations\<close>

lemma holds_empty: "list_holds (h, \<lparr>lfirst = None, llast = None\<rparr>) []"
  by (simp add: list_holds_def)

lemma push_front_holds:
  assumes "list_holds s xs" "x \<notin> set xs"
  shows "\<exists>s'. push_front x s = Some s' \<and> list_holds s' (x # xs)"
  using assms by (cases xs) (auto simp: push_front_def list_holds_def ends_None last_or_def split: prod.splits)

lemma push_back_holds:
  assumes "list_holds s xs" "x \<notin> set xs"
  shows "list_holds (push_back x s) (xs @ [x])"
  using assms
  by (cases xs rule: rev_cases)
    (auto simp: push_back_def list_holds_def dlseg_append last_or_def Let_def split: prod.splits)

lemma pop_back_holds: "list_holds s (xs @ [x]) \<Longrightarrow> list_holds (pop_back s) xs"
  by (cases xs rule: rev_cases)
    (auto simp: pop_back_def list_holds_def dlseg_append last_or_def split: prod.splits)

lemma pop_front_holds: "list_holds s (x # xs) \<Longrightarrow> xs \<noteq> [] \<Longrightarrow> list_holds (pop_front s) xs"
  by (cases xs) (auto simp: pop_front_def list_holds_def last_or_def split: prod.splits)

lemma insert_holds:
  assumes "list_holds s (as @ w # bs)" "x \<notin> set (as @ w # bs)"
  shows "\<exists>s'. list_insert (Some w) x s = Some s' \<and> list_holds s' (as @ x # w # bs)"
proof (cases as rule: rev_cases)
  case Nil
  moreover have "Some w = lfirst (snd s)" using assms(1) Nil by (auto simp: list_holds_def)
  ultimately show ?thesis using push_front_holds [OF assms] by (cases s) (simp add: list_insert_def)
next
  case (snoc as' a)
  obtain h l where s: "s = (h, l)" by (cases s)
  have ne: "hd_or (Some a) as' \<noteq> Some w" using assms snoc ends_mem(1) [of "Some a" as' w]
    by (auto simp: list_holds_def)
  show ?thesis using assms snoc ne list_end_None [OF assms(1)]
    by (simp add: list_insert_def list_holds_def dlseg_append s)
qed

lemma insert_end_holds:
  assumes "list_holds s xs" "x \<notin> set xs"
  shows "\<exists>s'. list_insert None x s = Some s' \<and> list_holds s' (xs @ [x])"
proof (cases xs)
  case Nil
  then show ?thesis using push_front_holds [OF assms] assms(1)
    by (auto simp: list_insert_def list_holds_def split: prod.split)
next
  case (Cons y ys)
  then have "lfirst (snd s) \<noteq> None" using assms(1) by (auto simp: list_holds_def split: prod.splits)
  then have "list_insert None x s = Some (push_back x s)" using list_end_None [OF assms(1)]
    by (cases s) (auto simp: list_insert_def)
  then show ?thesis using push_back_holds [OF assms] by simp
qed

lemma insertAfter_holds:
  assumes "list_holds s (as @ w # bs)" "x \<notin> set (as @ w # bs)"
  shows "\<exists>s'. list_insertAfter (Some w) x s = Some s' \<and> list_holds s' (as @ w # x # bs)"
proof (cases bs)
  case Nil
  then have "Some w = llast (snd s)" using assms(1) by (auto simp: list_holds_def)
  then have "list_insertAfter (Some w) x s = Some (push_back x s)" by (cases s) (auto simp: list_insertAfter_def)
  then show ?thesis using push_back_holds [OF assms] Nil by simp
next
  case (Cons b bs')
  obtain h l where s: "s = (h, l)" by (cases s)
  have "last_or (Some b) bs' \<noteq> Some w" using assms Cons ends_mem(2) [of "Some b" bs' w]
    by (auto simp: list_holds_def)
  then show ?thesis using assms Cons by (simp add: list_insertAfter_def list_holds_def dlseg_append s)
qed

lemma erase_holds:
  assumes "list_holds s (as @ w # bs)"
  shows "\<exists>s'. list_erase (Some w) s = Some s' \<and> list_holds s' (as @ bs)"
proof (cases as rule: rev_cases)
  case Nil
  obtain h l where s: "s = (h, l)" by (cases s)
  show ?thesis
  proof (cases bs)
    case (Cons b bs')
    then have "last_or (Some b) bs' \<noteq> Some w" using assms Nil ends_mem(2) [of "Some b" bs' w]
      by (auto simp: list_holds_def)
    then show ?thesis using Cons assms Nil by (simp add: list_erase_def list_holds_def s)
  qed (use Nil assms in \<open>simp add: list_erase_def list_holds_def s\<close>)
next
  case (snoc as' a)
  obtain h l where s: "s = (h, l)" by (cases s)
  have ne: "hd_or (Some a) as' \<noteq> Some w" using assms snoc ends_mem(1) [of "Some a" as' w]
    by (auto simp: list_holds_def)
  show ?thesis
  proof (cases bs)
    case Nil
    then show ?thesis using assms pop_back_holds [of s as w] snoc ne
      by (simp add: list_erase_def list_holds_def s)
  next
    case (Cons b bs')
    then have "last_or (Some b) bs' \<noteq> Some w" using assms snoc ends_mem(2) [of "Some b" bs' w]
      by (auto simp: list_holds_def)
    then show ?thesis using assms snoc ne Cons
      by (simp add: list_erase_def list_holds_def dlseg_append s)
  qed
qed

text \<open>The nodes of the other list must not be in this one.\<close>

lemma splice_holds:
  assumes "list_holds (h, l) (as @ w # bs)" "list_holds (h, l') ys" "ys \<noteq> []" "set ys \<inter> set (as @ w # bs) = {}"
  shows "\<exists>s'. list_splice (Some w) l' (h, l) = Some s' \<and> list_holds s' (as @ w # ys @ bs)"
proof -
  obtain y ys' where y: "ys = y # ys'" using assms(3) by (cases ys) auto
  obtain zs z where z: "ys = zs @ [z]" using assms(3) by (cases ys rule: rev_cases) auto
  have hy: "hd_or n ys = Some y" for n by (simp add: y)
  have lz: "last_or p ys = Some z" for p by (simp add: z)
  have ends: "lfirst l' = Some y" "llast l' = Some z" "lfirst l \<noteq> None" "list_end (h, l) = None"
    using assms(1,2) list_end_None [OF assms(1)] hy lz by (auto simp: list_holds_def)
  have sep: "y \<notin> set (as @ w # bs)" "z \<notin> set (as @ w # bs)" "w \<notin> set ys" 
  proof -
    have "y \<in> set ys" "z \<in> set ys" by (simp add: y) (simp add: z)
    then show "y \<notin> set (as @ w # bs)" "z \<notin> set (as @ w # bs)" "w \<notin> set ys" using assms(4) by auto
  qed
  show ?thesis
  proof (cases bs)
    case Nil
    have "dlseg (SetNext w (Some y) h) None (as @ [w]) (Some y)"
      using assms(1) Nil by (intro dlseg_last) (auto simp: list_holds_def)
    moreover have "dlseg (SetPrev y (Some w) (SetNext w (Some y) h)) (Some w) ys None"
      using assms(2) sep(3) unfolding y by (intro dlseg_first) (auto simp: list_holds_def)
    moreover have "list_splice (Some w) l' (h, l) = Some (SetPrev y (Some w) (SetNext w (Some y) h), l\<lparr>llast := Some z\<rparr>)"
      using assms(1) ends Nil by (simp add: list_splice_def list_holds_def)
    moreover have "distinct ys" using assms(2) by (simp add: list_holds_def)
    ultimately show ?thesis using assms(1,4) Nil sep hy lz
      by (auto simp: list_holds_def dlseg_append)
  next
    case (Cons b bs')
    have "last_or (Some b) bs' \<noteq> Some w" using assms(1) Cons ends_mem(2) [of "Some b" bs' w]
      by (auto simp: list_holds_def)
    then have sp: "list_splice (Some w) l' (h, l) =
        Some (SetNext w (Some y) (SetPrev b (Some z) (SetNext z (Some b) (SetPrev y (Some w) h))), l)"
      using assms(1) ends Cons sep by (simp add: list_splice_def list_holds_def dlseg_append)
    have b: "b \<notin> set ys" "b \<noteq> y" "b \<noteq> z" using assms(4) Cons sep by auto
    have "dlseg (SetPrev y (Some w) h) (Some w) ys None"
      using assms(2) unfolding y by (intro dlseg_first) (auto simp: list_holds_def)
    then have "dlseg (SetNext z (Some b) (SetPrev y (Some w) h)) (Some w) ys (Some b)"
      using assms(2) unfolding z by (intro dlseg_last) (auto simp: list_holds_def)
    then have "dlseg (SetNext w (Some y) (SetPrev b (Some z) (SetNext z (Some b) (SetPrev y (Some w) h)))) (Some w) ys (Some b)"
      using b(1) sep(3) by simp
    then show ?thesis unfolding sp using assms sep b Cons hy lz
      by (auto simp: list_holds_def dlseg_append)
  qed
qed

lemma splice_end_holds:
  assumes "list_holds (h, l) xs" "list_holds (h, l') ys" "ys \<noteq> []" "set ys \<inter> set xs = {}"
  shows "\<exists>s'. list_splice None l' (h, l) = Some s' \<and> list_holds s' (xs @ ys)"
proof (cases xs rule: rev_cases)
  case Nil
  moreover obtain f b where "hd_or None ys = Some f" "last_or None ys = Some b" using assms(3) ends_None by (metis option.exhaust)
  ultimately show ?thesis using assms by (simp add: list_splice_def list_holds_def)
next
  case (snoc as w)
  then have "list_splice None l' (h, l) = list_splice (Some w) l' (h, l)"
    using assms(1) list_end_None [OF assms(1)] by (simp add: list_splice_def list_holds_def)
  then show ?thesis using splice_holds [of h l as w "[]" l' ys] assms snoc by simp
qed

section \<open>The contract\<close>

text \<open>
  What the owners of such lists rely on: \<open>holds s xs\<close> says which nodes the state holds, in order,
  and each operation changes that list and nothing else about it.
\<close>

locale node_sequence =
  fixes holds :: "'s \<Rightarrow> 'n list \<Rightarrow> bool"
    and append_node :: "'n \<Rightarrow> 's \<Rightarrow> 's option"
    and prepend_node :: "'n \<Rightarrow> 's \<Rightarrow> 's option"
    and insert_before :: "'n \<Rightarrow> 'n \<Rightarrow> 's \<Rightarrow> 's option"
    and insert_after :: "'n \<Rightarrow> 'n \<Rightarrow> 's \<Rightarrow> 's option"
    and remove_node :: "'n \<Rightarrow> 's \<Rightarrow> 's option"
  assumes append_node: "\<lbrakk>holds s xs; x \<notin> set xs\<rbrakk> \<Longrightarrow> \<exists>s'. append_node x s = Some s' \<and> holds s' (xs @ [x])"
    and prepend_node: "\<lbrakk>holds s xs; x \<notin> set xs\<rbrakk> \<Longrightarrow> \<exists>s'. prepend_node x s = Some s' \<and> holds s' (x # xs)"
    and insert_before: "\<lbrakk>holds s (as @ w # bs); x \<notin> set (as @ w # bs)\<rbrakk>
      \<Longrightarrow> \<exists>s'. insert_before w x s = Some s' \<and> holds s' (as @ x # w # bs)"
    and insert_after: "\<lbrakk>holds s (as @ w # bs); x \<notin> set (as @ w # bs)\<rbrakk>
      \<Longrightarrow> \<exists>s'. insert_after w x s = Some s' \<and> holds s' (as @ w # x # bs)"
    and remove_node: "holds s (as @ w # bs) \<Longrightarrow> \<exists>s'. remove_node w s = Some s' \<and> holds s' (as @ bs)"
    and distinct_nodes: "holds s xs \<Longrightarrow> distinct xs"
begin

lemma replace_node:
  assumes "holds s (as @ w # bs)" "x \<notin> set (as @ w # bs)"
  shows "\<exists>s'. Option.bind (insert_before w x s) (remove_node w) = Some s' \<and> holds s' (as @ x # bs)"
proof -
  obtain s1 where s1: "insert_before w x s = Some s1" "holds s1 ((as @ [x]) @ w # bs)"
    using insert_before [OF assms] by auto
  then show ?thesis using remove_node [OF s1(2)] by auto
qed

lemma append_all:
  "\<lbrakk>holds s xs; distinct ys; set ys \<inter> set xs = {}\<rbrakk>
    \<Longrightarrow> \<exists>s'. foldl (\<lambda>s y. Option.bind s (append_node y)) (Some s) ys = Some s' \<and> holds s' (xs @ ys)"
proof (induction ys arbitrary: s xs)
  case (Cons y ys)
  obtain s1 where "append_node y s = Some s1" "holds s1 (xs @ [y])"
    using append_node [OF Cons.prems(1), of y] Cons.prems(3) by auto
  then show ?case using Cons.IH [of s1 "xs @ [y]"] Cons.prems by auto
qed auto

lemma insert_remove:
  assumes "holds s (as @ w # bs)" "x \<notin> set (as @ w # bs)"
  shows "\<exists>s'. Option.bind (insert_after w x s) (remove_node x) = Some s' \<and> holds s' (as @ w # bs)"
proof -
  obtain s1 where s1: "insert_after w x s = Some s1" "holds s1 ((as @ [w]) @ x # bs)"
    using insert_after [OF assms] by auto
  then show ?thesis using remove_node [OF s1(2)] by auto
qed

end

text \<open>A sequence into which the nodes of another can be moved.\<close>

locale splice_sequence = node_sequence +
  fixes both :: "'s \<Rightarrow> 'l \<Rightarrow> 'n list \<Rightarrow> 'n list \<Rightarrow> bool"
    and splice_after :: "'n \<Rightarrow> 'l \<Rightarrow> 's \<Rightarrow> 's option"
  assumes splice_after: "both s l (as @ w # bs) ys \<Longrightarrow> \<exists>s'. splice_after w l s = Some s' \<and> holds s' (as @ w # ys @ bs)"
begin

lemma replace_by_block:
  assumes "both s l (as @ w # bs) ys"
  shows "\<exists>s'. Option.bind (splice_after w l s) (remove_node w) = Some s' \<and> holds s' (as @ ys @ bs)"
  using splice_after [OF assms] remove_node by fastforce

end

text \<open>Two lists over one heap, without a node in common, the second not empty.\<close>

definition two_lists :: "list_state \<Rightarrow> ptr_list \<Rightarrow> ptr list \<Rightarrow> ptr list \<Rightarrow> bool" where
  "two_lists s l xs ys = (list_holds s xs \<and> list_holds (fst s, l) ys \<and> ys \<noteq> [] \<and> set ys \<inter> set xs = {})"

interpretation ptr_list: splice_sequence list_holds "\<lambda>x s. Some (push_back x s)" push_front
  "\<lambda>w. list_insert (Some w)" "\<lambda>w. list_insertAfter (Some w)" "\<lambda>w. list_erase (Some w)"
  two_lists "\<lambda>w. list_splice (Some w)"
proof unfold_locales
  show "list_holds s xs \<Longrightarrow> distinct xs" for s xs by (auto simp: list_holds_def split: prod.splits)
  show "two_lists s l (as @ w # bs) ys \<Longrightarrow> \<exists>s'. list_splice (Some w) l s = Some s' \<and> list_holds s' (as @ w # ys @ bs)"
    for s l as w bs ys
    using splice_holds [of "fst s" "snd s" as w bs l ys] by (simp add: two_lists_def)
qed (simp add: push_back_holds, (rule push_front_holds insert_holds insertAfter_holds erase_holds; assumption)+)

section \<open>Properties\<close>

text \<open>
  Walking a list with its iterators, from \<open>begin\<close> to \<open>end\<close> or from \<open>rbegin\<close> to \<open>rend\<close>,
  passes exactly the nodes it holds, in order or in reverse order.
\<close>

lemma iterators_enumerate:
  assumes "list_holds s xs" and "length xs \<le> n"
  shows "forward n s = Some xs \<and> backward n s = Some (rev xs)"
proof -
  obtain h l where s: "s = (h, l)" by (cases s)
  have e: "list_end s = None" "list_rend s = None" using assms(1) by simp_all
  show ?thesis using assms walk_forward [of h None xs n] walk_backward [of h xs None n]
    by (auto simp: forward_def backward_def e) (auto simp: list_holds_def s)
qed

text \<open>An example heap: \<open>block_of xs h\<close> appends the nodes \<open>xs\<close> to an empty list over \<open>h\<close>.\<close>

definition no_links :: links where
  "no_links = \<lparr>prv = \<lambda>_. None, nxt = \<lambda>_. None\<rparr>"

definition block_of :: "ptr list \<Rightarrow> links \<Rightarrow> list_state" where
  "block_of xs h = foldl (\<lambda>s x. push_back x s) (h, \<lparr>lfirst = None, llast = None\<rparr>) xs"

lemma block_of_holds: "distinct xs \<Longrightarrow> list_holds (block_of xs h) xs"
proof (induction xs rule: rev_induct)
  case Nil
  then show ?case by (simp add: block_of_def holds_empty)
next
  case (snoc x xs)
  then show ?case using push_back_holds [of "block_of xs h" xs x] by (simp add: block_of_def)
qed

theorem iterators_enumerate_witness:
  "forward 3 (block_of [7, 5, 9] no_links) = Some [7, 5, 9] \<and> backward 3 (block_of [7, 5, 9] no_links) = Some [9, 5, 7]"
  using iterators_enumerate [OF block_of_holds [of "[7, 5, 9]" no_links], of 3] by simp

lemma pop_front_exact:
  assumes "list_holds s xs"
  shows "list_holds (pop_front s) (tl xs) \<longleftrightarrow> length xs \<noteq> 1"
proof (cases xs)
  case Nil
  then show ?thesis using assms by (auto simp: pop_front_def list_holds_def split: prod.splits)
next
  case (Cons x ys)
  show ?thesis
  proof (cases "ys = []")
    case True
    then show ?thesis using assms Cons by (auto simp: pop_front_def list_holds_def split: prod.splits)
  next
    case False
    then show ?thesis using pop_front_holds [of s x ys] assms Cons by simp
  qed
qed

lemma pop_back_exact: "list_holds s xs \<Longrightarrow> list_holds (pop_back s) (butlast xs)"
  using pop_back_holds [of s "butlast xs" "last xs"]
  by (cases "xs = []") (auto simp: pop_back_def list_holds_def split: prod.splits)

text \<open>The iterator at index \<open>i\<close>, which is \<open>end()\<close>, the null pointer, behind the last node.\<close>

definition iter_at :: "ptr list \<Rightarrow> nat \<Rightarrow> ptr option" where
  "iter_at xs i = (if i < length xs then Some (xs ! i) else None)"

text \<open>
  C22. What the operations of \<open>PtrListRef\<close> do to the sequence \<open>xs\<close> of nodes a list holds, for a node \<open>x\<close> and
  a list of nodes \<open>ys\<close> that are not in it: \<open>push_front\<close> and \<open>push_back\<close> add at the ends; \<open>insert\<close> adds before the
  node at every index, and before \<open>end()\<close> at the end; \<open>insertAfter\<close> adds behind the node at every index, and
  with \<open>end()\<close>, the null pointer, in front of the whole list; \<open>splice\<close> moves the other nodes behind the node
  at every index, and with \<open>end()\<close> behind the whole list; \<open>erase\<close> takes out the node at every index;
  \<open>pop_back\<close> takes out the last node, if there is one; and \<open>pop_front\<close> leaves the list without its first node
  exactly when it does not hold one node only.
\<close>

theorem list_operations:
  assumes "list_holds (h, l) xs" "x \<notin> set xs" "i \<le> length xs"
    and "list_holds (h, l') ys" "ys \<noteq> []" "set ys \<inter> set xs = {}"
  shows "(\<exists>s. push_front x (h, l) = Some s \<and> list_holds s (x # xs))
    \<and> list_holds (push_back x (h, l)) (xs @ [x])
    \<and> (\<exists>s. list_insert (iter_at xs i) x (h, l) = Some s \<and> list_holds s (take i xs @ x # drop i xs))
    \<and> (\<exists>s. list_insertAfter (iter_at xs i) x (h, l) = Some s \<and>
          list_holds s (if i < length xs then take (Suc i) xs @ x # drop (Suc i) xs else x # xs))
    \<and> (\<exists>s. list_splice (iter_at xs i) l' (h, l) = Some s \<and> list_holds s (take (Suc i) xs @ ys @ drop (Suc i) xs))
    \<and> (i < length xs \<longrightarrow> (\<exists>s. list_erase (iter_at xs i) (h, l) = Some s \<and> list_holds s (take i xs @ drop (Suc i) xs)))
    \<and> list_holds (pop_back (h, l)) (butlast xs)
    \<and> (list_holds (pop_front (h, l)) (tl xs) \<longleftrightarrow> length xs \<noteq> 1)"
proof (cases "i < length xs")
  case True
  define as w bs where "as = take i xs" and "w = xs ! i" and "bs = drop (Suc i) xs"
  have xs: "xs = as @ w # bs" unfolding as_def w_def bs_def by (rule id_take_nth_drop [OF True])
  have at: "iter_at xs i = Some w" "take i xs = as" "drop i xs = w # bs" "drop (Suc i) xs = bs" "take (Suc i) xs = as @ [w]"
    using True by (simp_all add: iter_at_def as_def w_def bs_def Cons_nth_drop_Suc take_Suc_conv_app_nth)
  note h = assms(1,2,6) [unfolded xs]
  show ?thesis
    unfolding at using True push_front_holds [OF assms(1,2)] push_back_holds [OF assms(1,2)]
      ptr_list.insert_before [OF h(1,2)] ptr_list.insert_after [OF h(1,2)] splice_holds [OF h(1) assms(4,5) h(3)]
      ptr_list.remove_node [OF h(1)] pop_back_exact [OF assms(1)] pop_front_exact [OF assms(1)] by simp
next
  case False
  then have at: "iter_at xs i = None" "take i xs = xs" "drop i xs = []" "drop (Suc i) xs = []" "take (Suc i) xs = xs"
    using assms(3) by (simp_all add: iter_at_def)
  have "list_insertAfter None x (h, l) = push_front x (h, l)" by (simp add: list_insertAfter_def)
  then show ?thesis
    unfolding at using False push_front_holds [OF assms(1,2)] push_back_holds [OF assms(1,2)]
      insert_end_holds [OF assms(1,2)] splice_end_holds [OF assms(1,4,5,6)]
      pop_back_exact [OF assms(1)] pop_front_exact [OF assms(1)] by simp
qed

theorem list_operations_witness:
  "let (h, l') = block_of [8] no_links; (h, l) = block_of [1, 2, 3] h
   in (\<exists>s. list_splice (Some 2) l' (h, l) = Some s \<and> list_holds s [1, 2, 8, 3]) \<and>
      (\<exists>s. list_insert (Some 2) 9 (h, l) = Some s \<and> list_holds s [1, 9, 2, 3])"
proof -
  obtain h' l' where b: "block_of [8] no_links = (h', l')" by fastforce
  obtain h l where a: "block_of [1, 2, 3] h' = (h, l)" by fastforce
  have "list_holds (h, l) [1, 2, 3]" using block_of_holds [of "[1, 2, 3]" h'] a by simp
  moreover have "list_holds (h, l') [8]"
    using a b by (auto simp: block_of_def push_back_def no_links_def list_holds_def)
  ultimately have "(\<exists>s. list_splice (Some 2) l' (h, l) = Some s \<and> list_holds s [1, 2, 8, 3]) \<and>
      (\<exists>s. list_insert (Some 2) 9 (h, l) = Some s \<and> list_holds s [1, 9, 2, 3])"
    using list_operations [of h l "[1, 2, 3]" 9 1 l' "[8]"] by (simp add: iter_at_def)
  then show ?thesis using a b by simp
qed

text \<open>
  \<open>pop_front\<close> on a list of one node sets \<open>first\<close> to null and leaves \<open>last\<close> on the node taken
  out. A node appended then is linked behind that node and the list still counts as empty.
\<close>

theorem pop_front_keeps_last:
  assumes "list_holds s [x]"
  shows "list_empty (pop_front s) \<and> llast (snd (pop_front s)) = Some x \<and> list_empty (push_back y (pop_front s))
    \<and> nxt (fst (push_back y (pop_front s))) x = Some y \<or> x = y"
  using assms by (auto simp: pop_front_def push_back_def list_empty_def list_holds_def split: prod.splits)

end
