(* ===== verification/BlockNode.thy ===== *)
theory BlockNode
  imports PtrListSound
begin

text \<open>
  The statement lists of Maple IR: \<open>BlockNode\<close> (maple_ir/src/mir_nodes.cpp), whose statements are the
  nodes of a \<open>PtrListRef\<close>, and the loop of \<open>ConstantFold::SimplifyBlock\<close>
  (mpl2mpl/src/constantfold.cpp), which replaces and unlinks them. What \<open>Simplify\<close> returns for
  a statement is a parameter of the loop here; \<open>StmtFold\<close> has the function.
\<close>

section \<open>Blocks\<close>

definition AddStatement :: "ptr option \<Rightarrow> list_state \<Rightarrow> list_state option" where
  "AddStatement stmt s = do { x \<leftarrow> stmt; Some (push_back x s) }"

definition AppendStatementsFromBlock :: "ptr_list \<Rightarrow> list_state \<Rightarrow> list_state option" where
  "AppendStatementsFromBlock blk s =
     (if list_empty (fst s, blk) then Some s else list_splice (list_end s) blk s)"

definition InsertFirst :: "ptr option \<Rightarrow> list_state \<Rightarrow> list_state option" where
  "InsertFirst stmt s = do { x \<leftarrow> stmt; push_front x s }"

definition InsertLast :: "ptr option \<Rightarrow> list_state \<Rightarrow> list_state option" where
  "InsertLast stmt s = do { x \<leftarrow> stmt; Some (push_back x s) }"

definition ReplaceStmtWithBlock :: "ptr \<Rightarrow> ptr_list \<Rightarrow> list_state \<Rightarrow> list_state option" where
  "ReplaceStmtWithBlock stmtNode blk s = do {
     s \<leftarrow> list_splice (Some stmtNode) blk s;
     (h, l) \<leftarrow> list_erase (Some stmtNode) s;
     b \<leftarrow> llast blk;
     Some (SetNext stmtNode (nxt h b) h, l) }"

definition ReplaceStmt1WithStmt2 :: "ptr \<Rightarrow> ptr option \<Rightarrow> list_state \<Rightarrow> list_state option" where
  "ReplaceStmt1WithStmt2 stmtNode1 stmtNode2 s =
     (if stmtNode2 = Some stmtNode1 then Some s
      else case stmtNode2 of
        None \<Rightarrow> list_erase (Some stmtNode1) s
      | Some x \<Rightarrow> do { s \<leftarrow> list_insert (Some stmtNode1) x s; list_erase (Some stmtNode1) s })"

definition RemoveStmt :: "ptr option \<Rightarrow> list_state \<Rightarrow> list_state option" where
  "RemoveStmt stmtNode1 s = do { x \<leftarrow> stmtNode1; list_erase (Some x) s }"

definition InsertBefore :: "ptr option \<Rightarrow> ptr \<Rightarrow> list_state \<Rightarrow> list_state option" where
  "InsertBefore stmtNode1 stmtNode2 s = list_insert stmtNode1 stmtNode2 s"

definition InsertAfter :: "ptr option \<Rightarrow> ptr \<Rightarrow> list_state \<Rightarrow> list_state option" where
  "InsertAfter stmtNode1 stmtNode2 s = list_insertAfter stmtNode1 stmtNode2 s"

definition InsertBlockAfter :: "ptr_list \<Rightarrow> ptr option \<Rightarrow> list_state \<Rightarrow> list_state option" where
  "InsertBlockAfter inblock stmt1 s = do {
     x \<leftarrow> stmt1;
     (if list_empty (fst s, inblock) then None else list_splice (Some x) inblock s) }"

section \<open>The loop of \<open>SimplifyBlock\<close>\<close>

text \<open>What \<open>Simplify\<close> returns for a statement: itself or another, a block, or null.\<close>

datatype simplified = Stmt ptr | Blk ptr_list | Gone

definition delete_stmt :: "ptr \<Rightarrow> ptr option \<Rightarrow> list_state \<Rightarrow> list_state option" where
  "delete_stmt x prevStmt st = do {
     let nextStmt = nxt (fst st) x;
     st \<leftarrow> (if lfirst (snd st) = Some x
            then let st = update_front nextStmt st
                 in Some (case nextStmt of None \<Rightarrow> st | Some n \<Rightarrow> (SetPrev n None (fst st), snd st))
            else do {
              p \<leftarrow> prevStmt;
              let h = SetNext p nextStmt (fst st);
              Some ((case nextStmt of None \<Rightarrow> h | Some n \<Rightarrow> SetPrev n (Some p) h), snd st) });
     Some (if llast (snd st) = Some x then update_back prevStmt st else st) }"

fun simplify_loop ::
    "(ptr \<Rightarrow> simplified) \<Rightarrow> nat \<Rightarrow> ptr option \<Rightarrow> ptr option \<Rightarrow> list_state \<Rightarrow> list_state option" where
  "simplify_loop simplify n prevStmt None st = Some st"
| "simplify_loop simplify 0 prevStmt (Some x) st = None"
| "simplify_loop simplify (Suc n) prevStmt (Some x) st =
     (case simplify x of
        Stmt r \<Rightarrow> do {
          st \<leftarrow> ReplaceStmt1WithStmt2 x (Some r) st;
          simplify_loop simplify n (Some x) (nxt (fst st) x) st }
      | Blk blk \<Rightarrow> do {
          st \<leftarrow> ReplaceStmtWithBlock x blk st;
          simplify_loop simplify n (Some x) (nxt (fst st) x) st }
      | Gone \<Rightarrow> do {
          let nextStmt = nxt (fst st) x;
          st \<leftarrow> delete_stmt x prevStmt st;
          simplify_loop simplify n prevStmt nextStmt st })"

text \<open>\<open>n\<close> bounds the rounds; \<open>SimplifyBlockLinks_refines\<close> shows the number of statements enough.\<close>

definition SimplifyBlockLinks :: "(ptr \<Rightarrow> simplified) \<Rightarrow> nat \<Rightarrow> list_state \<Rightarrow> list_state option" where
  "SimplifyBlockLinks simplify n st = simplify_loop simplify n None (lfirst (snd st)) st"

section \<open>Blocks hold their statements\<close>

lemma holds_append: "list_holds s xs \<Longrightarrow> x \<notin> set xs \<Longrightarrow> \<exists>s'. AddStatement (Some x) s = Some s' \<and> list_holds s' (xs @ [x])"
  using ptr_list.append_node [of s xs x] by (simp add: AddStatement_def)

definition same_links :: "ptr set \<Rightarrow> links \<Rightarrow> links \<Rightarrow> bool" where
  "same_links A h h' = (\<forall>x \<in> A. prv h' x = prv h x \<and> nxt h' x = nxt h x)"

lemma dlseg_same: "same_links A h h' \<Longrightarrow> set xs \<subseteq> A \<Longrightarrow> dlseg h' p xs n = dlseg h p xs n"
  by (induction xs arbitrary: p) (auto simp: same_links_def)

lemma holds_same: "same_links A h h' \<Longrightarrow> set xs \<subseteq> A \<Longrightarrow> list_holds (h', l) xs = list_holds (h, l) xs"
  by (simp add: list_holds_def dlseg_same)

lemma same_links_refl [simp]: "same_links A h h"
  by (simp add: same_links_def)

lemma same_links_trans: "same_links A h1 h2 \<Longrightarrow> same_links A h2 h3 \<Longrightarrow> same_links A h1 h3"
  by (simp add: same_links_def)

lemma same_links_mono: "same_links A h h' \<Longrightarrow> B \<subseteq> A \<Longrightarrow> same_links B h h'"
  by (auto simp: same_links_def)

lemma same_links_set [simp]:
  "x \<notin> A \<Longrightarrow> same_links A h (SetPrev x p h')= same_links A h h'"
  "x \<notin> A \<Longrightarrow> same_links A h (SetNext x p h') = same_links A h h'"
  by (auto simp: same_links_def)

text \<open>The neighbours of a node of a list are in the list.\<close>

lemma neighbours:
  assumes "list_holds (h, l) (as @ w # bs)"
  shows "nxt h w = hd_or None bs" "prv h w = last_or None as"
    and "lfirst l = hd_or (Some w) as" "llast l = last_or (Some w) bs"
  using assms by (simp_all add: list_holds_def dlseg_append)

lemma insert_frame:
  assumes "list_holds s (as @ w # bs)" "x \<notin> set (as @ w # bs)" "list_insert (Some w) x s = Some s'"
  shows "same_links (- insert x (set (as @ w # bs))) (fst s) (fst s')"
proof -
  obtain h l where s: "s = (h, l)" by (cases s)
  note nb = neighbours [OF assms(1) [unfolded s]]
  have e: "list_end (h, l) = None" using list_end_None [OF assms(1)] s by simp
  show ?thesis
  proof (cases as rule: rev_cases)
    case Nil
    then show ?thesis using assms(3) nb s by (auto simp: list_insert_def push_front_def)
  next
    case (snoc as' a)
    have "hd_or (Some a) as' \<noteq> Some w" using assms(1) snoc ends_mem(1) [of "Some a" as' w]
      by (auto simp: list_holds_def split: prod.splits)
    then show ?thesis using assms(2,3) nb s e snoc by (auto simp: list_insert_def)
  qed
qed

lemma erase_frame:
  assumes "list_holds s (as @ w # bs)" "list_erase (Some w) s = Some s'"
  shows "same_links (- set (as @ bs)) (fst s) (fst s')"
proof -
  obtain h l where s: "s = (h, l)" by (cases s)
  note nb = neighbours [OF assms(1) [unfolded s]]
  show ?thesis
  proof (cases as rule: rev_cases)
    case Nil
    then show ?thesis using assms(2) nb s by (cases bs) (auto simp: list_erase_def split: if_splits)
  next
    case (snoc as' a)
    have "hd_or (Some a) as' \<noteq> Some w" using assms(1) snoc ends_mem(1) [of "Some a" as' w]
      by (auto simp: list_holds_def split: prod.splits)
    moreover have "last_or (Some b) bs' \<noteq> Some w" if "bs = b # bs'" for b bs'
      using assms(1) that ends_mem(2) [of "Some b" bs' w] by (auto simp: list_holds_def split: prod.splits)
    ultimately show ?thesis using assms(2) nb s snoc
      by (cases bs) (auto simp: list_erase_def pop_back_def)
  qed
qed

lemma holds_replace:
  assumes "list_holds s (as @ w # bs)" "x \<notin> set (as @ w # bs)"
  shows "\<exists>s'. ReplaceStmt1WithStmt2 w (Some x) s = Some s' \<and> list_holds s' (as @ x # bs)
    \<and> nxt (fst s') w = hd_or None bs \<and> same_links (- insert x (set (as @ w # bs))) (fst s) (fst s')"
proof -
  obtain s1 where s1: "list_insert (Some w) x s = Some s1" "list_holds s1 ((as @ [x]) @ w # bs)"
    using ptr_list.insert_before [OF assms] by auto
  obtain s2 where s2: "list_erase (Some w) s1 = Some s2" "list_holds s2 ((as @ [x]) @ bs)"
    using ptr_list.remove_node [OF s1(2)] by auto
  have f: "same_links (- set ((as @ [x]) @ bs)) (fst s1) (fst s2)" by (rule erase_frame [OF s1(2) s2(1)])
  have "w \<notin> set ((as @ [x]) @ bs)" using ptr_list.distinct_nodes [OF s1(2)] by auto
  then have "nxt (fst s2) w = nxt (fst s1) w" using f by (simp add: same_links_def)
  moreover have "nxt (fst s1) w = hd_or None bs" using neighbours(1) [of "fst s1" "snd s1" "as @ [x]" w bs] s1(2) by simp
  moreover have "same_links (- insert x (set (as @ w # bs))) (fst s) (fst s2)"
    by (rule same_links_trans [OF insert_frame [OF assms s1(1)] same_links_mono [OF f]]) auto
  moreover have "ReplaceStmt1WithStmt2 w (Some x) s = Some s2" using s1(1) s2(1) assms(2)
    by (auto simp: ReplaceStmt1WithStmt2_def)
  ultimately show ?thesis using s2(2) by simp
qed

lemma splice_frame:
  assumes "two_lists s blk (as @ w # bs) ys" "list_splice (Some w) blk s = Some s'"
  shows "same_links (- (set (as @ w # bs) \<union> set ys)) (fst s) (fst s')"
proof -
  obtain h l where s: "s = (h, l)" by (cases s)
  have xs: "list_holds (h, l) (as @ w # bs)" and ys: "list_holds (h, blk) ys" "ys \<noteq> []"
    using assms(1) s by (simp_all add: two_lists_def)
  note nb = neighbours [OF xs]
  obtain y z where yz: "lfirst blk = Some y" "llast blk = Some z" "y \<in> set ys" "z \<in> set ys"
    using ys by (cases ys) (auto simp: list_holds_def last_or_def)
  have e: "list_end (h, l) = None" "lfirst l \<noteq> None" using list_end_None [OF xs] nb by simp_all
  show ?thesis
  proof (cases bs)
    case Nil
    then show ?thesis using assms(2) s nb yz e by (auto simp: list_splice_def)
  next
    case (Cons b bs')
    have "last_or (Some b) bs' \<noteq> Some w"
      using xs Cons ends_mem(2) [of "Some b" bs' w] by (auto simp: list_holds_def)
    moreover have "w \<noteq> z" "w \<noteq> y" using assms(1) yz by (auto simp: two_lists_def)
    ultimately show ?thesis using assms(2) s nb yz e Cons by (auto simp: list_splice_def)
  qed
qed

lemma holds_replace_block:
  assumes "two_lists s blk (as @ w # bs) ys"
  shows "\<exists>s'. ReplaceStmtWithBlock w blk s = Some s' \<and> list_holds s' (as @ ys @ bs)
    \<and> nxt (fst s') w = hd_or None bs \<and> same_links (- (set (as @ w # bs) \<union> set ys)) (fst s) (fst s')"
proof -
  obtain s1 where s1: "list_splice (Some w) blk s = Some s1" "list_holds s1 (as @ w # ys @ bs)"
    using ptr_list.splice_after [OF assms] by auto
  obtain h l where s2: "list_erase (Some w) s1 = Some (h, l)" "list_holds (h, l) (as @ ys @ bs)"
    using ptr_list.remove_node [OF s1(2)] by auto
  obtain zs z where ys: "ys = zs @ [z]" using assms by (cases ys rule: rev_cases) (auto simp: two_lists_def)
  have z: "llast blk = Some z" using assms ys by (auto simp: two_lists_def list_holds_def last_or_def split: prod.splits)
  have "nxt h z = hd_or None bs" using neighbours(1) [of h l "as @ zs" z bs] s2(2) ys by simp
  then have r: "ReplaceStmtWithBlock w blk s = Some (SetNext w (hd_or None bs) h, l)"
    using s1(1) s2(1) z by (simp add: ReplaceStmtWithBlock_def)
  have "w \<notin> set (as @ ys @ bs)" using ptr_list.distinct_nodes [OF s1(2)] by auto
  then have "list_holds (SetNext w (hd_or None bs) h, l) (as @ ys @ bs)"
    using s2(2) by (simp add: list_holds_def)
  moreover have "same_links (- (set (as @ w # bs) \<union> set ys)) (fst s1) h"
    using same_links_mono [OF erase_frame [OF s1(2) s2(1)], of "- (set (as @ w # bs) \<union> set ys)"] by auto
  then have "same_links (- (set (as @ w # bs) \<union> set ys)) (fst s) h"
    by (rule same_links_trans [OF splice_frame [OF assms s1(1)]])
  ultimately show ?thesis unfolding r by simp
qed

lemma delete_holds:
  assumes "list_holds s (as @ x # bs)" "p = last_or None as"
  shows "\<exists>s'. delete_stmt x p s = Some s' \<and> list_holds s' (as @ bs) \<and> same_links (- set (as @ bs)) (fst s) (fst s')"
proof -
  obtain h l where s: "s = (h, l)" by (cases s)
  note nb = neighbours [OF assms(1) [unfolded s]]
  have last_x: "last_or (Some b) bs' \<noteq> Some x" if "bs = b # bs'" for b bs'
    using assms(1) that s ends_mem(2) [of "Some b" bs' x] by (auto simp: list_holds_def)
  show ?thesis
  proof (cases as rule: rev_cases)
    case Nil
    then show ?thesis using assms nb s last_x
      by (cases bs) (auto simp: delete_stmt_def update_front_def update_back_def list_holds_def)
  next
    case (snoc as' a)
    have "hd_or (Some a) as' \<noteq> Some x" using assms(1) s snoc ends_mem(1) [of "Some a" as' x]
      by (auto simp: list_holds_def)
    then show ?thesis using assms nb s last_x snoc
      by (cases bs) (auto simp: delete_stmt_def update_back_def list_holds_def dlseg_append)
  qed
qed

section \<open>The loop as a function on the statements\<close>

fun simplified_nodes :: "(ptr \<Rightarrow> simplified) \<Rightarrow> (ptr_list \<Rightarrow> ptr list) \<Rightarrow> ptr list \<Rightarrow> ptr list" where
  "simplified_nodes simplify body [] = []"
| "simplified_nodes simplify body (x # xs) =
     (case simplify x of Stmt r \<Rightarrow> [r] | Blk b \<Rightarrow> body b | Gone \<Rightarrow> []) @ simplified_nodes simplify body xs"

text \<open>No statement is deleted right behind one that has been replaced.\<close>

fun deletes_attached :: "(ptr \<Rightarrow> simplified) \<Rightarrow> bool \<Rightarrow> ptr list \<Rightarrow> bool" where
  "deletes_attached simplify att [] = True"
| "deletes_attached simplify att (x # xs) =
     (case simplify x of
        Stmt r \<Rightarrow> deletes_attached simplify (r = x) xs
      | Blk b \<Rightarrow> deletes_attached simplify False xs
      | Gone \<Rightarrow> att \<and> deletes_attached simplify att xs)"

text \<open>The nodes that \<open>Simplify\<close> brings in for a statement.\<close>

definition new_nodes :: "(ptr \<Rightarrow> simplified) \<Rightarrow> (ptr_list \<Rightarrow> ptr list) \<Rightarrow> ptr \<Rightarrow> ptr list" where
  "new_nodes simplify body x =
     (case simplify x of Stmt r \<Rightarrow> (if r = x then [] else [r]) | Blk b \<Rightarrow> body b | Gone \<Rightarrow> [])"

definition blocks_hold :: "(ptr \<Rightarrow> simplified) \<Rightarrow> (ptr_list \<Rightarrow> ptr list) \<Rightarrow> links \<Rightarrow> ptr list \<Rightarrow> bool" where
  "blocks_hold simplify body h xs =
     (\<forall>x \<in> set xs. case simplify x of Blk b \<Rightarrow> body b \<noteq> [] \<and> list_holds (h, b) (body b) | _ \<Rightarrow> True)"

lemma simplify_loop_holds:
  assumes "list_holds st (done @ xs)" "deletes_attached simplify (p = last_or None done) xs"
    and "blocks_hold simplify body (fst st) xs"
    and "distinct (done @ xs @ concat (map (new_nodes simplify body) xs))"
    and "length xs \<le> n"
  shows "\<exists>st'. simplify_loop simplify n p (hd_or None xs) st = Some st'
    \<and> list_holds st' (done @ simplified_nodes simplify body xs)"
  using assms
proof (induction xs arbitrary: st "done" p n)
  case Nil
  then show ?case by simp
next
  case (Cons x xs)
  obtain m where n: "n = Suc m" "length xs \<le> m" using Cons.prems(5) by (cases n) auto
  let ?new = "\<lambda>x. set (new_nodes simplify body x)"
  let ?rest = "set (concat (map (new_nodes simplify body) xs))"
  have dist: "set (new_nodes simplify body x) \<inter> set (done @ x # xs) = {}"
    "?rest \<inter> (set (done @ x # xs) \<union> ?new x) = {}" "distinct (concat (map (new_nodes simplify body) xs))"
    using Cons.prems(4) by auto
  have blocks: "blocks_hold simplify body h' xs" if "same_links ?rest (fst st) h'" for h'
    unfolding blocks_hold_def
  proof (intro ballI)
    fix y
    assume y: "y \<in> set xs"
    then have b: "case simplify y of Blk b \<Rightarrow> body b \<noteq> [] \<and> list_holds (fst st, b) (body b) | _ \<Rightarrow> True"
      using Cons.prems(3) by (simp add: blocks_hold_def)
    have "set (new_nodes simplify body y) \<subseteq> ?rest" using y by auto
    then show "case simplify y of Blk b \<Rightarrow> body b \<noteq> [] \<and> list_holds (h', b) (body b) | _ \<Rightarrow> True"
      using b holds_same [OF that] by (cases "simplify y") (auto simp: new_nodes_def)
  qed
  show ?case
  proof (cases "simplify x")
    case (Stmt r)
    show ?thesis
    proof (cases "r = x")
      case True
      have "nxt (fst st) x = hd_or None xs" using neighbours(1) [of "fst st" "snd st"] Cons.prems(1) by simp
      then show ?thesis
        using Cons.IH [of st "done @ [x]" "Some x" m] Cons.prems n Stmt True blocks [of "fst st"]
        by (auto simp: ReplaceStmt1WithStmt2_def new_nodes_def)
    next
      case False
      then have r: "new_nodes simplify body x = [r]" using Stmt by (simp add: new_nodes_def)
      then have "r \<notin> set (done @ x # xs)" using dist(1) by auto
      then obtain s' where s': "ReplaceStmt1WithStmt2 x (Some r) st = Some s'" "list_holds s' (done @ r # xs)"
        "nxt (fst s') x = hd_or None xs" "same_links (- insert r (set (done @ x # xs))) (fst st) (fst s')"
        using holds_replace [OF Cons.prems(1)] by blast
      have "blocks_hold simplify body (fst s') xs"
        by (rule blocks, rule same_links_mono [OF s'(4)]) (use dist(2) r in auto)
      moreover have "(Some x = last_or None (done @ [r])) = False" using False by simp
      ultimately show ?thesis
        using Cons.IH [of s' "done @ [r]" "Some x" m] Cons.prems(2,4) n Stmt s' r False by auto
    qed
  next
    case (Blk b)
    then have r: "new_nodes simplify body x = body b" by (simp add: new_nodes_def)
    have "two_lists st b (done @ x # xs) (body b)"
      using Cons.prems(1,3) Blk dist(1) r by (auto simp: two_lists_def blocks_hold_def)
    then obtain s' where s': "ReplaceStmtWithBlock x b st = Some s'" "list_holds s' (done @ body b @ xs)"
      "nxt (fst s') x = hd_or None xs" "same_links (- (set (done @ x # xs) \<union> set (body b))) (fst st) (fst s')"
      using holds_replace_block by blast
    have "blocks_hold simplify body (fst s') xs"
      by (rule blocks, rule same_links_mono [OF s'(4)]) (use dist(2) r in auto)
    moreover have "(Some x = last_or None (done @ body b)) = False"
      using dist(1) r Cons.prems(3) Blk ends_mem(2) [of None "done @ body b" x] Cons.prems(4)
      by (auto simp: blocks_hold_def last_or_def)
    moreover have "distinct ((done @ body b) @ xs @ concat (map (new_nodes simplify body) xs))"
      using Cons.prems(4) r by auto
    moreover have "deletes_attached simplify False xs" using Cons.prems(2) Blk by simp
    ultimately show ?thesis
      using Cons.IH [of s' "done @ body b" "Some x" m] n Blk s' by simp
  next
    case Gone
    then have p: "p = last_or None done" using Cons.prems(2) by simp
    then obtain s' where s': "delete_stmt x p st = Some s'" "list_holds s' (done @ xs)"
      "same_links (- set (done @ xs)) (fst st) (fst s')"
      using delete_holds [OF Cons.prems(1)] by blast
    have "blocks_hold simplify body (fst s') xs"
      by (rule blocks, rule same_links_mono [OF s'(3)]) (use dist(2) in auto)
    moreover have "nxt (fst st) x = hd_or None xs" using neighbours(1) [of "fst st" "snd st"] Cons.prems(1) by simp
    ultimately show ?thesis
      using Cons.IH [of s' "done" p m] Cons.prems(2,4) n Gone s' p by (auto simp: new_nodes_def)
  qed
qed

section \<open>Properties\<close>

text \<open>
  C9. \<open>SimplifyBlock\<close> changes the statement list as it means to: within as many rounds as there
  are statements it ends, each statement is kept, replaced, expanded or unlinked as \<open>Simplify\<close> says,
  and the block is linked correctly both ways, as long as no statement is unlinked directly
  behind one that has been replaced.
\<close>

theorem SimplifyBlockLinks_refines:
  assumes "list_holds st xs" and "deletes_attached simplify True xs" and "blocks_hold simplify body (fst st) xs"
    and "distinct (xs @ concat (map (new_nodes simplify body) xs))" and "length xs \<le> n"
  shows "\<exists>st'. SimplifyBlockLinks simplify n st = Some st' \<and> list_holds st' (simplified_nodes simplify body xs)"
  using simplify_loop_holds [of st "[]" xs simplify None body n] assms
  by (auto simp: SimplifyBlockLinks_def list_holds_def split: prod.splits)

text \<open>Statement 1 goes away, 2 becomes 4, 3 stays.\<close>

definition sample_simplify :: "ptr \<Rightarrow> simplified" where
  "sample_simplify x = (if x = 1 then Gone else if x = 2 then Stmt 4 else Stmt x)"

theorem SimplifyBlockLinks_refines_witness:
  "\<exists>st'. SimplifyBlockLinks sample_simplify 3 (block_of [1, 2, 3] no_links) = Some st' \<and> list_holds st' [4, 3]"
  using SimplifyBlockLinks_refines [OF block_of_holds, of "[1, 2, 3]" sample_simplify "\<lambda>_. []" no_links 3]
  by (simp add: sample_simplify_def blocks_hold_def new_nodes_def)

text \<open>
  Behind a replaced statement the loop unlinks and replaces through the links of a node that is
  no longer in the block: here 1 is replaced by the block of 11, 2 is deleted, 3 is replaced by the block
  of 12. Forwards the result still has 2 and 3, backwards it has 12 and ends at the removed 1.
\<close>

definition gap_simplify :: "ptr \<Rightarrow> simplified" where
  "gap_simplify x = (if x = 1 then Blk \<lparr>lfirst = Some 11, llast = Some 11\<rparr> else if x = 2 then Gone
     else if x = 3 then Blk \<lparr>lfirst = Some 12, llast = Some 12\<rparr> else Stmt x)"

lemma SimplifyBlockLinks_gap:
  "let st = block_of [1, 2, 3, 4] (fst (block_of [12] (fst (block_of [11] no_links)))) in
     Option.bind (SimplifyBlockLinks gap_simplify 4 st) (forward 9) = Some [11, 2, 3, 4] \<and>
     Option.bind (SimplifyBlockLinks gap_simplify 4 st) (backward 9) = Some [4, 12, 1]"
  by (simp add: block_of_def no_links_def push_back_def SimplifyBlockLinks_def gap_simplify_def eval_nat_numeral
      ReplaceStmtWithBlock_def ReplaceStmt1WithStmt2_def delete_stmt_def list_splice_def list_erase_def list_end_def
      forward_def backward_def list_rend_def walk.simps Let_def)

end
