(* ===== verification/StmtFold.thy ===== *)
theory StmtFold
  imports FoldExpr Stmt
begin

text \<open>
  Constant folding of statements: \<open>ConstantFold::Simplify\<close> and the functions it dispatches to
  (mpl2mpl/src/constantfold.cpp), on the statements of \<open>Stmt\<close>. \<open>Simplify\<close> returns
  \<open>Some (Some s)\<close> for the statement that takes the place of its argument, \<open>Some None\<close> for the
  null pointer that deletes it, and \<open>None\<close> for a failure: of the folder, of splicing an empty block
  into a block, and of deleting a statement directly behind one that has been replaced, which
  leaves the block linked wrongly (\<open>BlockNode\<close> models what happens then).
\<close>

section \<open>Single statements\<close>

text \<open>\<open>Fold\<close> an operand and set it when something changed.\<close>

definition fold_opnd :: "expr \<Rightarrow> expr option" where
  "fold_opnd e = do { r \<leftarrow> Fold e; Some (case r of None \<Rightarrow> e | Some e' \<Rightarrow> e') }"

definition SimplifyDassign :: "bool \<Rightarrow> nat \<Rightarrow> prim_type \<Rightarrow> expr \<Rightarrow> stmt option option" where
  "SimplifyDassign preg x p rhs = do { rhs \<leftarrow> fold_opnd rhs; Some (Some (SAssign preg x p rhs)) }"

text \<open>\<open>regassign\<close> and \<open>eval\<close> among the statements with one operand.\<close>

definition SimplifyUnary :: "(expr \<Rightarrow> stmt) \<Rightarrow> expr \<Rightarrow> stmt option option" where
  "SimplifyUnary node opnd = do { opnd \<leftarrow> fold_opnd opnd; Some (Some (node opnd)) }"

definition SimplifyCondGoto :: "branch_op \<Rightarrow> expr \<Rightarrow> nat \<Rightarrow> stmt option option" where
  "SimplifyCondGoto op opnd l = do {
     opnd \<leftarrow> fold_opnd opnd;
     (case as_const opnd of
        None \<Rightarrow> Some (Some (SCondGoto op opnd l))
      | Some cst \<Rightarrow> do {
          v \<leftarrow> GetValueUnderType cst;
          Some (if op = OP_brtrue \<and> v \<noteq> 0 \<or> op = OP_brfalse \<and> v = 0 then Some (SGoto l) else None) }) }"

definition SimplifySwitch :: "expr \<Rightarrow> nat \<Rightarrow> (i64 \<times> nat) list \<Rightarrow> stmt option option" where
  "SimplifySwitch opnd d tbl = do {
     r \<leftarrow> Fold opnd;
     Some (Some (case r of
        None \<Rightarrow> SSwitch opnd d tbl
      | Some opnd \<Rightarrow>
          (case as_const opnd of
             None \<Rightarrow> SSwitch opnd d tbl
           | Some cst \<Rightarrow> SGoto (switch_target d tbl (ic_value cst))))) }"

text \<open>
  With the parts simplified. The body of a constant condition replaces the statement only in
  modules from Java.
\<close>

definition SimplifyIf :: "bool \<Rightarrow> expr \<Rightarrow> stmt list \<Rightarrow> stmt list option \<Rightarrow> stmt option option" where
  "SimplifyIf isJava opnd thenPart elsePart = do {
     r \<leftarrow> Fold opnd;
     Some (case r of
        None \<Rightarrow> Some (SIf opnd thenPart elsePart)
      | Some opnd \<Rightarrow>
          (case (if isJava then as_const opnd else None) of
             None \<Rightarrow> Some (SIf opnd thenPart elsePart)
           | Some cst \<Rightarrow>
               (if ic_value cst = 0 then map_option SBlock elsePart else Some (SBlock thenPart)))) }"

definition SimplifyWhile :: "bool \<Rightarrow> bool \<Rightarrow> expr \<Rightarrow> stmt list \<Rightarrow> stmt option option" where
  "SimplifyWhile isJava isWhile opnd body = (let node = (\<lambda>c. if isWhile then SWhile c body else SDoWhile body c) in do {
     r \<leftarrow> Fold opnd;
     Some (case r of
        None \<Rightarrow> Some (node opnd)
      | Some opnd \<Rightarrow>
          (case (if isJava then as_const opnd else None) of
             None \<Rightarrow> Some (node opnd)
           | Some cst \<Rightarrow>
               (if IsZero cst then (if isWhile then None else Some (SBlock body)) else Some (node opnd)))) })"

section \<open>The dispatcher and blocks\<close>

text \<open>Whether the statement returned is another node than the one given.\<close>

definition is_replaced :: "stmt \<Rightarrow> stmt \<Rightarrow> bool" where
  "is_replaced s r = (case r of SBlock b \<Rightarrow> True | SGoto l \<Rightarrow> s \<noteq> SGoto l | _ \<Rightarrow> False)"

definition block_stmts :: "stmt \<Rightarrow> stmt list option" where
  "block_stmts r = (case r of SBlock b \<Rightarrow> (if b = [] then None else Some b) | _ \<Rightarrow> Some [r])"

text \<open>\<open>attached\<close>: the statement before is still linked into the block, or there is none.\<close>

fun Simplify :: "bool \<Rightarrow> stmt \<Rightarrow> stmt option option"
  and SimplifyStmts :: "bool \<Rightarrow> bool \<Rightarrow> stmt list \<Rightarrow> stmt list option" where
  "Simplify isJava (SAssign preg x p e) =
     (if preg then SimplifyUnary (SAssign True x p) e else SimplifyDassign False x p e)"
| "Simplify isJava (SEval e) = SimplifyUnary SEval e"
| "Simplify isJava (SCondGoto op c l) = SimplifyCondGoto op c l"
| "Simplify isJava (SSwitch e d tbl) = SimplifySwitch e d tbl"
| "Simplify isJava (SIf c t None) = do {
     t \<leftarrow> SimplifyStmts isJava True t;
     SimplifyIf isJava c t None }"
| "Simplify isJava (SIf c t (Some e)) = do {
     t \<leftarrow> SimplifyStmts isJava True t;
     e \<leftarrow> SimplifyStmts isJava True e;
     SimplifyIf isJava c t (Some e) }"
| "Simplify isJava (SWhile c b) = do { b \<leftarrow> SimplifyStmts isJava True b; SimplifyWhile isJava True c b }"
| "Simplify isJava (SDoWhile b c) = do { b \<leftarrow> SimplifyStmts isJava True b; SimplifyWhile isJava False c b }"
| "Simplify isJava (SBlock b) = do { b \<leftarrow> SimplifyStmts isJava True b; Some (Some (SBlock b)) }"
| "Simplify isJava s = Some (Some s)"
| "SimplifyStmts isJava attached [] = Some []"
| "SimplifyStmts isJava attached (s # ss) = do {
     r \<leftarrow> Simplify isJava s;
     (case r of
        None \<Rightarrow> (if attached then SimplifyStmts isJava attached ss else None)
      | Some r \<Rightarrow> do {
          b \<leftarrow> block_stmts r;
          bs \<leftarrow> SimplifyStmts isJava (\<not> is_replaced s r) ss;
          Some (b @ bs) }) }"

text \<open>\<open>SimplifyBlock\<close>, and \<open>ProcessFunc\<close> on the body of a function that has one.\<close>

definition SimplifyBlock :: "bool \<Rightarrow> stmt list \<Rightarrow> stmt list option" where
  "SimplifyBlock isJava b = SimplifyStmts isJava True b"

definition ProcessFunc :: "bool \<Rightarrow> stmt list option \<Rightarrow> stmt list option option" where
  "ProcessFunc isJava body =
     (case body of None \<Rightarrow> Some None | Some b \<Rightarrow> map_option Some (SimplifyBlock isJava b))"

end
