(* ===== verification/StmtFoldSound.thy ===== *)
theory StmtFoldSound
  imports StmtFold FoldSound MirLowerSound
begin

text \<open>
  Folding statements preserves what they do, and what they do after they are lowered to branches.
\<close>

section \<open>Statements whose operands fold\<close>

definition opnd_ok :: "expr \<Rightarrow> bool" where
  "opnd_ok e = (wt e \<and> fold_safe e)"

text \<open>
  The tags of a switch are compared with the 64-bit value of the operand, which depends on the
  signedness of its type; folding must not change that.
\<close>

definition keeps_sign :: "expr \<Rightarrow> bool" where
  "keeps_sign e =
     (case Fold e of Some (Some e') \<Rightarrow> IsSignedInteger (GetPrimType e') = IsSignedInteger (GetPrimType e) | _ \<Rightarrow> True)"

fun stmt_ok :: "stmt \<Rightarrow> bool" and stmts_ok :: "stmt list \<Rightarrow> bool" where
  "stmt_ok (SAssign preg x p e) = (opnd_ok e \<and> scalar_int p \<and> GetPrimTypeSize p \<le> esize e)"
| "stmt_ok (SEval e) = opnd_ok e"
| "stmt_ok (SCondGoto op c l) = opnd_ok c"
| "stmt_ok (SSwitch e d tbl) = (opnd_ok e \<and> keeps_sign e)"
| "stmt_ok (SIf c t None) = (opnd_ok c \<and> stmts_ok t)"
| "stmt_ok (SIf c t (Some e)) = (opnd_ok c \<and> stmts_ok t \<and> stmts_ok e)"
| "stmt_ok (SWhile c b) = (opnd_ok c \<and> stmts_ok b)"
| "stmt_ok (SDoWhile b c) = (opnd_ok c \<and> stmts_ok b)"
| "stmt_ok (SBlock b) = stmts_ok b"
| "stmt_ok s = True"
| "stmts_ok [] = True"
| "stmts_ok (s # ss) = (stmt_ok s \<and> stmts_ok ss)"

section \<open>Operands\<close>

lemma Fold_value:
  assumes "opnd_ok e" "eval \<rho> e = Some v" "Fold e = Some (Some e')"
  shows "wt e' \<and> esize e' = esize e \<and> (\<exists>w. eval \<rho> e' = Some w \<and> take_bit (ebits e) w = take_bit (ebits e) v
    \<and> (w = 0 \<longleftrightarrow> v = 0))"
  using Fold_sim [of e \<rho> v] assms by (auto simp: opnd_ok_def FoldSteps.sim_def same_value_def)

lemma fold_opnd_value:
  assumes "opnd_ok e" "eval \<rho> e = Some v" "fold_opnd e = Some e'"
  shows "wt e' \<and> esize e' = esize e \<and> (\<exists>w. eval \<rho> e' = Some w \<and> take_bit (ebits e) w = take_bit (ebits e) v
    \<and> (w = 0 \<longleftrightarrow> v = 0))"
proof (cases "Fold e")
  case (Some r)
  then show ?thesis using Fold_value [OF assms(1,2)] assms
    by (cases r) (auto simp: fold_opnd_def opnd_ok_def)
qed (use assms in \<open>simp add: fold_opnd_def\<close>)

lemma norm_assigned:
  assumes "scalar_int p" "scalar_int q" "GetPrimTypeSize p \<le> GetPrimTypeSize q" "take_bit (tbits q) w = take_bit (tbits q) v"
  shows "norm p w = norm p v"
proof -
  have "tbits p \<le> tbits q" using assms(1-3) by (simp add: tbits_size)
  then show ?thesis using assms(1,4) take_bit_cong_le by (metis norm_eq_iff)
qed

lemma const_value_eq:
  assumes "wt e" "as_const e = Some c" "eval \<rho> e = Some w"
  shows "w = ic_value c" "GetValueUnderType c = Some (ic_value c)" "IsZero c \<longleftrightarrow> ic_value c = 0"
proof -
  obtain p where e: "e = EConst p c" "scalar_int p" "ic_type c = p" "norm p (ic_value c) = ic_value c"
    using assms(1,2) by auto
  show "w = ic_value c" using assms(3) e by (auto dest: at_type_Some)
  have b: "tbits p = GetPrimTypeBitSize p" "p \<noteq> PTY_u128" "p \<noteq> PTY_i128"
  proof -
    show "p \<noteq> PTY_u128" "p \<noteq> PTY_i128" using e(2) by auto
    show "tbits p = GetPrimTypeBitSize p" using e(2) by (auto simp: scalar_int_def tbits_def GetPrimTypeBitSize_def)
  qed
  have "GetNonDynType p = p" using e(2) by (erule_tac scalar_intE) (simp_all add: GetNonDynType_def)
  then have "GetValueUnderType c = Some (norm p (ic_value c))"
    using tbits_bounds [OF e(2)] b(2,3) e(3)
    by (simp add: GetValueUnderType_def norm_def b(1) [symmetric] shift_back_signed shift_back_unsigned Let_def)
  then show "GetValueUnderType c = Some (ic_value c)" by (simp only: e(4))
  show "IsZero c \<longleftrightarrow> ic_value c = 0" using e(2,3) by (simp add: IsZero_def scalar_int_integer)
qed

section \<open>What a simplified statement does\<close>

definition result :: "stmt option \<Rightarrow> env \<Rightarrow> outcome \<Rightarrow> env \<Rightarrow> bool" where
  "result r \<rho> out \<rho>' = (case r of None \<Rightarrow> out = Normal \<and> \<rho>' = \<rho> | Some s \<Rightarrow> exec s \<rho> out \<rho>')"

lemma result_simps [simp]:
  "result None \<rho> out \<rho>' \<longleftrightarrow> out = Normal \<and> \<rho>' = \<rho>" "result (Some s) \<rho> out \<rho>' \<longleftrightarrow> exec s \<rho> out \<rho>'"
  by (simp_all add: result_def)

lemma assign_result:
  assumes "opnd_ok e" "scalar_int p" "GetPrimTypeSize p \<le> esize e" "eval \<rho> e = Some v" "fold_opnd e = Some e'"
  shows "exec (SAssign preg x p e') \<rho> Normal (\<rho>(x := norm p v))"
proof -
  obtain w where w: "eval \<rho> e' = Some w" "take_bit (ebits e) w = take_bit (ebits e) v"
    using fold_opnd_value [OF assms(1,4,5)] by blast
  have "norm p w = norm p v"
    using norm_assigned [OF assms(2) _ assms(3) w(2)] assms(1) wt_scalar by (simp add: opnd_ok_def)
  then show ?thesis using exec_by_execs_by.Assign [where ev = eval, OF w(1), of preg x p] by simp
qed

lemma cond_goto_result:
  assumes "opnd_ok c" "eval \<rho> c = Some v" "SimplifyCondGoto br c l = Some r"
  shows "result r \<rho> (if taken br v then Jump l else Normal) \<rho>"
proof -
  obtain c' where c': "fold_opnd c = Some c'" using assms(3) by (auto simp: SimplifyCondGoto_def bind_eq_Some_conv)
  then obtain w where w: "wt c'" "eval \<rho> c' = Some w" "w = 0 \<longleftrightarrow> v = 0" using fold_opnd_value [OF assms(1,2)] by blast
  have t: "taken br w = taken br v" using w(3) by (cases br) (simp_all add: taken_def)
  show ?thesis
  proof (cases "as_const c'")
    case None
    then have "r = Some (SCondGoto br c' l)" using assms(3) c' by (simp add: SimplifyCondGoto_def)
    then show ?thesis using w(2) t by (auto intro: exec_by_execs_by.CondTaken exec_by_execs_by.CondNot)
  next
    case (Some k)
    have r: "r = (if taken br w then Some (SGoto l) else None)"
      using assms(3) c' Some const_value_eq [OF w(1) Some w(2)]
      by (cases br) (auto simp: SimplifyCondGoto_def taken_def)
    then show ?thesis using t by (auto intro: exec_by_execs_by.Goto)
  qed
qed

lemma switch_result:
  assumes "opnd_ok e" "keeps_sign e" "eval \<rho> e = Some v" "SimplifySwitch e d tbl = Some r"
  shows "result r \<rho> (Jump (switch_target d tbl v)) \<rho>"
proof (cases "Fold e")
  case (Some f)
  show ?thesis
  proof (cases f)
    case None
    then show ?thesis using Some assms by (auto simp: SimplifySwitch_def intro: exec_by_execs_by.Switch)
  next
    case (Some e')
    then obtain w where w: "wt e'" "esize e' = esize e" "eval \<rho> e' = Some w" "take_bit (ebits e) w = take_bit (ebits e) v"
      using Fold_value [OF assms(1,3)] \<open>Fold e = Some f\<close> by blast
    have e: "wt e" using assms(1) by (simp add: opnd_ok_def)
    have "norm (GetPrimType e) x = norm (GetPrimType e') x" for x
      using assms(2) \<open>Fold e = Some f\<close> Some esize_tbits [OF w(1) e w(2)] by (simp add: keeps_sign_def norm_def)
    then have "w = v" using eval_canonical [OF w(1,3)] eval_canonical [OF e assms(3)] w(4) norm_eq_iff [OF wt_scalar [OF e], of w v]
      by simp
    then show ?thesis using assms(4) \<open>Fold e = Some f\<close> Some w const_value_eq(1) [OF w(1) _ w(3)]
      by (auto simp: SimplifySwitch_def intro: exec_by_execs_by.Switch exec_by_execs_by.Goto split: option.splits)
  qed
qed (use assms in \<open>simp add: SimplifySwitch_def\<close>)

text \<open>The operand of an \<open>if\<close> or a loop after folding, and whether it is a constant.\<close>

lemma test_value:
  assumes "opnd_ok c" "eval \<rho> c = Some v" "Fold c = Some (Some c')"
  obtains w where "eval \<rho> c' = Some w" "w = 0 \<longleftrightarrow> v = 0"
    "\<And>k. as_const c' = Some k \<Longrightarrow> (ic_value k = 0 \<longleftrightarrow> v = 0) \<and> (IsZero k \<longleftrightarrow> v = 0)"
  using Fold_value [OF assms] const_value_eq [of c' _ \<rho>] by metis

lemma if_result:
  assumes "opnd_ok c" "eval \<rho> c = Some v" "SimplifyIf java c t e = Some r"
    and "if v \<noteq> 0 then execs t \<rho> out \<rho>' else execs (else_part e) \<rho> out \<rho>'"
  shows "result r \<rho> out \<rho>'"
proof -
  have keep: "exec (SIf c' t e) \<rho> out \<rho>'" if "eval \<rho> c' = Some w" "w = 0 \<longleftrightarrow> v = 0" for c' w
    using that assms(4) by (cases "w = 0") (auto intro: exec_by_execs_by.IfTrue exec_by_execs_by.IfFalse)
  obtain f where f: "Fold c = Some f" using assms(3) by (auto simp: SimplifyIf_def bind_eq_Some_conv)
  show ?thesis
  proof (cases f)
    case None
    then show ?thesis using f assms(2,3) keep by (auto simp: SimplifyIf_def)
  next
    case (Some c')
    obtain w where w: "eval \<rho> c' = Some w" "w = 0 \<longleftrightarrow> v = 0"
      "\<And>k. as_const c' = Some k \<Longrightarrow> (ic_value k = 0 \<longleftrightarrow> v = 0) \<and> (IsZero k \<longleftrightarrow> v = 0)"
      using test_value [OF assms(1,2)] f Some by blast
    show ?thesis
    proof (cases "if java then as_const c' else None")
      case None
      then show ?thesis using f Some assms(3) keep [OF w(1,2)] by (auto simp: SimplifyIf_def)
    next
      case (Some k)
      then have "as_const c' = Some k" by (simp split: if_splits)
      then show ?thesis using f \<open>f = Some c'\<close> assms(3,4) w(3) Some
        by (cases e) (auto simp: SimplifyIf_def intro!: exec_by_execs_by.Block split: if_splits)
    qed
  qed
qed

lemma while_result:
  assumes "opnd_ok c" "eval \<rho> c = Some v" "SimplifyWhile java True c b = Some r"
  shows "\<exists>c' w. (r = Some (SWhile c' b) \<or> r = None \<and> v = 0) \<and> eval \<rho> c' = Some w \<and> (w = 0 \<longleftrightarrow> v = 0)"
proof -
  obtain f where f: "Fold c = Some f" using assms(3) by (auto simp: SimplifyWhile_def bind_eq_Some_conv Let_def)
  show ?thesis
  proof (cases f)
    case None
    then show ?thesis using f assms(2,3) by (auto simp: SimplifyWhile_def Let_def)
  next
    case (Some c')
    obtain w where "eval \<rho> c' = Some w" "w = 0 \<longleftrightarrow> v = 0"
      "\<And>k. as_const c' = Some k \<Longrightarrow> (ic_value k = 0 \<longleftrightarrow> v = 0) \<and> (IsZero k \<longleftrightarrow> v = 0)"
      using test_value [OF assms(1,2)] f Some by blast
    moreover have "r = Some (SWhile c' b) \<or> r = None \<and> (\<exists>k. as_const c' = Some k \<and> IsZero k)"
      using f Some assms(3) by (auto simp: SimplifyWhile_def Let_def split: option.splits if_splits)
    ultimately show ?thesis by blast
  qed
qed

lemma dowhile_result:
  assumes "SimplifyWhile java False c b = Some r"
  shows "\<exists>c'. (r = Some (SDoWhile b c') \<or> r = Some (SBlock b)) \<and>
    (\<forall>\<rho> v. opnd_ok c \<longrightarrow> eval \<rho> c = Some v \<longrightarrow>
      (\<exists>w. eval \<rho> c' = Some w \<and> (w = 0 \<longleftrightarrow> v = 0)) \<and> (r = Some (SBlock b) \<longrightarrow> v = 0))"
proof -
  obtain f where f: "Fold c = Some f" using assms by (auto simp: SimplifyWhile_def bind_eq_Some_conv Let_def)
  show ?thesis
  proof (cases f)
    case None
    then show ?thesis using f assms by (auto simp: SimplifyWhile_def Let_def)
  next
    case (Some c')
    have r: "r = Some (SDoWhile b c') \<or> r = Some (SBlock b) \<and> (\<exists>k. as_const c' = Some k \<and> IsZero k)"
      using f Some assms by (auto simp: SimplifyWhile_def Let_def split: option.splits if_splits)
    have "(\<exists>w. eval \<rho> c' = Some w \<and> (w = 0 \<longleftrightarrow> v = 0)) \<and> (r = Some (SBlock b) \<longrightarrow> v = 0)"
      if o: "opnd_ok c" and v: "eval \<rho> c = Some v" for \<rho> v
    proof -
      obtain w where "eval \<rho> c' = Some w" "w = 0 \<longleftrightarrow> v = 0"
        "\<And>k. as_const c' = Some k \<Longrightarrow> (ic_value k = 0 \<longleftrightarrow> v = 0) \<and> (IsZero k \<longleftrightarrow> v = 0)"
        using test_value [OF o v] f Some by blast
      then show ?thesis using r by blast
    qed
    then show ?thesis using r by blast
  qed
qed

lemma execs_single: "exec r \<rho> out \<rho>' \<Longrightarrow> execs [r] \<rho> out \<rho>'"
  by (cases "out = Normal", simp, rule exec_by_execs_by.Cons, assumption, rule exec_by_execs_by.Nil)
    (rule exec_by_execs_by.ConsExit)

lemma block_stmts_exec:
  assumes "exec r \<rho> out \<rho>'" "block_stmts r = Some b"
  shows "execs b \<rho> out \<rho>'"
proof (cases "\<exists>b'. r = SBlock b'")
  case True
  then show ?thesis using assms by (auto simp: block_stmts_def split: if_splits)
next
  case False
  then have "b = [r]" using assms(2) by (cases r) (auto simp: block_stmts_def)
  then show ?thesis using execs_single [OF assms(1)] by simp
qed

lemma simplified_cons:
  assumes s: "SimplifyStmts java att (s # ss) = Some ss'" "\<And>r. Simplify java s = Some r \<Longrightarrow> result r \<rho> out \<sigma>"
    and n: "\<And>att ss2. out = Normal \<Longrightarrow> SimplifyStmts java att ss = Some ss2 \<Longrightarrow> execs ss2 \<sigma> out' \<rho>'"
    and x: "out \<noteq> Normal \<Longrightarrow> out' = out \<and> \<rho>' = \<sigma>"
  shows "execs ss' \<rho> out' \<rho>'"
proof -
  obtain r where r: "Simplify java s = Some r" using s(1) by (auto simp: bind_eq_Some_conv)
  show ?thesis
  proof (cases r)
    case None
    then have "SimplifyStmts java att ss = Some ss'" using s(1) r by (auto split: if_splits)
    then show ?thesis using n s(2) [OF r] None by auto
  next
    case (Some s')
    obtain b bs where b: "block_stmts s' = Some b" "SimplifyStmts java (\<not> is_replaced s s') ss = Some bs" "ss' = b @ bs"
      using s(1) r Some by (auto simp: bind_eq_Some_conv)
    have e: "execs b \<rho> out \<sigma>" using block_stmts_exec [OF _ b(1)] s(2) [OF r] Some by simp
    show ?thesis
    proof (cases "out = Normal")
      case True
      then show ?thesis using e n [OF True b(2)] by (auto simp: b(3) execs_append)
    next
      case False
      then show ?thesis using e x [OF False] by (auto simp: b(3) execs_append)
    qed
  qed
qed

section \<open>Whole statements\<close>

lemma simplify_exec:
  "exec s \<rho> out \<rho>' \<Longrightarrow> \<forall>java r. stmt_ok s \<longrightarrow> Simplify java s = Some r \<longrightarrow> result r \<rho> out \<rho>'"
  "execs ss \<rho> out \<rho>' \<Longrightarrow> \<forall>java att ss'. stmts_ok ss \<longrightarrow> SimplifyStmts java att ss = Some ss' \<longrightarrow> execs ss' \<rho> out \<rho>'"
proof (induction rule: exec_by_execs_by.inducts)
  case (Assign \<rho> e v preg x p)
  show ?case
  proof (intro allI impI)
    fix java r
    assume ok: "stmt_ok (SAssign preg x p e)" and "Simplify java (SAssign preg x p e) = Some r"
    then obtain e' where "fold_opnd e = Some e'" "r = Some (SAssign preg x p e')"
      by (cases preg) (auto simp: SimplifyUnary_def SimplifyDassign_def bind_eq_Some_conv)
    then show "result r \<rho> Normal (\<rho>(x := norm p v))" using assign_result [OF _ _ _ Assign] ok by simp
  qed
next
  case (Eval \<rho> e v)
  then show ?case using fold_opnd_value [of e \<rho> v]
    by (auto simp: SimplifyUnary_def bind_eq_Some_conv intro: exec_by_execs_by.Eval)
next
  case (CondTaken \<rho> c v br l)
  then show ?case using cond_goto_result [of c \<rho> v br l] by auto
next
  case (CondNot \<rho> c v br l)
  then show ?case using cond_goto_result [of c \<rho> v br l] by auto
next
  case (Switch \<rho> e v d tbl)
  then show ?case using switch_result [of e \<rho> v d tbl] by auto
next
  case (IfTrue \<rho> c v t out \<rho>' e)
  then show ?case
    by (cases e) (auto simp: bind_eq_Some_conv intro!: if_result)
next
  case (IfFalse \<rho> c e out \<rho>' t)
  then show ?case
    by (cases e) (auto simp: bind_eq_Some_conv intro!: if_result exec_by_execs_by.Nil)
next
  case (WhileFalse \<rho> c b)
  then show ?case by (auto simp: bind_eq_Some_conv dest!: while_result intro: exec_by_execs_by.WhileFalse)
next
  case (WhileTrue \<rho> c v b \<rho>' out \<rho>'')
  show ?case
  proof (intro allI impI)
    fix java r
    assume ok: "stmt_ok (SWhile c b)" and r: "Simplify java (SWhile c b) = Some r"
    then obtain b' where b': "SimplifyStmts java True b = Some b'" "SimplifyWhile java True c b' = Some r"
      by (auto simp: bind_eq_Some_conv)
    obtain c' w where c': "r = Some (SWhile c' b')" "eval \<rho> c' = Some w" "w \<noteq> 0"
      using while_result [OF _ WhileTrue(1) b'(2)] ok \<open>v \<noteq> 0\<close> by auto
    moreover have "execs b' \<rho> Normal \<rho>'" using WhileTrue ok b'(1) by auto
    moreover have "result r \<rho>' out \<rho>''" using WhileTrue ok r by blast
    ultimately show "result r \<rho> out \<rho>''" by (auto intro: exec_by_execs_by.WhileTrue)
  qed
next
  case (WhileExit \<rho> c v b out \<rho>')
  then show ?case
    by (auto simp: bind_eq_Some_conv dest!: while_result) (metis exec_by_execs_by.WhileExit)
next
  case (DoWhileFalse b \<rho> \<rho>' c)
  show ?case
  proof (intro allI impI)
    fix java r
    assume ok: "stmt_ok (SDoWhile b c)" and "Simplify java (SDoWhile b c) = Some r"
    then obtain b' where b': "SimplifyStmts java True b = Some b'" "SimplifyWhile java False c b' = Some r"
      by (auto simp: bind_eq_Some_conv)
    have "execs b' \<rho> Normal \<rho>'" using DoWhileFalse ok b'(1) by auto
    then show "result r \<rho> Normal \<rho>'" using dowhile_result [OF b'(2)] ok DoWhileFalse
      by auto (metis exec_by_execs_by.DoWhileFalse, rule exec_by_execs_by.Block)
  qed
next
  case (DoWhileTrue b \<rho> \<rho>' c v out \<rho>'')
  show ?case
  proof (intro allI impI)
    fix java r
    assume ok: "stmt_ok (SDoWhile b c)" and r: "Simplify java (SDoWhile b c) = Some r"
    then obtain b' where b': "SimplifyStmts java True b = Some b'" "SimplifyWhile java False c b' = Some r"
      by (auto simp: bind_eq_Some_conv)
    have opnd: "opnd_ok c" using ok by simp
    obtain c' w where c': "r = Some (SDoWhile b' c')" "eval \<rho>' c' = Some w" "w \<noteq> 0"
      using dowhile_result [OF b'(2)] opnd \<open>eval \<rho>' c = Some v\<close> \<open>v \<noteq> 0\<close> by metis
    moreover have "execs b' \<rho> Normal \<rho>'" using DoWhileTrue ok b'(1) by auto
    moreover have "result r \<rho>' out \<rho>''" using DoWhileTrue ok r by blast
    ultimately show "result r \<rho> out \<rho>''" by (auto intro: exec_by_execs_by.DoWhileTrue)
  qed
next
  case (DoWhileExit b \<rho> out \<rho>' c)
  then show ?case
    by (auto simp: bind_eq_Some_conv dest!: dowhile_result intro!: exec_by_execs_by.DoWhileExit exec_by_execs_by.Block)
next
  case (Doloop \<rho> s v c b r x p i out \<rho>')
  then show ?case by (auto intro: exec_by_execs_by.Doloop)
next
  case (Block b \<rho> out \<rho>')
  then show ?case by (auto simp: bind_eq_Some_conv intro!: exec_by_execs_by.Block)
next
  case (Cons s \<rho> \<rho>' ss out \<rho>'')
  have "execs ss' \<rho> out \<rho>''" if "stmts_ok (s # ss)" "SimplifyStmts java att (s # ss) = Some ss'" for java att ss'
  proof (rule simplified_cons [OF that(2), where out = Normal and \<sigma> = \<rho>'])
    show "result r \<rho> Normal \<rho>'" if "Simplify java s = Some r" for r using Cons that \<open>stmts_ok (s # ss)\<close> by simp
    show "execs ss2 \<rho>' out \<rho>''" if "SimplifyStmts java att ss = Some ss2" for att ss2
      using Cons that \<open>stmts_ok (s # ss)\<close> by simp
  qed simp
  then show ?case by blast
next
  case (ConsExit s \<rho> out \<rho>' ss)
  have "execs ss' \<rho> out \<rho>'" if "stmts_ok (s # ss)" "SimplifyStmts java att (s # ss) = Some ss'" for java att ss'
  proof (rule simplified_cons [OF that(2), where out = out and \<sigma> = \<rho>'])
    show "result r \<rho> out \<rho>'" if "Simplify java s = Some r" for r using ConsExit that \<open>stmts_ok (s # ss)\<close> by simp
  qed (use ConsExit in simp_all)
  then show ?case by blast
qed (auto intro: exec_by_execs_by.intros)

section \<open>When simplification succeeds\<close>

text \<open>
  A statement is deleted when it is a branch that is never taken, and replaced when it is a branch or a
  switch that becomes a \<open>goto\<close>; in a module that is not from Java no other statement is. \<open>tidy \<sigma> br ss\<close>: no
  conditional branch stands directly behind a branch or a switch (\<open>br\<close>: the list does), no block is nested
  in the list, and every operand has a value in \<open>\<sigma>\<close>, so that folding it does not fail.
\<close>

definition is_branch :: "stmt \<Rightarrow> bool" where
  "is_branch s = (case s of SCondGoto op c l \<Rightarrow> True | SSwitch e d tbl \<Rightarrow> True | _ \<Rightarrow> False)"

definition is_cond :: "stmt \<Rightarrow> bool" where
  "is_cond s = (case s of SCondGoto op c l \<Rightarrow> True | _ \<Rightarrow> False)"

fun tidy_stmt :: "env \<Rightarrow> stmt \<Rightarrow> bool" and tidy :: "env \<Rightarrow> bool \<Rightarrow> stmt list \<Rightarrow> bool" where
  "tidy_stmt \<sigma> (SAssign preg x p e) = (eval \<sigma> e \<noteq> None)"
| "tidy_stmt \<sigma> (SEval e) = (eval \<sigma> e \<noteq> None)"
| "tidy_stmt \<sigma> (SCondGoto op c l) = (eval \<sigma> c \<noteq> None)"
| "tidy_stmt \<sigma> (SSwitch e d tbl) = (eval \<sigma> e \<noteq> None)"
| "tidy_stmt \<sigma> (SIf c t None) = (eval \<sigma> c \<noteq> None \<and> tidy \<sigma> False t)"
| "tidy_stmt \<sigma> (SIf c t (Some e)) = (eval \<sigma> c \<noteq> None \<and> tidy \<sigma> False t \<and> tidy \<sigma> False e)"
| "tidy_stmt \<sigma> (SWhile c b) = (eval \<sigma> c \<noteq> None \<and> tidy \<sigma> False b)"
| "tidy_stmt \<sigma> (SDoWhile b c) = (eval \<sigma> c \<noteq> None \<and> tidy \<sigma> False b)"
| "tidy_stmt \<sigma> (SBlock b) = False"
| "tidy_stmt \<sigma> s = True"
| "tidy \<sigma> br [] = True"
| "tidy \<sigma> br (s # ss) = (tidy_stmt \<sigma> s \<and> (br \<longrightarrow> \<not> is_cond s) \<and> tidy \<sigma> (is_branch s) ss)"

lemma Fold_total: "opnd_ok e \<Longrightarrow> eval \<sigma> e \<noteq> None \<Longrightarrow> \<exists>r. Fold e = Some r"
  using Fold_sim [of e \<sigma>] by (auto simp: opnd_ok_def)

lemma fold_opnd_total: "opnd_ok e \<Longrightarrow> eval \<sigma> e \<noteq> None \<Longrightarrow> \<exists>e'. fold_opnd e = Some e'"
  using Fold_total [of e \<sigma>] by (auto simp: fold_opnd_def)

lemma cond_goto_total:
  assumes "opnd_ok c" "eval \<sigma> c \<noteq> None"
  shows "\<exists>r. SimplifyCondGoto op c l = Some r \<and> (\<forall>b. r \<noteq> Some (SBlock b))"
proof -
  obtain v where v: "eval \<sigma> c = Some v" using assms(2) by blast
  obtain c' where f: "fold_opnd c = Some c'" using fold_opnd_total [OF assms] by blast
  from fold_opnd_value [OF assms(1) v f] obtain w where w: "wt c'" "eval \<sigma> c' = Some w" by blast
  show ?thesis
  proof (cases "as_const c'")
    case (Some k)
    then show ?thesis using const_value_eq(2) [OF w(1) Some w(2)] Some f by (auto simp: SimplifyCondGoto_def)
  qed (simp add: SimplifyCondGoto_def f)
qed

definition simple_result :: "stmt \<Rightarrow> stmt option \<Rightarrow> bool" where
  "simple_result s r = ((\<forall>b. r \<noteq> Some (SBlock b)) \<and> (r = None \<longrightarrow> is_cond s) \<and>
     (\<forall>s'. r = Some s' \<longrightarrow> is_replaced s s' \<longrightarrow> is_branch s))"

lemma if_total: "Fold c = Some f \<Longrightarrow> \<exists>r. SimplifyIf False c t e = Some r \<and> simple_result (SIf c' t' e') r"
  by (cases f) (auto simp: SimplifyIf_def simple_result_def is_replaced_def)

lemma while_total:
  assumes "Fold c = Some f"
  shows "\<exists>r. SimplifyWhile False w c b = Some r \<and> simple_result s r"
  using assms by (cases f) (auto simp: SimplifyWhile_def simple_result_def is_replaced_def Let_def)

lemma simplify_total:
  "stmt_ok s \<Longrightarrow> tidy_stmt \<sigma> s \<Longrightarrow> \<not> java \<Longrightarrow> \<exists>r. Simplify java s = Some r \<and> simple_result s r"
  "stmts_ok ss \<Longrightarrow> tidy \<sigma> br ss \<Longrightarrow> \<not> java \<Longrightarrow> att \<or> br \<Longrightarrow> \<exists>ss'. SimplifyStmts java att ss = Some ss'"
proof (induction java s and java att ss arbitrary: and br rule: Simplify_SimplifyStmts.induct)
  case (1 java preg x p e)
  then obtain e' where "fold_opnd e = Some e'" using fold_opnd_total by auto
  then show ?case by (simp add: SimplifyUnary_def SimplifyDassign_def simple_result_def is_replaced_def)
next
  case (2 java e)
  then obtain e' where "fold_opnd e = Some e'" using fold_opnd_total by auto
  then show ?case by (simp add: SimplifyUnary_def simple_result_def is_replaced_def)
next
  case (3 java op c l)
  then show ?case using cond_goto_total [of c \<sigma> op l] by (auto simp: simple_result_def is_cond_def is_branch_def)
next
  case (4 java e d tbl)
  then obtain f where "Fold e = Some f" using Fold_total by auto
  then show ?case by (cases f) (auto simp: SimplifySwitch_def simple_result_def is_branch_def split: option.splits)
next
  case (5 java c t)
  then obtain t' f where "SimplifyStmts java True t = Some t'" "Fold c = Some f" using Fold_total [of c \<sigma>] by fastforce
  then show ?case using if_total [of c f t' None c t None] 5(4) by simp
next
  case (6 java c t e)
  then obtain t' e' f where "SimplifyStmts java True t = Some t'" "SimplifyStmts java True e = Some e'" "Fold c = Some f"
    using Fold_total [of c \<sigma>] by fastforce
  then show ?case using if_total [of c f t' "Some e'" c t "Some e"] 6(5) by simp
next
  case (7 java c b)
  then obtain b' f where "SimplifyStmts java True b = Some b'" "Fold c = Some f" using Fold_total [of c \<sigma>] by fastforce
  then show ?case using while_total [of c f True b'] 7(4) by simp
next
  case (8 java b c)
  then obtain b' f where "SimplifyStmts java True b = Some b'" "Fold c = Some f" using Fold_total [of c \<sigma>] by fastforce
  then show ?case using while_total [of c f False b'] 8(4) by simp
next
  case (12 java att s ss)
  obtain r where r: "Simplify java s = Some r" "simple_result s r" using 12(1,4,5,6) by auto
  show ?case
  proof (cases r)
    case None
    then have "att" using r(2) 12(5,7) by (auto simp: simple_result_def)
    then show ?thesis using 12(2) [OF r(1) None, of "is_branch s"] 12(4-6) r(1) None by simp
  next
    case (Some s')
    then have b: "block_stmts s' = Some [s']" using r(2) by (cases s') (auto simp: simple_result_def block_stmts_def)
    have "\<not> is_replaced s s' \<or> is_branch s" using r(2) Some by (auto simp: simple_result_def)
    then show ?thesis using 12(3) [OF r(1) Some b, of "is_branch s"] 12(4-6) r(1) Some b by auto
  qed
qed (auto simp: simple_result_def is_replaced_def)

lemma SimplifyBlock_total:
  "stmts_ok b \<Longrightarrow> \<not> java \<and> tidy \<sigma> False b \<or> SimplifyBlock java b \<noteq> None \<Longrightarrow> \<exists>b'. SimplifyBlock java b = Some b'"
  using simplify_total(2) [of b \<sigma> False java True] by (auto simp: SimplifyBlock_def)

text \<open>
  C21. Constant folding of a block does not change what it does. The condition is on its operands
  (\<open>stmts_ok\<close>): they are well typed, folding them takes no branch that loses information (\<open>fold_safe\<close>, see
  FoldFindings), an assignment is not wider than the operand, and the operand of a switch keeps its
  signedness. Simplification succeeds on a \<open>tidy\<close> block of a module that is not from Java; elsewhere
  that it succeeds is a condition (it fails on an empty taken part and on a deletion directly behind a
  replaced statement). Whatever way the source leaves the block, the simplified block leaves it the same
  way, with the same values in the variables, and no other way.
\<close>

theorem SimplifyBlock_sound:
  assumes "stmts_ok b" "execs b \<rho> out \<rho>'" "\<not> java \<and> tidy \<sigma> False b \<or> SimplifyBlock java b \<noteq> None"
  shows "\<exists>b'. SimplifyBlock java b = Some b' \<and> (\<forall>out2 \<rho>2. execs b' \<rho> out2 \<rho>2 \<longleftrightarrow> out2 = out \<and> \<rho>2 = \<rho>')"
proof -
  obtain b' where b': "SimplifyBlock java b = Some b'" using SimplifyBlock_total [OF assms(1,3)] by blast
  then have "execs b' \<rho> out \<rho>'" using simplify_exec(2) [OF assms(2)] assms(1) by (simp add: SimplifyBlock_def)
  with b' exec_det(2) show ?thesis by blast
qed

section \<open>Simplified code can be lowered\<close>

definition is_block :: "stmt \<Rightarrow> bool" where
  "is_block s = (case s of SBlock b \<Rightarrow> True | _ \<Rightarrow> False)"

lemma emits_not_block: "\<not> is_block s \<Longrightarrow> emits s"
  by (cases s) (simp_all add: is_block_def)

lemma emits_no_blocks: "\<forall>s \<in> set ss. \<not> is_block s \<Longrightarrow> ss = [] \<or> emits_block ss"
  by (cases ss) (simp_all add: emits_not_block)

lemma spliced_stmts:
  assumes "block_stmts r = Some b" "src_ok m r" "\<And>b'. r = SBlock b' \<Longrightarrow> \<forall>s \<in> set b'. \<not> is_block s"
  shows "src_ok_block m b \<and> (\<forall>s \<in> set b. \<not> is_block s)"
  using assms by (cases r) (auto simp: block_stmts_def is_block_def split: if_splits)

lemma switch_ok:
  assumes "src_ok m (SSwitch e d tbl)" "SimplifySwitch e d tbl = Some (Some s')"
  shows "src_ok m s' \<and> (\<forall>b. s' \<noteq> SBlock b)"
proof -
  have "switch_target d tbl k < m" for k using switch_target_in [of d tbl k] assms(1) by auto
  moreover obtain f where f: "Fold e = Some f" using assms(2) by (auto simp: SimplifySwitch_def bind_eq_Some_conv)
  ultimately show ?thesis
    using assms by (cases f; cases "as_const (the f)") (auto simp: SimplifySwitch_def)
qed

lemma cond_goto_ok:
  "src_ok m (SCondGoto br c l) \<Longrightarrow> SimplifyCondGoto br c l = Some (Some s') \<Longrightarrow> src_ok m s' \<and> (\<forall>b. s' \<noteq> SBlock b)"
  by (auto simp: SimplifyCondGoto_def bind_eq_Some_conv split: option.splits if_splits)

lemma if_ok:
  assumes "SimplifyIf java c t e = Some (Some s')" "src_ok_block m t" "\<forall>s \<in> set t. \<not> is_block s"
    "\<And>b. e = Some b \<Longrightarrow> src_ok_block m b \<and> (\<forall>s \<in> set b. \<not> is_block s)"
  shows "src_ok m s' \<and> (\<forall>b. s' = SBlock b \<longrightarrow> (\<forall>s \<in> set b. \<not> is_block s))"
proof -
  have ok: "src_ok m (SIf c' t e)" for c' using assms emits_no_blocks [of t] by (cases e) auto
  obtain f where f: "Fold c = Some f" using assms(1) by (auto simp: SimplifyIf_def bind_eq_Some_conv)
  show ?thesis
    using ok f assms by (cases f; cases "if java then as_const (the f) else None")
      (auto simp: SimplifyIf_def split: if_splits)
qed

lemma while_ok:
  assumes "SimplifyWhile java w c b = Some (Some s')" "src_ok_block m b" "\<forall>s \<in> set b. \<not> is_block s"
  shows "src_ok m s' \<and> (\<forall>b. s' = SBlock b \<longrightarrow> (\<forall>s \<in> set b. \<not> is_block s))"
proof -
  obtain f where f: "Fold c = Some f" using assms(1) by (auto simp: SimplifyWhile_def bind_eq_Some_conv Let_def)
  show ?thesis
    using f assms by (cases f; cases "if java then as_const (the f) else None")
      (auto simp: SimplifyWhile_def Let_def split: if_splits)
qed

lemma simplified_ok:
  "src_ok m s \<Longrightarrow> Simplify java s = Some (Some s') \<Longrightarrow>
    src_ok m s' \<and> (\<forall>b. s' = SBlock b \<longrightarrow> (\<forall>s \<in> set b. \<not> is_block s))"
  "src_ok_block m ss \<Longrightarrow> SimplifyStmts java att ss = Some ss' \<Longrightarrow> src_ok_block m ss' \<and> (\<forall>s \<in> set ss'. \<not> is_block s)"
proof (induction java s and java att ss arbitrary: s' and ss' rule: Simplify_SimplifyStmts.induct)
  case (3 isJava op c l)
  then show ?case using cond_goto_ok [of m op c l s'] by auto
next
  case (4 isJava e d tbl)
  then show ?case using switch_ok [OF 4(1)] by auto
next
  case (5 isJava c t)
  obtain t' where "SimplifyStmts isJava True t = Some t'" "SimplifyIf isJava c t' None = Some (Some s')"
    using 5(3) by (auto simp: bind_eq_Some_conv)
  then show ?case using 5 by (intro if_ok) auto
next
  case (6 isJava c t e)
  obtain t' e' where t: "SimplifyStmts isJava True t = Some t'" and e: "SimplifyStmts isJava True e = Some e'"
    and r: "SimplifyIf isJava c t' (Some e') = Some (Some s')"
    using 6(4) by (auto simp: bind_eq_Some_conv)
  have ok: "src_ok_block m t" "src_ok_block m e" using 6(3) by simp_all
  have "src_ok_block m t' \<and> (\<forall>s \<in> set t'. \<not> is_block s)" by (rule 6(1) [OF ok(1) t])
  moreover have "src_ok_block m e' \<and> (\<forall>s \<in> set e'. \<not> is_block s)" by (rule 6(2) [OF t ok(2) e])
  ultimately show ?case using if_ok [OF r] by blast
next
  case (12 isJava att s ss)
  obtain r where r: "Simplify isJava s = Some r" using 12(5) by (auto simp: bind_eq_Some_conv)
  show ?case
  proof (cases r)
    case None
    then show ?thesis using 12 r by (auto split: if_splits)
  next
    case (Some s1)
    obtain b bs where b: "block_stmts s1 = Some b" "SimplifyStmts isJava (\<not> is_replaced s s1) ss = Some bs" "ss' = b @ bs"
      using 12(5) r Some by (auto simp: bind_eq_Some_conv)
    have "src_ok m s1 \<and> (\<forall>b. s1 = SBlock b \<longrightarrow> (\<forall>s \<in> set b. \<not> is_block s))" using 12 r Some by auto
    then have "src_ok_block m b \<and> (\<forall>s \<in> set b. \<not> is_block s)" using spliced_stmts [OF b(1)] by blast
    moreover have "src_ok_block m bs \<and> (\<forall>s \<in> set bs. \<not> is_block s)" 
      by (rule 12(3) [OF r Some b(1) _ b(2)]) (use 12(4) in simp)
    ultimately show ?thesis by (auto simp: b(3))
  qed
next
  case (7 isJava c b)
  obtain b' where b: "SimplifyStmts isJava True b = Some b'" and r: "SimplifyWhile isJava True c b' = Some (Some s')"
    using 7(3) by (auto simp: bind_eq_Some_conv)
  have "src_ok_block m b' \<and> (\<forall>s \<in> set b'. \<not> is_block s)" by (rule 7(1) [OF _ b]) (use 7(2) in simp)
  then show ?case using while_ok [OF r] by blast
next
  case (8 isJava b c)
  obtain b' where b: "SimplifyStmts isJava True b = Some b'" and r: "SimplifyWhile isJava False c b' = Some (Some s')"
    using 8(3) by (auto simp: bind_eq_Some_conv)
  have "src_ok_block m b' \<and> (\<forall>s \<in> set b'. \<not> is_block s)" by (rule 8(1) [OF _ b]) (use 8(2) in simp)
  then show ?case using while_ok [OF r] by blast
qed (auto simp: SimplifyUnary_def SimplifyDassign_def bind_eq_Some_conv split: if_splits)

text \<open>
  C4. Folding and lowering together, under the conditions of \<open>SimplifyBlock_sound\<close> on the operands and on
  the success of the simplification, for a block without labels of its own and without an \<open>if\<close>
  whose then part is made of empty blocks (\<open>src_ok_block\<close>): the simplified block can always be lowered, and the branches it is lowered to
  leave the code with the outcome and the variables of the source, and no others.
\<close>

theorem simplified_lowered:
  assumes "stmts_ok b" "src_ok_block m b" "m \<le> n" "execs b \<rho> out \<rho>'"
    and "\<not> java \<and> tidy \<sigma> False b \<or> SimplifyBlock java b \<noteq> None"
  shows "\<exists>b' code n'. SimplifyBlock java b = Some b' \<and> LowerBlock n b' = Some (code, n') \<and>
     (\<forall>out2 \<rho>2. runs code \<rho> out2 \<rho>2 \<longleftrightarrow> out2 = out \<and> \<rho>2 = \<rho>')"
proof -
  obtain b' where b': "SimplifyBlock java b = Some b'" using SimplifyBlock_total [OF assms(1,5)] by blast
  then have ok: "src_ok_block m b'" using simplified_ok(2) assms(2) by (simp add: SimplifyBlock_def)
  have "execs b' \<rho> out \<rho>'" using simplify_exec(2) [OF assms(4)] assms(1) b' by (simp add: SimplifyBlock_def)
  moreover obtain code n' where "LowerBlock n b' = Some (code, n')" using lower_total(2) [OF ok] by blast
  ultimately show ?thesis using lowered_runs [OF _ ok assms(3)] b' by blast
qed

section \<open>An example, and what makes simplification fail\<close>

text \<open>
  An \<open>if\<close> that never takes its then part, in front of a branch that is always taken: the else part
  and a \<open>goto\<close> are left.
\<close>

definition i32_const :: "i64 \<Rightarrow> expr" where
  "i32_const k = EConst PTY_i32 \<lparr>ic_type = PTY_i32, ic_value = k\<rparr>"

definition doubled :: "stmt list" where
  "doubled =
     [SIf (ECompare OP_eq PTY_u1 PTY_i32 (i32_const 1) (i32_const 2)) [SReturn]
        (Some [SAssign False 0 PTY_i32 (EBinary OP_mul PTY_i32 (ELeaf OP_dread PTY_i32 0) (i32_const 2))]),
      SCondGoto OP_brtrue (i32_const 1) 1]"

definition doubled_simple :: "stmt list" where
  "doubled_simple =
     [SAssign False 0 PTY_i32 (EBinary OP_mul PTY_i32 (ELeaf OP_dread PTY_i32 0) (i32_const 2)), SGoto 1]"

lemma doubled_simplifies: "SimplifyBlock True doubled = Some doubled_simple"
  by code_simp

lemma doubled_ok: "stmts_ok doubled" "src_ok_block 4 doubled"
  by code_simp+

lemma doubled_runs: "execs doubled ((\<lambda>_. 0)(0 := 21)) (Jump 1) ((\<lambda>_. 0)(0 := 21, 0 := norm PTY_i32 42))"
  unfolding doubled_def
  apply (rule exec_by_execs_by.Cons, rule exec_by_execs_by.IfFalse, code_simp, simp)
   apply (rule exec_by_execs_by.Cons, rule exec_by_execs_by.Assign [where v = 42], code_simp, rule exec_by_execs_by.Nil)
  apply (rule exec_by_execs_by.ConsExit, rule exec_by_execs_by.CondTaken [where v = 1], code_simp, code_simp, simp)
  done

lemma SimplifyBlock_sound_witness:
  "\<exists>b'. SimplifyBlock False doubled = Some b' \<and> (\<forall>out2 \<rho>2. execs b' ((\<lambda>_. 0)(0 := 21)) out2 \<rho>2 \<longleftrightarrow>
     out2 = Jump 1 \<and> \<rho>2 = (\<lambda>_. 0)(0 := 21, 0 := norm PTY_i32 42))"
  by (rule SimplifyBlock_sound [OF doubled_ok(1) doubled_runs, where \<sigma> = "\<lambda>_. 1"]) code_simp

lemma simplified_lowered_witness:
  "\<exists>b' code n'. SimplifyBlock True doubled = Some b' \<and> LowerBlock 4 b' = Some (code, n') \<and>
     (\<forall>out2 \<rho>2. runs code ((\<lambda>_. 0)(0 := 21)) out2 \<rho>2 \<longleftrightarrow>
        out2 = Jump 1 \<and> \<rho>2 = (\<lambda>_. 0)(0 := 21, 0 := norm PTY_i32 42))"
  by (rule simplified_lowered [OF doubled_ok _ doubled_runs]) (simp_all add: doubled_simplifies)

text \<open>
  What makes simplification fail on code that means something: in a Java module, an \<open>if\<close> that is
  always taken and whose taken part is empty (the empty block is spliced through its null first
  statement); a loop that is deleted directly behind an \<open>if\<close> that was replaced.
\<close>

lemma empty_part_fails:
  "SimplifyBlock True [SIf (EBinary OP_sub PTY_i32 (i32_const 3) (i32_const 2)) [] None] = None"
  "SimplifyBlock False [SIf (EBinary OP_sub PTY_i32 (i32_const 3) (i32_const 2)) [] None] =
     Some [SIf (i32_const 1) [] None]"
  "execs [SIf (EBinary OP_sub PTY_i32 (i32_const 3) (i32_const 2)) [] None] \<rho> Normal \<rho>"
  apply code_simp
  apply code_simp
  apply (rule exec_by_execs_by.Cons, rule exec_by_execs_by.IfTrue [where v = 1], code_simp, simp)
   apply (rule exec_by_execs_by.Nil)+
  done

end
