(* ===== verification/CandCior.thy ===== *)
theory CandCior
  imports MirLower
begin

text \<open>
  Lowering of the short-circuit operators \<open>cand\<close> and \<open>cior\<close> to branches: \<open>LowerEmbeddedCandCior\<close>,
  \<open>LowerCandCior\<close> and \<open>LowerFunc\<close> (maple_ir/src/mir_lower.cpp). The functions thread the next
  free label index and the next free pseudo register, whose cell is its index. \<open>LowerCandCior\<close>
  works on a block that \<open>LowerBlock\<close> has lowered; structured statements do not occur in it.
\<close>

type_synonym fresh = "nat \<times> nat"  \<comment> \<open>next label, next pseudo register\<close>

section \<open>Inside an expression\<close>

text \<open>The statements inserted in front of the current one, and the expression that is left.\<close>

fun LowerEmbeddedCandCior :: "expr \<Rightarrow> fresh \<Rightarrow> stmt list \<times> expr \<times> fresh" where
  "LowerEmbeddedCandCior (EBinary op p l r) st =
     (if op = OP_cand \<or> op = OP_cior
      then let (blk1, l, (n, k)) = LowerEmbeddedCandCior l st;
               cond = ELeaf OP_regread PTY_u8 k;
               (blk2, r, st) = LowerEmbeddedCandCior r (n + 1, k + 1)
           in (blk1 @ [SAssign True k PTY_u8 l, SCondGoto (if op = OP_cior then OP_brtrue else OP_brfalse) cond n]
                 @ blk2 @ [SAssign True k PTY_u8 r, SLabel n], cond, st)
      else let (blk1, l, st) = LowerEmbeddedCandCior l st; (blk2, r, st) = LowerEmbeddedCandCior r st
           in (blk1 @ blk2, EBinary op p l r, st))"
| "LowerEmbeddedCandCior (ECompare op p q l r) st =
     (let (blk1, l, st) = LowerEmbeddedCandCior l st; (blk2, r, st) = LowerEmbeddedCandCior r st
      in (blk1 @ blk2, ECompare op p q l r, st))"
| "LowerEmbeddedCandCior (EDepositbits p off sz l r) st =
     (let (blk1, l, st) = LowerEmbeddedCandCior l st; (blk2, r, st) = LowerEmbeddedCandCior r st
      in (blk1 @ blk2, EDepositbits p off sz l r, st))"
| "LowerEmbeddedCandCior (EUnary op p e) st =
     (let (blk, e, st) = LowerEmbeddedCandCior e st in (blk, EUnary op p e, st))"
| "LowerEmbeddedCandCior (ETypeCvt op p q e) st =
     (let (blk, e, st) = LowerEmbeddedCandCior e st in (blk, ETypeCvt op p q e, st))"
| "LowerEmbeddedCandCior (EExtractbits op p off sz e) st =
     (let (blk, e, st) = LowerEmbeddedCandCior e st in (blk, EExtractbits op p off sz e, st))"
| "LowerEmbeddedCandCior e st = ([], e, st)"

section \<open>The statements of a block\<close>

definition stmt_opnd :: "stmt \<Rightarrow> expr option" where
  "stmt_opnd s = (case s of SAssign preg x p e \<Rightarrow> Some e | SEval e \<Rightarrow> Some e | SCondGoto br e l \<Rightarrow> Some e
     | SRangeGoto e off tbl \<Rightarrow> Some e | SSwitch e d tbl \<Rightarrow> Some e | _ \<Rightarrow> None)"

definition set_opnd :: "expr \<Rightarrow> stmt \<Rightarrow> stmt" where
  "set_opnd e s = (case s of SAssign preg x p _ \<Rightarrow> SAssign preg x p e | SEval _ \<Rightarrow> SEval e
     | SCondGoto br _ l \<Rightarrow> SCondGoto br e l | SRangeGoto _ off tbl \<Rightarrow> SRangeGoto e off tbl
     | SSwitch _ d tbl \<Rightarrow> SSwitch e d tbl | _ \<Rightarrow> s)"

definition lower_opnds :: "stmt \<Rightarrow> fresh \<Rightarrow> stmt list \<times> fresh" where
  "lower_opnds s st = (case stmt_opnd s of
     None \<Rightarrow> ([s], st)
   | Some e \<Rightarrow> (let (blk, e, st) = LowerEmbeddedCandCior e st in (blk @ [set_opnd e s], st)))"

definition flip_branch :: "branch_op \<Rightarrow> branch_op" where
  "flip_branch br = (if br = OP_brfalse then OP_brtrue else OP_brfalse)"

text \<open>A conditional branch on a \<open>cand\<close> or \<open>cior\<close>: the branch, the operator, its operands, the target.\<close>

definition cond_candcior :: "stmt \<Rightarrow> (branch_op \<times> opcode \<times> expr \<times> expr \<times> nat) option" where
  "cond_candcior s = (case s of
     SCondGoto br (EBinary op p a b) l \<Rightarrow> (if op = OP_cand \<or> op = OP_cior then Some (br, op, a, b, l) else None)
   | _ \<Rightarrow> None)"

definition same_target :: "branch_op \<Rightarrow> opcode \<Rightarrow> bool" where
  "same_target br op = (br = OP_brfalse \<and> op = OP_cand \<or> br = OP_brtrue \<and> op = OP_cior)"

text \<open>
  The short-circuit target of the other combinations is the next statement: \<open>None\<close> when there is none,
  whose opcode the code then reads through a null pointer.
\<close>

fun branch_weight :: "expr \<Rightarrow> nat" where
  "branch_weight (EBinary op p l r) = (if op = OP_cand \<or> op = OP_cior then 3 + branch_weight l + branch_weight r else 0)"
| "branch_weight e = 0"

fun stmt_weight :: "stmt \<Rightarrow> nat" where
  "stmt_weight (SCondGoto br e l) = 1 + branch_weight e"
| "stmt_weight s = 1"

lemma cond_candcior_weight:
  "cond_candcior s = Some (br, op, a, b, l) \<Longrightarrow> stmt_weight s = 4 + branch_weight a + branch_weight b"
  by (auto simp: cond_candcior_def split: stmt.splits expr.splits if_splits)

definition next_label :: "stmt list \<Rightarrow> fresh \<Rightarrow> (nat \<times> stmt list \<times> fresh) option" where
  "next_label ss st = (case ss of
     [] \<Rightarrow> None
   | s # _ \<Rightarrow> (case s of
       SLabel t \<Rightarrow> Some (t, ss, st)
     | _ \<Rightarrow> Some (fst st, SLabel (fst st) # ss, fst st + 1, snd st)))"

lemma next_label_weight:
  "next_label ss st = Some (t, ss', st') \<Longrightarrow> sum_list (map stmt_weight ss') \<le> sum_list (map stmt_weight ss) + 1"
  by (auto simp: next_label_def split: list.splits stmt.splits)

function LowerCandCior :: "stmt list \<Rightarrow> fresh \<Rightarrow> (stmt list \<times> fresh) option" where
  "LowerCandCior [] st = Some ([], st)"
| "LowerCandCior (s # ss) st =
     (case cond_candcior s of
        Some (br, op, a, b, l) \<Rightarrow>
          (if same_target br op then LowerCandCior (SCondGoto br a l # SCondGoto br b l # ss) st
           else (case next_label ss st of
               None \<Rightarrow> None
             | Some (t, ss, st) \<Rightarrow> LowerCandCior (SCondGoto (flip_branch br) a t # SCondGoto br b l # ss) st))
      | None \<Rightarrow> (case lower_opnds s st of (c, st) \<Rightarrow>
          (case LowerCandCior ss st of None \<Rightarrow> None | Some (cs, st) \<Rightarrow> Some (c @ cs, st))))"
  by pat_completeness auto
termination
proof (relation "measure (\<lambda>(ss, st). sum_list (map stmt_weight ss))")
  fix s :: stmt and ss :: "stmt list" and st :: fresh
  show "((ss, st'), s # ss, st) \<in> measure (\<lambda>(ss, st). sum_list (map stmt_weight ss))" for st'
    by (cases s) auto
qed (auto dest!: cond_candcior_weight next_label_weight)

section \<open>Functions\<close>

definition LowerFunc :: "bool \<Rightarrow> stmt list \<Rightarrow> fresh \<Rightarrow> (stmt list \<times> fresh) option" where
  "LowerFunc inLFO body st = do {
     (blk, n) \<leftarrow> LowerBlock (fst st) body;
     (if inLFO then Some (blk, n, snd st) else LowerCandCior blk (n, snd st)) }"

end
