(* ===== verification/ShortCircuit.thy ===== *)
theory ShortCircuit
  imports CandCior MirLowerSound
begin

text \<open>
  What \<open>cand\<close> and \<open>cior\<close> mean: the second operand is evaluated only when the first does not decide.
  \<open>seval\<close> is that meaning, the language's own (\<open>eval\<close> asks both operands to be defined); \<open>reaches\<close>
  is \<open>runs_by\<close> from any place in the code, by recursion on the run, and \<open>goes\<close> relates two points of a run.
\<close>

section \<open>Short-circuit evaluation\<close>

abbreviation short_ops :: "opcode set" where
  "short_ops \<equiv> {OP_cand, OP_cior}"

primrec seval :: "env \<Rightarrow> expr \<Rightarrow> i64 option" where
  "seval \<rho> (ELeaf op p x) = at_type p (\<rho> x)"
| "seval \<rho> (EConst p c) = at_type p (ic_value c)"
| "seval \<rho> (EUnary op p e) = do { a \<leftarrow> seval \<rho> e; v \<leftarrow> eval_unary op p a; at_type p v }"
| "seval \<rho> (EBinary op p l r) =
     do { a \<leftarrow> seval \<rho> l;
          (if op = OP_cand \<and> a = 0 then at_type p 0
           else if op = OP_cior \<and> a \<noteq> 0 then at_type p 1
           else do { b \<leftarrow> seval \<rho> r; v \<leftarrow> eval_binary op p a b; at_type p v }) }"
| "seval \<rho> (ECompare op p q l r) =
     do { a \<leftarrow> seval \<rho> l; b \<leftarrow> seval \<rho> r; v \<leftarrow> eval_compare op q a b; at_type p v }"
| "seval \<rho> (ETypeCvt op p q e) =
     do { a \<leftarrow> seval \<rho> e; v \<leftarrow> (if op = OP_cvt then at_type q a else None); at_type p v }"
| "seval \<rho> (EExtractbits op p off sz e) =
     do { a \<leftarrow> seval \<rho> e; v \<leftarrow> eval_extract op p off sz a; at_type p v }"
| "seval \<rho> (EDepositbits p off sz l r) =
     do { a \<leftarrow> seval \<rho> l; b \<leftarrow> seval \<rho> r; at_type p (eval_deposit off sz a b) }"

lemma short_binary:
  "eval_binary OP_cand p 0 b = Some 0" "a \<noteq> 0 \<Longrightarrow> eval_binary OP_cior p a b = Some 1"
  by (simp_all add: eval_binary_def)

lemma eval_seval: "eval \<rho> e = Some v \<Longrightarrow> seval \<rho> e = Some v"
  by (induction e arbitrary: v) (auto simp: bind_eq_Some_conv short_binary split: if_splits)

primrec no_short :: "expr \<Rightarrow> bool" where
  "no_short (ELeaf op p x) = True"
| "no_short (EConst p c) = True"
| "no_short (EUnary op p e) = no_short e"
| "no_short (EBinary op p l r) = (op \<notin> short_ops \<and> no_short l \<and> no_short r)"
| "no_short (ECompare op p q l r) = (no_short l \<and> no_short r)"
| "no_short (ETypeCvt op p q e) = no_short e"
| "no_short (EExtractbits op p off sz e) = no_short e"
| "no_short (EDepositbits p off sz l r) = (no_short l \<and> no_short r)"

lemma seval_eval: "no_short e \<Longrightarrow> seval \<rho> e = eval \<rho> e"
  by (induction e) auto

text \<open>The cells an expression reads.\<close>

primrec cells :: "expr \<Rightarrow> nat set" where
  "cells (ELeaf op p x) = {x}"
| "cells (EConst p c) = {}"
| "cells (EUnary op p e) = cells e"
| "cells (EBinary op p l r) = cells l \<union> cells r"
| "cells (ECompare op p q l r) = cells l \<union> cells r"
| "cells (ETypeCvt op p q e) = cells e"
| "cells (EExtractbits op p off sz e) = cells e"
| "cells (EDepositbits p off sz l r) = cells l \<union> cells r"

definition agree :: "nat \<Rightarrow> env \<Rightarrow> env \<Rightarrow> bool" where
  "agree k \<rho> \<rho>' = (\<forall>x<k. \<rho>' x = \<rho> x)"

lemma agree_refl [simp]: "agree k \<rho> \<rho>"
  by (simp add: agree_def)

lemma agree_trans: "agree k \<rho> \<rho>1 \<Longrightarrow> agree k' \<rho>1 \<rho>2 \<Longrightarrow> k \<le> k' \<Longrightarrow> agree k \<rho> \<rho>2"
  by (simp add: agree_def)

lemma agree_mono: "agree k' \<rho> \<rho>' \<Longrightarrow> k \<le> k' \<Longrightarrow> agree k \<rho> \<rho>'"
  by (simp add: agree_def)

lemma agree_upd: "agree k \<rho> \<rho>' \<Longrightarrow> k \<le> x \<Longrightarrow> agree k \<rho> (\<rho>'(x := v))"
  by (simp add: agree_def)

lemma agree_both: "agree k \<rho> \<rho>' \<Longrightarrow> agree k (\<rho>(x := v)) (\<rho>'(x := v))"
  by (simp add: agree_def)

lemma seval_agree: "cells e \<subseteq> {..<k} \<Longrightarrow> agree k \<rho> \<rho>' \<Longrightarrow> seval \<rho>' e = seval \<rho> e"
  by (induction e) (auto simp: agree_def cong: if_cong)

text \<open>
  A register of type \<open>u8\<close> carries the operands of an embedded operator: they have to be truth
  values. \<open>short_ok\<close> asks it of every embedded operator, \<open>cond_ok\<close> leaves out those on top of a
  branch condition, which become branches themselves.
\<close>

definition is_bool :: "expr \<Rightarrow> bool" where
  "is_bool e = (GetPrimType e = PTY_u1 \<or>
     (case e of
        EBinary op p l r \<Rightarrow> op \<in> logic_ops \<and> scalar_int p
      | ECompare op p q l r \<Rightarrow> op \<in> test_ops \<and> scalar_int p
      | EUnary op p e \<Rightarrow> op = OP_lnot \<and> scalar_int p
      | _ \<Rightarrow> False))"

lemma at_type_bool_word: "scalar_int p \<Longrightarrow> at_type p (bool_word b) = Some (bool_word b)"
  by (erule scalar_intE; cases b; simp add: at_type_def norm_def; code_simp)

lemma seval_at_type: "seval \<rho> e = Some v \<Longrightarrow> \<exists>w. at_type (GetPrimType e) w = Some v"
  by (cases e) (auto simp: bind_eq_Some_conv split: if_splits)

lemma at_type_u1: "at_type PTY_u1 w = Some v \<Longrightarrow> v = 0 \<or> v = 1"
  by (auto simp: at_type_def split: if_splits)

lemma logic_value: "op \<in> logic_ops \<Longrightarrow> eval_binary op p a b = Some w \<Longrightarrow> w = 0 \<or> w = 1"
  by (auto simp: logic_ops_def eval_binary_def bool_word_def split: if_splits)

lemma is_bool_value:
  assumes "is_bool e" "seval \<rho> e = Some v"
  shows "v = 0 \<or> v = 1"
proof (cases "GetPrimType e = PTY_u1")
  case True
  then show ?thesis using seval_at_type [OF assms(2)] at_type_u1 by auto
next
  case False
  have b: "v = 0 \<or> v = 1" if "at_type p w = Some v" "w = 0 \<or> w = 1" "scalar_int p" for p w
    using at_type_bool_word [OF that(3), of "w = 1"] that(1,2) by auto
  show ?thesis
  proof (cases e)
    case (EBinary op p l r)
    then obtain w where "at_type p w = Some v" "w = 0 \<or> w = 1"
      using assms False logic_value by (auto simp: is_bool_def bind_eq_Some_conv split: if_splits)
    then show ?thesis using assms(1) False b EBinary by (auto simp: is_bool_def)
  next
    case (ECompare op p q l r)
    then show ?thesis using assms False b [of p]
      by (auto simp: is_bool_def bind_eq_Some_conv test_ops_def eval_compare_def bool_word_def split: if_splits)
  next
    case (EUnary op p l)
    then show ?thesis using assms False b [of p]
      by (auto simp: is_bool_def bind_eq_Some_conv eval_unary_def bool_word_def split: if_splits)
  qed (use assms False in \<open>simp_all add: is_bool_def\<close>)
qed

primrec short_ok :: "expr \<Rightarrow> bool" where
  "short_ok (ELeaf op p x) = True"
| "short_ok (EConst p c) = True"
| "short_ok (EUnary op p e) = short_ok e"
| "short_ok (EBinary op p l r) =
     (short_ok l \<and> short_ok r \<and> (op \<in> short_ops \<longrightarrow> is_bool l \<and> is_bool r \<and> scalar_int p))"
| "short_ok (ECompare op p q l r) = (short_ok l \<and> short_ok r)"
| "short_ok (ETypeCvt op p q e) = short_ok e"
| "short_ok (EExtractbits op p off sz e) = short_ok e"
| "short_ok (EDepositbits p off sz l r) = (short_ok l \<and> short_ok r)"

fun cond_ok :: "expr \<Rightarrow> bool" where
  "cond_ok (EBinary op p l r) =
     (if op = OP_cand \<or> op = OP_cior then cond_ok l \<and> cond_ok r \<and> scalar_int p else short_ok (EBinary op p l r))"
| "cond_ok e = short_ok e"

lemma short_cond_ok: "short_ok e \<Longrightarrow> cond_ok e"
  by (induction e rule: cond_ok.induct) auto

section \<open>Running flat code\<close>

definition effect :: "stmt \<Rightarrow> i64 \<Rightarrow> env \<Rightarrow> (outcome \<times> env) option" where
  "effect s v \<rho> = (case s of
     SAssign preg x p e \<Rightarrow> Some (Normal, \<rho>(x := norm p v))
   | SEval e \<Rightarrow> Some (Normal, \<rho>)
   | SCondGoto br e l \<Rightarrow> Some (if taken br v then Jump l else Normal, \<rho>)
   | SRangeGoto e off tbl \<Rightarrow> map_option (\<lambda>l. (Jump l, \<rho>)) (range_target off tbl v)
   | SSwitch e d tbl \<Rightarrow> Some (Jump (switch_target d tbl v), \<rho>)
   | _ \<Rightarrow> None)"

lemma transfer_by_opnd:
  "stmt_opnd s = Some e \<Longrightarrow> transfer_by ev s \<rho> = do { v \<leftarrow> ev \<rho> e; effect s v \<rho> }"
  by (cases s) (auto simp: stmt_opnd_def effect_def split: option.splits)

lemma transfer_by_no_opnd: "stmt_opnd s = None \<Longrightarrow> transfer_by ev s = transfer_by ev2 s"
  by (rule ext, cases s) (simp_all add: stmt_opnd_def)

lemma transfer_by_simps:
  "transfer_by ev (SAssign preg x p e) \<rho> = map_option (\<lambda>v. (Normal, \<rho>(x := norm p v))) (ev \<rho> e)"
  "transfer_by ev (SCondGoto br e l) \<rho> = map_option (\<lambda>v. (if taken br v then Jump l else Normal, \<rho>)) (ev \<rho> e)"
  "transfer_by ev (SLabel l) \<rho> = Some (Normal, \<rho>)"
  by (cases "ev \<rho> e"; simp)+

declare transfer_by.simps(1,4) [simp del]
declare transfer_by_simps [simp]

inductive reaches :: "(env \<Rightarrow> expr \<Rightarrow> i64 option) \<Rightarrow> stmt list \<Rightarrow> nat \<Rightarrow> env \<Rightarrow> outcome \<Rightarrow> env \<Rightarrow> bool"
  for ev C where
  End: "reaches ev C (length C) \<rho> Normal \<rho>"
| Ret: "pc < length C \<Longrightarrow> transfer_by ev (C ! pc) \<rho> = Some (Returned, \<rho>') \<Longrightarrow> reaches ev C pc \<rho> Returned \<rho>'"
| Out: "pc < length C \<Longrightarrow> transfer_by ev (C ! pc) \<rho> = Some (Jump l, \<rho>') \<Longrightarrow> label_pos C l = None
    \<Longrightarrow> reaches ev C pc \<rho> (Jump l) \<rho>'"
| Next: "pc < length C \<Longrightarrow> transfer_by ev (C ! pc) \<rho> = Some (Normal, \<sigma>) \<Longrightarrow> reaches ev C (Suc pc) \<sigma> out \<rho>'
    \<Longrightarrow> reaches ev C pc \<rho> out \<rho>'"
| Branch: "pc < length C \<Longrightarrow> transfer_by ev (C ! pc) \<rho> = Some (Jump l, \<sigma>) \<Longrightarrow> label_pos C l = Some q
    \<Longrightarrow> reaches ev C q \<sigma> out \<rho>' \<Longrightarrow> reaches ev C pc \<rho> out \<rho>'"

lemma steps_reaches:
  assumes "steps_by ev C c d" "reaches ev C (fst d) (snd d) out \<rho>'"
  shows "reaches ev C (fst c) (snd c) out \<rho>'"
  using assms
proof (induction rule: converse_rtranclp_induct)
  case (step c c1)
  then show ?case
    by (cases c) (auto elim!: stepE intro: reaches.Next reaches.Branch)
qed

lemma reaches_runs: "reaches ev C pc \<rho> out \<rho>' \<Longrightarrow> \<exists>c. steps_by ev C (pc, \<rho>) c \<and> exits_by ev C c out \<rho>'"
proof (induction rule: reaches.induct)
  case (Next pc \<rho> \<sigma> out \<rho>')
  have "step_by ev C (pc, \<rho>) (Suc pc, \<sigma>)" using Next(1,2) by (intro step_by.Next) simp_all
  then show ?case using Next.IH by (meson converse_rtranclp_into_rtranclp)
next
  case (Branch pc \<rho> l \<sigma> q out \<rho>')
  have "step_by ev C (pc, \<rho>) (q, \<sigma>)" using Branch(1-3) by (intro step_by.Branch) simp_all
  then show ?case using Branch.IH by (meson converse_rtranclp_into_rtranclp)
qed (auto intro: exits_by.intros)

lemma runs_iff_reaches: "runs_by ev C \<rho> out \<rho>' \<longleftrightarrow> reaches ev C 0 \<rho> out \<rho>'"
proof
  assume "runs_by ev C \<rho> out \<rho>'"
  then obtain c where c: "steps_by ev C (0, \<rho>) c" "exits_by ev C c out \<rho>'" by (auto simp: runs_by_def)
  from c(2) have "reaches ev C (fst c) (snd c) out \<rho>'"
    by cases (auto intro: reaches.intros)
  then show "reaches ev C 0 \<rho> out \<rho>'" using steps_reaches [OF c(1)] by simp
qed (use reaches_runs in \<open>simp add: runs_by_def\<close>)

section \<open>Pieces of code\<close>

definition goes :: "stmt list \<Rightarrow> nat \<Rightarrow> env \<Rightarrow> nat \<Rightarrow> env \<Rightarrow> bool" where
  "goes C p \<rho> q \<rho>' = (\<forall>out \<rho>e. reaches seval C q \<rho>' out \<rho>e \<longrightarrow> reaches seval C p \<rho> out \<rho>e)"

lemma goes_refl [simp]: "goes C p \<rho> p \<rho>"
  by (simp add: goes_def)

lemma goes_trans: "goes C p \<rho> q \<sigma> \<Longrightarrow> goes C q \<sigma> r \<rho>2 \<Longrightarrow> goes C p \<rho> r \<rho>2"
  by (simp add: goes_def)

lemma goes_next:
  assumes C: "C = pre @ s # post" and s: "transfer_by seval s \<rho> = Some (Normal, \<rho>')" and p: "p = length pre" "q = Suc p"
  shows "goes C p \<rho> q \<rho>'"
proof -
  have "p < length C" "transfer_by seval (C ! p) \<rho> = Some (Normal, \<rho>')" using C s p(1) by simp_all
  then show ?thesis unfolding goes_def p(2) by (blast intro: reaches.Next)
qed

lemma goes_jump:
  assumes C: "C = pre @ s # post" and s: "transfer_by seval s \<rho> = Some (Jump l, \<rho>')" and p: "p = length pre"
    and l: "label_pos C l = Some q"
  shows "goes C p \<rho> q \<rho>'"
proof -
  have "p < length C" "transfer_by seval (C ! p) \<rho> = Some (Jump l, \<rho>')" using C s p by simp_all
  then show ?thesis using l unfolding goes_def by (blast intro: reaches.Branch)
qed

end
