(* ===== verification/EmbeddedSound.thy ===== *)
theory EmbeddedSound
  imports ShortCircuit
begin

text \<open>
  The statements that \<open>LowerEmbeddedCandCior\<close> puts in front of a statement compute the operators of
  its expression: they end behind themselves, with the value of the expression in what is left of it.
\<close>

section \<open>Embedded operators\<close>

lemma embedded_shortE:
  assumes "LowerEmbeddedCandCior (EBinary op p l r) (n, k) = (blk, e', (n', k'))" "op \<in> short_ops"
  obtains blk1 l' n1 k1 blk2 r' where
    "LowerEmbeddedCandCior l (n, k) = (blk1, l', (n1, k1))"
    "LowerEmbeddedCandCior r (n1 + 1, k1 + 1) = (blk2, r', (n', k'))"
    "blk = blk1 @ [SAssign True k1 PTY_u8 l', SCondGoto (if op = OP_cior then OP_brtrue else OP_brfalse)
        (ELeaf OP_regread PTY_u8 k1) n1] @ blk2 @ [SAssign True k1 PTY_u8 r', SLabel n1]"
    "e' = ELeaf OP_regread PTY_u8 k1"
proof -
  obtain blk1 l' n1 k1 where l: "LowerEmbeddedCandCior l (n, k) = (blk1, l', (n1, k1))"
    by (metis prod.collapse)
  obtain blk2 r' n2 k2 where r: "LowerEmbeddedCandCior r (n1 + 1, k1 + 1) = (blk2, r', (n2, k2))"
    by (metis prod.collapse)
  have o: "(op = OP_cand \<or> op = OP_cior) = True" using assms(2) by simp
  have e: "n2 = n'" "k2 = k'"
    "blk = blk1 @ [SAssign True k1 PTY_u8 l', SCondGoto (if op = OP_cior then OP_brtrue else OP_brfalse)
        (ELeaf OP_regread PTY_u8 k1) n1] @ blk2 @ [SAssign True k1 PTY_u8 r', SLabel n1]"
    "e' = ELeaf OP_regread PTY_u8 k1"
    using assms(1) unfolding LowerEmbeddedCandCior.simps o if_True l Let_def prod.case r by blast+
  show ?thesis by (rule that [OF l r [unfolded e(1,2)] e(3,4)])
qed

text \<open>The binary nodes that stay.\<close>

definition lower_two :: "(expr \<Rightarrow> expr \<Rightarrow> expr) \<Rightarrow> expr \<Rightarrow> expr \<Rightarrow> fresh \<Rightarrow> stmt list \<times> expr \<times> fresh" where
  "lower_two node l r st =
     (let (blk1, l, st) = LowerEmbeddedCandCior l st; (blk2, r, st) = LowerEmbeddedCandCior r st
      in (blk1 @ blk2, node l r, st))"

lemma lower_twoE:
  assumes "lower_two node l r (n, k) = (blk, e', (n', k'))"
  obtains blk1 l' n1 k1 blk2 r' where
    "LowerEmbeddedCandCior l (n, k) = (blk1, l', (n1, k1))"
    "LowerEmbeddedCandCior r (n1, k1) = (blk2, r', (n', k'))" "blk = blk1 @ blk2" "e' = node l' r'"
proof -
  obtain blk1 l' n1 k1 where l: "LowerEmbeddedCandCior l (n, k) = (blk1, l', (n1, k1))"
    by (metis prod.collapse)
  obtain blk2 r' n2 k2 where r: "LowerEmbeddedCandCior r (n1, k1) = (blk2, r', (n2, k2))"
    by (metis prod.collapse)
  have e: "n2 = n'" "k2 = k'" "blk = blk1 @ blk2" "e' = node l' r'"
    using assms unfolding lower_two_def l Let_def prod.case r by blast+
  show ?thesis by (rule that [OF l r [unfolded e(1,2)] e(3,4)])
qed

lemma embedded_two:
  "op \<notin> short_ops \<Longrightarrow> LowerEmbeddedCandCior (EBinary op p l r) st = lower_two (EBinary op p) l r st"
  "LowerEmbeddedCandCior (ECompare op p q l r) st = lower_two (ECompare op p q) l r st"
  "LowerEmbeddedCandCior (EDepositbits p off sz l r) st = lower_two (EDepositbits p off sz) l r st"
  by (simp_all add: lower_two_def)

definition lower_one :: "(expr \<Rightarrow> expr) \<Rightarrow> expr \<Rightarrow> fresh \<Rightarrow> stmt list \<times> expr \<times> fresh" where
  "lower_one node e st = (let (blk, e, st) = LowerEmbeddedCandCior e st in (blk, node e, st))"

lemma lower_oneE:
  assumes "lower_one node e (n, k) = (blk, e', (n', k'))"
  obtains e1 where "LowerEmbeddedCandCior e (n, k) = (blk, e1, (n', k'))" "e' = node e1"
proof -
  obtain blk1 e1 n1 k1 where e: "LowerEmbeddedCandCior e (n, k) = (blk1, e1, (n1, k1))"
    by (metis prod.collapse)
  show ?thesis using assms that e unfolding lower_one_def e Let_def prod.case by simp
qed

lemma embedded_one:
  "LowerEmbeddedCandCior (EUnary op p e) st = lower_one (EUnary op p) e st"
  "LowerEmbeddedCandCior (ETypeCvt op p q e) st = lower_one (ETypeCvt op p q) e st"
  "LowerEmbeddedCandCior (EExtractbits op p off sz e) st = lower_one (EExtractbits op p off sz) e st"
  by (simp_all add: lower_one_def)

text \<open>
  Code whose labels are new ones from \<open>n\<close> to \<open>n'\<close>, whose registers are below \<open>k'\<close>, and which has no
  short-circuit operator left.
\<close>

definition opnd_done :: "nat \<Rightarrow> stmt \<Rightarrow> bool" where
  "opnd_done k s = (case stmt_opnd s of None \<Rightarrow> True | Some e \<Rightarrow> no_short e \<and> cells e \<subseteq> {..<k})"

definition targets :: "stmt \<Rightarrow> nat set" where
  "targets s = (case s of SGoto l \<Rightarrow> {l} | SCondGoto br c l \<Rightarrow> {l} | SRangeGoto e off tbl \<Rightarrow> snd ` set tbl
     | SSwitch e d tbl \<Rightarrow> insert d (snd ` set tbl) | _ \<Rightarrow> {})"

definition piece_ok :: "nat \<Rightarrow> nat \<Rightarrow> nat \<Rightarrow> stmt list \<Rightarrow> bool" where
  "piece_ok n n' k blk = (set (labels blk) \<subseteq> {n..<n'} \<and> distinct (labels blk) \<and>
     (\<forall>s \<in> set blk. opnd_done k s \<and> targets s \<subseteq> {n..<n'}))"

lemma piece_nil [simp]: "piece_ok n n' k []"
  by (simp add: piece_ok_def)

lemma piece_mono: "piece_ok n n' k blk \<Longrightarrow> m \<le> n \<Longrightarrow> n' \<le> m' \<Longrightarrow> k \<le> k' \<Longrightarrow> piece_ok m m' k' blk"
  by (fastforce simp: piece_ok_def opnd_done_def split: option.splits)

lemma piece_append: "piece_ok n m k as \<Longrightarrow> piece_ok m n' k bs \<Longrightarrow> n \<le> m \<Longrightarrow> m \<le> n' \<Longrightarrow> piece_ok n n' k (as @ bs)"
  by (fastforce simp: piece_ok_def)

definition static_ok :: "fresh \<Rightarrow> stmt list \<times> expr \<times> fresh \<Rightarrow> bool" where
  "static_ok st r = (case (st, r) of ((n, k), (blk, e', (n', k'))) \<Rightarrow>
     n \<le> n' \<and> k \<le> k' \<and> piece_ok n n' k' blk \<and> no_short e' \<and> cells e' \<subseteq> {..<k'})"

lemma static_okI:
  "n \<le> n' \<Longrightarrow> k \<le> k' \<Longrightarrow> piece_ok n n' k' blk \<Longrightarrow> no_short e' \<Longrightarrow> cells e' \<subseteq> {..<k'}
    \<Longrightarrow> static_ok (n, k) (blk, e', (n', k'))"
  by (simp add: static_ok_def)

lemma static_okD:
  assumes "static_ok (n, k) (blk, e', (n', k'))"
  shows "n \<le> n'" "k \<le> k'" "piece_ok n n' k' blk" "no_short e'" "cells e' \<subseteq> {..<k'}"
  using assms by (simp_all add: static_ok_def)

lemma static_two:
  assumes l: "static_ok (n, k) (blk1, l', (n1, k1))" and r: "static_ok (n1, k1) (blk2, r', (n', k'))"
    and node: "\<And>l r. no_short l \<Longrightarrow> no_short r \<Longrightarrow> no_short (node l r)" "\<And>l r. cells (node l r) = cells l \<union> cells r"
  shows "static_ok (n, k) (blk1 @ blk2, node l' r', (n', k'))"
proof (rule static_okI)
  note l = static_okD [OF l] and r = static_okD [OF r]
  show "n \<le> n'" "k \<le> k'" using l(1,2) r(1,2) by auto
  show "piece_ok n n' k' (blk1 @ blk2)"
    by (rule piece_append [OF piece_mono [OF l(3)] r(3) l(1) r(1)]) (use r(2) in auto)
  show "no_short (node l' r')" by (rule node(1) [OF l(4) r(4)])
  show "cells (node l' r') \<subseteq> {..<k'}" unfolding node(2) using l(5) r(2,5) by auto
qed

lemma static_lower_two:
  assumes "\<And>n k. cells l \<subseteq> {..<k} \<Longrightarrow> static_ok (n, k) (LowerEmbeddedCandCior l (n, k))"
    and "\<And>n k. cells r \<subseteq> {..<k} \<Longrightarrow> static_ok (n, k) (LowerEmbeddedCandCior r (n, k))"
    and c: "cells l \<subseteq> {..<k}" "cells r \<subseteq> {..<k}"
    and node: "\<And>l r. no_short l \<Longrightarrow> no_short r \<Longrightarrow> no_short (node l r)" "\<And>l r. cells (node l r) = cells l \<union> cells r"
  shows "static_ok (n, k) (lower_two node l r (n, k))"
proof -
  obtain blk e' n' k' where x: "lower_two node l r (n, k) = (blk, e', (n', k'))" by (metis prod.collapse)
  then obtain blk1 l' n1 k1 blk2 r' where e: "LowerEmbeddedCandCior l (n, k) = (blk1, l', (n1, k1))"
    "LowerEmbeddedCandCior r (n1, k1) = (blk2, r', (n', k'))" "blk = blk1 @ blk2" "e' = node l' r'"
    by (rule lower_twoE)
  have l: "static_ok (n, k) (blk1, l', (n1, k1))" using assms(1) [OF c(1), of n] e(1) by simp
  have "cells r \<subseteq> {..<k1}" using c(2) static_okD(2) [OF l] by auto
  from assms(2) [OF this, of n1] e(2) have r: "static_ok (n1, k1) (blk2, r', (n', k'))" by simp
  show ?thesis unfolding x e(3,4) by (rule static_two [OF l r node])
qed

lemma piece_short:
  assumes "piece_ok n n1 k blk1" "piece_ok (n1 + 1) n' k blk2" "n \<le> n1" "n1 + 1 \<le> n'" "no_short l" "no_short r"
    "cells l \<subseteq> {..<k}" "cells r \<subseteq> {..<k}" "x < k"
  shows "piece_ok n n' k (blk1 @ [SAssign True x PTY_u8 l, SCondGoto br (ELeaf OP_regread PTY_u8 x) n1] @
    blk2 @ [SAssign True x PTY_u8 r, SLabel n1])"
proof -
  have n1: "n1 \<notin> set (labels blk1)" "n1 \<notin> set (labels blk2)" "set (labels blk1) \<inter> set (labels blk2) = {}"
    using assms(1,2) by (fastforce simp: piece_ok_def)+
  have "set (labels blk1) \<subseteq> {n..<n'}" "set (labels blk2) \<subseteq> {n..<n'}" using assms(1-4) by (fastforce simp: piece_ok_def)+
  moreover have "\<forall>s \<in> set blk1 \<union> set blk2. opnd_done k s" using assms(1,2) by (auto simp: piece_ok_def)
  moreover have "\<forall>s \<in> set blk1 \<union> set blk2. targets s \<subseteq> {n..<n'}"
    using assms(1-4) unfolding piece_ok_def by (fastforce simp: subset_iff)
  moreover have "distinct (labels blk1)" "distinct (labels blk2)" using assms(1,2) by (simp_all add: piece_ok_def)
  ultimately show ?thesis using assms(3-) n1
    unfolding piece_ok_def by (auto simp: opnd_done_def stmt_opnd_def targets_def)
qed

lemma embedded_static:
  "cells e \<subseteq> {..<k} \<Longrightarrow> static_ok (n, k) (LowerEmbeddedCandCior e (n, k))"
proof (induction e arbitrary: n k)
  case (EBinary op p l r)
  have c: "cells l \<subseteq> {..<k}" "cells r \<subseteq> {..<k}" using EBinary.prems by simp_all
  obtain blk e' n' k' where x: "LowerEmbeddedCandCior (EBinary op p l r) (n, k) = (blk, e', (n', k'))"
    by (metis prod.collapse)
  show ?case
  proof (cases "op \<in> short_ops")
    case True
    from x True obtain blk1 l' n1 k1 blk2 r' where
      e: "LowerEmbeddedCandCior l (n, k) = (blk1, l', (n1, k1))"
        "LowerEmbeddedCandCior r (n1 + 1, k1 + 1) = (blk2, r', (n', k'))"
      and blk: "blk = blk1 @ [SAssign True k1 PTY_u8 l', SCondGoto (if op = OP_cior then OP_brtrue else OP_brfalse)
          (ELeaf OP_regread PTY_u8 k1) n1] @ blk2 @ [SAssign True k1 PTY_u8 r', SLabel n1]"
      and e': "e' = ELeaf OP_regread PTY_u8 k1"
      by (rule embedded_shortE)
    note l = static_okD [OF EBinary.IH(1) [OF c(1), of n, unfolded e(1)]]
    have "cells r \<subseteq> {..<k1 + 1}" using c(2) l(2) by auto
    note r = static_okD [OF EBinary.IH(2) [OF this, of "n1 + 1", unfolded e(2)]]
    have b1: "piece_ok n n1 k' blk1" using piece_mono [OF l(3)] r(2) by simp
    have "piece_ok n n' k' blk"
      unfolding blk by (rule piece_short [OF b1 r(3) l(1) r(1) l(4) r(4) _ r(5)]) (use l(5) r(2) in auto)
    then show ?thesis unfolding x e' using l(1,2) r(1,2) by (intro static_okI) auto
  next
    case False
    show ?thesis unfolding embedded_two(1) [OF False]
      by (rule static_lower_two [OF EBinary.IH c]) (use False in simp_all)
  qed
next
  case (ECompare op p q l r)
  then show ?case unfolding embedded_two(2) by (intro static_lower_two) simp_all
next
  case (EDepositbits p off sz l r)
  then show ?case unfolding embedded_two(3) by (intro static_lower_two) simp_all
next
  case (EUnary op p e)
  obtain blk e' n' k' where x: "LowerEmbeddedCandCior e (n, k) = (blk, e', (n', k'))" by (metis prod.collapse)
  then show ?case using EUnary.IH [of k n] EUnary.prems by (simp add: static_ok_def)
next
  case (ETypeCvt op p q e)
  obtain blk e' n' k' where x: "LowerEmbeddedCandCior e (n, k) = (blk, e', (n', k'))" by (metis prod.collapse)
  then show ?case using ETypeCvt.IH [of k n] ETypeCvt.prems by (simp add: static_ok_def)
next
  case (EExtractbits op p off sz e)
  obtain blk e' n' k' where x: "LowerEmbeddedCandCior e (n, k) = (blk, e', (n', k'))" by (metis prod.collapse)
  then show ?case using EExtractbits.IH [of k n] EExtractbits.prems by (simp add: static_ok_def)
qed (simp_all add: static_ok_def)

text \<open>The inserted code ends behind itself, with the value of the expression in what is left of it.\<close>

definition computes :: "expr \<Rightarrow> bool" where
  "computes e = (\<forall>n k blk e' n' k' \<rho> v C pre post.
     LowerEmbeddedCandCior e (n, k) = (blk, e', (n', k')) \<longrightarrow> cells e \<subseteq> {..<k} \<longrightarrow> seval \<rho> e = Some v \<longrightarrow>
     C = pre @ blk @ post \<longrightarrow> set (labels pre) \<inter> {n..<n'} = {} \<longrightarrow>
     (\<exists>\<rho>'. goes C (length pre) \<rho> (length pre + length blk) \<rho>' \<and> agree k \<rho> \<rho>' \<and> seval \<rho>' e' = Some v))"

lemma computesD:
  assumes "computes e" "LowerEmbeddedCandCior e (n, k) = (blk, e', (n', k'))" "cells e \<subseteq> {..<k}" "seval \<rho> e = Some v"
    "C = pre @ blk @ post" "set (labels pre) \<inter> {n..<n'} = {}"
  obtains \<rho>' where "goes C (length pre) \<rho> (length pre + length blk) \<rho>'" "agree k \<rho> \<rho>'" "seval \<rho>' e' = Some v"
  using assms unfolding computes_def by blast

lemma embedded_ranges:
  assumes "LowerEmbeddedCandCior e (n, k) = (blk, e', (n', k'))" "cells e \<subseteq> {..<k}"
  shows "n \<le> n'" "k \<le> k'" "piece_ok n n' k' blk" "no_short e'" "cells e' \<subseteq> {..<k'}"
  using static_okD [of n k blk e' n' k'] embedded_static [OF assms(2), of n] assms(1) by simp_all

lemma computes_two:
  assumes node: "\<And>\<rho> l r. seval \<rho> (node l r) = do { a \<leftarrow> seval \<rho> l; b \<leftarrow> seval \<rho> r; f a b }"
    and lower: "\<And>st. LowerEmbeddedCandCior (node l r) st = lower_two node l r st"
    and c: "cells (node l r) = cells l \<union> cells r" and l: "computes l" and r: "computes r"
  shows "computes (node l r)"
  unfolding computes_def
proof (intro allI impI)
  fix n k blk e' n' k' \<rho> v C pre post
  assume x: "LowerEmbeddedCandCior (node l r) (n, k) = (blk, e', (n', k'))" and k: "cells (node l r) \<subseteq> {..<k}"
    and v: "seval \<rho> (node l r) = Some v" and C: "C = pre @ blk @ post" and n: "set (labels pre) \<inter> {n..<n'} = {}"
  obtain blk1 l' n1 k1 blk2 r' where e: "LowerEmbeddedCandCior l (n, k) = (blk1, l', (n1, k1))"
    "LowerEmbeddedCandCior r (n1, k1) = (blk2, r', (n', k'))" "blk = blk1 @ blk2" "e' = node l' r'"
    using x unfolding lower by (rule lower_twoE)
  obtain a b where a: "seval \<rho> l = Some a" and b: "seval \<rho> r = Some b" and f: "f a b = Some v"
    using v unfolding node by (auto simp: bind_eq_Some_conv)
  have cl: "cells l \<subseteq> {..<k}" and cr: "cells r \<subseteq> {..<k}" using k c by auto
  note sl = embedded_ranges [OF e(1) cl]
  have cr1: "cells r \<subseteq> {..<k1}" using cr sl(2) by auto
  note sr = embedded_ranges [OF e(2) cr1]
  obtain \<sigma> where s1: "goes C (length pre) \<rho> (length pre + length blk1) \<sigma>" "agree k \<rho> \<sigma>" "seval \<sigma> l' = Some a"
    by (rule computesD [OF l e(1) cl a, of C pre "blk2 @ post"]) (use C e(3) n sr(1) in auto)
  have b1: "seval \<sigma> r = Some b" using seval_agree [OF cr s1(2)] b by simp
  have n1: "set (labels (pre @ blk1)) \<inter> {n1..<n'} = {}" using n sl(1,3) by (fastforce simp: piece_ok_def)
  obtain \<tau> where s2: "goes C (length (pre @ blk1)) \<sigma> (length (pre @ blk1) + length blk2) \<tau>" "agree k1 \<sigma> \<tau>" "seval \<tau> r' = Some b"
    by (rule computesD [OF r e(2) cr1 b1, of C "pre @ blk1" post]) (use C e(3) n1 in auto)
  have "seval \<tau> l' = Some a" using seval_agree [OF sl(5) s2(2)] s1(3) by simp
  then have "seval \<tau> e' = Some v" unfolding e(4) node using s2(3) f by simp
  moreover have "goes C (length pre) \<rho> (length pre + length blk) \<tau>"
    using goes_trans [OF s1(1)] s2(1) e(3) by (simp add: add.assoc)
  ultimately show "\<exists>\<rho>'. goes C (length pre) \<rho> (length pre + length blk) \<rho>' \<and> agree k \<rho> \<rho>' \<and> seval \<rho>' e' = Some v"
    using agree_trans [OF s1(2) s2(2) sl(2)] by blast
qed

lemma computes_one:
  assumes node: "\<And>\<rho> e. seval \<rho> (node e) = do { a \<leftarrow> seval \<rho> e; f a }"
    and lower: "\<And>st. LowerEmbeddedCandCior (node e) st = lower_one node e st"
    and c: "cells (node e) = cells e" and e: "computes e"
  shows "computes (node e)"
  unfolding computes_def
proof (intro allI impI)
  fix n k blk e' n' k' \<rho> v C pre post
  assume x: "LowerEmbeddedCandCior (node e) (n, k) = (blk, e', (n', k'))" and k: "cells (node e) \<subseteq> {..<k}"
    and v: "seval \<rho> (node e) = Some v" and C: "C = pre @ blk @ post" "set (labels pre) \<inter> {n..<n'} = {}"
  obtain e1 where e1: "LowerEmbeddedCandCior e (n, k) = (blk, e1, (n', k'))" "e' = node e1"
    using x unfolding lower by (rule lower_oneE)
  obtain a where a: "seval \<rho> e = Some a" "f a = Some v" using v unfolding node by (auto simp: bind_eq_Some_conv)
  obtain \<sigma> where "goes C (length pre) \<rho> (length pre + length blk) \<sigma>" "agree k \<rho> \<sigma>" "seval \<sigma> e1 = Some a"
    by (rule computesD [OF e e1(1) _ a(1) C]) (use k c in auto)
  then show "\<exists>\<rho>'. goes C (length pre) \<rho> (length pre + length blk) \<rho>' \<and> agree k \<rho> \<rho>' \<and> seval \<rho>' e' = Some v"
    using a(2) unfolding e1(2) node by auto
qed

text \<open>The register that carries a truth value.\<close>

lemma norm_bool: "v = 0 \<or> v = 1 \<Longrightarrow> norm PTY_u8 v = (v :: i64)"
  using at_type_bool_word [of PTY_u8 "v = 1"] by (auto simp: at_type_not_u1)

lemma reg_bool: "v = 0 \<or> v = 1 \<Longrightarrow> seval (\<rho>(x := v)) (ELeaf OP_regread PTY_u8 x) = Some v"
  by (simp add: at_type_not_u1 norm_bool)

lemma short_value:
  assumes "op \<in> short_ops" "scalar_int p" "seval \<rho> (EBinary op p l r) = Some v" "is_bool l" "is_bool r"
  obtains a where "seval \<rho> l = Some a" "a = 0 \<or> a = 1" "(a = 0) = (op = OP_cand)" "v = a"
  | a where "seval \<rho> l = Some a" "a = 0 \<or> a = 1" "(a = 0) \<noteq> (op = OP_cand)" "seval \<rho> r = Some v" "v = 0 \<or> v = 1"
proof -
  obtain a where a: "seval \<rho> l = Some a" using assms(3) by (auto simp: bind_eq_Some_conv)
  have a01: "a = 0 \<or> a = 1" using is_bool_value [OF assms(4) a] .
  have t: "at_type p 0 = Some 0" "at_type p 1 = Some 1"
    using at_type_bool_word [OF assms(2), of False] at_type_bool_word [OF assms(2), of True] by simp_all
  show thesis
  proof (cases "(a = 0) = (op = OP_cand)")
    case True
    then have "v = a" using assms(1,3) a a01 t by auto
    then show ?thesis using that(1) a a01 True by blast
  next
    case False
    then obtain b where b: "seval \<rho> r = Some b" and v: "do { v \<leftarrow> eval_binary op p a b; at_type p v } = Some v"
      using assms(1,3) a by (auto simp: bind_eq_Some_conv split: if_splits)
    have "b = 0 \<or> b = 1" using is_bool_value [OF assms(5) b] .
    then have "v = b" using assms(1) a01 False v t by (auto simp: eval_binary_def)
    then show ?thesis using that(2) a a01 False b \<open>b = 0 \<or> b = 1\<close> by blast
  qed
qed

lemma computes_short:
  assumes op: "op \<in> short_ops" and ok: "scalar_int p" "is_bool l" "is_bool r" and l: "computes l" and r: "computes r"
  shows "computes (EBinary op p l r)"
  unfolding computes_def
proof (intro allI impI)
  fix n k blk e' n' k' \<rho> v C pre post
  assume x: "LowerEmbeddedCandCior (EBinary op p l r) (n, k) = (blk, e', (n', k'))" and k: "cells (EBinary op p l r) \<subseteq> {..<k}"
    and v: "seval \<rho> (EBinary op p l r) = Some v" and C: "C = pre @ blk @ post" and n: "set (labels pre) \<inter> {n..<n'} = {}"
  define br where "br = (if op = OP_cior then OP_brtrue else OP_brfalse)"
  from x op obtain blk1 l' n1 k1 blk2 r' where e: "LowerEmbeddedCandCior l (n, k) = (blk1, l', (n1, k1))"
    "LowerEmbeddedCandCior r (n1 + 1, k1 + 1) = (blk2, r', (n', k'))"
    "blk = blk1 @ [SAssign True k1 PTY_u8 l', SCondGoto br (ELeaf OP_regread PTY_u8 k1) n1] @ blk2 @
        [SAssign True k1 PTY_u8 r', SLabel n1]" "e' = ELeaf OP_regread PTY_u8 k1"
    unfolding br_def by (rule embedded_shortE)
  let ?c = "ELeaf OP_regread PTY_u8 k1"
  have cl: "cells l \<subseteq> {..<k}" and cr: "cells r \<subseteq> {..<k}" using k by auto
  note sl = embedded_ranges [OF e(1) cl]
  have cr1: "cells r \<subseteq> {..<k1 + 1}" using cr sl(2) by auto
  note sr = embedded_ranges [OF e(2) cr1]
  let ?stop = "length pre + length blk"
  have a_case: "\<exists>\<sigma>. goes C (length pre) \<rho> (length pre + length blk1 + 1) \<sigma> \<and> agree k \<rho> \<sigma> \<and> \<sigma> k1 = a"
    if a: "seval \<rho> l = Some a" "a = 0 \<or> a = 1" for a
  proof -
    obtain \<sigma> where s: "goes C (length pre) \<rho> (length pre + length blk1) \<sigma>" "agree k \<rho> \<sigma>" "seval \<sigma> l' = Some a"
      by (rule computesD [OF l e(1) cl a(1), of C pre "drop (length blk1) blk @ post"]) (use C e(3) n sr(1) in auto)
    have "goes C (length pre + length blk1) \<sigma> (length pre + length blk1 + 1) (\<sigma>(k1 := a))"
      by (rule goes_next [where pre = "pre @ blk1" and s = "SAssign True k1 PTY_u8 l'"])
        (use C e(3) s(3) norm_bool [OF a(2)] in simp_all)
    then show ?thesis using goes_trans [OF s(1)] agree_upd [OF s(2) sl(2)] by (metis fun_upd_same)
  qed
  have lab: "label_pos C n1 = Some (?stop - 1)"
  proof -
    have "n1 \<notin> set (labels blk1)" using sl(3) by (fastforce simp: piece_ok_def)
    moreover have "n1 \<notin> set (labels blk2)" using sr(3) by (fastforce simp: piece_ok_def)
    moreover have "n1 \<notin> set (labels pre)" using n sl(1) sr(1) by fastforce
    ultimately show ?thesis
      using label_pos_append [of n1 "pre @ blk1 @ [SAssign True k1 PTY_u8 l', SCondGoto br ?c n1] @ blk2 @
        [SAssign True k1 PTY_u8 r']" post] C e(3) by simp
  qed
  have label_step: "goes C (?stop - 1) \<sigma> ?stop \<sigma>" for \<sigma>
    by (rule goes_next [where s = "SLabel n1" and post = post and pre = "pre @ blk1 @ [SAssign True k1 PTY_u8 l',
        SCondGoto br ?c n1] @ blk2 @ [SAssign True k1 PTY_u8 r']"]) (use C e(3) in simp_all)
  have cond: "transfer_by seval (SCondGoto br ?c n1) \<sigma> = Some (if (a = 0) = (op = OP_cand) then Jump n1 else Normal, \<sigma>)"
    if "\<sigma> k1 = a" "a = 0 \<or> a = 1" for a \<sigma>
    using that op by (auto simp: br_def taken_def at_type_not_u1 norm_bool)
  from op ok(1) v ok(2,3) show "\<exists>\<rho>'. goes C (length pre) \<rho> (length pre + length blk) \<rho>' \<and> agree k \<rho> \<rho>' \<and> seval \<rho>' e' = Some v"
  proof (cases rule: short_value)
    case (1 a)
    obtain \<sigma> where s: "goes C (length pre) \<rho> (length pre + length blk1 + 1) \<sigma>" "agree k \<rho> \<sigma>" "\<sigma> k1 = a"
      using a_case [OF 1(1,2)] by blast
    have "goes C (length pre + length blk1 + 1) \<sigma> (?stop - 1) \<sigma>"
      by (rule goes_jump [where s = "SCondGoto br ?c n1" and pre = "pre @ blk1 @ [SAssign True k1 PTY_u8 l']"])
        (use C e(3) cond [where \<sigma> = \<sigma> and a = a, OF s(3) 1(2)] 1(3) lab in simp_all)
    then have "goes C (length pre) \<rho> ?stop \<sigma>" using goes_trans [OF s(1)] goes_trans label_step by blast
    moreover have "seval \<sigma> e' = Some v" using s(3) 1(2,4) unfolding e(4) by (auto simp: at_type_not_u1 norm_bool)
    ultimately show ?thesis using s(2) by blast
  next
    case (2 a)
    obtain \<sigma> where s: "goes C (length pre) \<rho> (length pre + length blk1 + 1) \<sigma>" "agree k \<rho> \<sigma>" "\<sigma> k1 = a"
      using a_case [OF 2(1,2)] by blast
    have s1: "goes C (length pre + length blk1 + 1) \<sigma> (length pre + length blk1 + 2) \<sigma>"
      by (rule goes_next [where s = "SCondGoto br ?c n1" and pre = "pre @ blk1 @ [SAssign True k1 PTY_u8 l']"])
        (use C e(3) cond [where \<sigma> = \<sigma> and a = a, OF s(3) 2(2)] 2(3) in simp_all)
    let ?pre2 = "pre @ blk1 @ [SAssign True k1 PTY_u8 l', SCondGoto br ?c n1]"
    have b: "seval \<sigma> r = Some v" using seval_agree [OF cr s(2)] 2(4) by simp
    have n2: "set (labels ?pre2) \<inter> {n1 + 1..<n'} = {}" using n sl(1,3) by (fastforce simp: piece_ok_def)
    obtain \<tau> where t: "goes C (length ?pre2) \<sigma> (length ?pre2 + length blk2) \<tau>" "agree (k1 + 1) \<sigma> \<tau>" "seval \<tau> r' = Some v"
      by (rule computesD [OF r e(2) cr1 b, of C ?pre2 "[SAssign True k1 PTY_u8 r', SLabel n1] @ post"])
        (use C e(3) n2 in simp_all)
    have "goes C (length ?pre2 + length blk2) \<tau> (?stop - 1) (\<tau>(k1 := v))"
      by (rule goes_next [where s = "SAssign True k1 PTY_u8 r'" and pre = "?pre2 @ blk2"])
        (use C e(3) t(3) norm_bool [OF 2(5)] in simp_all)
    then have "goes C (length pre) \<rho> ?stop (\<tau>(k1 := v))"
      using goes_trans [OF s(1) goes_trans [OF s1]] goes_trans [OF t(1)] goes_trans [OF _ label_step] by simp
    moreover have "agree k \<rho> (\<tau>(k1 := v))"
      using agree_trans [OF s(2) t(2)] sl(2) by (intro agree_upd) simp_all
    moreover have "seval (\<tau>(k1 := v)) e' = Some v" unfolding e(4) by (rule reg_bool [OF 2(5)])
    ultimately show ?thesis by blast
  qed
qed

lemma embedded_computes: "short_ok e \<Longrightarrow> computes e"
proof (induction e)
  case (EBinary op p l r)
  show ?case
  proof (cases "op \<in> short_ops")
    case True
    then show ?thesis using EBinary by (intro computes_short) simp_all
  next
    case False
    show ?thesis
      by (rule computes_two [where node = "EBinary op p", OF _ embedded_two(1) [OF False]]) (use EBinary False in auto)
  qed
next
  case (ECompare op p q l r)
  then show ?case by (intro computes_two [where node = "ECompare op p q", OF _ embedded_two(2)]) auto
next
  case (EDepositbits p off sz l r)
  then show ?case by (intro computes_two [where node = "EDepositbits p off sz", OF _ embedded_two(3)]) auto
next
  case (EUnary op p e)
  then show ?case by (intro computes_one [where node = "EUnary op p", OF _ embedded_one(1)]) auto
next
  case (ETypeCvt op p q e)
  then show ?case by (intro computes_one [where node = "ETypeCvt op p q", OF _ embedded_one(2)]) auto
next
  case (EExtractbits op p off sz e)
  then show ?case by (intro computes_one [where node = "EExtractbits op p off sz", OF _ embedded_one(3)]) auto
qed (simp_all add: computes_def, (metis goes_refl agree_refl)+)

end
