(* ===== verification/CandCiorSound.thy ===== *)
theory CandCiorSound
  imports EmbeddedSound
begin

text \<open>
  The branches that replace \<open>cand\<close> and \<open>cior\<close> do what the operators mean. Replacing one statement
  of a program by a piece of code that implements it keeps the outcome of every run (\<open>expand\<close>);
  \<open>LowerCandCior\<close> is a sequence of such replacements, and with the lowering of structured
  statements it makes \<open>LowerFunc\<close> correct.
\<close>

section \<open>Replacing a statement by a piece of code\<close>

lemma transfer_targets:
  assumes "transfer_by ev s \<rho> = Some (Jump l, \<rho>')"
  shows "l \<in> targets s"
proof (cases s)
  case (SSwitch e d tbl)
  then obtain v where "l = switch_target d tbl v"
    using assms by (auto simp: bind_eq_Some_conv split: option.splits)
  then show ?thesis using SSwitch switch_target_in [of d tbl v] by (auto simp: targets_def)
next
  case (SRangeGoto e off tbl)
  then show ?thesis
    using assms range_target_in by (auto simp: targets_def bind_eq_Some_conv split: option.splits)
qed (use assms in \<open>auto simp: targets_def bind_eq_Some_conv split: if_splits option.splits\<close>)

definition reads :: "stmt \<Rightarrow> nat set" where
  "reads s = (case stmt_opnd s of None \<Rightarrow> {} | Some e \<Rightarrow> cells e)"

lemma effect_agree:
  "effect s v \<rho> = Some (out, \<rho>') \<Longrightarrow> agree k \<rho> \<rho>2 \<Longrightarrow> \<exists>\<sigma>. effect s v \<rho>2 = Some (out, \<sigma>) \<and> agree k \<rho>' \<sigma>"
  by (cases s) (auto simp: effect_def agree_both)

lemma transfer_agree:
  assumes "reads s \<subseteq> {..<k}" "agree k \<rho> \<rho>2" "transfer_by seval s \<rho> = Some (out, \<rho>')"
  shows "\<exists>\<rho>2'. transfer_by seval s \<rho>2 = Some (out, \<rho>2') \<and> agree k \<rho>' \<rho>2'"
proof (cases "stmt_opnd s")
  case None
  then show ?thesis using assms(2,3) by (cases s) (auto simp: stmt_opnd_def)
next
  case (Some e)
  then have "seval \<rho>2 e = seval \<rho> e" using assms(1,2) by (intro seval_agree) (simp_all add: reads_def)
  moreover obtain v where "seval \<rho> e = Some v" "effect s v \<rho> = Some (out, \<rho>')"
    using assms(3) transfer_by_opnd [OF Some] by (auto simp: bind_eq_Some_conv)
  ultimately show ?thesis using effect_agree [OF _ assms(2)] transfer_by_opnd [OF Some] by simp
qed

definition implements :: "nat \<Rightarrow> stmt \<Rightarrow> stmt list \<Rightarrow> nat \<Rightarrow> nat \<Rightarrow> bool" where
  "implements k s C p q = (\<forall>\<rho> out \<rho>' \<rho>2. agree k \<rho> \<rho>2 \<longrightarrow> transfer_by seval s \<rho> = Some (out, \<rho>') \<longrightarrow>
     (\<exists>\<sigma>. agree k \<rho>' \<sigma> \<and>
       (case out of
          Normal \<Rightarrow> goes C p \<rho>2 q \<sigma>
        | Jump l \<Rightarrow> (case label_pos C l of None \<Rightarrow> reaches seval C p \<rho>2 out \<sigma> | Some r \<Rightarrow> goes C p \<rho>2 r \<sigma>)
        | Returned \<Rightarrow> reaches seval C p \<rho>2 out \<sigma>)))"

lemma label_pos_app:
  "label_pos (as @ bs) l = (case label_pos as l of None \<Rightarrow> map_option ((+) (length as)) (label_pos bs l) | Some i \<Rightarrow> Some i)"
  by (cases "label_pos bs l"; induction as) (auto split: option.splits)

lemma labels_skip: "labels [s] = [] \<Longrightarrow> labels (s # ss) = labels ss"
  by (cases s) simp_all

lemma label_pos_less: "label_pos C l = Some i \<Longrightarrow> i < length C"
  by (induction C arbitrary: i) (auto split: if_splits)

definition shifted :: "stmt list \<Rightarrow> stmt list \<Rightarrow> nat \<Rightarrow> nat" where
  "shifted pre seg pc = (if pc \<le> length pre then pc else pc + length seg - 1)"

lemma label_pos_shifted:
  assumes "l \<notin> set (labels seg)" "labels [s] = []" "seg \<noteq> []"
  shows "label_pos (pre @ seg @ post) l = map_option (shifted pre seg) (label_pos (pre @ s # post) l)"
proof (cases "label_pos pre l")
  case None
  have "label_pos seg l = None" using assms(1) by (simp add: label_pos_None)
  moreover have "s \<noteq> SLabel l" using assms(2) by auto
  ultimately show ?thesis using None assms(3)
    by (cases "label_pos post l"; cases seg) (auto simp: label_pos_app shifted_def)
next
  case (Some i)
  then show ?thesis using label_pos_less [OF Some] by (simp add: label_pos_app shifted_def)
qed

definition follows :: "nat \<Rightarrow> (nat \<Rightarrow> nat) \<Rightarrow> stmt list \<Rightarrow> stmt list \<Rightarrow> nat \<Rightarrow> outcome \<Rightarrow> env \<Rightarrow> env \<Rightarrow> env \<Rightarrow> bool" where
  "follows k f C C' pc out \<rho>1 \<rho>2 \<sigma> = (agree k \<rho>1 \<sigma> \<and>
     (case out of
        Normal \<Rightarrow> goes C' (f pc) \<rho>2 (f (Suc pc)) \<sigma>
      | Jump l \<Rightarrow> (case label_pos C l of None \<Rightarrow> reaches seval C' (f pc) \<rho>2 out \<sigma> | Some r \<Rightarrow> goes C' (f pc) \<rho>2 (f r) \<sigma>)
      | Returned \<Rightarrow> reaches seval C' (f pc) \<rho>2 out \<sigma>))"

lemma expand_step:
  assumes C: "C = pre @ s # post" and C': "C' = pre @ seg @ post" and seg: "seg \<noteq> []" "labels [s] = []"
    and new: "set (labels seg) \<inter> \<Union> (targets ` set C) = {}"
    and reads: "\<And>t. t \<in> set pre \<union> set post \<Longrightarrow> reads t \<subseteq> {..<k}"
    and imp: "implements k s C' (length pre) (length pre + length seg)"
    and pc: "pc < length C" and t: "transfer_by seval (C ! pc) \<rho> = Some (out, \<rho>1)" and a: "agree k \<rho> \<rho>2"
  shows "\<exists>\<sigma>. follows k (shifted pre seg) C C' pc out \<rho>1 \<rho>2 \<sigma>"
proof -
  have lab: "label_pos C' l = map_option (shifted pre seg) (label_pos C l)" if "out = Jump l" for l
  proof -
    have "l \<in> targets (C ! pc)" using transfer_targets t that by simp
    then have "l \<in> \<Union> (targets ` set C)" using nth_mem [OF pc] by blast
    then have "l \<notin> set (labels seg)" using new by blast
    then show ?thesis unfolding C C' by (rule label_pos_shifted [OF _ seg(2,1)])
  qed
  show ?thesis
  proof (cases "pc = length pre")
    case True
    then have f: "shifted pre seg pc = length pre" "shifted pre seg (Suc pc) = length pre + length seg"
      by (simp_all add: shifted_def)
    have s: "transfer_by seval s \<rho> = Some (out, \<rho>1)" using t True by (simp add: C)
    obtain \<sigma> where "agree k \<rho>1 \<sigma>" and o: "case out of
          Normal \<Rightarrow> goes C' (length pre) \<rho>2 (length pre + length seg) \<sigma>
        | Jump l \<Rightarrow> (case label_pos C' l of None \<Rightarrow> reaches seval C' (length pre) \<rho>2 out \<sigma> | Some r \<Rightarrow> goes C' (length pre) \<rho>2 r \<sigma>)
        | Returned \<Rightarrow> reaches seval C' (length pre) \<rho>2 out \<sigma>"
      using imp a s unfolding implements_def by blast
    then show ?thesis unfolding follows_def f using lab by (cases out) (auto split: option.splits)
  next
    case False
    have f: "shifted pre seg pc < length C'" "C' ! shifted pre seg pc = C ! pc" "shifted pre seg (Suc pc) = Suc (shifted pre seg pc)"
      "C ! pc \<in> set pre \<union> set post"
    proof -
      have "pc < length pre \<or> (\<exists>i. pc = length pre + Suc i \<and> i < length post)"
        using False pc by (auto simp: C nat_neq_iff less_iff_Suc_add)
      then show "shifted pre seg pc < length C'" "C' ! shifted pre seg pc = C ! pc"
        "shifted pre seg (Suc pc) = Suc (shifted pre seg pc)" "C ! pc \<in> set pre \<union> set post"
        using seg(1) by (auto simp: shifted_def C C' nth_append)
    qed
    obtain \<sigma> where s: "transfer_by seval (C ! pc) \<rho>2 = Some (out, \<sigma>)" "agree k \<rho>1 \<sigma>"
      using transfer_agree [OF reads [OF f(4)] a t] by blast
    have "follows k (shifted pre seg) C C' pc out \<rho>1 \<rho>2 \<sigma>"
    proof (cases out)
      case Normal
      then show ?thesis using s f unfolding follows_def goes_def by (auto intro: reaches.Next)
    next
      case (Jump l)
      then show ?thesis using s f lab [OF Jump] unfolding follows_def goes_def
        by (auto split: option.splits intro: reaches.Out reaches.Branch)
    next
      case Returned
      then show ?thesis using s f unfolding follows_def by (auto intro: reaches.Ret)
    qed
    then show ?thesis by blast
  qed
qed

lemma expand:
  assumes C: "C = pre @ s # post" and C': "C' = pre @ seg @ post" and seg: "seg \<noteq> []" "labels [s] = []"
    and new: "set (labels seg) \<inter> \<Union> (targets ` set C) = {}"
    and reads: "\<And>t. t \<in> set pre \<union> set post \<Longrightarrow> reads t \<subseteq> {..<k}"
    and imp: "implements k s C' (length pre) (length pre + length seg)"
    and run: "reaches seval C pc \<rho> out \<rho>'" and a: "agree k \<rho> \<rho>2"
  shows "\<exists>\<sigma>. reaches seval C' (shifted pre seg pc) \<rho>2 out \<sigma> \<and> agree k \<rho>' \<sigma>"
  using run a
proof (induction arbitrary: \<rho>2)
  case (End \<rho>)
  have "shifted pre seg (length C) = length C'" using seg(1) by (cases seg) (simp_all add: shifted_def C C')
  then show ?case using End reaches.End [of seval C' \<rho>2] by auto
next
  case (Ret pc \<rho> \<rho>')
  then show ?case using expand_step [OF C C' seg new reads imp Ret(1,2,3)] by (auto simp: follows_def)
next
  case (Out pc \<rho> l \<rho>')
  then show ?case using expand_step [OF C C' seg new reads imp Out(1,2,4)] by (auto simp: follows_def)
next
  case (Next pc \<rho> \<sigma> out \<rho>')
  obtain \<tau> where "agree k \<sigma> \<tau>" "goes C' (shifted pre seg pc) \<rho>2 (shifted pre seg (Suc pc)) \<tau>"
    using expand_step [OF C C' seg new reads imp Next(1,2,5)] by (auto simp: follows_def)
  then show ?case using Next.IH unfolding goes_def by blast
next
  case (Branch pc \<rho> l \<sigma> q out \<rho>')
  obtain \<tau> where "agree k \<sigma> \<tau>" "goes C' (shifted pre seg pc) \<rho>2 (shifted pre seg q) \<tau>"
    using expand_step [OF C C' seg new reads imp Branch(1,2,6)] Branch(3) by (auto simp: follows_def)
  then show ?case using Branch.IH unfolding goes_def by blast
qed

section \<open>The statements of a block\<close>

text \<open>Code in which fresh labels and registers may be used: what it names is below them.\<close>

definition code_ok :: "fresh \<Rightarrow> stmt list \<Rightarrow> bool" where
  "code_ok st C = (distinct (labels C) \<and> set (labels C) \<subseteq> {..<fst st} \<and>
     (\<forall>s \<in> set C. targets s \<subseteq> {..<fst st} \<and> reads s \<subseteq> {..<snd st}))"

definition stmt_short_ok :: "stmt \<Rightarrow> bool" where
  "stmt_short_ok s = (case s of SCondGoto br c l \<Rightarrow> cond_ok c
     | _ \<Rightarrow> (case stmt_opnd s of None \<Rightarrow> True | Some e \<Rightarrow> short_ok e))"

lemma cond_value:
  assumes "op \<in> short_ops" "scalar_int p" "seval \<rho> (EBinary op p a b) = Some v"
  obtains x where "seval \<rho> a = Some x" "(x = 0) = (op = OP_cand)" "(v = 0) = (x = 0)"
  | x y where "seval \<rho> a = Some x" "(x = 0) \<noteq> (op = OP_cand)" "seval \<rho> b = Some y" "(v = 0) = (y = 0)"
proof -
  obtain x where x: "seval \<rho> a = Some x" using assms(3) by (auto simp: bind_eq_Some_conv)
  have t: "at_type p 0 = Some 0" "at_type p 1 = Some 1"
    using at_type_bool_word [OF assms(2), of False] at_type_bool_word [OF assms(2), of True] by simp_all
  show thesis
  proof (cases "(x = 0) = (op = OP_cand)")
    case True
    then have "(v = 0) = (x = 0)" using assms(1,3) x t by auto
    then show ?thesis using that(1) x True by blast
  next
    case False
    then obtain y where y: "seval \<rho> b = Some y" and v: "do { v \<leftarrow> eval_binary op p x y; at_type p v } = Some v"
      using assms(1,3) x by (auto simp: bind_eq_Some_conv split: if_splits)
    have "v = bool_word (y \<noteq> 0)" using v assms(1) False at_type_bool_word [OF assms(2)] by (auto simp: eval_binary_def)
    then show ?thesis using that(2) x False y by simp
  qed
qed

text \<open>A branch on \<open>cand\<close> or \<open>cior\<close> as two branches, the first of which goes to the target or to the end.\<close>

definition out_at :: "stmt list \<Rightarrow> nat \<Rightarrow> nat \<Rightarrow> outcome \<Rightarrow> env \<Rightarrow> bool" where
  "out_at C p q out \<rho> = (case out of
     Normal \<Rightarrow> goes C p \<rho> q \<rho>
   | Jump l \<Rightarrow> (case label_pos C l of None \<Rightarrow> reaches seval C p \<rho> out \<rho> | Some r \<Rightarrow> goes C p \<rho> r \<rho>)
   | Returned \<Rightarrow> reaches seval C p \<rho> out \<rho>)"

lemma out_at_jump:
  assumes "C = pre @ s # post" "transfer_by seval s \<rho> = Some (Jump l, \<rho>)" "p = length pre"
  shows "out_at C p q (Jump l) \<rho>"
proof (cases "label_pos C l")
  case None
  then show ?thesis using assms by (auto simp: out_at_def intro!: reaches.Out)
next
  case (Some r)
  then show ?thesis using goes_jump [OF assms] by (simp add: out_at_def)
qed

lemma out_at_goes: "goes C p \<rho> p' \<rho> \<Longrightarrow> out_at C p' q out \<rho> \<Longrightarrow> out_at C p q out \<rho>"
  by (cases out) (auto simp: out_at_def goes_def split: option.splits)

lemma implements_branch:
  assumes C: "C = pre @ SCondGoto br' a t # SCondGoto br b l # rest" and op: "op \<in> short_ops" "scalar_int p"
    and r: "cells a \<union> cells b \<subseteq> {..<k}"
    and first: "if same_target br op then br' = br \<and> t = l \<and> q = length pre + 2
      else br' = flip_branch br \<and> label_pos C t = Some (length pre + 2) \<and> (\<forall>\<rho>. goes C (length pre + 2) \<rho> q \<rho>)"
  shows "implements k (SCondGoto br (EBinary op p a b) l) C (length pre) q"
  unfolding implements_def
proof (intro allI impI)
  fix \<rho> out \<rho>' \<rho>2
  assume k: "agree k \<rho> \<rho>2" and tr: "transfer_by seval (SCondGoto br (EBinary op p a b) l) \<rho> = Some (out, \<rho>')"
  obtain v where v: "seval \<rho> (EBinary op p a b) = Some v" "out = (if taken br v then Jump l else Normal)" "\<rho>' = \<rho>"
    using tr unfolding transfer_by_simps by blast
  have "seval \<rho>2 (EBinary op p a b) = Some v" using seval_agree [OF _ k] v(1) r by (metis cells.simps(4))
  with op have "out_at C (length pre) q out \<rho>2"
  proof (cases rule: cond_value)
    case (1 x)
    show ?thesis
    proof (cases "same_target br op")
      case True
      then have "taken br x" "out = Jump l" using 1 op(1) v(2) by (auto simp: same_target_def taken_def)
      then show ?thesis using 1(1) first True C
        by (auto intro!: out_at_jump [where pre = pre and s = "SCondGoto br' a t" and post = "SCondGoto br b l # rest"])
    next
      case False
      then have t: "taken (flip_branch br) x" "out = Normal"
        using 1 op(1) v(2) by (cases br; auto simp: same_target_def taken_def flip_branch_def)+
      have lp: "br' = flip_branch br" "label_pos C t = Some (length pre + 2)" using first False by simp_all
      have "goes C (length pre) \<rho>2 (length pre + 2) \<rho>2"
        by (rule goes_jump [OF C _ refl lp(2)]) (use 1(1) t lp(1) in simp)
      then show ?thesis using first False t(2) goes_trans unfolding out_at_def by auto
    qed
  next
    case (2 x y)
    have n: "\<not> taken br' x" "taken br y = taken br v"
      using 2 op(1) first by (cases br; auto simp: same_target_def taken_def flip_branch_def split: if_splits)+
    have g: "goes C (length pre) \<rho>2 (length pre + 1) \<rho>2"
      by (rule goes_next [where s = "SCondGoto br' a t" and post = "SCondGoto br b l # rest"]) (use C 2(1) n(1) in simp_all)
    have "out_at C (length pre + 1) q out \<rho>2"
    proof (cases "taken br v")
      case True
      then show ?thesis using C 2(3) n(2) v(2)
        by (auto intro!: out_at_jump [where pre = "pre @ [SCondGoto br' a t]" and s = "SCondGoto br b l" and post = rest])
    next
      case False
      have "goes C (length pre + 1) \<rho>2 (length pre + 2) \<rho>2"
        by (rule goes_next [where s = "SCondGoto br b l" and pre = "pre @ [SCondGoto br' a t]" and post = rest])
          (use C 2(3) n(2) False in simp_all)
      moreover have "goes C (length pre + 2) \<rho>2 q \<rho>2" using first by (auto split: if_splits)
      ultimately show ?thesis using v(2) False goes_trans unfolding out_at_def by auto
    qed
    then show ?thesis by (rule out_at_goes [OF g])
  qed
  then show "\<exists>\<sigma>. agree k \<rho>' \<sigma> \<and> (case out of Normal \<Rightarrow> goes C (length pre) \<rho>2 q \<sigma>
      | Jump l \<Rightarrow> (case label_pos C l of None \<Rightarrow> reaches seval C (length pre) \<rho>2 out \<sigma> | Some r \<Rightarrow> goes C (length pre) \<rho>2 r \<sigma>)
      | Returned \<Rightarrow> reaches seval C (length pre) \<rho>2 out \<sigma>)"
    using k v(3) unfolding out_at_def by blast
qed

text \<open>A statement with its embedded operators computed in front of it.\<close>

lemma lower_opnds_SomeE:
  assumes "lower_opnds s (n, k) = (seg, (n', k'))" "stmt_opnd s = Some e"
  obtains blk e' where "LowerEmbeddedCandCior e (n, k) = (blk, e', (n', k'))" "seg = blk @ [set_opnd e' s]"
proof -
  obtain blk e' m j where e: "LowerEmbeddedCandCior e (n, k) = (blk, e', (m, j))" by (metis prod.collapse)
  then show ?thesis using assms that by (simp add: lower_opnds_def)
qed

lemma set_opnd_simps:
  assumes "stmt_opnd s = Some e"
  shows "stmt_opnd (set_opnd e' s) = Some e'" "effect (set_opnd e' s) = effect s" "targets (set_opnd e' s) = targets s"
    "labels [set_opnd e' s] = []"
  using assms by (cases s; simp add: stmt_opnd_def set_opnd_def effect_def fun_eq_iff targets_def)+

lemma implements_opnds:
  assumes C: "C = pre @ seg @ post" and s: "stmt_opnd s = Some e" and l: "lower_opnds s (n, k) = (seg, (n', k'))"
    and r: "cells e \<subseteq> {..<k}" and ok: "short_ok e" and n: "set (labels pre) \<inter> {n..<n'} = {}"
  shows "implements k s C (length pre) (length pre + length seg)"
  unfolding implements_def
proof (intro allI impI)
  fix \<rho> out \<rho>' \<rho>2
  assume k: "agree k \<rho> \<rho>2" and tr: "transfer_by seval s \<rho> = Some (out, \<rho>')"
  obtain blk e' where e: "LowerEmbeddedCandCior e (n, k) = (blk, e', (n', k'))" and seg: "seg = blk @ [set_opnd e' s]"
    using lower_opnds_SomeE [OF l s] .
  obtain v where v: "seval \<rho> e = Some v" "effect s v \<rho> = Some (out, \<rho>')"
    using tr transfer_by_opnd [OF s] by (auto simp: bind_eq_Some_conv)
  have v2: "seval \<rho>2 e = Some v" using seval_agree [OF r k] v(1) by simp
  have C2: "C = pre @ blk @ [set_opnd e' s] @ post" using C seg by simp
  obtain \<sigma> where b: "goes C (length pre) \<rho>2 (length pre + length blk) \<sigma>" "agree k \<rho>2 \<sigma>" "seval \<sigma> e' = Some v"
    using computesD [OF embedded_computes [OF ok] e r v2 C2 n] .
  obtain \<tau> where t: "effect s v \<sigma> = Some (out, \<tau>)" "agree k \<rho>' \<tau>"
    using effect_agree [OF v(2) agree_trans [OF k b(2)]] by auto
  have st: "transfer_by seval (set_opnd e' s) \<sigma> = Some (out, \<tau>)"
    using set_opnd_simps [OF s] b(3) t(1) by (simp add: transfer_by_opnd)
  have C3: "C = (pre @ blk) @ set_opnd e' s # post" using C2 by simp
  have len: "length pre + length seg = Suc (length (pre @ blk))" "length pre + length blk = length (pre @ blk)"
    using seg by simp_all
  have in_C: "length (pre @ blk) < length C" "C ! length (pre @ blk) = set_opnd e' s" unfolding C3 by simp_all
  have "case out of Normal \<Rightarrow> goes C (length pre) \<rho>2 (length pre + length seg) \<tau>
      | Jump l \<Rightarrow> (case label_pos C l of None \<Rightarrow> reaches seval C (length pre) \<rho>2 out \<tau> | Some r \<Rightarrow> goes C (length pre) \<rho>2 r \<tau>)
      | Returned \<Rightarrow> reaches seval C (length pre) \<rho>2 out \<tau>"
  proof (cases out)
    case Normal
    have "goes C (length (pre @ blk)) \<sigma> (length pre + length seg) \<tau>"
      by (rule goes_next [OF C3 _ refl len(1)]) (simp only: st Normal)
    then have "goes C (length pre) \<rho>2 (length pre + length seg) \<tau>"
      unfolding len(2) [symmetric] by (rule goes_trans [OF b(1)])
    then show ?thesis using Normal by simp
  next
    case (Jump l)
    show ?thesis
    proof (cases "label_pos C l")
      case None
      have "reaches seval C (length (pre @ blk)) \<sigma> (Jump l) \<tau>" 
        by (rule reaches.Out [OF in_C(1) _ None]) (simp only: in_C(2) st Jump)
      then show ?thesis using b(1) Jump None unfolding goes_def len(2) by simp
    next
      case (Some r)
      have "goes C (length (pre @ blk)) \<sigma> r \<tau>" by (rule goes_jump [OF C3 _ refl Some]) (simp only: st Jump)
      then have "goes C (length pre) \<rho>2 r \<tau>" unfolding len(2) [symmetric] by (rule goes_trans [OF b(1)])
      then show ?thesis using Jump Some by simp
    qed
  next
    case Returned
    have "reaches seval C (length (pre @ blk)) \<sigma> Returned \<tau>" 
      by (rule reaches.Ret [OF in_C(1)]) (simp only: in_C(2) st Returned)
    then show ?thesis using b(1) Returned unfolding goes_def len(2) by simp
  qed
  then show "\<exists>\<sigma>. agree k \<rho>' \<sigma> \<and> (case out of Normal \<Rightarrow> goes C (length pre) \<rho>2 (length pre + length seg) \<sigma>
      | Jump l \<Rightarrow> (case label_pos C l of None \<Rightarrow> reaches seval C (length pre) \<rho>2 out \<sigma> | Some r \<Rightarrow> goes C (length pre) \<rho>2 r \<sigma>)
      | Returned \<Rightarrow> reaches seval C (length pre) \<rho>2 out \<sigma>)"
    using t(2) by blast
qed

lemma lower_opnds_static:
  assumes s: "stmt_opnd s = Some e" and l: "lower_opnds s (n, k) = (seg, (n', k'))" and r: "cells e \<subseteq> {..<k}"
  shows "n \<le> n' \<and> k \<le> k' \<and> seg \<noteq> [] \<and> distinct (labels seg) \<and> set (labels seg) \<subseteq> {n..<n'} \<and>
    (\<forall>t \<in> set seg. opnd_done k' t \<and> targets t \<subseteq> targets s \<union> {n..<n'})"
proof -
  obtain blk e' where e: "LowerEmbeddedCandCior e (n, k) = (blk, e', (n', k'))" and seg: "seg = blk @ [set_opnd e' s]"
    using lower_opnds_SomeE [OF l s] .
  note st = embedded_ranges [OF e r]
  have "opnd_done k' (set_opnd e' s)" using set_opnd_simps(1) [OF s] st(4,5) by (simp add: opnd_done_def)
  then show ?thesis using st(1-3) set_opnd_simps(3,4) [OF s, of e'] unfolding seg piece_ok_def by auto
qed

lemma expand_run:
  assumes ok: "code_ok (n, k) (pre @ s # post)" and seg: "seg \<noteq> []" "labels [s] = []" "set (labels seg) \<subseteq> {n..<n'}"
    and imp: "implements k s (pre @ seg @ post) (length pre) (length pre + length seg)"
    and run: "reaches seval (pre @ s # post) 0 \<rho> out \<rho>'"
  shows "\<exists>\<sigma>. reaches seval (pre @ seg @ post) 0 \<rho> out \<sigma> \<and> agree k \<rho>' \<sigma>"
proof -
  have "set (labels seg) \<inter> \<Union> (targets ` set (pre @ s # post)) = {}"
    using ok seg(3) unfolding code_ok_def by fastforce
  moreover have "\<And>t. t \<in> set pre \<union> set post \<Longrightarrow> reads t \<subseteq> {..<k}" using ok unfolding code_ok_def by auto
  ultimately show ?thesis
    using expand [OF refl refl seg(1,2) _ _ imp run agree_refl] by (simp add: shifted_def)
qed

lemma code_ok_expand:
  assumes ok: "code_ok (n, k) (pre @ s # post)" and n: "n \<le> n'" "k \<le> k'" and s: "labels [s] = []"
    and l: "distinct (labels seg)" "set (labels seg) \<subseteq> {n..<n'}"
    and t: "\<forall>t \<in> set seg. reads t \<subseteq> {..<k'} \<and> targets t \<subseteq> targets s \<union> {n..<n'}"
  shows "code_ok (n', k') (pre @ seg @ post)"
proof -
  have lab: "labels (pre @ s # post) = labels pre @ labels post" using s by (metis append_Cons append_Nil labels_append)
  have d: "distinct (labels pre @ labels post)" "set (labels pre @ labels post) \<subseteq> {..<n}"
    using ok unfolding code_ok_def lab by simp_all
  have "distinct (labels (pre @ seg @ post))" using d l by fastforce
  moreover have "set (labels (pre @ seg @ post)) \<subseteq> {..<n'}" using d(2) l(2) n(1) by fastforce
  moreover have "targets u \<subseteq> {..<n'} \<and> reads u \<subseteq> {..<k'}" if "u \<in> set (pre @ seg @ post)" for u
  proof (cases "u \<in> set seg")
    case True
    have "targets s \<subseteq> {..<n}" using ok unfolding code_ok_def by simp
    then show ?thesis using t True n(1) by fastforce
  next
    case False
    then have "targets u \<subseteq> {..<n}" "reads u \<subseteq> {..<k}" using that ok unfolding code_ok_def by auto
    then show ?thesis using n by fastforce
  qed
  ultimately show ?thesis unfolding code_ok_def by simp
qed

lemma code_ok_mid: "code_ok (n, k) (pre @ s # post) \<Longrightarrow> targets s \<subseteq> {..<n} \<and> reads s \<subseteq> {..<k}"
  unfolding code_ok_def by simp

text \<open>One branch on an operator rewritten.\<close>

lemma branch_rewrite:
  assumes ok: "code_ok (n, k) (pre @ s # ss)" and s: "cond_candcior s = Some (br, op, a, b, l)" "stmt_short_ok s"
    and nl: "if same_target br op then br' = br \<and> t = l \<and> ss' = ss \<and> st = (n, k)
      else br' = flip_branch br \<and> next_label ss (n, k) = Some (t, ss', st)"
    and run: "reaches seval (pre @ s # ss) 0 \<rho> out \<rho>'"
  shows "code_ok st (pre @ SCondGoto br' a t # SCondGoto br b l # ss') \<and> snd st = k \<and>
    (\<exists>\<sigma>. reaches seval (pre @ SCondGoto br' a t # SCondGoto br b l # ss') 0 \<rho> out \<sigma> \<and> agree k \<rho>' \<sigma>)"
proof -
  obtain p where s': "s = SCondGoto br (EBinary op p a b) l" "op \<in> short_ops"
    using s(1) by (auto simp: cond_candcior_def split: stmt.splits expr.splits if_splits)
  have p: "scalar_int p" using s(2) s' by (auto simp: stmt_short_ok_def)
  have c: "cells a \<union> cells b \<subseteq> {..<k}" "l < n" using code_ok_mid [OF ok] s'(1) by (auto simp: reads_def stmt_opnd_def targets_def)
  have no: "labels [s] = []" using s'(1) by simp
  show ?thesis
  proof (cases "same_target br op \<or> (\<exists>rest. ss = SLabel t # rest)")
    case True
    let ?seg = "[SCondGoto br' a t, SCondGoto br b l]"
    have e: "ss' = ss" "st = (n, k)" using nl True by (auto simp: next_label_def split: if_splits)
    have tn: "t < n"
    proof (cases "same_target br op")
      case False
      then obtain rest where "ss = SLabel t # rest" using True by blast
      then show ?thesis using ok by (simp add: code_ok_def s'(1))
    qed (use nl c(2) in simp)
    have ok': "code_ok (n, k) (pre @ ?seg @ ss)"
    proof -
      have "code_ok (n, k) (pre @ s # ss) \<Longrightarrow> targets u \<subseteq> {..<n} \<Longrightarrow> reads u \<subseteq> {..<k} \<Longrightarrow> labels [u] = [] \<Longrightarrow>
        targets v \<subseteq> {..<n} \<Longrightarrow> reads v \<subseteq> {..<k} \<Longrightarrow> labels [v] = [] \<Longrightarrow> code_ok (n, k) (pre @ u # v # ss)" for u v
        by (simp add: code_ok_def s'(1) labels_skip)
      then show ?thesis using ok tn c by (simp add: targets_def reads_def stmt_opnd_def)
    qed
    have first: "if same_target br op then br' = br \<and> t = l \<and> length pre + length ?seg = length pre + 2
      else br' = flip_branch br \<and> label_pos (pre @ SCondGoto br' a t # SCondGoto br b l # ss) t = Some (length pre + 2)
        \<and> (\<forall>\<rho>. goes (pre @ SCondGoto br' a t # SCondGoto br b l # ss) (length pre + 2) \<rho> (length pre + length ?seg) \<rho>)"
    proof (cases "same_target br op")
      case False
      then obtain rest where r: "ss = SLabel t # rest" using True by blast
      then have "t \<notin> set (labels pre)" using ok by (simp add: code_ok_def s'(1))
      then have "label_pos pre t = None" by (simp add: label_pos_None)
      then show ?thesis using False nl r by (simp add: label_pos_app)
    qed (use nl in simp)
    have "implements k s (pre @ ?seg @ ss) (length pre) (length pre + length ?seg)"
      unfolding s'(1) using implements_branch [OF refl s'(2) p c(1) first] by simp
    from expand_run [OF ok _ no _ this run, of n] ok' show ?thesis unfolding e by simp
  next
    case False
    then have e: "t = n" "ss' = SLabel n # ss" "st = (n + 1, k)" "br' = flip_branch br" "\<not> same_target br op"
      using nl by (auto simp: next_label_def split: if_splits list.splits stmt.splits)
    let ?seg = "[SCondGoto br' a n, SCondGoto br b l, SLabel n]"
    let ?C = "pre @ SCondGoto br' a n # SCondGoto br b l # SLabel n # ss"
    have ok': "code_ok (n + 1, k) (pre @ ?seg @ ss)"
      by (rule code_ok_expand [OF ok _ _ no]) (use c s'(1) in \<open>auto simp: reads_def stmt_opnd_def targets_def\<close>)
    have "n \<notin> set (labels pre)" using ok by (auto simp: code_ok_def)
    then have "label_pos pre n = None" by (simp add: label_pos_None)
    then have lab: "label_pos ?C n = Some (length pre + 2)" by (simp add: label_pos_app)
    have "goes ?C (length pre + 2) \<rho> (length pre + length ?seg) \<rho>" for \<rho>
      by (rule goes_next [where pre = "pre @ [SCondGoto br' a n, SCondGoto br b l]" and s = "SLabel n" and post = ss]) simp_all
    with lab have first: "if same_target br op then br' = br \<and> n = l \<and> length pre + length ?seg = length pre + 2
      else br' = flip_branch br \<and> label_pos ?C n = Some (length pre + 2)
        \<and> (\<forall>\<rho>. goes ?C (length pre + 2) \<rho> (length pre + length ?seg) \<rho>)"
      using e(4,5) by simp
    have "implements k s (pre @ ?seg @ ss) (length pre) (length pre + length ?seg)"
      unfolding s'(1) using implements_branch [OF refl s'(2) p c(1) first] by simp
    from expand_run [OF ok _ no _ this run, of "n + 1"] ok' show ?thesis unfolding e(1-3) by simp
  qed
qed

lemma opnds_rewrite:
  assumes ok: "code_ok (n, k) (pre @ s # ss)" and s: "cond_candcior s = None" "stmt_short_ok s"
    and l: "lower_opnds s (n, k) = (seg, st)" and run: "reaches seval (pre @ s # ss) 0 \<rho> out \<rho>'"
  shows "code_ok st (pre @ seg @ ss) \<and> k \<le> snd st \<and> (\<forall>t \<in> set seg. opnd_done (snd st) t) \<and>
    (\<exists>\<sigma>. reaches seval (pre @ seg @ ss) 0 \<rho> out \<sigma> \<and> agree k \<rho>' \<sigma>)"
proof (cases "stmt_opnd s")
  case None
  then have "seg = [s]" "st = (n, k)" using l by (simp_all add: lower_opnds_def)
  then show ?thesis using ok run None by (auto simp: opnd_done_def)
next
  case (Some e)
  obtain n' k' where st: "st = (n', k')" by (cases st)
  have no: "labels [s] = []" using Some by (cases s) (simp_all add: stmt_opnd_def)
  have r: "cells e \<subseteq> {..<k}" using code_ok_mid [OF ok] Some by (simp add: reads_def)
  have e: "short_ok e"
  proof (cases "\<exists>br l. s = SCondGoto br e l")
    case True
    then have "cond_ok e" using s(2) by (auto simp: stmt_short_ok_def)
    moreover have "\<not> (\<exists>op p a b. e = EBinary op p a b \<and> (op = OP_cand \<or> op = OP_cior))"
      using True s(1) by (auto simp: cond_candcior_def)
    ultimately show ?thesis by (cases e) (auto split: if_splits)
  next
    case False
    then show ?thesis using s(2) Some by (cases s) (auto simp: stmt_short_ok_def stmt_opnd_def)
  qed
  note l = l [unfolded st]
  have sta: "n \<le> n'" "k \<le> k'" "seg \<noteq> []" "distinct (labels seg)" "set (labels seg) \<subseteq> {n..<n'}"
    "\<forall>t \<in> set seg. opnd_done k' t \<and> targets t \<subseteq> targets s \<union> {n..<n'}"
    using lower_opnds_static [OF Some l r] by simp_all
  have rd: "\<forall>t \<in> set seg. reads t \<subseteq> {..<k'} \<and> targets t \<subseteq> targets s \<union> {n..<n'}"
    using sta(6) by (auto simp: opnd_done_def reads_def split: option.splits)
  have "set (labels pre) \<subseteq> {..<n}" using ok by (simp add: code_ok_def)
  then have pre: "set (labels pre) \<inter> {n..<n'} = {}" by fastforce
  have "implements k s (pre @ seg @ ss) (length pre) (length pre + length seg)"
    by (rule implements_opnds [OF refl Some l r e pre])
  from expand_run [OF ok sta(3) no sta(5) this run]
  show ?thesis using code_ok_expand [OF ok sta(1,2) no sta(4,5) rd] sta(2,6) st by simp
qed

lemma stmt_short_ok_goto: "stmt_short_ok (SCondGoto br (EBinary op p a b) l) \<Longrightarrow> op \<in> short_ops \<Longrightarrow>
    stmt_short_ok (SCondGoto br1 a t) \<and> stmt_short_ok (SCondGoto br2 b u)"
  by (auto simp: stmt_short_ok_def)

lemma next_label_set: "next_label ss st = Some (t, ss', st') \<Longrightarrow> set ss' \<subseteq> insert (SLabel (fst st)) (set ss)"
  by (auto simp: next_label_def split: list.splits stmt.splits)

lemma LowerCandCior_sim:
  "LowerCandCior ss st = Some (code, st') \<Longrightarrow> code_ok st (pre @ ss) \<Longrightarrow> (\<forall>s \<in> set ss. stmt_short_ok s) \<Longrightarrow>
   reaches seval (pre @ ss) 0 \<rho> out \<rho>' \<Longrightarrow>
   snd st \<le> snd st' \<and> (\<forall>s \<in> set code. opnd_done (snd st') s) \<and>
   (\<exists>\<sigma>. reaches seval (pre @ code) 0 \<rho> out \<sigma> \<and> agree (snd st) \<rho>' \<sigma>)"
proof (induction ss st arbitrary: pre code \<rho>' rule: LowerCandCior.induct)
  case (1 st)
  then show ?case by auto
next
  case (2 s ss st)
  obtain n k where st: "st = (n, k)" by (cases st)
  show ?case
  proof (cases "cond_candcior s")
    case (Some x)
    obtain br op a b l where x: "cond_candcior s = Some (br, op, a, b, l)" using Some by (cases x) auto
    then obtain p where s': "s = SCondGoto br (EBinary op p a b) l" "op \<in> short_ops"
      by (auto simp: cond_candcior_def split: stmt.splits expr.splits if_splits)
    have sok: "stmt_short_ok s" "\<forall>s \<in> set ss. stmt_short_ok s" using "2.prems"(3) by simp_all
    obtain br' t ss' st1 where r: "if same_target br op then br' = br \<and> t = l \<and> ss' = ss \<and> st1 = (n, k)
      else br' = flip_branch br \<and> next_label ss (n, k) = Some (t, ss', st1)"
      and c: "LowerCandCior (SCondGoto br' a t # SCondGoto br b l # ss') st1 = Some (code, st')"
    proof (cases "same_target br op")
      case True
      then show ?thesis using that [of br l ss "(n, k)"] "2.prems"(1) x st by simp
    next
      case False
      then show ?thesis using that [of "flip_branch br"] "2.prems"(1) x st by (auto split: option.splits)
    qed
    have ss': "\<forall>s \<in> set ss'. stmt_short_ok s"
    proof (cases "same_target br op")
      case False
      then have "set ss' \<subseteq> insert (SLabel n) (set ss)" using r next_label_set by fastforce
      moreover have "stmt_short_ok (SLabel n)" by (simp add: stmt_short_ok_def stmt_opnd_def)
      ultimately show ?thesis using sok(2) by blast
    qed (use r sok(2) in simp)
    have rw: "code_ok st1 (pre @ SCondGoto br' a t # SCondGoto br b l # ss')" "snd st1 = k"
      "\<exists>\<sigma>. reaches seval (pre @ SCondGoto br' a t # SCondGoto br b l # ss') 0 \<rho> out \<sigma> \<and> agree k \<rho>' \<sigma>"
      using branch_rewrite [OF "2.prems"(2) [unfolded st] x sok(1) r "2.prems"(4)] by simp_all
    then obtain \<sigma> where g: "reaches seval (pre @ SCondGoto br' a t # SCondGoto br b l # ss') 0 \<rho> out \<sigma>" "agree k \<rho>' \<sigma>"
      by blast
    have gotos: "stmt_short_ok (SCondGoto br' a t)" "stmt_short_ok (SCondGoto br b l)"
      using stmt_short_ok_goto [OF _ s'(2)] sok(1) unfolding s'(1) by blast+
    have IH: "snd st1 \<le> snd st' \<and> (\<forall>s \<in> set code. opnd_done (snd st') s) \<and>
      (\<exists>\<tau>. reaches seval (pre @ code) 0 \<rho> out \<tau> \<and> agree (snd st1) \<sigma> \<tau>)"
    proof (cases "same_target br op")
      case True
      then have e: "br' = br" "t = l" "ss' = ss" "st1 = st" using r st by simp_all
      show ?thesis unfolding e(4)
        by (rule "2.IH"(2) [OF x refl refl refl refl True c [unfolded e] rw(1) [unfolded e] _ g(1) [unfolded e]])
          (use gotos ss' e in simp)
    next
      case False
      then have e: "br' = flip_branch br" "next_label ss st = Some (t, ss', st1)" using r st by simp_all
      show ?thesis
        by (rule "2.IH"(3) [OF x refl refl refl refl False e(2) refl refl c [unfolded e(1)] rw(1) [unfolded e(1)] _ g(1) [unfolded e(1)]])
          (use gotos ss' e(1) in simp)
    qed
    then show ?thesis using rw(2) st agree_trans [OF g(2)] by auto
  next
    case None
    obtain seg st1 where l: "lower_opnds s (n, k) = (seg, st1)" by (cases "lower_opnds s (n, k)")
    then obtain cs where cs: "LowerCandCior ss st1 = Some (cs, st')" "code = seg @ cs"
      using "2.prems"(1) None st by (auto split: option.splits)
    have sok: "stmt_short_ok s" "\<forall>s \<in> set ss. stmt_short_ok s" using "2.prems"(3) by simp_all
    have rw: "code_ok st1 ((pre @ seg) @ ss)" "k \<le> snd st1" "\<forall>t \<in> set seg. opnd_done (snd st1) t"
      "\<exists>\<sigma>. reaches seval ((pre @ seg) @ ss) 0 \<rho> out \<sigma> \<and> agree k \<rho>' \<sigma>"
      using opnds_rewrite [OF "2.prems"(2) [unfolded st] None sok(1) l "2.prems"(4)] by simp_all
    then obtain \<sigma> where g: "reaches seval ((pre @ seg) @ ss) 0 \<rho> out \<sigma>" "agree k \<rho>' \<sigma>" by blast
    have IH: "snd st1 \<le> snd st' \<and> (\<forall>s \<in> set cs. opnd_done (snd st') s) \<and>
      (\<exists>\<tau>. reaches seval ((pre @ seg) @ cs) 0 \<rho> out \<tau> \<and> agree (snd st1) \<sigma> \<tau>)"
      by (rule "2.IH"(1) [OF None _ cs(1) rw(1) sok(2) g(1)]) (use l st in simp)
    have "opnd_done (snd st') t" if "t \<in> set seg" for t
      using rw(3) IH that by (fastforce simp: opnd_done_def split: option.splits)
    then show ?thesis using IH rw(2) st cs(2) agree_trans [OF g(2)] by auto
  qed
qed

section \<open>Lowered blocks\<close>

definition stmt_names :: "nat \<Rightarrow> nat \<Rightarrow> stmt \<Rightarrow> bool" where
  "stmt_names n k s = (targets s \<subseteq> {..<n} \<and> reads s \<subseteq> {..<k} \<and> stmt_short_ok s)"

abbreviation names_ok :: "nat \<Rightarrow> nat \<Rightarrow> stmt list \<Rightarrow> bool" where
  "names_ok n k C \<equiv> list_all (stmt_names n k) C"

lemma stmt_names_simps [simp]:
  "stmt_names n k (SAssign preg x p e) = (cells e \<subseteq> {..<k} \<and> short_ok e)"
  "stmt_names n k (SEval e) = (cells e \<subseteq> {..<k} \<and> short_ok e)"
  "stmt_names n k (SGoto l) = (l < n)"
  "stmt_names n k (SCondGoto br c l) = (l < n \<and> cells c \<subseteq> {..<k} \<and> cond_ok c)"
  "stmt_names n k (SRangeGoto e off tbl) = (snd ` set tbl \<subseteq> {..<n} \<and> cells e \<subseteq> {..<k} \<and> short_ok e)"
  "stmt_names n k (SSwitch e d tags) = (d < n \<and> snd ` set tags \<subseteq> {..<n} \<and> cells e \<subseteq> {..<k} \<and> short_ok e)"
  "stmt_names n k (SLabel l)" "stmt_names n k SReturn"
  by (auto simp: stmt_names_def targets_def reads_def stmt_short_ok_def stmt_opnd_def)

lemma names_mono: "names_ok n k C \<Longrightarrow> n \<le> n' \<Longrightarrow> names_ok n' k C"
  by (fastforce simp: list_all_iff stmt_names_def)

text \<open>The structured source: its registers are below \<open>k\<close>, its operators as \<open>short_ok\<close> and \<open>cond_ok\<close> ask.\<close>

fun src_short :: "nat \<Rightarrow> stmt \<Rightarrow> bool" and src_short_block :: "nat \<Rightarrow> stmt list \<Rightarrow> bool" where
  "src_short k (SAssign preg x p e) = (cells e \<subseteq> {..<k} \<and> short_ok e)"
| "src_short k (SEval e) = (cells e \<subseteq> {..<k} \<and> short_ok e)"
| "src_short k (SCondGoto br c l) = (cells c \<subseteq> {..<k} \<and> cond_ok c)"
| "src_short k (SRangeGoto e off tbl) = (cells e \<subseteq> {..<k} \<and> short_ok e)"
| "src_short k (SSwitch e d tbl) = (cells e \<subseteq> {..<k} \<and> short_ok e)"
| "src_short k (SIf c t None) = (cells c \<subseteq> {..<k} \<and> cond_ok c \<and> (t = [] \<longrightarrow> short_ok c) \<and> src_short_block k t)"
| "src_short k (SIf c t (Some e)) =
     (cells c \<subseteq> {..<k} \<and> cond_ok c \<and> (t = [] \<and> e = [] \<longrightarrow> short_ok c) \<and> src_short_block k t \<and> src_short_block k e)"
| "src_short k (SWhile c b) = (cells c \<subseteq> {..<k} \<and> cond_ok c \<and> src_short_block k b)"
| "src_short k (SDoWhile b c) = (cells c \<subseteq> {..<k} \<and> cond_ok c \<and> src_short_block k b)"
| "src_short k (SDoloop r x p s c i b) =
     (x < k \<and> cells s \<union> cells c \<union> cells i \<subseteq> {..<k} \<and> short_ok s \<and> cond_ok c \<and> short_ok i \<and> src_short_block k b)"
| "src_short k (SBlock b) = src_short_block k b"
| "src_short k s = True"
| "src_short_block k [] = True"
| "src_short_block k (s # ss) = (src_short k s \<and> src_short_block k ss)"

lemma lower_if_names:
  assumes l: "lower_if te ee n c t e = Some (code, n')" and t: "names_ok n k t" and e: "\<And>b. e = Some b \<Longrightarrow> names_ok n k b"
    and c: "cells c \<subseteq> {..<k}" "cond_ok c" "te \<and> ee \<Longrightarrow> short_ok c"
  shows "n \<le> n' \<and> names_ok n' k code"
proof -
  have n: "n \<le> n'" "n' \<le> n + 2"
    using l by (auto simp: lower_if_def CreateBrFalseStmt_def CreateBrTrueStmt_def CreateBrFalseAndGotoStmt_def
        CreateCondGotoStmt_def bind_eq_Some_conv split: if_splits)
  have "names_ok n' k t" "\<And>b. e = Some b \<Longrightarrow> names_ok n' k b" using names_mono t e n(1) by blast+
  then show ?thesis
    using l c by (auto simp: lower_if_def CreateBrFalseStmt_def CreateBrTrueStmt_def CreateBrFalseAndGotoStmt_def
        CreateCondGotoStmt_def bind_eq_Some_conv split: if_splits)
qed

lemma lower_names:
  "LowerStmt n s = Some (code, n') \<Longrightarrow> src_ok m s \<Longrightarrow> m \<le> n \<Longrightarrow> src_short k s \<Longrightarrow> n \<le> n' \<and> names_ok n' k code"
  "LowerBlock n ss = Some (code, n') \<Longrightarrow> src_ok_block m ss \<Longrightarrow> m \<le> n \<Longrightarrow> src_short_block k ss
    \<Longrightarrow> n \<le> n' \<and> names_ok n' k code"
proof (induction n s and n ss arbitrary: code n' and code n' rule: LowerStmt_LowerBlock.induct)
  case (1 n c t)
  then obtain t' n1 where t': "LowerBlock n t = Some (t', n1)" "lower_if (t = []) True n1 c t' None = Some (code, n')"
    by (auto simp: bind_eq_Some_conv)
  have T: "n \<le> n1 \<and> names_ok n1 k t'" using 1(1) [OF t'(1)] "1.prems" by simp
  have "n1 \<le> n' \<and> names_ok n' k code" by (rule lower_if_names [OF t'(2)]) (use T "1.prems"(4) in auto)
  then show ?case using T by simp
next
  case (2 n c t e)
  then obtain t' n1 e' n2 where t': "LowerBlock n t = Some (t', n1)" "LowerBlock n1 e = Some (e', n2)"
      "lower_if (t = []) (e = []) n2 c t' (Some e') = Some (code, n')"
    by (auto simp: bind_eq_Some_conv)
  have T: "n \<le> n1 \<and> names_ok n1 k t'" using 2(1) [OF t'(1)] "2.prems" by simp
  have E: "n1 \<le> n2 \<and> names_ok n2 k e'" using 2(2) [OF t'(1) refl t'(2)] "2.prems" T by simp
  have "n2 \<le> n' \<and> names_ok n' k code"
    by (rule lower_if_names [OF t'(3)]) (use T E "2.prems"(4) names_mono [of n1 k t' n2] in auto)
  then show ?case using T E by simp
next
  case (3 n c b)
  then obtain b' n1 where b: "LowerBlock n b = Some (b', n1)" and c: "n' = n1 + 2"
    "code = [SCondGoto OP_brfalse c n1, SLabel (n1 + 1)] @ b' @ [SCondGoto OP_brtrue c (n1 + 1), SLabel n1]"
    by (auto simp: bind_eq_Some_conv Let_def)
  have "n \<le> n1 \<and> names_ok n1 k b'" using 3(1) [OF b] "3.prems" by simp
  then show ?case using "3.prems"(4) names_mono [of n1 k b' n'] unfolding c by simp
next
  case (4 n b c)
  then obtain b' n1 where b: "LowerBlock n b = Some (b', n1)" and c: "n' = n1 + 1"
    "code = [SLabel n1] @ b' @ [SCondGoto OP_brtrue c n1]"
    by (auto simp: bind_eq_Some_conv)
  have "n \<le> n1 \<and> names_ok n1 k b'" using 4(1) [OF b] "4.prems" by simp
  then show ?case using "4.prems"(4) names_mono [of n1 k b' n'] unfolding c by simp
next
  case (5 n preg x p start cond incr b)
  then obtain b' n1 where b: "LowerBlock n b = Some (b', n1)" and c: "n' = n1 + 2"
    "code = [SAssign preg x p start, SCondGoto OP_brfalse cond n1, SLabel (n1 + 1)] @ b' @
           [SAssign preg x p (doloop_incr preg x p incr), SCondGoto OP_brtrue cond (n1 + 1), SLabel n1]"
    by (auto simp: bind_eq_Some_conv Let_def)
  have "n \<le> n1 \<and> names_ok n1 k b'" using 5(1) [OF b] "5.prems" by simp
  then show ?case using "5.prems"(4) names_mono [of n1 k b' n'] unfolding c by (simp add: doloop_incr_def)
next
  case (9 n s ss)
  then obtain c n1 cs where c: "LowerStmt n s = Some (c, n1)" "LowerBlock n1 ss = Some (cs, n')" "code = c @ cs"
    by (auto simp: bind_eq_Some_conv)
  have A: "n \<le> n1 \<and> names_ok n1 k c" using 9(1) [OF c(1)] "9.prems" by simp
  have B: "n1 \<le> n' \<and> names_ok n' k cs" using 9(2) [OF c(1) refl c(2)] "9.prems" A by simp
  show ?case using A B names_mono [of n1 k c n'] unfolding c(3) by simp
qed (fastforce simp: image_iff)+

lemma LowerCandCior_total:
  "ss = [] \<or> cond_candcior (last ss) = None \<Longrightarrow> \<exists>r. LowerCandCior ss st = Some r"
proof (induction ss st rule: LowerCandCior.induct)
  case (2 s ss st)
  show ?case
  proof (cases "cond_candcior s")
    case None
    have "ss = [] \<or> cond_candcior (last ss) = None" using "2.prems" by (cases "ss = []") auto
    then have "\<exists>r. LowerCandCior ss (snd (lower_opnds s st)) = Some r"
      by (rule "2.IH"(1) [OF None prod.collapse])
    then show ?thesis using None by (auto split: prod.splits)
  next
    case (Some x)
    obtain br op a b l where x: "cond_candcior s = Some (br, op, a, b, l)" using Some by (cases x) auto
    have ss: "ss \<noteq> []" "cond_candcior (last ss) = None" using "2.prems" x by (cases "ss = []"; auto)+
    show ?thesis
    proof (cases "same_target br op")
      case True
      then show ?thesis using "2.IH"(2) [OF x refl refl refl refl True] x ss by simp
    next
      case False
      obtain t ss' st1 where n: "next_label ss st = Some (t, ss', st1)" "ss' \<noteq> []" "last ss' = last ss"
        using ss(1) by (cases ss; cases "hd ss") (auto simp: next_label_def)
      show ?thesis using "2.IH"(3) [OF x refl refl refl refl False n(1) refl refl] x n ss(2) False by simp
    qed
  qed
qed simp

lemma reaches_mono:
  assumes "reaches ev C pc \<rho> out \<rho>'"
    and "\<And>s \<rho> r. s \<in> set C \<Longrightarrow> transfer_by ev s \<rho> = Some r \<Longrightarrow> transfer_by ev2 s \<rho> = Some r"
  shows "reaches ev2 C pc \<rho> out \<rho>'"
  using assms(1)
proof (induction rule: reaches.induct)
  case End
  then show ?case by (rule reaches.End)
next
  case Ret
  then show ?case using assms(2) nth_mem by (blast intro: reaches.Ret)
next
  case Out
  then show ?case using assms(2) nth_mem by (blast intro: reaches.Out)
next
  case Next
  then show ?case using assms(2) nth_mem by (blast intro: reaches.Next)
next
  case Branch
  then show ?case using assms(2) nth_mem by (blast intro: reaches.Branch)
qed

lemma transfer_done: "opnd_done k s \<Longrightarrow> transfer_by seval s \<rho> = transfer_by eval s \<rho>"
proof (cases "stmt_opnd s")
  case None
  then show ?thesis by (simp add: transfer_by_no_opnd [of s seval eval])
next
  case (Some e)
  moreover assume "opnd_done k s"
  ultimately show ?thesis by (simp add: transfer_by_opnd opnd_done_def seval_eval)
qed

lemma reaches_seval_eval: "reaches seval C pc \<rho> out \<rho>' \<Longrightarrow> \<forall>s \<in> set C. opnd_done k s \<Longrightarrow> reaches eval C pc \<rho> out \<rho>'"
  by (erule reaches_mono) (simp add: transfer_done [where k = k])

lemma lower_return: "LowerBlock n b = Some (code, n') \<Longrightarrow> b \<noteq> [] \<Longrightarrow> last b = SReturn \<Longrightarrow> code \<noteq> [] \<and> last code = SReturn"
proof (induction b arbitrary: n code)
  case (Cons s ss)
  obtain c n1 cs where c: "LowerStmt n s = Some (c, n1)" "LowerBlock n1 ss = Some (cs, n')" "code = c @ cs"
    using Cons.prems(1) by (auto simp: bind_eq_Some_conv)
  show ?case
  proof (cases "ss = []")
    case True
    then show ?thesis using c Cons.prems(3) by auto
  next
    case False
    then show ?thesis using Cons.IH [OF c(2)] Cons.prems(3) c(3) by simp
  qed
qed simp

text \<open>
  C3. \<open>LowerFunc\<close> as a whole keeps what a function body does, where \<open>cand\<close> and \<open>cior\<close> evaluate their
  second operand only when the first does not decide (\<open>seval\<close>). Take a body that ends with a return,
  lowered by the class \<open>MIRLower\<close> itself (\<open>InLFO()\<close> is false; the loop optimiser's subclass
  overrides it), that has no labels of its own and no \<open>if\<close> whose then part is made of empty blocks
  (\<open>src_ok_block\<close>), and in which every \<open>cand\<close> and \<open>cior\<close> that is not part of a branch condition has
  truth values as operands (\<open>src_short_block\<close>; a register of type \<open>u8\<close> carries them). If its
  execution leaves with some outcome and store, the body is lowered, and the code, in which nothing is
  left unevaluated (\<open>runs\<close>), leaves with that outcome and no other, and with the same value in every
  variable the body had.
\<close>

theorem LowerFunc_correct:
  assumes "src_ok_block m b" "m \<le> n" "src_short_block k b" "b \<noteq> []" "last b = SReturn" "execs_by seval b \<rho> out \<rho>'"
  shows "\<exists>code st. LowerFunc False b (n, k) = Some (code, st) \<and>
     (\<exists>\<sigma>. (\<forall>out2 \<sigma>2. runs code \<rho> out2 \<sigma>2 \<longleftrightarrow> out2 = out \<and> \<sigma>2 = \<sigma>) \<and> (\<forall>x < k. \<sigma> x = \<rho>' x))"
proof -
  obtain blk n1 where blk: "LowerBlock n b = Some (blk, n1)" using lower_total(2) [OF assms(1)] by blast
  have "runs_by seval blk \<rho> out \<rho>'" using lowered_runs [OF blk assms(1,2,6)] by blast
  then have run: "reaches seval ([] @ blk) 0 \<rho> out \<rho>'" using runs_iff_reaches by simp
  have ok: "code_ok (n1, k) ([] @ blk)" "\<forall>s \<in> set blk. stmt_short_ok s"
    using lower_labels(2) [OF blk assms(1)] lower_names(2) [OF blk assms(1-3)]
    by (auto simp: code_ok_def list_all_iff stmt_names_def)
  have "cond_candcior (last blk) = None" using lower_return [OF blk assms(4,5)] by (simp add: cond_candcior_def)
  then obtain code st where c: "LowerCandCior blk (n1, k) = Some (code, st)" using LowerCandCior_total by fastforce
  from LowerCandCior_sim [OF c ok run] obtain \<sigma> where
    s: "\<forall>s \<in> set code. opnd_done (snd st) s" "reaches seval code 0 \<rho> out \<sigma>" "agree k \<rho>' \<sigma>" by auto
  have "runs code \<rho> out \<sigma>" using runs_iff_reaches reaches_seval_eval [OF s(2,1)] by simp
  then have "runs code \<rho> out2 \<sigma>2 \<longleftrightarrow> out2 = out \<and> \<sigma>2 = \<sigma>" for out2 \<sigma>2 using runs_det by blast
  moreover have "LowerFunc False b (n, k) = Some (code, st)" using blk c by (simp add: LowerFunc_def)
  ultimately show ?thesis using s(3) unfolding agree_def by blast
qed

text \<open>
  A branch on \<open>cand\<close> and an embedded \<open>cior\<close>, each guarding a division by the first cell, which is 0:
  the divisions have no value (\<open>guarded_undefined\<close>), and the body runs because they are not reached.
\<close>

definition cell :: "nat \<Rightarrow> expr" where
  "cell x = ELeaf OP_dread PTY_i32 x"

definition int_const :: "i64 \<Rightarrow> expr" where
  "int_const k = EConst PTY_i32 \<lparr>ic_type = PTY_i32, ic_value = k\<rparr>"

definition big_quotient :: "expr" where
  "big_quotient = ECompare OP_gt PTY_u1 PTY_i32 (EBinary OP_div PTY_i32 (int_const 10) (cell 0)) (int_const 1)"

definition guarded :: "stmt list" where
  "guarded =
     [SIf (EBinary OP_cand PTY_u1 (ECompare OP_ne PTY_u1 PTY_i32 (cell 0) (int_const 0)) big_quotient) [SGoto 3] None,
      SAssign False 1 PTY_i32 (EBinary OP_cior PTY_i32 (ECompare OP_eq PTY_u1 PTY_i32 (cell 0) (int_const 0)) big_quotient),
      SReturn]"

lemma guarded_undefined: "eval (\<lambda>_. 0) big_quotient = None \<and> seval (\<lambda>_. 0) big_quotient = None"
  by code_simp

lemma guarded_runs: "execs_by seval guarded (\<lambda>_. 0) Returned ((\<lambda>_. 0)(1 := norm PTY_i32 1))"
  unfolding guarded_def
  apply (rule exec_by_execs_by.Cons, rule exec_by_execs_by.IfFalse, code_simp)
   apply (simp, rule exec_by_execs_by.Nil)
  apply (rule exec_by_execs_by.Cons, rule exec_by_execs_by.Assign [where v = 1], code_simp)
  apply (rule exec_by_execs_by.ConsExit, rule exec_by_execs_by.Return, simp)
  done

lemma LowerFunc_correct_witness:
  "\<exists>code st. LowerFunc False guarded (4, 2) = Some (code, st) \<and>
     (\<exists>\<sigma>. (\<forall>out2 \<sigma>2. runs code (\<lambda>_. 0) out2 \<sigma>2 \<longleftrightarrow> out2 = Returned \<and> \<sigma>2 = \<sigma>) \<and>
          (\<forall>x < 2. \<sigma> x = ((\<lambda>_. 0)(1 := norm PTY_i32 1)) x))"
  by (rule LowerFunc_correct [where m = 4, OF _ _ _ _ _ guarded_runs])
    (simp_all add: guarded_def big_quotient_def cell_def int_const_def is_bool_def scalar_int_cases)

text \<open>
  A register of type \<open>u8\<close> cannot carry a truth value that is not 0 or 1: \<open>cior\<close> of 256 and 0 is
  true, and the lowered code makes it false.
\<close>

lemma embedded_cior_truncates:
  "let body = [SAssign False 2 PTY_i32 (EBinary OP_cior PTY_i32 (cell 0) (cell 1)), SReturn];
       \<rho> = (\<lambda>_. 0)(0 := 256)
   in execs body \<rho> Returned (\<rho>(2 := 1)) \<and>
      (\<exists>code st \<sigma>. LowerFunc False body (0, 3) = Some (code, st) \<and> runs code \<rho> Returned \<sigma> \<and> \<sigma> 2 = 0)"
proof -
  let ?body = "[SAssign False 2 PTY_i32 (EBinary OP_cior PTY_i32 (cell 0) (cell 1)), SReturn]"
  let ?\<rho> = "(\<lambda>_. 0)(0 := 256) :: env"
  let ?code = "fst (the (LowerFunc False ?body (0, 3)))"
  have "execs ?body ?\<rho> Returned (?\<rho>(2 := norm PTY_i32 1))"
    by (rule exec_by_execs_by.Cons, rule exec_by_execs_by.Assign [where v = 1], code_simp, rule exec_by_execs_by.ConsExit,
        rule exec_by_execs_by.Return) simp
  moreover have "norm PTY_i32 1 = 1" by code_simp
  moreover have "LowerFunc False ?body (0, 3) = Some (?code, 1, 4)" by code_simp
  moreover have "map_option (\<lambda>(out, \<sigma>). (out, \<sigma> 2)) (run_flat eval 9 ?code (0, ?\<rho>)) = Some (Returned, 0)" by code_simp
  then obtain \<sigma> where "run_flat eval 9 ?code (0, ?\<rho>) = Some (Returned, \<sigma>)" "\<sigma> 2 = 0" by auto
  then have "runs ?code ?\<rho> Returned \<sigma> \<and> \<sigma> 2 = 0" using run_flat_runs by blast
  ultimately show ?thesis unfolding Let_def by metis
qed

text \<open>
  A function body that ends with a \<open>dowhile\<close> on a \<open>cand\<close> is lowered through a null pointer: the
  branch that goes back is the last statement and its short-circuit target would be the next one.
\<close>

lemma dowhile_at_end_fails: "LowerFunc False [SDoWhile [] (EBinary OP_cand p a b)] st = None"
  by (cases st) (simp add: LowerFunc_def cond_candcior_def same_target_def next_label_def lower_opnds_def stmt_opnd_def)

end
