(* ===== verification/LoweredForm.thy ===== *)
theory LoweredForm
  imports CandCiorSound
begin

text \<open>
  The form of lowered code: \<open>LowerFunc\<close> leaves no structured statement and no short-circuit operator,
  whatever the body was, so the passes behind it need no case for them.
\<close>

definition low_level :: "stmt \<Rightarrow> bool" where
  "low_level s = (case s of SIf c t e \<Rightarrow> False | SWhile c b \<Rightarrow> False | SDoWhile b c \<Rightarrow> False
     | SDoloop r x p i c d b \<Rightarrow> False | SBlock b \<Rightarrow> False | _ \<Rightarrow> True)"

definition clean :: "stmt \<Rightarrow> bool" where
  "clean s = (low_level s \<and> (\<forall>e. stmt_opnd s = Some e \<longrightarrow> no_short e))"

lemma clean_simps [simp]:
  "clean (SAssign r x p e) = no_short e" "clean (SCondGoto br e l) = no_short e" "clean (SLabel l)"
  by (simp_all add: clean_def low_level_def stmt_opnd_def)

section \<open>No structured statements\<close>

lemma lower_if_low:
  assumes "lower_if te ee n c t e = Some (code, n')" "list_all low_level t" "\<And>b. e = Some b \<Longrightarrow> list_all low_level b"
  shows "list_all low_level code"
  using assms
  by (auto simp: lower_if_def CreateBrFalseStmt_def CreateBrTrueStmt_def CreateBrFalseAndGotoStmt_def CreateCondGotoStmt_def
      low_level_def bind_eq_Some_conv split: if_splits)

lemma LowerStmt_low:
  "LowerStmt n s = Some (code, n') \<Longrightarrow> list_all low_level code"
  "LowerBlock n b = Some (code, n') \<Longrightarrow> list_all low_level code"
proof (induction n s and n b arbitrary: code n' and code n' rule: LowerStmt_LowerBlock.induct)
  case (1 n c t)
  then show ?case by (auto simp: bind_eq_Some_conv intro: lower_if_low)
next
  case (2 n c t e)
  then show ?case by (auto simp: bind_eq_Some_conv intro: lower_if_low)
qed (auto simp: bind_eq_Some_conv low_level_def Let_def)

section \<open>No short-circuit operators\<close>

lemma LowerEmbeddedCandCior_clean:
  "LowerEmbeddedCandCior e st = (blk, e', st') \<Longrightarrow> no_short e' \<and> list_all clean blk"
proof (induction e st arbitrary: blk e' st' rule: LowerEmbeddedCandCior.induct)
  case (1 op p l r st)
  obtain blk1 l' n k where l: "LowerEmbeddedCandCior l st = (blk1, l', n, k)" by (metis prod_cases4)
  show ?case
  proof (cases "op = OP_cand \<or> op = OP_cior")
    case True
    obtain blk2 r' st2 where r: "LowerEmbeddedCandCior r (n + 1, k + 1) = (blk2, r', st2)" by (metis prod_cases3)
    have "no_short l' \<and> list_all clean blk1" using "1.IH"(1) [OF True] l by auto
    moreover have "no_short r' \<and> list_all clean blk2" using "1.IH"(2) [OF True] l r by auto
    ultimately show ?thesis using "1.prems" True l r by (auto simp: Let_def)
  next
    case False
    obtain blk2 r' st2 where r: "LowerEmbeddedCandCior r (n, k) = (blk2, r', st2)" by (metis prod_cases3)
    have "no_short l' \<and> list_all clean blk1" using "1.IH"(3) [OF False] l by auto
    moreover have "no_short r' \<and> list_all clean blk2" using "1.IH"(4) [OF False] l r by auto
    ultimately show ?thesis using "1.prems" False l r by (auto simp: Let_def)
  qed
qed (auto simp: Let_def split: prod.splits)

lemma lower_opnds_clean:
  assumes "low_level s" "lower_opnds s st = (c, st')"
  shows "list_all clean c"
proof (cases "stmt_opnd s")
  case None
  then show ?thesis using assms by (auto simp: lower_opnds_def clean_def)
next
  case (Some e)
  obtain blk e' st1 where e: "LowerEmbeddedCandCior e st = (blk, e', st1)" by (metis prod_cases3)
  have "clean (set_opnd e' s)" using LowerEmbeddedCandCior_clean [OF e] assms(1) Some
    by (cases s) (auto simp: clean_def low_level_def stmt_opnd_def set_opnd_def)
  then show ?thesis using assms(2) Some e LowerEmbeddedCandCior_clean [OF e] by (auto simp: lower_opnds_def)
qed

lemma next_label_low: "next_label ss st = Some (t, ss', st') \<Longrightarrow> list_all low_level ss \<Longrightarrow> list_all low_level ss'"
  by (auto simp: next_label_def low_level_def split: list.splits stmt.splits)

lemma LowerCandCior_clean:
  "LowerCandCior ss st = Some (code, st') \<Longrightarrow> list_all low_level ss \<Longrightarrow> list_all clean code"
proof (induction ss st arbitrary: code st' rule: LowerCandCior.induct)
  case (2 s ss st)
  show ?case
  proof (cases "cond_candcior s")
    case None
    obtain c st1 where c: "lower_opnds s st = (c, st1)" by (rule prod.exhaust)
    obtain cs st2 where cs: "LowerCandCior ss st1 = Some (cs, st2)" "code = c @ cs"
      using "2.prems"(1) None c by (auto split: option.splits)
    have "list_all clean cs" using "2.IH"(1) [OF None c [symmetric] cs(1)] "2.prems"(2) by simp
    then show ?thesis using lower_opnds_clean [OF _ c] "2.prems"(2) cs(2) by simp
  next
    case (Some x)
    obtain br op a b l where x: "x = (br, op, a, b, l)" by (cases x)
    have low: "low_level (SCondGoto br' a' l')" for br' a' l' by (simp add: low_level_def)
    show ?thesis
    proof (cases "same_target br op")
      case True
      then show ?thesis using "2.IH"(2) "2.prems" Some x low by simp
    next
      case False
      then obtain t ss' st1 where n: "next_label ss st = Some (t, ss', st1)"
        "LowerCandCior (SCondGoto (flip_branch br) a t # SCondGoto br b l # ss') st1 = Some (code, st')"
        using "2.prems"(1) Some x by (auto split: option.splits)
      then show ?thesis using "2.IH"(3) next_label_low [OF n(1)] "2.prems"(2) Some x False low by simp
    qed
  qed
qed simp

text \<open>
  C30. Whatever the body, the code \<open>LowerFunc\<close> makes consists of assignments, branches, labels, returns
  and evaluations only, and no operand in it contains a \<open>cand\<close> or \<open>cior\<close>.
\<close>

theorem LowerFunc_low_level:
  assumes "LowerFunc False body st = Some (code, st')" and "s \<in> set code"
  shows "low_level s \<and> (\<forall>e. stmt_opnd s = Some e \<longrightarrow> no_short e)"
proof -
  obtain blk n where b: "LowerBlock (fst st) body = Some (blk, n)" "LowerCandCior blk (n, snd st) = Some (code, st')"
    using assms(1) by (auto simp: LowerFunc_def bind_eq_Some_conv)
  have "list_all clean code" using LowerCandCior_clean [OF b(2)] LowerStmt_low(2) [OF b(1)] .
  then show ?thesis using assms(2) by (simp add: list_all_iff clean_def)
qed

theorem LowerFunc_low_level_witness:
  "\<exists>code st. LowerFunc False guarded (4, 2) = Some (code, st) \<and> hd code \<in> set code \<and>
     low_level (hd code) \<and> (\<forall>e. stmt_opnd (hd code) = Some e \<longrightarrow> no_short e)"
proof -
  let ?r = "LowerFunc False guarded (4, 2)"
  have r: "?r = Some (fst (the ?r), snd (the ?r))" "fst (the ?r) \<noteq> []" by code_simp+
  show ?thesis using LowerFunc_low_level [OF r(1), of "hd (fst (the ?r))"] r by (metis hd_in_set)
qed

end
