(* ===== verification/Dominance.thy ===== *)
theory Dominance
  imports Prelude
begin

text \<open>
  Dominator trees of control flow graphs: class \<open>Dominance\<close> (maple_me/src/dominance.cpp and
  maple_me/include/dominance.h), after "A Simple, Fast Dominance Algorithm" by Cooper et al.
  A basic block is its id; the vectors indexed by ids are lists, the map \<open>doms\<close> is a map. The common
  entry lists the entry blocks as successors without being a predecessor of them, the common exit
  lists the exit blocks as predecessors without being a successor of them.

  \<open>None\<close> stands for a null pointer that is followed, an index out of range, or a loop that has not
  ended within its fuel; \<open>DomSound\<close> shows for which graphs and fuel there is a result.
\<close>

type_synonym bb = nat

record cfg =
  bbVec :: "bool list"  \<comment> \<open>whether there is a block with the id\<close>
  GetSucc :: "bb \<Rightarrow> bb list"
  GetPred :: "bb \<Rightarrow> bb list"
  commonEntryBB :: bb
  commonExitBB :: bb
  is_exit :: "bb \<Rightarrow> bool"  \<comment> \<open>attribute \<open>kBBAttrIsExit\<close>\<close>

abbreviation bb_count :: "cfg \<Rightarrow> nat" where
  "bb_count g \<equiv> length (bbVec g)"

section \<open>Post order\<close>

text \<open>The next post order number, the visited blocks, and the numbers given so far, -1 for none.\<close>

type_synonym walk_state = "int \<times> bool list \<times> int list"

fun PostOrderWalk :: "nat \<Rightarrow> cfg \<Rightarrow> bb \<Rightarrow> walk_state \<Rightarrow> walk_state option"
  and walk_succs :: "nat \<Rightarrow> cfg \<Rightarrow> bb list \<Rightarrow> walk_state \<Rightarrow> walk_state option" where
  "PostOrderWalk 0 g b st = None"
| "PostOrderWalk (Suc k) g b (pid, visitedMap, ids) =
     (if b \<ge> length visitedMap then None
      else if visitedMap ! b then Some (pid, visitedMap, ids)
      else do {
        (pid, visitedMap, ids) \<leftarrow> walk_succs k g (GetSucc g b) (pid, visitedMap[b := True], ids);
        Some (pid + 1, visitedMap, ids[b := pid]) })"
| "walk_succs k g [] st = Some st"
| "walk_succs k g (suc # sucs) st = do { st \<leftarrow> PostOrderWalk k g suc st; walk_succs k g sucs st }"

text \<open>
  The blocks in reverse post order, from the numbers and the greatest of them. The source stores the
  pointer \<open>bbVec[i]\<close> where this stores the id \<open>i\<close> (dominance.cpp:46), and a pointer that is null is
  followed by \<open>ComputeDominance\<close>. The model takes it that a block which is a successor of a block is
  also registered in \<open>bbVec\<close>.
\<close>

definition fill_order :: "int list \<Rightarrow> int \<Rightarrow> bb list" where
  "fill_order ids maxID =
     fold (\<lambda>i order. if ids ! i = - 1 then order else order[nat (maxID - ids ! i) := i])
       [0..<length ids] (replicate (nat (maxID + 1)) 0)"

definition GenPostOrderID :: "nat \<Rightarrow> cfg \<Rightarrow> (int list \<times> bb list) option" where
  "GenPostOrderID k g = do {
     (pid, visitedMap, ids) \<leftarrow> PostOrderWalk k g (commonEntryBB g)
       (0, replicate (bb_count g) False, replicate (bb_count g) (- 1));
     Some (ids, fill_order ids (pid - 1)) }"

section \<open>Immediate dominators\<close>

type_synonym doms = "bb \<Rightarrow> bb option"

text \<open>One step of a finger per unit of fuel; the finger with the smaller number moves.\<close>

fun Intersect :: "nat \<Rightarrow> int list \<Rightarrow> doms \<Rightarrow> bb \<Rightarrow> bb \<Rightarrow> bb option" where
  "Intersect 0 ids doms b1 b2 = None"
| "Intersect (Suc k) ids doms b1 b2 =
     (if b1 = b2 then Some b1
      else if ids ! b1 < ids ! b2 then do { b1 \<leftarrow> doms b1; Intersect k ids doms b1 b2 }
      else if ids ! b2 < ids ! b1 then do { b2 \<leftarrow> doms b2; Intersect k ids doms b1 b2 }
      else None)"

definition CommonEntryBBIsPred :: "cfg \<Rightarrow> bb \<Rightarrow> bool" where
  "CommonEntryBBIsPred g b = (b \<in> set (GetSucc g (commonEntryBB g)))"

text \<open>
  The first predecessor that has been processed, with the ones that are left, and the intersection
  with the processed ones among those.
\<close>

fun first_processed :: "doms \<Rightarrow> bb \<Rightarrow> bb \<Rightarrow> bb list \<Rightarrow> bb \<times> bb list" where
  "first_processed doms b pre [] = (pre, [])"
| "first_processed doms b pre (p # ps) =
     (if doms pre = None \<or> pre = b then first_processed doms b p ps else (pre, p # ps))"

fun meet_processed :: "nat \<Rightarrow> int list \<Rightarrow> doms \<Rightarrow> bb \<Rightarrow> bb list \<Rightarrow> bb \<Rightarrow> bb option" where
  "meet_processed k ids doms b [] newIDom = Some newIDom"
| "meet_processed k ids doms b (p # ps) newIDom =
     (if doms p \<noteq> None \<and> p \<noteq> b
      then do { newIDom \<leftarrow> Intersect k ids doms p newIDom; meet_processed k ids doms b ps newIDom }
      else meet_processed k ids doms b ps newIDom)"

definition new_idom :: "nat \<Rightarrow> cfg \<Rightarrow> int list \<Rightarrow> doms \<Rightarrow> bb \<Rightarrow> bb option" where
  "new_idom k g ids doms b =
     (let pre = (if CommonEntryBBIsPred g b \<or> GetPred g b = [] then commonEntryBB g else hd (GetPred g b));
          (pre, ps) = first_processed doms b pre (tl (GetPred g b))
      in meet_processed k ids doms b ps pre)"

text \<open>One round of the loop over the blocks; the flag is \<open>changed\<close>.\<close>

fun dom_round :: "nat \<Rightarrow> cfg \<Rightarrow> int list \<Rightarrow> bb list \<Rightarrow> doms \<times> bool \<Rightarrow> (doms \<times> bool) option" where
  "dom_round k g ids [] st = Some st"
| "dom_round k g ids (b # bs) (doms, changed) = do {
     newIDom \<leftarrow> new_idom k g ids doms b;
     dom_round k g ids bs
       (if doms b \<noteq> Some newIDom then (doms(b \<mapsto> newIDom), True) else (doms, changed)) }"

fun dom_rounds :: "nat \<Rightarrow> nat \<Rightarrow> cfg \<Rightarrow> int list \<Rightarrow> bb list \<Rightarrow> doms \<Rightarrow> doms option" where
  "dom_rounds 0 k g ids bs doms = None"
| "dom_rounds (Suc n) k g ids bs doms = do {
     (doms, changed) \<leftarrow> dom_round k g ids bs (doms, False);
     (if changed then dom_rounds n k g ids bs doms else Some doms) }"

definition ComputeDominance :: "nat \<Rightarrow> nat \<Rightarrow> cfg \<Rightarrow> int list \<times> bb list \<Rightarrow> doms option" where
  "ComputeDominance n k g order =
     dom_rounds n k g (fst order) (tl (snd order)) (\<lambda>b. if b = commonEntryBB g then Some b else None)"

text \<open>The walk up the tree in \<open>Dominate\<close>.\<close>

fun dom_walk :: "nat \<Rightarrow> cfg \<Rightarrow> doms \<Rightarrow> bb \<Rightarrow> bb \<Rightarrow> bool option" where
  "dom_walk 0 g doms b1 b = None"
| "dom_walk (Suc k) g doms b1 b =
     (case doms b of
        None \<Rightarrow> Some False
      | Some d \<Rightarrow> if d = b1 then Some True else if d = commonEntryBB g then Some False else dom_walk k g doms b1 d)"

definition Dominate :: "nat \<Rightarrow> cfg \<Rightarrow> doms \<Rightarrow> bb \<Rightarrow> bb \<Rightarrow> bool option" where
  "Dominate k g doms b1 b2 =
     (if b1 = b2 then Some True else if doms b2 = None then Some False else dom_walk k g doms b1 b2)"

end
