(* ===== verification/DomOrder.thy ===== *)
theory DomOrder
  imports Dominance
begin

text \<open>
  The depth first walk of \<open>GenPostOrderID\<close>: it ends, numbers exactly the blocks that can be reached
  from the common entry, each with its own number, and every block but the entry has a predecessor
  with a greater number.
\<close>

section \<open>Graphs\<close>

inductive reachable :: "cfg \<Rightarrow> bb \<Rightarrow> bool" for g where
  Entry: "reachable g (commonEntryBB g)"
| Edge: "reachable g u \<Longrightarrow> v \<in> set (GetSucc g u) \<Longrightarrow> reachable g v"

text \<open>
  Ids are in range, and the edges agree in both directions but for those of the common entry, which
  need not be among the predecessors, and those into the common exit, which are not among the
  successors.
\<close>

definition wf_cfg :: "cfg \<Rightarrow> bool" where
  "wf_cfg g = (commonEntryBB g < bb_count g \<and> commonEntryBB g \<noteq> commonExitBB g \<and>
     (\<forall>u < bb_count g. \<forall>v \<in> set (GetSucc g u).
        v < bb_count g \<and> v \<noteq> commonExitBB g \<and> v \<noteq> commonEntryBB g \<and> (u \<noteq> commonEntryBB g \<longrightarrow> u \<in> set (GetPred g v))) \<and>
     (\<forall>v < bb_count g. v \<noteq> commonExitBB g \<longrightarrow> (\<forall>u \<in> set (GetPred g v). u < bb_count g \<and> v \<in> set (GetSucc g u))))"

lemma wf_cfgD:
  assumes "wf_cfg g"
  shows "commonEntryBB g < bb_count g"
    and "u < bb_count g \<Longrightarrow> v \<in> set (GetSucc g u) \<Longrightarrow> v < bb_count g \<and> v \<noteq> commonExitBB g \<and> v \<noteq> commonEntryBB g"
    and "u < bb_count g \<Longrightarrow> v \<in> set (GetSucc g u) \<Longrightarrow> u \<noteq> commonEntryBB g \<Longrightarrow> u \<in> set (GetPred g v)"
    and "v < bb_count g \<Longrightarrow> v \<noteq> commonExitBB g \<Longrightarrow> u \<in> set (GetPred g v) \<Longrightarrow> u < bb_count g \<and> v \<in> set (GetSucc g u)"
  using assms unfolding wf_cfg_def by blast+

lemma reachable_range: "reachable g b \<Longrightarrow> wf_cfg g \<Longrightarrow> b < bb_count g \<and> b \<noteq> commonExitBB g"
proof (induction rule: reachable.induct)
  case Entry
  then show ?case by (simp add: wf_cfg_def)
next
  case (Edge u v)
  then show ?case using wf_cfgD(2) [of g u v] by simp
qed

section \<open>What a walk does\<close>

definition new_bbs :: "bool list \<Rightarrow> bool list \<Rightarrow> bb set" where
  "new_bbs vis vis' = {b. b < length vis \<and> \<not> vis ! b \<and> vis' ! b}"

definition walked :: "cfg \<Rightarrow> bb set \<Rightarrow> walk_state \<Rightarrow> walk_state \<Rightarrow> bool" where
  "walked g roots st st' = (case (st, st') of ((pid, vis, ids), (pid', vis', ids')) \<Rightarrow>
     length vis' = length vis \<and> length ids' = length ids \<and> pid \<le> pid' \<and>
     (\<forall>b < length vis. vis ! b \<longrightarrow> vis' ! b) \<and>
     (\<forall>b < length vis. b \<notin> new_bbs vis vis' \<longrightarrow> ids' ! b = ids ! b) \<and>
     (\<forall>b \<in> new_bbs vis vis'. pid \<le> ids' ! b \<and> ids' ! b < pid') \<and>
     inj_on ((!) ids') (new_bbs vis vis') \<and>
     (\<forall>k. pid \<le> k \<and> k < pid' \<longrightarrow> (\<exists>b \<in> new_bbs vis vis'. ids' ! b = k)) \<and>
     (\<forall>u \<in> new_bbs vis vis'. \<forall>v \<in> set (GetSucc g u). vis' ! v) \<and>
     (\<forall>u \<in> new_bbs vis vis'. u \<in> roots \<or> (\<exists>w \<in> new_bbs vis vis'. u \<in> set (GetSucc g w) \<and> ids' ! u < ids' ! w)) \<and>
     (\<forall>r \<in> roots. vis' ! r))"

lemma walkedI:
  assumes "length vis' = length vis" "length ids' = length ids" "pid \<le> pid'"
    "\<And>b. b < length vis \<Longrightarrow> vis ! b \<Longrightarrow> vis' ! b"
    "\<And>b. b < length vis \<Longrightarrow> b \<notin> new_bbs vis vis' \<Longrightarrow> ids' ! b = ids ! b"
    "\<And>b. b \<in> new_bbs vis vis' \<Longrightarrow> pid \<le> ids' ! b \<and> ids' ! b < pid'"
    "inj_on ((!) ids') (new_bbs vis vis')"
    "\<And>k. pid \<le> k \<Longrightarrow> k < pid' \<Longrightarrow> \<exists>b \<in> new_bbs vis vis'. ids' ! b = k"
    "\<And>u v. u \<in> new_bbs vis vis' \<Longrightarrow> v \<in> set (GetSucc g u) \<Longrightarrow> vis' ! v"
    "\<And>u. u \<in> new_bbs vis vis' \<Longrightarrow> u \<notin> roots \<Longrightarrow> \<exists>w \<in> new_bbs vis vis'. u \<in> set (GetSucc g w) \<and> ids' ! u < ids' ! w"
    "\<And>r. r \<in> roots \<Longrightarrow> vis' ! r"
  shows "walked g roots (pid, vis, ids) (pid', vis', ids')"
  unfolding walked_def prod.case using assms by blast

lemma walkedD:
  assumes "walked g roots (pid, vis, ids) (pid', vis', ids')"
  shows "length vis' = length vis" "length ids' = length ids" "pid \<le> pid'"
    "\<And>b. b < length vis \<Longrightarrow> vis ! b \<Longrightarrow> vis' ! b"
    "\<And>b. b < length vis \<Longrightarrow> b \<notin> new_bbs vis vis' \<Longrightarrow> ids' ! b = ids ! b"
    "\<And>b. b \<in> new_bbs vis vis' \<Longrightarrow> pid \<le> ids' ! b \<and> ids' ! b < pid'"
    "inj_on ((!) ids') (new_bbs vis vis')"
    "\<And>k. pid \<le> k \<Longrightarrow> k < pid' \<Longrightarrow> \<exists>b \<in> new_bbs vis vis'. ids' ! b = k"
    "\<And>u v. u \<in> new_bbs vis vis' \<Longrightarrow> v \<in> set (GetSucc g u) \<Longrightarrow> vis' ! v"
    "\<And>u. u \<in> new_bbs vis vis' \<Longrightarrow> u \<notin> roots \<Longrightarrow> \<exists>w \<in> new_bbs vis vis'. u \<in> set (GetSucc g w) \<and> ids' ! u < ids' ! w"
    "\<And>r. r \<in> roots \<Longrightarrow> vis' ! r"
  using assms unfolding walked_def prod.case by blast+

lemma walked_refl: "\<forall>r \<in> roots. vis ! r \<Longrightarrow> walked g roots (pid, vis, ids) (pid, vis, ids)"
  by (simp add: walked_def new_bbs_def)

lemma walked_trans:
  assumes 1: "walked g A (pid, vis, ids) (pid1, vis1, ids1)" and 2: "walked g B (pid1, vis1, ids1) (pid2, vis2, ids2)"
    and A: "A \<subseteq> {..<length vis}" and g: "\<And>u. u < length vis \<Longrightarrow> set (GetSucc g u) \<subseteq> {..<length vis}"
  shows "walked g (A \<union> B) (pid, vis, ids) (pid2, vis2, ids2)"
proof -
  note w1 = walkedD [OF 1] and w2 = walkedD [OF 2]
  let ?N1 = "new_bbs vis vis1" and ?N2 = "new_bbs vis1 vis2" and ?N = "new_bbs vis vis2"
  have N: "?N = ?N1 \<union> ?N2" using w1(1,4) w2(4) by (auto simp: new_bbs_def)
  have d: "b \<notin> ?N2" "b < length vis" "vis1 ! b" if "b \<in> ?N1" for b using that by (auto simp: new_bbs_def)
  have d2: "b < length vis1" "b \<notin> ?N1" if "b \<in> ?N2" for b using that by (auto simp: new_bbs_def)
  have id1: "ids2 ! b = ids1 ! b" if "b \<in> ?N1" for b using w2(5) d [OF that] w1(1) by simp
  show ?thesis
  proof (rule walkedI)
    show "length vis2 = length vis" "length ids2 = length ids" "pid \<le> pid2" using w1(1-3) w2(1-3) by simp_all
    show "vis2 ! b" if "b < length vis" "vis ! b" for b using w1(1,4) w2(4) that by simp
    show "ids2 ! b = ids ! b" if "b < length vis" "b \<notin> ?N" for b using w1(1,5) w2(5) that N by simp
    show "pid \<le> ids2 ! b \<and> ids2 ! b < pid2" if "b \<in> ?N" for b
      using that N w1(3,6) w2(3,6) id1 by (cases "b \<in> ?N1") force+
    have "ids2 ! b < pid1" if "b \<in> ?N1" for b using w1(6) id1 that by simp
    moreover have "pid1 \<le> ids2 ! b" if "b \<in> ?N2" for b using w2(6) that by simp
    moreover have "inj_on ((!) ids2) ?N1" using w1(7) id1 by (simp add: inj_on_def)
    ultimately show "inj_on ((!) ids2) ?N" using w2(7) unfolding N inj_on_def by (metis Un_iff not_le)
    show "\<exists>b \<in> ?N. ids2 ! b = k" if "pid \<le> k" "k < pid2" for k
    proof (cases "k < pid1")
      case True
      then show ?thesis using w1(8) [OF that(1)] id1 unfolding N by auto
    next
      case False
      then show ?thesis using w2(8) [of k] that(2) unfolding N by auto
    qed
    show "vis2 ! v" if u: "u \<in> ?N" and v: "v \<in> set (GetSucc g u)" for u v
    proof (cases "u \<in> ?N1")
      case True
      then have "vis1 ! v" "v < length vis" using w1(9) v g [OF d(2) [OF True]] by auto
      then show ?thesis using w2(4) w1(1) by simp
    next
      case False
      then show ?thesis using w2(9) u v N by blast
    qed
    show "\<exists>w \<in> ?N. u \<in> set (GetSucc g w) \<and> ids2 ! u < ids2 ! w" if u: "u \<in> ?N" "u \<notin> A \<union> B" for u
    proof (cases "u \<in> ?N1")
      case True
      then obtain w where "w \<in> ?N1" "u \<in> set (GetSucc g w)" "ids1 ! u < ids1 ! w" using w1(10) u(2) by blast
      then show ?thesis using id1 True unfolding N by auto
    next
      case False
      then show ?thesis using w2(10) u N by blast
    qed
    show "vis2 ! r" if "r \<in> A \<union> B" for r
      using that w1(1,11) w2(4,11) A by (cases "r \<in> B") auto
  qed
qed

text \<open>A block that is walked to for the first time, around the walk of its successors.\<close>

lemma walked_bb:
  assumes w: "walked g (set (GetSucc g b)) (pid, vis[b := True], ids) (pid1, vis1, ids1)" and b: "b < length vis" "\<not> vis ! b"
    and len: "length ids = length vis"
  shows "walked g {b} (pid, vis, ids) (pid1 + 1, vis1, ids1[b := pid1])"
proof -
  note w = walkedD [OF w]
  let ?N1 = "new_bbs (vis[b := True]) vis1" and ?N = "new_bbs vis vis1"
  have vb: "vis1 ! b" using w(4) [of b] b(1) by simp
  have N: "?N = insert b ?N1" using b vb by (auto simp: new_bbs_def nth_list_update)
  have bN: "b \<notin> ?N1" using b(1) by (auto simp: new_bbs_def)
  have len1: "length ids1 = length vis" using w(2) len by simp
  have id: "ids1[b := pid1] ! u = ids1 ! u" if "u \<noteq> b" for u using that by simp
  have idb: "ids1[b := pid1] ! b = pid1" using b(1) len1 by simp
  have idN: "ids1[b := pid1] ! u = ids1 ! u" if "u \<in> ?N1" for u using id that bN by metis
  show ?thesis
  proof (rule walkedI)
    show "length vis1 = length vis" "length (ids1[b := pid1]) = length ids" "pid \<le> pid1 + 1" using w(1-3) by simp_all
    show "vis1 ! u" if "u < length vis" "vis ! u" for u using w(4) [of u] that by (cases "u = b") simp_all
    show "ids1[b := pid1] ! u = ids ! u" if "u < length vis" "u \<notin> ?N" for u using w(5) [of u] that N by simp
    show "pid \<le> ids1[b := pid1] ! u \<and> ids1[b := pid1] ! u < pid1 + 1" if u: "u \<in> ?N" for u
    proof (cases "u = b")
      case True
      then show ?thesis using idb w(3) by simp
    next
      case False
      then have "u \<in> ?N1" using u N by simp
      then show ?thesis using w(6) [of u] idN [of u] by simp
    qed
    have "inj_on ((!) (ids1[b := pid1])) ?N1" using w(7) idN by (simp add: inj_on_def)
    moreover have "ids1[b := pid1] ! u \<noteq> pid1" if "u \<in> ?N1" for u using w(6) [OF that] idN [OF that] by simp
    ultimately have "pid1 \<notin> (!) (ids1[b := pid1]) ` ?N1" "inj_on ((!) (ids1[b := pid1])) ?N1" by (metis imageE)+
    then show "inj_on ((!) (ids1[b := pid1])) ?N" unfolding N inj_on_insert idb using bN by (metis Diff_empty Diff_insert0)
    show "\<exists>u \<in> ?N. ids1[b := pid1] ! u = k" if k: "pid \<le> k" "k < pid1 + 1" for k
    proof (cases "k = pid1")
      case False
      then obtain u where "u \<in> ?N1" "ids1 ! u = k" using w(8) k by force
      then show ?thesis using idN unfolding N by auto
    qed (use idb N in auto)
    show "vis1 ! v" if "u \<in> ?N" "v \<in> set (GetSucc g u)" for u v using w(9,11) that unfolding N by blast
    show "\<exists>x \<in> ?N. u \<in> set (GetSucc g x) \<and> ids1[b := pid1] ! u < ids1[b := pid1] ! x" if "u \<in> ?N" "u \<notin> {b}" for u
    proof -
      have u: "u \<in> ?N1" using that N by simp
      show ?thesis
      proof (cases "u \<in> set (GetSucc g b)")
        case True
        then show ?thesis using w(6) [OF u] idN [OF u] idb unfolding N by auto
      next
        case False
        then obtain x where "x \<in> ?N1" "u \<in> set (GetSucc g x)" "ids1 ! u < ids1 ! x" using w(10) [OF u] by blast
        then show ?thesis using idN u unfolding N by auto
      qed
    qed
    show "vis1 ! r" if "r \<in> {b}" for r using that vb by simp
  qed
qed

section \<open>The walk is right and ends\<close>

definition closed_below :: "cfg \<Rightarrow> nat \<Rightarrow> bool" where
  "closed_below g n = (\<forall>u < n. set (GetSucc g u) \<subseteq> {..<n})"

lemma PostOrderWalk_walked:
  "PostOrderWalk k g b (pid, vis, ids) = Some (pid', vis', ids') \<Longrightarrow> closed_below g (length vis) \<Longrightarrow> length ids = length vis \<Longrightarrow>
    b < length vis \<and> walked g {b} (pid, vis, ids) (pid', vis', ids') \<and> (\<not> vis ! b \<longrightarrow> ids' ! b = pid' - 1)"
  "walk_succs k g sucs (pid, vis, ids) = Some (pid', vis', ids') \<Longrightarrow> closed_below g (length vis) \<Longrightarrow> length ids = length vis \<Longrightarrow>
    set sucs \<subseteq> {..<length vis} \<Longrightarrow> walked g (set sucs) (pid, vis, ids) (pid', vis', ids')"
proof (induction k g b "(pid, vis, ids)" and k g sucs "(pid, vis, ids)" arbitrary: pid vis ids pid' vis' ids' and pid vis ids pid' vis' ids'
    rule: PostOrderWalk_walk_succs.induct)
  case (2 k g b pid vis ids)
  show ?case
  proof (cases "vis ! b")
    case True
    then show ?thesis using "2.prems"(1) by (auto simp: walked_refl split: if_splits)
  next
    case False
    have b: "b < length vis" using "2.prems"(1) by (auto split: if_splits)
    then obtain pid1 vis1 ids1 where w: "walk_succs k g (GetSucc g b) (pid, vis[b := True], ids) = Some (pid1, vis1, ids1)"
      and r: "pid' = pid1 + 1" "vis' = vis1" "ids' = ids1[b := pid1]"
      using "2.prems"(1) False by (auto simp: bind_eq_Some_conv)
    have "set (GetSucc g b) \<subseteq> {..<length vis}" using "2.prems"(2) b by (simp add: closed_below_def)
    then have walked: "walked g (set (GetSucc g b)) (pid, vis[b := True], ids) (pid1, vis1, ids1)"
      using "2.hyps" [OF _ False w] b "2.prems"(2,3) by simp
    have "length ids1 = length vis" using walkedD(2) [OF walked] "2.prems"(3) by simp
    then show ?thesis using walked_bb [OF walked b False "2.prems"(3)] b unfolding r by simp
  qed
next
  case (3 k g pid vis ids)
  then show ?case by (simp add: walked_refl)
next
  case (4 k g s ss pid vis ids)
  obtain pid1 vis1 ids1 where s: "PostOrderWalk k g s (pid, vis, ids) = Some (pid1, vis1, ids1)"
    and ss: "walk_succs k g ss (pid1, vis1, ids1) = Some (pid', vis', ids')"
    using "4.prems"(1) by (auto simp: bind_eq_Some_conv)
  have 1: "s < length vis" "walked g {s} (pid, vis, ids) (pid1, vis1, ids1)" using "4.hyps"(1) [OF s "4.prems"(2,3)] by simp_all
  have len: "length vis1 = length vis" "length ids1 = length ids" using walkedD(1,2) [OF 1(2)] by simp_all
  have 2: "walked g (set ss) (pid1, vis1, ids1) (pid', vis', ids')"
    using "4.hyps"(2) [OF s ss] "4.prems"(2-4) len by simp
  have "walked g ({s} \<union> set ss) (pid, vis, ids) (pid', vis', ids')"
    by (rule walked_trans [OF 1(2) 2]) (use 1(1) "4.prems"(2) in \<open>auto simp: closed_below_def\<close>)
  then show ?case by simp
qed simp

definition unvisited :: "bool list \<Rightarrow> nat" where
  "unvisited vis = card {b. b < length vis \<and> \<not> vis ! b}"

lemma unvisited_mono:
  assumes "walked g A (pid, vis, ids) (pid', vis', ids')"
  shows "unvisited vis' \<le> unvisited vis"
proof -
  have "{b. b < length vis' \<and> \<not> vis' ! b} \<subseteq> {b. b < length vis \<and> \<not> vis ! b}"
    using walkedD(1,4) [OF assms] by auto
  then show ?thesis unfolding unvisited_def by (intro card_mono) simp_all
qed

lemma unvisited_mark: "b < length vis \<Longrightarrow> \<not> vis ! b \<Longrightarrow> unvisited (vis[b := True]) < unvisited vis"
  unfolding unvisited_def by (rule psubset_card_mono) (auto simp: nth_list_update)

lemma PostOrderWalk_total:
  "unvisited vis < k \<Longrightarrow> closed_below g (length vis) \<Longrightarrow> length ids = length vis \<Longrightarrow> b < length vis \<Longrightarrow>
    \<exists>st. PostOrderWalk k g b (pid, vis, ids) = Some st"
  "unvisited vis < k \<Longrightarrow> closed_below g (length vis) \<Longrightarrow> length ids = length vis \<Longrightarrow> set sucs \<subseteq> {..<length vis} \<Longrightarrow>
    \<exists>st. walk_succs k g sucs (pid, vis, ids) = Some st"
proof (induction k g b "(pid, vis, ids)" and k g sucs "(pid, vis, ids)" arbitrary: pid vis ids and pid vis ids
    rule: PostOrderWalk_walk_succs.induct)
  case (2 k g b pid vis ids)
  show ?case
  proof (cases "vis ! b")
    case False
    have "unvisited (vis[b := True]) < k" using unvisited_mark [of b vis] False "2.prems"(1,4) by simp
    then have "\<exists>st. walk_succs k g (GetSucc g b) (pid, vis[b := True], ids) = Some st"
      using "2.hyps" [OF _ False] "2.prems"(2-4) by (simp add: closed_below_def)
    then show ?thesis using False "2.prems"(4) by (auto simp: bind_eq_Some_conv)
  qed (use "2.prems"(4) in simp)
next
  case (4 k g s ss pid vis ids)
  obtain pid1 vis1 ids1 where s: "PostOrderWalk k g s (pid, vis, ids) = Some (pid1, vis1, ids1)"
    using "4.hyps"(1) "4.prems" by (metis insert_subset list.simps(15) lessThan_iff prod_cases3)
  have w: "walked g {s} (pid, vis, ids) (pid1, vis1, ids1)" using PostOrderWalk_walked(1) [OF s "4.prems"(2,3)] by simp
  have "\<exists>st. walk_succs k g ss (pid1, vis1, ids1) = Some st"
    using "4.hyps"(2) [OF s] "4.prems" walkedD(1,2) [OF w] unvisited_mono [OF w] by simp
  then show ?case using s by simp
qed simp_all

section \<open>Reverse post order\<close>

lemma fill_order_nth:
  assumes inj: "\<And>i j. i < length ids \<Longrightarrow> j < length ids \<Longrightarrow> ids ! i \<noteq> - 1 \<Longrightarrow> ids ! i = ids ! j \<Longrightarrow> i = j"
    and range: "\<And>i. i < length ids \<Longrightarrow> ids ! i \<noteq> - 1 \<Longrightarrow> 0 \<le> ids ! i \<and> ids ! i \<le> maxID"
    and i: "i < length ids" "ids ! i \<noteq> - 1"
  shows "fill_order ids maxID ! nat (maxID - ids ! i) = i" "length (fill_order ids maxID) = nat (maxID + 1)"
proof -
  let ?f = "\<lambda>i order. if ids ! i = - 1 then order else order[nat (maxID - ids ! i) := i]"
  have len: "length (fold ?f xs o0) = length o0" for xs and o0 :: "nat list" by (induction xs arbitrary: o0) auto
  then show "length (fill_order ids maxID) = nat (maxID + 1)" by (simp add: fill_order_def)
  have "fold ?f [0..<n] (replicate (nat (maxID + 1)) 0) ! nat (maxID - ids ! i) = i" if "i < n" "n \<le> length ids" for n
    using that
  proof (induction n)
    case (Suc n)
    let ?o = "fold ?f [0..<n] (replicate (nat (maxID + 1)) 0)"
    have lo: "length ?o = nat (maxID + 1)" by (simp add: len)
    have e: "fold ?f [0..<Suc n] (replicate (nat (maxID + 1)) 0) = ?f n ?o" by simp
    show ?case
    proof (cases "n = i")
      case True
      then show ?thesis unfolding e using i range [OF i] lo by simp
    next
      case False
      have IH: "?o ! nat (maxID - ids ! i) = i" using Suc False by simp
      show ?thesis
      proof (cases "ids ! n = - 1")
        case False
        have n: "n < length ids" using Suc.prems(2) by simp
        have "ids ! n \<noteq> ids ! i" using inj [OF n i(1) False] \<open>n \<noteq> i\<close> by blast
        then have "nat (maxID - ids ! n) \<noteq> nat (maxID - ids ! i)" using range [OF n False] range [OF i]
          by (simp add: eq_nat_nat_iff)
        then show ?thesis unfolding e using False IH by simp
      qed (use e IH in simp)
    qed
  qed simp
  from this [OF i(1)] show "fill_order ids maxID ! nat (maxID - ids ! i) = i" by (simp add: fill_order_def)
qed

definition dfs_order :: "cfg \<Rightarrow> int list \<Rightarrow> bb list \<Rightarrow> bool" where
  "dfs_order g ids order = (order \<noteq> [] \<and> hd order = commonEntryBB g \<and> set order = {b. reachable g b} \<and>
     sorted_wrt (\<lambda>a b. ids ! b < ids ! a) order \<and>
     (\<forall>b. reachable g b \<longrightarrow> 0 \<le> ids ! b \<and> ids ! b < int (length order)) \<and>
     (\<forall>b. reachable g b \<and> b \<noteq> commonEntryBB g \<longrightarrow> (\<exists>u. reachable g u \<and> b \<in> set (GetSucc g u) \<and> ids ! b < ids ! u)))"

lemma GenPostOrderID_order:
  assumes wf: "wf_cfg g" and k: "bb_count g < k"
  shows "\<exists>ids order. GenPostOrderID k g = Some (ids, order) \<and> dfs_order g ids order"
proof -
  let ?n = "bb_count g" and ?e = "commonEntryBB g"
  let ?vis0 = "replicate ?n False" and ?ids0 = "replicate ?n (- 1 :: int)"
  have g: "closed_below g (length ?vis0)" using wf_cfgD(2) [OF wf] by (auto simp: closed_below_def)
  have e: "?e < ?n" using wf_cfgD(1) [OF wf] .
  have "unvisited ?vis0 = ?n"
  proof -
    have "{b. b < length ?vis0 \<and> \<not> ?vis0 ! b} = {..<?n}" by auto
    then show ?thesis by (simp add: unvisited_def)
  qed
  then obtain pid vis ids where w: "PostOrderWalk k g ?e (0, ?vis0, ?ids0) = Some (pid, vis, ids)"
    using PostOrderWalk_total(1) [of ?vis0 k g ?ids0 ?e 0] k g e by (metis length_replicate prod_cases3)
  have walked: "walked g {?e} (0, ?vis0, ?ids0) (pid, vis, ids)" and top: "ids ! ?e = pid - 1"
    using PostOrderWalk_walked(1) [OF w g] e by simp_all
  let ?N = "new_bbs ?vis0 vis"
  note wd = walkedD [OF walked]
  have N: "b \<in> ?N \<longleftrightarrow> b < ?n \<and> vis ! b" for b by (auto simp: new_bbs_def)
  have entry: "?e \<in> ?N" using wd(11) [of ?e] e by (simp add: N)
  have in_N: "reachable g b \<Longrightarrow> b \<in> ?N" for b
  proof (induction rule: reachable.induct)
    case (Edge u v)
    have "v < ?n" using wf_cfgD(2) [OF wf, of u v] Edge N by simp
    then show ?case using wd(9) [OF Edge.IH Edge.hyps(2)] N by simp
  qed (rule entry)
  have parent: "\<exists>w \<in> ?N. b \<in> set (GetSucc g w) \<and> ids ! b < ids ! w" if "b \<in> ?N" "b \<noteq> ?e" for b
    using wd(10) [OF that(1)] that(2) by simp
  have reach: "b \<in> ?N \<Longrightarrow> reachable g b" for b
  proof (induction "nat (pid - ids ! b)" arbitrary: b rule: less_induct)
    case less
    show ?case
    proof (cases "b = ?e")
      case True
      then show ?thesis by (simp add: reachable.Entry)
    next
      case False
      then obtain w where w: "w \<in> ?N" "b \<in> set (GetSucc g w)" "ids ! b < ids ! w" using parent less.prems by blast
      have "nat (pid - ids ! w) < nat (pid - ids ! b)" using w(3) wd(6) [OF w(1)] by simp
      then show ?thesis using less.hyps w(1,2) reachable.Edge by blast
    qed
  qed
  have RN: "?N = {b. reachable g b}" using in_N reach by blast
  have none: "ids ! b = - 1 \<longleftrightarrow> b \<notin> ?N" if "b < ?n" for b
    using wd(5) [of b] wd(6) [of b] that by fastforce
  have len: "length ids = ?n" using wd(2) by simp
  have ids_N: "i \<in> ?N" if "i < length ids" "ids ! i \<noteq> - 1" for i using none that len by simp
  have fill: "fill_order ids (pid - 1) ! nat (pid - 1 - ids ! b) = b" "length (fill_order ids (pid - 1)) = nat pid"
    if b: "b \<in> ?N" for b
  proof -
    have i: "b < length ids" "ids ! b \<noteq> - 1" using b none len N by simp_all
    have inj: "i = j" if "i < length ids" "j < length ids" "ids ! i \<noteq> - 1" "ids ! i = ids ! j" for i j
      using inj_onD [OF wd(7) that(4)] ids_N that by metis
    have range: "0 \<le> ids ! i \<and> ids ! i \<le> pid - 1" if "i < length ids" "ids ! i \<noteq> - 1" for i
      using wd(6) [OF ids_N [OF that]] by simp
    show "fill_order ids (pid - 1) ! nat (pid - 1 - ids ! b) = b" by (rule fill_order_nth(1) [OF inj range i])
    show "length (fill_order ids (pid - 1)) = nat pid" using fill_order_nth(2) [OF inj range i] by simp
  qed
  define order where "order = fill_order ids (pid - 1)"
  have at: "order ! p \<in> ?N \<and> ids ! (order ! p) = pid - 1 - int p" if p: "p < nat pid" for p
  proof -
    obtain b where b: "b \<in> ?N" "ids ! b = pid - 1 - int p" using wd(8) [of "pid - 1 - int p"] p by (auto simp: zless_nat_eq_int_zless)
    then have "order ! p = b" using fill(1) [OF b(1)] unfolding order_def by simp
    then show ?thesis using b by simp
  qed
  have pos: "0 < nat pid" using wd(6) [OF entry] by simp
  have lo: "length order = nat pid" using fill(2) [OF entry] by (simp add: order_def)
  have "set order = ?N"
  proof
    show "set order \<subseteq> ?N" using at lo by (auto simp: in_set_conv_nth)
    show "?N \<subseteq> set order"
    proof
      fix b assume b: "b \<in> ?N"
      have "nat (pid - 1 - ids ! b) < length order" using wd(6) [OF b] lo by simp
      then show "b \<in> set order" using fill(1) [OF b] nth_mem unfolding order_def by metis
    qed
  qed
  moreover have "order \<noteq> []" using lo pos by auto
  moreover have "hd order = ?e" using fill(1) [OF entry] top \<open>order \<noteq> []\<close> by (simp add: order_def hd_conv_nth)
  moreover have "sorted_wrt (\<lambda>a b. ids ! b < ids ! a) order" using at lo by (simp add: sorted_wrt_iff_nth_less)
  moreover have "\<forall>b. reachable g b \<longrightarrow> 0 \<le> ids ! b \<and> ids ! b < int (length order)" using wd(6) lo pos RN by auto
  ultimately have "dfs_order g ids order" using parent unfolding dfs_order_def RN by auto
  moreover have "GenPostOrderID k g = Some (ids, order)" using w by (simp add: GenPostOrderID_def order_def)
  ultimately show ?thesis by blast
qed

end
