(* ===== verification/DomTree.thy ===== *)
theory DomTree
  imports DomOrder
begin

text \<open>
  Dominance and the tree that \<open>doms\<close> represents. \<open>ancs\<close> is the set of blocks on the way to the root;
  \<open>Intersect\<close> finds the block whose ancestors are the common ones.
\<close>

section \<open>Dominance\<close>

inductive cfg_path :: "cfg \<Rightarrow> bb list \<Rightarrow> bb \<Rightarrow> bool" for g where
  Start: "cfg_path g [commonEntryBB g] (commonEntryBB g)"
| Step: "cfg_path g p u \<Longrightarrow> v \<in> set (GetSucc g u) \<Longrightarrow> cfg_path g (p @ [v]) v"

text \<open>Every path from the common entry to \<open>b\<close> goes through \<open>a\<close>.\<close>

definition dominates :: "cfg \<Rightarrow> bb \<Rightarrow> bb \<Rightarrow> bool" where
  "dominates g a b = (\<forall>p. cfg_path g p b \<longrightarrow> a \<in> set p)"

lemma path_end: "cfg_path g p b \<Longrightarrow> b \<in> set p"
  by (induction rule: cfg_path.induct) auto

lemma dominates_refl [simp]: "dominates g b b"
  by (auto simp: dominates_def dest: path_end)

lemma dominates_entry: "dominates g (commonEntryBB g) b"
proof -
  have "cfg_path g p b \<Longrightarrow> commonEntryBB g \<in> set p" for p by (induction rule: cfg_path.induct) auto
  then show ?thesis by (simp add: dominates_def)
qed

lemma dominates_pred: "dominates g a b \<Longrightarrow> a \<noteq> b \<Longrightarrow> b \<in> set (GetSucc g u) \<Longrightarrow> dominates g a u"
  unfolding dominates_def using cfg_path.Step by fastforce

lemma reachable_path: "reachable g b \<Longrightarrow> \<exists>p. cfg_path g p b"
  by (induction rule: reachable.induct) (blast intro: cfg_path.intros)+

lemma path_reachable: "cfg_path g p b \<Longrightarrow> reachable g b"
  by (induction rule: cfg_path.induct) (blast intro: reachable.intros)+

text \<open>The predecessors of a block, among the reachable ones and without itself.\<close>

definition preds_of :: "cfg \<Rightarrow> bb \<Rightarrow> bb set" where
  "preds_of g b = {p. reachable g p \<and> b \<in> set (GetSucc g p) \<and> p \<noteq> b}"

text \<open>A family of sets that is closed under the equation of dominance contains dominators only.\<close>

lemma closed_dominates:
  assumes e: "X (commonEntryBB g) \<subseteq> {commonEntryBB g}"
    and X: "\<And>b. reachable g b \<Longrightarrow> b \<noteq> commonEntryBB g \<Longrightarrow> X b \<subseteq> insert b (\<Inter> (X ` preds_of g b))"
    and a: "a \<in> X b"
  shows "dominates g a b"
  unfolding dominates_def
proof (intro allI impI)
  fix p
  assume "cfg_path g p b"
  then show "a \<in> set p" using a
  proof (induction rule: cfg_path.induct)
    case Start
    then show ?case using e by auto
  next
    case (Step p u v)
    show ?case
    proof (cases "v = commonEntryBB g \<or> a = v \<or> u = v")
      case True
      then show ?thesis using Step e by auto
    next
      case False
      have "reachable g v" using path_reachable Step.hyps reachable.Edge by blast
      moreover have "u \<in> preds_of g v" using False Step.hyps path_reachable by (auto simp: preds_of_def)
      ultimately have "a \<in> X u" using X [of v] False Step.prems by auto
      then show ?thesis using Step.IH by simp
    qed
  qed
qed

section \<open>The tree\<close>

definition ancs :: "doms \<Rightarrow> bb \<Rightarrow> bb set" where
  "ancs doms b = {x. (b, x) \<in> {(x, y). doms x = Some y}\<^sup>*}"

lemma ancs_refl [simp]: "b \<in> ancs doms b"
  by (simp add: ancs_def)

lemma ancs_step: "x \<in> ancs doms b \<Longrightarrow> doms x = Some y \<Longrightarrow> y \<in> ancs doms b"
  by (auto simp: ancs_def intro: rtrancl_into_rtrancl)

lemma ancs_unfold: "doms b = Some d \<Longrightarrow> ancs doms b = insert b (ancs doms d)"
  unfolding ancs_def by (auto elim: converse_rtranclE intro: converse_rtrancl_into_rtrancl)

lemma ancs_none: "doms b = None \<Longrightarrow> ancs doms b = {b}"
  unfolding ancs_def by (auto elim: converse_rtranclE)

lemma ancs_trans: "x \<in> ancs doms b \<Longrightarrow> y \<in> ancs doms x \<Longrightarrow> y \<in> ancs doms b"
  by (auto simp: ancs_def)

lemma ancs_induct [consumes 1, case_names base step]:
  assumes "x \<in> ancs doms b" "P b" "\<And>x y. x \<in> ancs doms b \<Longrightarrow> P x \<Longrightarrow> doms x = Some y \<Longrightarrow> P y"
  shows "P x"
proof -
  have "(b, x) \<in> {(x, y). doms x = Some y}\<^sup>*" using assms(1) by (simp add: ancs_def)
  then show ?thesis
  proof (induction rule: rtrancl_induct)
    case (step y z)
    then show ?case using assms(3) [of y z] by (simp add: ancs_def)
  qed (rule assms(2))
qed

lemma ancs_chain: "x \<in> ancs doms b \<Longrightarrow> y \<in> ancs doms b \<Longrightarrow> x \<in> ancs doms y \<or> y \<in> ancs doms x"
proof (induction rule: ancs_induct)
  case (step x z)
  then show ?case using ancs_unfold [of doms x z] ancs_step [of x doms y z] by auto
qed simp

definition tree_ok :: "cfg \<Rightarrow> int list \<Rightarrow> doms \<Rightarrow> bool" where
  "tree_ok g ids doms = (doms (commonEntryBB g) = Some (commonEntryBB g) \<and>
     (\<forall>b d. doms b = Some d \<longrightarrow> reachable g b \<and>
        (b \<noteq> commonEntryBB g \<longrightarrow> doms d \<noteq> None \<and> ids ! b < ids ! d)))"

lemma tree_okD:
  assumes "tree_ok g ids doms"
  shows "doms (commonEntryBB g) = Some (commonEntryBB g)" "doms b = Some d \<Longrightarrow> reachable g b"
    "doms b = Some d \<Longrightarrow> doms d \<noteq> None" "doms b = Some d \<Longrightarrow> b \<noteq> commonEntryBB g \<Longrightarrow> ids ! b < ids ! d"
proof -
  show e: "doms (commonEntryBB g) = Some (commonEntryBB g)" using assms by (simp add: tree_ok_def)
  show "reachable g b" if "doms b = Some d" using assms that by (simp add: tree_ok_def)
  show "ids ! b < ids ! d" if "doms b = Some d" "b \<noteq> commonEntryBB g" using assms that by (simp add: tree_ok_def)
  show "doms d \<noteq> None" if "doms b = Some d"
    using assms that e by (cases "b = commonEntryBB g") (simp_all add: tree_ok_def)
qed

lemma ancs_entry: "tree_ok g ids doms \<Longrightarrow> ancs doms (commonEntryBB g) = {commonEntryBB g}"
proof -
  assume t: "tree_ok g ids doms"
  have "x \<in> ancs doms (commonEntryBB g) \<Longrightarrow> x = commonEntryBB g" for x
    by (induction rule: ancs_induct) (use tree_okD(1) [OF t] in auto)
  then show ?thesis by auto
qed

lemma ancs_ids:
  assumes t: "tree_ok g ids doms" and b: "doms b \<noteq> None" and x: "x \<in> ancs doms b"
  shows "doms x \<noteq> None" "x = b \<or> ids ! b < ids ! x"
proof -
  from x have "doms x \<noteq> None \<and> (x = b \<or> ids ! b < ids ! x)"
  proof (induction rule: ancs_induct)
    case (step x y)
    show ?case
    proof (cases "x = commonEntryBB g")
      case True
      then show ?thesis using step tree_okD(1) [OF t] by auto
    next
      case False
      then show ?thesis using step tree_okD(3,4) [OF t step.hyps(2)] by auto
    qed
  qed (use b in simp)
  then show "doms x \<noteq> None" "x = b \<or> ids ! b < ids ! x" by blast+
qed

lemma ancs_reachable: "tree_ok g ids doms \<Longrightarrow> doms b \<noteq> None \<Longrightarrow> x \<in> ancs doms b \<Longrightarrow> reachable g x"
  using ancs_ids(1) tree_okD(2) by blast

lemma ancs_antisym:
  assumes "tree_ok g ids doms" "doms x \<noteq> None" "x \<in> ancs doms y" "y \<in> ancs doms x"
  shows "x = y"
  using ancs_ids [OF assms(1,2,4)] ancs_ids(2) [OF assms(1) _ assms(3)] by fastforce

section \<open>Fuel\<close>

lemma sorted_ids_inj:
  fixes ids :: "int list"
  assumes s: "sorted_wrt (\<lambda>a b. ids ! b < ids ! a) order" and a: "a \<in> set order" and b: "b \<in> set order"
    and e: "ids ! a = ids ! b"
  shows "a = b"
proof -
  obtain i where i: "i < length order" "order ! i = a" by (rule in_set_conv_nth [THEN iffD1, OF a, THEN exE]) blast
  obtain j where j: "j < length order" "order ! j = b" by (rule in_set_conv_nth [THEN iffD1, OF b, THEN exE]) blast
  have less: "ids ! (order ! y) < ids ! (order ! x)" if "x < y" "y < length order" for x y
    by (rule sorted_wrt_nth_less [OF s that])
  have "ids ! b < ids ! a" if "i < j" using less [OF that j(1)] unfolding i(2) j(2) .
  moreover have "ids ! a < ids ! b" if "j < i" using less [OF that i(1)] unfolding i(2) j(2) .
  ultimately have "i = j" using e by (cases i j rule: linorder_cases) simp_all
  then show ?thesis using i(2) j(2) by (simp only:)
qed

lemma order_facts:
  assumes "dfs_order g ids order"
  shows "reachable g b \<Longrightarrow> 0 \<le> ids ! b" "reachable g b \<Longrightarrow> ids ! b < int (length order)"
    "reachable g a \<Longrightarrow> reachable g b \<Longrightarrow> ids ! a = ids ! b \<Longrightarrow> a = b"
    "reachable g b \<Longrightarrow> b \<noteq> commonEntryBB g \<Longrightarrow> \<exists>u. reachable g u \<and> b \<in> set (GetSucc g u) \<and> ids ! b < ids ! u"
proof -
  have s: "sorted_wrt (\<lambda>a b. ids ! b < ids ! a) order" and r: "set order = {b. reachable g b}"
    using assms unfolding dfs_order_def by blast+
  show "a = b" if "reachable g a" "reachable g b" "ids ! a = ids ! b"
    by (rule sorted_ids_inj [OF s]) (simp_all only: r mem_Collect_eq that)
  show "reachable g b \<Longrightarrow> 0 \<le> ids ! b" "reachable g b \<Longrightarrow> ids ! b < int (length order)"
    "reachable g b \<Longrightarrow> b \<noteq> commonEntryBB g \<Longrightarrow> \<exists>u. reachable g u \<and> b \<in> set (GetSucc g u) \<and> ids ! b < ids ! u"
    using assms unfolding dfs_order_def by blast+
qed

lemma ancs_has_entry:
  assumes o: "dfs_order g ids order" and t: "tree_ok g ids doms"
  shows "doms b \<noteq> None \<Longrightarrow> commonEntryBB g \<in> ancs doms b"
proof (induction "nat (int (length order) - ids ! b)" arbitrary: b rule: less_induct)
  case less
  show ?case
  proof (cases "b = commonEntryBB g")
    case False
    obtain d where d: "doms b = Some d" using less.prems by blast
    have "ids ! b < ids ! d" "doms d \<noteq> None" using tree_okD(3,4) [OF t d] False by simp_all
    moreover have "ids ! d < int (length order)" using order_facts(2) [OF o] tree_okD(2) [OF t] \<open>doms d \<noteq> None\<close> by blast
    ultimately have "commonEntryBB g \<in> ancs doms d" by (intro less.hyps) simp_all
    then show ?thesis using ancs_unfold [of doms b d] d by simp
  qed simp
qed

definition height :: "int list \<Rightarrow> bb list \<Rightarrow> bb \<Rightarrow> nat" where
  "height ids order b = nat (int (length order) - ids ! b)"

lemma height_le: "dfs_order g ids order \<Longrightarrow> reachable g b \<Longrightarrow> height ids order b \<le> length order"
  using order_facts(1) [of g ids order b] by (simp add: height_def)

lemma height_step:
  assumes "dfs_order g ids order" "tree_ok g ids doms" "doms b = Some d" "b \<noteq> commonEntryBB g"
  shows "height ids order d < height ids order b"
  using tree_okD(2,3,4) [OF assms(2)] assms(3,4) order_facts(2) [OF assms(1), of b] order_facts(2) [OF assms(1), of d]
  unfolding height_def by (smt (verit) zless_nat_conj)

lemma Intersect_ancs:
  assumes o: "dfs_order g ids order" and t: "tree_ok g ids doms"
  shows "doms a \<noteq> None \<Longrightarrow> doms b \<noteq> None \<Longrightarrow> height ids order a + height ids order b < k \<Longrightarrow>
    \<exists>m. Intersect k ids doms a b = Some m \<and> doms m \<noteq> None \<and> ancs doms m = ancs doms a \<inter> ancs doms b"
proof (induction k arbitrary: a b)
  case (Suc k)
  have step: "\<exists>d. doms x = Some d \<and> doms d \<noteq> None \<and> height ids order d < height ids order x \<and>
      ancs doms d \<inter> ancs doms y = ancs doms x \<inter> ancs doms y"
    if x: "doms x \<noteq> None" and y: "doms y \<noteq> None" and l: "ids ! x < ids ! y" for x y
  proof -
    have "commonEntryBB g \<in> ancs doms y" using ancs_has_entry [OF o t y] .
    then have "x \<noteq> commonEntryBB g" using ancs_ids(2) [OF t y] l by fastforce
    moreover obtain d where d: "doms x = Some d" using x by blast
    moreover have "x \<notin> ancs doms y" using ancs_ids(2) [OF t y, of x] l by auto
    ultimately show ?thesis using tree_okD(3) [OF t d] height_step [OF o t d] ancs_unfold [of doms x d] by auto
  qed
  show ?case
  proof (cases "ids ! a" "ids ! b" rule: linorder_cases)
    case less
    then obtain d where "doms a = Some d" "doms d \<noteq> None" "height ids order d < height ids order a"
      "ancs doms d \<inter> ancs doms b = ancs doms a \<inter> ancs doms b" using step Suc.prems by metis
    moreover have "a \<noteq> b" using less by auto
    ultimately show ?thesis using less Suc.IH [of d b] Suc.prems(2,3) by simp
  next
    case equal
    then have "a = b" using order_facts(3) [OF o] tree_okD(2) [OF t] Suc.prems(1,2) by blast
    then show ?thesis using Suc.prems by auto
  next
    case greater
    then obtain d where "doms b = Some d" "doms d \<noteq> None" "height ids order d < height ids order b"
      "ancs doms d \<inter> ancs doms a = ancs doms b \<inter> ancs doms a" using step Suc.prems by metis
    moreover have "a \<noteq> b" using greater by auto
    ultimately show ?thesis using greater Suc.IH [of a d] Suc.prems(1,3) by (simp add: Int_commute)
  qed
qed simp

end
