(* ===== verification/DomSound.thy ===== *)
theory DomSound
  imports DomTree
begin

text \<open>
  \<open>ComputeDominance\<close> computes dominance. The proof follows three things through the rounds: the tree
  is a tree whose edges go to greater numbers; a block's dominators are among its ancestors; and the
  ancestors are bounded by the sets of the textbook iteration, which shrink until they are the
  dominators.
\<close>

section \<open>One block\<close>

definition processed_preds :: "cfg \<Rightarrow> doms \<Rightarrow> bb \<Rightarrow> bb set" where
  "processed_preds g doms b = {p \<in> preds_of g b. doms p \<noteq> None}"

lemma meet_processed_ancs:
  assumes o: "dfs_order g ids order" and t: "tree_ok g ids doms" and k: "2 * length order < k"
  shows "doms m \<noteq> None \<Longrightarrow> \<exists>r. meet_processed k ids doms b ps m = Some r \<and> doms r \<noteq> None \<and>
    ancs doms r = ancs doms m \<inter> (\<Inter>p \<in> {p \<in> set ps. doms p \<noteq> None \<and> p \<noteq> b}. ancs doms p)"
proof (induction ps arbitrary: m)
  case (Cons p ps)
  show ?case
  proof (cases "doms p \<noteq> None \<and> p \<noteq> b")
    case True
    have h: "height ids order x \<le> length order" if "doms x \<noteq> None" for x
      using height_le [OF o] tree_okD(2) [OF t] that by blast
    obtain m' where m': "Intersect k ids doms p m = Some m'" "doms m' \<noteq> None" "ancs doms m' = ancs doms p \<inter> ancs doms m"
      using Intersect_ancs [OF o t, of p m k] True Cons.prems h [of p] h [of m] k by auto
    have "{q \<in> set (p # ps). doms q \<noteq> None \<and> q \<noteq> b} = insert p {q \<in> set ps. doms q \<noteq> None \<and> q \<noteq> b}"
      using True by auto
    then show ?thesis using Cons.IH [OF m'(2)] m'(1,3) True by (auto simp: Int_ac)
  next
    case False
    then have "{q \<in> set (p # ps). doms q \<noteq> None \<and> q \<noteq> b} = {q \<in> set ps. doms q \<noteq> None \<and> q \<noteq> b}" by auto
    moreover have "meet_processed k ids doms b (p # ps) m = meet_processed k ids doms b ps m" using False by auto
    ultimately show ?thesis using Cons.IH [OF Cons.prems] by simp
  qed
qed simp

lemma first_processed_split:
  "first_processed doms b pre ps = (pre', ps') \<Longrightarrow> \<exists>q \<in> set (pre # ps). doms q \<noteq> None \<and> q \<noteq> b \<Longrightarrow>
    doms pre' \<noteq> None \<and> pre' \<noteq> b \<and>
    {q \<in> set (pre # ps). doms q \<noteq> None \<and> q \<noteq> b} = insert pre' {q \<in> set ps'. doms q \<noteq> None \<and> q \<noteq> b}"
proof (induction doms b pre ps rule: first_processed.induct)
  case (2 doms b pre p ps)
  show ?case
  proof (cases "doms pre = None \<or> pre = b")
    case True
    then have "{q \<in> set (pre # p # ps). doms q \<noteq> None \<and> q \<noteq> b} = {q \<in> set (p # ps). doms q \<noteq> None \<and> q \<noteq> b}" by auto
    moreover have "\<exists>q \<in> set (p # ps). doms q \<noteq> None \<and> q \<noteq> b" using True "2.prems"(2) by auto
    ultimately show ?thesis using "2.IH" [OF True] "2.prems"(1) True by simp
  next
    case False
    then have "pre' = pre" "ps' = p # ps" using "2.prems"(1) by auto
    then show ?thesis using False by auto
  qed
qed auto

lemma preds_of_GetPred:
  assumes wf: "wf_cfg g" and b: "reachable g b" and n: "\<not> CommonEntryBBIsPred g b"
  shows "{q \<in> set (GetPred g b). reachable g q \<and> q \<noteq> b} = preds_of g b"
proof -
  have r: "b < bb_count g" "b \<noteq> commonExitBB g" using reachable_range [OF b wf] by blast+
  have "p \<in> set (GetPred g b)" if p: "reachable g p" "b \<in> set (GetSucc g p)" for p
  proof -
    have "p \<noteq> commonEntryBB g" using n p(2) by (auto simp: CommonEntryBBIsPred_def)
    then show ?thesis using wf_cfgD(3) [OF wf _ p(2)] reachable_range [OF p(1) wf] by blast
  qed
  moreover have "b \<in> set (GetSucc g p)" if "p \<in> set (GetPred g b)" for p using wf_cfgD(4) [OF wf r that] by blast
  ultimately show ?thesis by (auto simp: preds_of_def)
qed

lemma new_idom_ancs:
  assumes wf: "wf_cfg g" and o: "dfs_order g ids order" and t: "tree_ok g ids doms" and k: "2 * length order < k"
    and b: "reachable g b" "b \<noteq> commonEntryBB g"
    and ready: "\<And>u. reachable g u \<Longrightarrow> ids ! b < ids ! u \<Longrightarrow> doms u \<noteq> None"
  shows "\<exists>m. new_idom k g ids doms b = Some m \<and> doms m \<noteq> None \<and> ids ! b < ids ! m \<and>
    processed_preds g doms b \<noteq> {} \<and> ancs doms m = (\<Inter>p \<in> processed_preds g doms b. ancs doms p)"
proof -
  let ?e = "commonEntryBB g"
  obtain u where u: "reachable g u" "b \<in> set (GetSucc g u)" "ids ! b < ids ! u" using order_facts(4) [OF o b] by blast
  have du: "doms u \<noteq> None" using ready u(1,3) by blast
  then have up: "u \<in> processed_preds g doms b" using u by (auto simp: processed_preds_def preds_of_def)
  have de: "doms ?e \<noteq> None" using tree_okD(1) [OF t] by simp
  have "\<exists>m. new_idom k g ids doms b = Some m \<and> doms m \<noteq> None \<and> ancs doms m = (\<Inter>p \<in> processed_preds g doms b. ancs doms p)"
  proof (cases "CommonEntryBBIsPred g b")
    case True
    have "first_processed doms b ?e ps = (?e, ps)" for ps using de b(2) by (cases ps) auto
    moreover obtain m where m: "meet_processed k ids doms b (tl (GetPred g b)) ?e = Some m" "doms m \<noteq> None"
      "ancs doms m \<subseteq> ancs doms ?e" using meet_processed_ancs [OF o t k de, of b "tl (GetPred g b)"] by auto
    have anc: "ancs doms x = ancs doms x \<inter> ancs doms x" for x by simp
    have "?e \<in> processed_preds g doms b" using True b(2) de
      by (simp add: processed_preds_def preds_of_def CommonEntryBBIsPred_def reachable.Entry)
    moreover have "?e \<in> ancs doms p" if "p \<in> processed_preds g doms b" for p
      using ancs_has_entry [OF o t, of p] that by (simp add: processed_preds_def)
    ultimately have "(\<Inter>p \<in> processed_preds g doms b. ancs doms p) = {?e}" using ancs_entry [OF t] by auto
    moreover have "ancs doms m = {?e}" using ancs_entry [OF t] m(3) by (metis ancs_refl empty_iff subset_singletonD)
    ultimately show ?thesis using m(1,2) True by (simp add: new_idom_def \<open>\<And>ps. first_processed doms b ?e ps = (?e, ps)\<close>)
  next
    case False
    have pp: "processed_preds g doms b = {q \<in> set (GetPred g b). doms q \<noteq> None \<and> q \<noteq> b}"
      using preds_of_GetPred [OF wf b(1) False] tree_okD(2) [OF t] by (auto simp: processed_preds_def)
    have ne: "GetPred g b \<noteq> []" using up unfolding pp by (cases "GetPred g b") simp_all
    obtain pre ps where f: "first_processed doms b (hd (GetPred g b)) (tl (GetPred g b)) = (pre, ps)" by fastforce
    have "\<exists>q \<in> set (GetPred g b). doms q \<noteq> None \<and> q \<noteq> b" using up unfolding pp by blast
    then have s: "doms pre \<noteq> None" "processed_preds g doms b = insert pre {q \<in> set ps. doms q \<noteq> None \<and> q \<noteq> b}"
      using first_processed_split [OF f] ne unfolding pp by simp_all
    show ?thesis using meet_processed_ancs [OF o t k s(1), of b ps] False ne f s(2) by (simp add: new_idom_def)
  qed
  then obtain m where m: "new_idom k g ids doms b = Some m" "doms m \<noteq> None"
    "ancs doms m = (\<Inter>p \<in> processed_preds g doms b. ancs doms p)" by blast
  have "m \<in> ancs doms u" using ancs_refl [of m doms] up unfolding m(3) by blast
  then have "ids ! b < ids ! m" using ancs_ids(2) [OF t du] u(3) by fastforce
  then show ?thesis using m up by blast
qed

section \<open>Updating the tree\<close>

lemma ancs_upd_same: "b \<notin> ancs doms x \<Longrightarrow> ancs (doms(b \<mapsto> m)) x = ancs doms x"
proof -
  assume n: "b \<notin> ancs doms x"
  have 1: "y \<in> ancs doms x \<Longrightarrow> y \<in> ancs (doms(b \<mapsto> m)) x" for y
  proof (induction rule: ancs_induct)
    case (step y z)
    then have "y \<noteq> b" using n by auto
    then show ?case using step by (intro ancs_step [OF step.IH]) simp
  qed simp
  have 2: "y \<in> ancs (doms(b \<mapsto> m)) x \<Longrightarrow> y \<in> ancs doms x" for y
  proof (induction rule: ancs_induct)
    case (step y z)
    then have "y \<noteq> b" using n by auto
    then show ?case using step by (intro ancs_step [OF step.IH]) simp
  qed simp
  show ?thesis using 1 2 by blast
qed

lemma ancs_upd:
  assumes "b \<notin> ancs doms m"
  shows "y \<in> ancs (doms(b \<mapsto> m)) x \<Longrightarrow> y \<in> ancs doms x \<or> b \<in> ancs doms x \<and> y \<in> insert b (ancs doms m)"
proof (induction rule: ancs_induct)
  case (step y z)
  show ?case
  proof (cases "y = b")
    case True
    then have "z = m" using step.hyps(2) by simp
    then show ?thesis using step.IH True by auto
  next
    case False
    then have "doms y = Some z" using step.hyps(2) by simp
    then show ?thesis using step.IH ancs_step [of y doms] False by auto
  qed
qed simp

lemma ancs_upd_self: "b \<notin> ancs doms m \<Longrightarrow> ancs (doms(b \<mapsto> m)) b = insert b (ancs doms m)"
  using ancs_unfold [of "doms(b \<mapsto> m)" b m] ancs_upd_same [of b doms m m] by simp

lemma tree_ok_upd:
  assumes "tree_ok g ids doms" "reachable g b" "b \<noteq> commonEntryBB g" "doms m \<noteq> None" "ids ! b < ids ! m"
  shows "tree_ok g ids (doms(b \<mapsto> m))"
  using assms unfolding tree_ok_def by auto

section \<open>Dominators are ancestors\<close>

definition keeps_dominators :: "cfg \<Rightarrow> doms \<Rightarrow> bool" where
  "keeps_dominators g doms = (\<forall>b d x. doms b = Some d \<and> dominates g x b \<and> x \<noteq> b \<longrightarrow> dominates g x d)"

lemma dominates_entry_only: "dominates g x (commonEntryBB g) \<Longrightarrow> x = commonEntryBB g"
  using cfg_path.Start [of g] unfolding dominates_def by fastforce

lemma keeps_dominators_up:
  assumes "keeps_dominators g doms" "dominates g x b"
  shows "m \<in> ancs doms b \<Longrightarrow> dominates g x m \<or> x \<in> ancs doms b \<and> m \<in> ancs doms x"
proof (induction rule: ancs_induct)
  case (step y z)
  show ?case
  proof (cases "x = y")
    case True
    then show ?thesis using step ancs_step [of y doms y z] by auto
  next
    case False
    then show ?thesis using step assms(1) ancs_step [of y doms x z] unfolding keeps_dominators_def by blast
  qed
qed (use assms(2) in simp)

lemma dominators_in_ancs:
  assumes o: "dfs_order g ids order" and t: "tree_ok g ids doms" and j: "keeps_dominators g doms"
    and b: "doms b \<noteq> None" and x: "dominates g x b"
  shows "x \<in> ancs doms b"
  using keeps_dominators_up [OF j x ancs_has_entry [OF o t b]] dominates_entry_only [of g x] ancs_has_entry [OF o t b] by blast

lemma keeps_dominators_upd:
  assumes o: "dfs_order g ids order" and t: "tree_ok g ids doms" and j: "keeps_dominators g doms"
    and ne: "processed_preds g doms b \<noteq> {}" and m: "doms m \<noteq> None"
    and anc: "ancs doms m = (\<Inter>p \<in> processed_preds g doms b. ancs doms p)"
  shows "keeps_dominators g (doms(b \<mapsto> m))"
proof -
  have "dominates g x m" if x: "dominates g x b" "x \<noteq> b" for x
  proof -
    have dom: "dominates g x p" if "p \<in> processed_preds g doms b" for p
      using dominates_pred [OF x] that by (simp add: processed_preds_def preds_of_def)
    have "x \<in> ancs doms p" if "p \<in> processed_preds g doms b" for p
      using dominators_in_ancs [OF o t j _ dom [OF that]] that by (simp add: processed_preds_def)
    then have xm: "x \<in> ancs doms m" unfolding anc by blast
    obtain p where p: "p \<in> processed_preds g doms b" using ne by blast
    have "m \<in> ancs doms p" using p ancs_refl [of m doms] unfolding anc by blast
    from keeps_dominators_up [OF j dom [OF p] this] show ?thesis
    proof
      assume "x \<in> ancs doms p \<and> m \<in> ancs doms x"
      then have "m = x" using ancs_antisym [OF t m _ xm] by blast
      then show ?thesis by simp
    qed
  qed
  then show ?thesis using j unfolding keeps_dominators_def by auto
qed

section \<open>The textbook iteration\<close>

text \<open>One step of the iteration on sets of dominators, for one block.\<close>

definition set_step :: "cfg \<Rightarrow> bb \<Rightarrow> (bb \<Rightarrow> bb set) \<Rightarrow> bb \<Rightarrow> bb set" where
  "set_step g b X = X(b := insert b (\<Inter>p \<in> preds_of g b. X p))"

definition sets_ok :: "cfg \<Rightarrow> (bb \<Rightarrow> bb set) \<Rightarrow> bool" where
  "sets_ok g X = (X (commonEntryBB g) = {commonEntryBB g} \<and>
     (\<forall>b. reachable g b \<longrightarrow> b \<in> X b \<and> X b \<subseteq> {x. reachable g x}) \<and>
     (\<forall>b y. reachable g y \<longrightarrow> b \<in> X y \<longrightarrow> X b \<subseteq> X y) \<and>
     (\<forall>b. reachable g b \<longrightarrow> b \<noteq> commonEntryBB g \<longrightarrow> insert b (\<Inter>p \<in> preds_of g b. X p) \<subseteq> X b))"

lemma sets_okD:
  assumes "sets_ok g X"
  shows "X (commonEntryBB g) = {commonEntryBB g}" "reachable g b \<Longrightarrow> b \<in> X b" "reachable g b \<Longrightarrow> X b \<subseteq> {x. reachable g x}"
    "reachable g y \<Longrightarrow> b \<in> X y \<Longrightarrow> X b \<subseteq> X y"
    "reachable g b \<Longrightarrow> b \<noteq> commonEntryBB g \<Longrightarrow> insert b (\<Inter>p \<in> preds_of g b. X p) \<subseteq> X b"
proof -
  show "X (commonEntryBB g) = {commonEntryBB g}" using assms by (simp only: sets_ok_def)
  have "b \<in> X b \<and> X b \<subseteq> {x. reachable g x}" if "reachable g b" using assms that unfolding sets_ok_def by (elim conjE) simp
  then show "reachable g b \<Longrightarrow> b \<in> X b" "reachable g b \<Longrightarrow> X b \<subseteq> {x. reachable g x}" by blast+
  show "X b \<subseteq> X y" if "reachable g y" "b \<in> X y" using assms that unfolding sets_ok_def by (elim conjE) simp
  show "insert b (\<Inter>p \<in> preds_of g b. X p) \<subseteq> X b" if "reachable g b" "b \<noteq> commonEntryBB g"
    using assms that unfolding sets_ok_def by (elim conjE) simp
qed

lemma set_step_le: "sets_ok g X \<Longrightarrow> reachable g b \<Longrightarrow> b \<noteq> commonEntryBB g \<Longrightarrow> set_step g b X x \<subseteq> X x"
  using sets_okD(5) [of g X b] by (simp add: set_step_def)

lemma sets_ok_step:
  assumes X: "sets_ok g X" and b: "reachable g b" "b \<noteq> commonEntryBB g"
  shows "sets_ok g (set_step g b X)"
proof -
  let ?Y = "set_step g b X" and ?I = "\<Inter>p \<in> preds_of g b. X p"
  have le: "?Y x \<subseteq> X x" for x by (rule set_step_le [OF X b])
  have other: "?Y x = X x" if "x \<noteq> b" for x using that by (simp add: set_step_def)
  have self: "?Y b = insert b ?I" by (simp add: set_step_def)
  have trans: "?Y c \<subseteq> ?Y y" if y: "reachable g y" and c: "c \<in> ?Y y" for c y
  proof (cases "y = b")
    case False
    then show ?thesis using sets_okD(4) [OF X y, of c] c le [of c] other [of y] by auto
  next
    case True
    show ?thesis
    proof (cases "c = b")
      case False
      then have ci: "c \<in> ?I" using c True self by auto
      have "X c \<subseteq> X p" if "p \<in> preds_of g b" for p
        using sets_okD(4) [OF X, of p c] ci that by (auto simp: preds_of_def)
      then have "X c \<subseteq> ?I" by blast
      then show ?thesis using True self other [OF False] by auto
    qed (simp add: True)
  qed
  have dec: "insert c (\<Inter>p \<in> preds_of g c. ?Y p) \<subseteq> ?Y c" if c: "reachable g c" "c \<noteq> commonEntryBB g" for c
  proof -
    have sub: "(\<Inter>p \<in> preds_of g c. ?Y p) \<subseteq> (\<Inter>p \<in> preds_of g c. X p)" using le by blast
    show ?thesis
    proof (cases "c = b")
      case True
      then show ?thesis using sub self by auto
    next
      case False
      have "c \<in> X c" "(\<Inter>p \<in> preds_of g c. X p) \<subseteq> X c" using sets_okD(5) [OF X c] by simp_all
      then show ?thesis unfolding other [OF False] using sub by (intro insert_subsetI subset_trans [OF sub])
    qed
  qed
  have mem: "x \<in> ?Y x" if "reachable g x" for x using sets_okD(2) [OF X that] other [of x] self by (cases "x = b") simp_all
  have "?Y x \<subseteq> {x. reachable g x}" if "reachable g x" for x using sets_okD(3) [OF X that] le [of x] by blast
  then show ?thesis unfolding sets_ok_def using sets_okD(1) [OF X] other [of "commonEntryBB g"] b(2) trans dec mem by auto
qed

definition bounded_by :: "cfg \<Rightarrow> doms \<Rightarrow> (bb \<Rightarrow> bb set) \<Rightarrow> bool" where
  "bounded_by g doms X = (\<forall>x. reachable g x \<longrightarrow>
     (case doms x of None \<Rightarrow> X x = {y. reachable g y} | Some d \<Rightarrow> ancs doms x \<subseteq> X x))"

lemma bounded_by_upd:
  assumes t: "tree_ok g ids doms" and X: "sets_ok g X" and le: "bounded_by g doms X"
    and b: "reachable g b" "b \<noteq> commonEntryBB g" and bm: "b \<notin> ancs doms m"
    and anc: "ancs doms m = (\<Inter>p \<in> processed_preds g doms b. ancs doms p)" and dm: "doms m \<noteq> None"
  shows "bounded_by g (doms(b \<mapsto> m)) (set_step g b X)"
proof -
  let ?d = "doms(b \<mapsto> m)" and ?Y = "set_step g b X"
  have bd: "ancs doms x \<subseteq> X x" if "reachable g x" "doms x \<noteq> None" for x
    using le that unfolding bounded_by_def by (force split: option.splits)
  have un: "X x = {y. reachable g y}" if "reachable g x" "doms x = None" for x
    using le that unfolding bounded_by_def by force
  have mI: "ancs doms m \<subseteq> (\<Inter>p \<in> preds_of g b. X p)"
  proof
    fix y assume y: "y \<in> ancs doms m"
    show "y \<in> (\<Inter>p \<in> preds_of g b. X p)"
    proof
      fix p assume p: "p \<in> preds_of g b"
      then have rp: "reachable g p" by (simp add: preds_of_def)
      show "y \<in> X p"
      proof (cases "doms p = None")
        case True
        then show ?thesis using un [OF rp] ancs_reachable [OF t dm y] by simp
      next
        case False
        then have "p \<in> processed_preds g doms b" using p by (simp add: processed_preds_def)
        then show ?thesis using y bd [OF rp False] unfolding anc by blast
      qed
    qed
  qed
  then have bb: "ancs ?d b \<subseteq> ?Y b" using ancs_upd_self [OF bm] by (auto simp: set_step_def)
  have "case ?d x of None \<Rightarrow> ?Y x = {y. reachable g y} | Some d \<Rightarrow> ancs ?d x \<subseteq> ?Y x" if x: "reachable g x" for x
  proof (cases "x = b")
    case True
    then show ?thesis using bb by simp
  next
    case False
    then have e: "?d x = doms x" "?Y x = X x" by (simp_all add: set_step_def)
    have "ancs ?d x \<subseteq> X x" if dx: "doms x \<noteq> None"
    proof
      fix y assume "y \<in> ancs ?d x"
      from ancs_upd [OF bm this] show "y \<in> X x"
      proof
        assume "b \<in> ancs doms x \<and> y \<in> insert b (ancs doms m)"
        then have "b \<in> X x" "y \<in> ?Y b" using bd [OF x dx] mI by (auto simp: set_step_def)
        then show ?thesis using set_step_le [OF X b, of b] sets_okD(4) [OF X x, of b] by blast
      qed (use bd [OF x dx] in blast)
    qed
    then show ?thesis using un [OF x] unfolding e by (simp split: option.splits)
  qed
  then show ?thesis unfolding bounded_by_def by blast
qed

section \<open>One round\<close>

definition dom_state :: "cfg \<Rightarrow> int list \<Rightarrow> doms \<Rightarrow> (bb \<Rightarrow> bb set) \<Rightarrow> bool" where
  "dom_state g ids doms X = (tree_ok g ids doms \<and> keeps_dominators g doms \<and> sets_ok g X \<and> bounded_by g doms X)"

lemma dom_state_upd:
  assumes wf: "wf_cfg g" and o: "dfs_order g ids order" and k: "2 * length order < k"
    and st: "dom_state g ids doms X" and b: "reachable g b" "b \<noteq> commonEntryBB g"
    and ready: "\<And>u. reachable g u \<Longrightarrow> ids ! b < ids ! u \<Longrightarrow> doms u \<noteq> None"
  shows "\<exists>m. new_idom k g ids doms b = Some m \<and> b \<notin> ancs doms m \<and>
    ancs doms m = (\<Inter>p \<in> processed_preds g doms b. ancs doms p) \<and> doms m \<noteq> None \<and>
    dom_state g ids (doms(b \<mapsto> m)) (set_step g b X)"
proof -
  have t: "tree_ok g ids doms" and j: "keeps_dominators g doms" and X: "sets_ok g X" and le: "bounded_by g doms X"
    using st by (simp_all add: dom_state_def)
  obtain m where m: "new_idom k g ids doms b = Some m" "doms m \<noteq> None" "ids ! b < ids ! m"
    "processed_preds g doms b \<noteq> {}" "ancs doms m = (\<Inter>p \<in> processed_preds g doms b. ancs doms p)"
    using new_idom_ancs [OF wf o t k b ready] by metis
  have bm: "b \<notin> ancs doms m" using ancs_ids(2) [OF t m(2), of b] m(3) by auto
  have "dom_state g ids (doms(b \<mapsto> m)) (set_step g b X)" unfolding dom_state_def
    using tree_ok_upd [OF t b m(2,3)] keeps_dominators_upd [OF o t j m(4,2,5)] sets_ok_step [OF X b]
      bounded_by_upd [OF t X le b bm m(5,2)] by blast
  then show ?thesis using m bm by blast
qed

text \<open>The blocks with greater numbers have been processed when a block's turn comes.\<close>

lemma round_ready:
  fixes ids :: "int list"
  assumes s: "sorted_wrt (\<lambda>a b. ids ! b < ids ! a) (b # bs)"
    and left: "\<And>u. reachable g u \<Longrightarrow> doms u = None \<Longrightarrow> u \<in> set (b # bs)"
    and u: "reachable g u" "ids ! b < ids ! u"
  shows "doms u \<noteq> None"
proof
  assume "doms u = None"
  then have "u \<in> set (b # bs)" by (rule left [OF u(1)])
  moreover have "ids ! u < ids ! b" if "u \<in> set bs" using s that unfolding sorted_wrt.simps by blast
  ultimately show False using u(2) unfolding list.set by fastforce
qed

lemma dom_round_changed: "dom_round k g ids bs (doms, changed) = Some (doms', changed') \<Longrightarrow> changed \<Longrightarrow> changed'"
proof (induction bs arbitrary: doms changed)
  case (Cons b bs)
  then show ?case by (auto simp: bind_eq_Some_conv split: if_splits)
qed simp

lemma dom_round_state:
  assumes wf: "wf_cfg g" and o: "dfs_order g ids order" and k: "2 * length order < k"
  shows "dom_state g ids doms X \<Longrightarrow> sorted_wrt (\<lambda>a b. ids ! b < ids ! a) bs \<Longrightarrow>
    (\<And>b. b \<in> set bs \<Longrightarrow> reachable g b \<and> b \<noteq> commonEntryBB g) \<Longrightarrow>
    (\<And>u. reachable g u \<Longrightarrow> doms u = None \<Longrightarrow> u \<in> set bs) \<Longrightarrow>
    \<exists>doms' changed'. dom_round k g ids bs (doms, changed) = Some (doms', changed') \<and>
      dom_state g ids doms' (fold (set_step g) bs X) \<and> (\<forall>u. reachable g u \<longrightarrow> doms' u \<noteq> None) \<and>
      (\<not> changed' \<longrightarrow> doms' = doms \<and> (\<forall>b \<in> set bs. new_idom k g ids doms b = doms b))"
proof (induction bs arbitrary: doms X changed)
  case (Cons b bs)
  have b: "reachable g b" "b \<noteq> commonEntryBB g" using Cons.prems(3) [of b] by simp_all
  have ready: "doms u \<noteq> None" if u: "reachable g u" "ids ! b < ids ! u" for u
    by (rule round_ready [OF Cons.prems(2,4) u])
  obtain m where m: "new_idom k g ids doms b = Some m" "dom_state g ids (doms(b \<mapsto> m)) (set_step g b X)"
    using dom_state_upd [OF wf o k Cons.prems(1) b ready] by blast
  let ?c = "doms b \<noteq> Some m \<or> changed"
  have step: "dom_round k g ids (b # bs) (doms, changed) = dom_round k g ids bs (doms(b \<mapsto> m), ?c)"
    using m(1) by (simp add: fun_upd_idem)
  have s: "sorted_wrt (\<lambda>a b. ids ! b < ids ! a) bs" using Cons.prems(2) unfolding sorted_wrt.simps by blast
  have in_bs: "u \<in> set bs" if "reachable g u" "(doms(b \<mapsto> m)) u = None" for u
    using Cons.prems(4) [of u] that by (auto split: if_splits)
  have mem: "c \<in> set bs \<Longrightarrow> reachable g c \<and> c \<noteq> commonEntryBB g" for c using Cons.prems(3) [of c] by simp
  obtain doms' changed' where r: "dom_round k g ids bs (doms(b \<mapsto> m), ?c) = Some (doms', changed')"
    "dom_state g ids doms' (fold (set_step g) bs (set_step g b X))" "\<forall>u. reachable g u \<longrightarrow> doms' u \<noteq> None"
    "\<not> changed' \<Longrightarrow> doms' = doms(b \<mapsto> m) \<and> (\<forall>c \<in> set bs. new_idom k g ids (doms(b \<mapsto> m)) c = (doms(b \<mapsto> m)) c)"
    using Cons.IH [OF m(2) s mem in_bs, of ?c] by metis
  have "\<not> changed' \<Longrightarrow> \<not> ?c" using dom_round_changed [OF r(1)] by blast
  then have "\<not> changed' \<Longrightarrow> doms' = doms \<and> (\<forall>c \<in> set (b # bs). new_idom k g ids doms c = doms c)"
    using r(4) m(1) by (simp add: fun_upd_idem)
  then show ?case using step r(1-3) by auto
next
  case Nil
  have "doms u \<noteq> None" if "reachable g u" for u using Nil(4) [OF that] by auto
  then show ?case using Nil(1) by auto
qed

lemma dom_round_same:
  "(\<And>b. b \<in> set bs \<Longrightarrow> new_idom k g ids doms b = doms b) \<Longrightarrow> (\<And>b. b \<in> set bs \<Longrightarrow> doms b \<noteq> None) \<Longrightarrow>
    dom_round k g ids bs (doms, changed) = Some (doms, changed)"
proof (induction bs)
  case (Cons b bs)
  obtain m where "doms b = Some m" using Cons.prems(2) [of b] by auto
  then show ?case using Cons by simp
qed simp

section \<open>The fixed point\<close>

definition exact :: "cfg \<Rightarrow> doms \<Rightarrow> bool" where
  "exact g doms = (\<forall>b. reachable g b \<longrightarrow> doms b \<noteq> None \<and> ancs doms b = {a. dominates g a b})"

lemma unchanged_exact:
  assumes wf: "wf_cfg g" and o: "dfs_order g ids order" and k: "2 * length order < k" and st: "dom_state g ids doms X"
    and all: "\<And>u. reachable g u \<Longrightarrow> doms u \<noteq> None"
    and same: "\<And>b. reachable g b \<Longrightarrow> b \<noteq> commonEntryBB g \<Longrightarrow> new_idom k g ids doms b = doms b"
  shows "exact g doms"
proof -
  have t: "tree_ok g ids doms" and j: "keeps_dominators g doms" using st by (simp_all add: dom_state_def)
  have "ancs doms b \<subseteq> insert b (\<Inter> (ancs doms ` preds_of g b))" if b: "reachable g b" "b \<noteq> commonEntryBB g" for b
  proof -
    obtain m where m: "new_idom k g ids doms b = Some m" "ancs doms m = (\<Inter>p \<in> processed_preds g doms b. ancs doms p)"
      using dom_state_upd [OF wf o k st b all] by blast
    moreover have "processed_preds g doms b = preds_of g b" using all by (auto simp: processed_preds_def preds_of_def)
    ultimately show ?thesis using ancs_unfold [of doms b m] same [OF b] by simp
  qed
  then have "a \<in> ancs doms b \<Longrightarrow> dominates g a b" for a b
    using closed_dominates [of "ancs doms" g a b] ancs_entry [OF t] by simp
  then show ?thesis unfolding exact_def using dominators_in_ancs [OF o t j all] all by blast
qed

lemma fold_set_step:
  "sets_ok g X \<Longrightarrow> (\<And>b. b \<in> set bs \<Longrightarrow> reachable g b \<and> b \<noteq> commonEntryBB g) \<Longrightarrow>
    sets_ok g (fold (set_step g) bs X) \<and> (\<forall>x. fold (set_step g) bs X x \<subseteq> X x) \<and>
    (\<forall>x. fold (set_step g) bs X x \<noteq> X x \<longrightarrow> x \<in> set bs) \<and>
    (fold (set_step g) bs X = X \<longrightarrow> (\<forall>b \<in> set bs. set_step g b X = X))"
proof (induction bs arbitrary: X)
  case (Cons b bs)
  let ?Y = "set_step g b X"
  have b: "reachable g b" "b \<noteq> commonEntryBB g" using Cons.prems(2) [of b] by simp_all
  have Y: "sets_ok g ?Y" by (rule sets_ok_step [OF Cons.prems(1) b])
  have le: "?Y x \<subseteq> X x" for x by (rule set_step_le [OF Cons.prems(1) b])
  have IH: "sets_ok g (fold (set_step g) bs ?Y)" "\<And>x. fold (set_step g) bs ?Y x \<subseteq> ?Y x"
    "\<And>x. fold (set_step g) bs ?Y x \<noteq> ?Y x \<Longrightarrow> x \<in> set bs"
    "fold (set_step g) bs ?Y = ?Y \<Longrightarrow> \<forall>c \<in> set bs. set_step g c ?Y = ?Y"
    using Cons.IH [OF Y] Cons.prems(2) by simp_all
  have eq: "?Y = X" if "fold (set_step g) bs ?Y = X"
  proof
    fix x show "?Y x = X x" using IH(2) [of x] le [of x] unfolding that by (rule equalityI [rotated])
  qed
  have "x \<in> set (b # bs)" if "fold (set_step g) bs ?Y x \<noteq> X x" for x
    using IH(3) [of x] that by (cases "x = b") (simp_all add: set_step_def)
  moreover have "\<forall>c \<in> set (b # bs). set_step g c X = X" if f: "fold (set_step g) bs ?Y = X"
  proof -
    note e = eq [OF f]
    have "\<forall>c \<in> set bs. set_step g c ?Y = ?Y" by (rule IH(4)) (simp only: e f [unfolded e])
    then show ?thesis using e by (simp add: e)
  qed
  ultimately show ?case using IH(1) subset_trans [OF IH(2) le] by simp
qed simp

lemma stable_sets_exact:
  assumes o: "dfs_order g ids order" and st: "dom_state g ids doms X"
    and stable: "\<And>b. reachable g b \<Longrightarrow> b \<noteq> commonEntryBB g \<Longrightarrow> set_step g b X = X"
    and b: "reachable g b" "doms b \<noteq> None"
  shows "ancs doms b = X b" "X b = {a. dominates g a b}"
proof -
  have t: "tree_ok g ids doms" and j: "keeps_dominators g doms" and X: "sets_ok g X" and le: "bounded_by g doms X"
    using st by (simp_all add: dom_state_def)
  have eq: "X c = insert c (\<Inter>p \<in> preds_of g c. X p)" if "reachable g c" "c \<noteq> commonEntryBB g" for c
    using fun_cong [OF stable [OF that], of c] by (simp add: set_step_def)
  have 1: "X b \<subseteq> {a. dominates g a b}"
  proof
    fix a assume "a \<in> X b"
    then show "a \<in> {a. dominates g a b}"
      using closed_dominates [of X g a b] sets_okD(1) [OF X] eq by (simp only: mem_Collect_eq) blast
  qed
  have 2: "ancs doms b \<subseteq> X b" using le b unfolding bounded_by_def by (force split: option.splits)
  have 3: "{a. dominates g a b} \<subseteq> ancs doms b" using dominators_in_ancs [OF o t j b(2)] by blast
  show "ancs doms b = X b" "X b = {a. dominates g a b}" using 1 2 3 by blast+
qed

section \<open>The rounds\<close>

lemma dom_order_tl:
  assumes o: "dfs_order g ids order"
  shows "sorted_wrt (\<lambda>a b. ids ! b < ids ! a) (tl order)" "set (tl order) = {b. reachable g b} - {commonEntryBB g}"
    "distinct order"
proof -
  obtain os where os: "order = commonEntryBB g # os" using o unfolding dfs_order_def by (metis list.collapse)
  have s: "sorted_wrt (\<lambda>a b. ids ! b < ids ! a) order" and r: "set order = {b. reachable g b}"
    using o unfolding dfs_order_def by blast+
  have t: "sorted_wrt (\<lambda>a b. ids ! b < ids ! a) os" and l: "\<And>b. b \<in> set os \<Longrightarrow> ids ! b < ids ! commonEntryBB g"
    using s unfolding os sorted_wrt.simps by blast+
  have n: "commonEntryBB g \<notin> set os" using l by blast
  show "sorted_wrt (\<lambda>a b. ids ! b < ids ! a) (tl order)" using t unfolding os by (simp only: list.sel)
  show "set (tl order) = {b. reachable g b} - {commonEntryBB g}" using r n unfolding os by auto
  have "sorted_wrt (\<lambda>a b. ids ! b < ids ! a) xs \<Longrightarrow> distinct xs" for xs
  proof (induction xs)
    case (Cons x xs)
    then show ?case unfolding sorted_wrt.simps by (simp only: distinct.simps) blast
  qed simp
  then show "distinct order" using s .
qed

lemma length_order: "wf_cfg g \<Longrightarrow> dfs_order g ids order \<Longrightarrow> length order \<le> bb_count g"
proof -
  assume wf: "wf_cfg g" and o: "dfs_order g ids order"
  have "set order \<subseteq> {..<bb_count g}" using o reachable_range [OF _ wf] unfolding dfs_order_def by blast
  then have "card (set order) \<le> bb_count g" using card_mono [of "{..<bb_count g}" "set order"] by simp
  then show ?thesis by (simp add: distinct_card [OF dom_order_tl(3) [OF o]])
qed

definition sets_size :: "cfg \<Rightarrow> (bb \<Rightarrow> bb set) \<Rightarrow> nat" where
  "sets_size g X = (\<Sum>b \<in> {b. reachable g b}. card (X b))"

lemma finite_reachable: "wf_cfg g \<Longrightarrow> finite {b. reachable g b}"
  by (rule finite_subset [of _ "{..<bb_count g}"]) (auto dest: reachable_range)

lemma sets_size_less:
  assumes wf: "wf_cfg g" and X: "sets_ok g X" and le: "\<And>x. Y x \<subseteq> X x" and x: "reachable g x" "Y x \<noteq> X x"
  shows "sets_size g Y < sets_size g X"
proof -
  have fin: "finite (X b)" if "reachable g b" for b
    using finite_subset [OF sets_okD(3) [OF X that] finite_reachable [OF wf]] .
  show ?thesis unfolding sets_size_def
  proof (rule sum_strict_mono_ex1 [OF finite_reachable [OF wf]])
    show "\<forall>b \<in> {b. reachable g b}. card (Y b) \<le> card (X b)" using card_mono [OF fin le] by blast
    have "card (Y x) < card (X x)" using psubset_card_mono [OF fin [OF x(1)]] le [of x] x(2) by blast
    then show "\<exists>b \<in> {b. reachable g b}. card (Y b) < card (X b)" using x(1) by blast
  qed
qed

lemma exact_unchanged:
  assumes wf: "wf_cfg g" and o: "dfs_order g ids order" and k: "2 * length order < k" and st: "dom_state g ids doms X"
    and all: "\<And>u. reachable g u \<Longrightarrow> doms u \<noteq> None"
    and stable: "\<And>b. reachable g b \<Longrightarrow> b \<noteq> commonEntryBB g \<Longrightarrow> set_step g b X = X"
    and b: "reachable g b" "b \<noteq> commonEntryBB g"
  shows "new_idom k g ids doms b = doms b"
proof -
  have t: "tree_ok g ids doms" using st by (simp add: dom_state_def)
  have ex: "ancs doms x = X x" if "reachable g x" for x using stable_sets_exact(1) [OF o st stable that all [OF that]] .
  obtain m where m: "new_idom k g ids doms b = Some m" "b \<notin> ancs doms m" "doms m \<noteq> None"
    "ancs doms m = (\<Inter>p \<in> processed_preds g doms b. ancs doms p)"
    using dom_state_upd [OF wf o k st b all] by blast
  obtain d where d: "doms b = Some d" using all [OF b(1)] by blast
  have "processed_preds g doms b = preds_of g b" using all by (auto simp: processed_preds_def preds_of_def)
  then have "ancs doms m = (\<Inter>p \<in> preds_of g b. X p)" using m(4) ex by (simp add: preds_of_def)
  then have "insert b (ancs doms m) = X b" using fun_cong [OF stable [OF b], of b] by (simp add: set_step_def)
  then have "insert b (ancs doms m) = insert b (ancs doms d)" using ex [OF b(1)] ancs_unfold [of doms b d, OF d] by simp
  moreover have "b \<notin> ancs doms d"
    using ancs_ids(2) [OF t tree_okD(3) [OF t d], of b] tree_okD(4) [OF t d b(2)] by fastforce
  ultimately have eq: "ancs doms m = ancs doms d" using m(2) by (simp add: insert_ident)
  have "m = d" by (rule ancs_antisym [OF t m(3)]) (use eq ancs_refl [of m doms] ancs_refl [of d doms] in simp_all)
  then show ?thesis using m(1) d by simp
qed

lemma dom_rounds_exact:
  assumes wf: "wf_cfg g" and o: "dfs_order g ids order" and k: "2 * length order < k"
  shows "dom_state g ids doms X \<Longrightarrow> sets_size g X + 2 \<le> n \<Longrightarrow>
    \<exists>doms'. dom_rounds n k g ids (tl order) doms = Some doms' \<and> tree_ok g ids doms' \<and> exact g doms'"
proof (induction n arbitrary: doms X)
  case (Suc n)
  note tl = dom_order_tl [OF o]
  have mem: "b \<in> set (tl order) \<Longrightarrow> reachable g b \<and> b \<noteq> commonEntryBB g" for b using tl(2) by blast
  have e: "doms (commonEntryBB g) \<noteq> None" using Suc.prems(1) tree_okD(1) by (fastforce simp: dom_state_def)
  have left: "u \<in> set (tl order)" if "reachable g u" "doms u = None" for u
  proof -
    have "u \<noteq> commonEntryBB g" using that(2) e by auto
    then show ?thesis using tl(2) that(1) by blast
  qed
  let ?Y = "fold (set_step g) (tl order) X"
  obtain doms' c' where r: "dom_round k g ids (tl order) (doms, False) = Some (doms', c')" "dom_state g ids doms' ?Y"
    "\<And>u. reachable g u \<Longrightarrow> doms' u \<noteq> None"
    "\<not> c' \<Longrightarrow> doms' = doms" "\<And>b. \<not> c' \<Longrightarrow> b \<in> set (tl order) \<Longrightarrow> new_idom k g ids doms b = doms b"
    using dom_round_state [OF wf o k Suc.prems(1) tl(1) mem left, of False] by metis
  have X: "sets_ok g X" using Suc.prems(1) by (simp add: dom_state_def)
  note f = fold_set_step [OF X, of "tl order", OF mem]
  show ?case
  proof (cases c')
    case False
    then have "exact g doms'" using r(3-5) tl(2) by (intro unchanged_exact [OF wf o k r(2)]) simp_all
    moreover have "dom_rounds (Suc n) k g ids (tl order) doms = Some doms'" using r(1) False by simp
    ultimately show ?thesis using r(2) by (simp add: dom_state_def)
  next
    case True
    then have step: "dom_rounds (Suc n) k g ids (tl order) doms = dom_rounds n k g ids (tl order) doms'" using r(1) by simp
    show ?thesis
    proof (cases "?Y = X")
      case False
      then obtain x where x: "?Y x \<noteq> X x" by blast
      have "sets_size g ?Y < sets_size g X" using f x mem by (intro sets_size_less [OF wf X, of _ x]) blast+
      then show ?thesis unfolding step using Suc.prems(2) by (intro Suc.IH [OF r(2)]) simp
    next
      case True
      have stX: "dom_state g ids doms' X" using r(2) unfolding True .
      have stable: "set_step g b X = X" if "reachable g b" "b \<noteq> commonEntryBB g" for b using f True that tl(2) by blast
      have same: "new_idom k g ids doms' b = doms' b" if "b \<in> set (tl order)" for b
        using exact_unchanged [OF wf o k stX r(3) stable] mem [OF that] by blast
      have set_in: "doms' b \<noteq> None" if "b \<in> set (tl order)" for b using r(3) [of b] mem [OF that] by simp
      have "exact g doms'" unfolding exact_def using stable_sets_exact [OF o stX stable _ r(3)] r(3) by blast
      moreover have "dom_round k g ids (tl order) (doms', False) = Some (doms', False)"
        by (rule dom_round_same [OF same set_in])
      moreover obtain n' where "n = Suc n'" using Suc.prems(2) by (cases n) simp_all
      ultimately show ?thesis unfolding step using r(2) by (simp add: dom_state_def)
    qed
  qed
qed simp

lemma start_state:
  assumes wf: "wf_cfg g" and o: "dfs_order g ids order"
  shows "\<exists>X. dom_state g ids (\<lambda>b. if b = commonEntryBB g then Some b else None) X \<and> sets_size g X \<le> bb_count g * bb_count g"
proof -
  let ?e = "commonEntryBB g" and ?R = "{b. reachable g b}"
  let ?d = "\<lambda>b. if b = ?e then Some b else None" and ?X = "\<lambda>b. if b = ?e then {?e} else ?R"
  have e: "reachable g ?e" by (rule reachable.Entry)
  have t: "tree_ok g ids ?d" using e by (simp add: tree_ok_def)
  have "keeps_dominators g ?d" by (auto simp: keeps_dominators_def split: if_splits)
  moreover have inter: "(\<Inter>p \<in> preds_of g b. ?X p) \<subseteq> ?R" if b: "reachable g b" "b \<noteq> ?e" for b
  proof -
    obtain u where u: "reachable g u" "b \<in> set (GetSucc g u)" "ids ! b < ids ! u" using order_facts(4) [OF o b] by blast
    then have "u \<in> preds_of g b" by (auto simp: preds_of_def)
    moreover have "?X u \<subseteq> ?R" using e by simp
    ultimately show ?thesis by blast
  qed
  have "sets_ok g ?X" unfolding sets_ok_def
  proof (intro conjI allI impI)
    show "insert b (\<Inter>p \<in> preds_of g b. ?X p) \<subseteq> ?X b" if "reachable g b" "b \<noteq> ?e" for b
      using inter [OF that] that by simp
  qed (use e in \<open>simp_all split: if_splits\<close>)
  moreover have "bounded_by g ?d ?X" using ancs_entry [OF t] by (simp add: bounded_by_def)
  ultimately have "dom_state g ids ?d ?X" using t by (simp add: dom_state_def)
  moreover have "sets_size g ?X \<le> bb_count g * bb_count g"
  proof -
    have "?R \<subseteq> {..<bb_count g}" using reachable_range [OF _ wf] by blast
    then have c: "card ?R \<le> bb_count g" using card_mono [of "{..<bb_count g}" ?R] by simp
    have "card (?X b) \<le> bb_count g" for b using c wf_cfgD(1) [OF wf] by simp
    then have "sets_size g ?X \<le> (\<Sum>b \<in> ?R. bb_count g)" unfolding sets_size_def by (intro sum_mono)
    then show ?thesis using c by (simp add: mult_le_mono1 le_trans)
  qed
  ultimately show ?thesis by blast
qed

lemma ComputeDominance_exact:
  assumes wf: "wf_cfg g" and o: "dfs_order g ids order" and k: "2 * bb_count g < k" and n: "bb_count g * bb_count g + 2 \<le> n"
  shows "\<exists>doms. ComputeDominance n k g (ids, order) = Some doms \<and> tree_ok g ids doms \<and> exact g doms"
proof -
  obtain X where X: "dom_state g ids (\<lambda>b. if b = commonEntryBB g then Some b else None) X"
    "sets_size g X \<le> bb_count g * bb_count g" using start_state [OF wf o] by blast
  have "2 * length order < k" "sets_size g X + 2 \<le> n" using length_order [OF wf o] k X(2) n by simp_all
  then show ?thesis using dom_rounds_exact [OF wf o _ X(1)] by (simp add: ComputeDominance_def)
qed

section \<open>Dominate\<close>

lemma dom_walk_ancs:
  assumes o: "dfs_order g ids order" and t: "tree_ok g ids doms" and a: "a \<noteq> commonEntryBB g"
  shows "doms b = Some d \<Longrightarrow> height ids order b < k \<Longrightarrow> dom_walk k g doms a b = Some (a \<in> ancs doms d)"
proof (induction k arbitrary: b d)
  case (Suc k)
  show ?case
  proof (cases "d = a \<or> d = commonEntryBB g")
    case True
    then show ?thesis using Suc.prems(1) a ancs_entry [OF t] by auto
  next
    case False
    have "b \<noteq> commonEntryBB g" using tree_okD(1) [OF t] Suc.prems(1) False by auto
    then have h: "height ids order d < k" using height_step [OF o t Suc.prems(1)] Suc.prems(2) by simp
    obtain d' where d': "doms d = Some d'" using tree_okD(3) [OF t Suc.prems(1)] by blast
    have "ancs doms d = insert d (ancs doms d')" by (rule ancs_unfold [of doms d d', OF d'])
    then show ?thesis using Suc.IH [OF d' h] Suc.prems(1) False by simp
  qed
qed simp

lemma Dominate_exact:
  assumes o: "dfs_order g ids order" and t: "tree_ok g ids doms" and e: "exact g doms" and k: "length order < k"
  shows "Dominate k g doms a b = Some (if reachable g b then dominates g a b else a = b)"
proof (cases "reachable g b")
  case True
  obtain d where d: "doms b = Some d" using e True unfolding exact_def by blast
  have dom: "dominates g a b \<longleftrightarrow> a \<in> ancs doms b" using e True unfolding exact_def by simp
  have h: "height ids order b < k" using height_le [OF o True] k by simp
  show ?thesis
  proof (cases "a = commonEntryBB g \<and> a \<noteq> b")
    case True
    have "doms x = Some y \<Longrightarrow> height ids order x < n \<Longrightarrow> dom_walk n g doms (commonEntryBB g) x = Some True" for n x y
    proof (induction n arbitrary: x y)
      case (Suc n)
      show ?case
      proof (cases "y = commonEntryBB g")
        case False
        have "x \<noteq> commonEntryBB g" using tree_okD(1) [OF t] Suc.prems(1) False by auto
        then have "height ids order y < n" using height_step [OF o t Suc.prems(1)] Suc.prems(2) by simp
        moreover obtain z where "doms y = Some z" using tree_okD(3) [OF t Suc.prems(1)] by blast
        ultimately show ?thesis using Suc.IH Suc.prems(1) False by simp
      qed (use Suc.prems in simp)
    qed simp
    from this [OF d h] show ?thesis using True d \<open>reachable g b\<close> dominates_entry [of g b] by (simp add: Dominate_def)
  next
    case False
    show ?thesis
    proof (cases "a = b")
      case False
      then have "dom_walk k g doms a b = Some (a \<in> ancs doms d)"
        using dom_walk_ancs [OF o t _ d h] \<open>\<not> (a = commonEntryBB g \<and> a \<noteq> b)\<close> by blast
      then show ?thesis using True False d dom ancs_unfold [of doms b d, OF d] by (simp add: Dominate_def)
    qed (simp add: Dominate_def)
  qed
next
  case False
  then have "doms b = None" using tree_okD(2) [OF t] by fastforce
  then show ?thesis using False by (simp add: Dominate_def)
qed

section \<open>The theorem\<close>

lemma ComputeDominance_answers:
  assumes "wf_cfg g" and "n = bb_count g"
  shows "\<exists>order doms. GenPostOrderID (n + 1) g = Some order \<and>
    ComputeDominance (n * n + 2) (2 * n + 1) g order = Some doms \<and>
    (\<forall>a b. Dominate (n + 1) g doms a b = Some (if reachable g b then dominates g a b else a = b))"
proof -
  obtain ids order where o: "GenPostOrderID (n + 1) g = Some (ids, order)" "dfs_order g ids order"
    using GenPostOrderID_order [of g "n + 1"] assms by auto
  obtain doms where d: "ComputeDominance (n * n + 2) (2 * n + 1) g (ids, order) = Some doms"
    "tree_ok g ids doms" "exact g doms" using ComputeDominance_exact [OF assms(1) o(2)] assms(2) by fastforce
  have "length order < n + 1" using length_order [OF assms(1) o(2)] assms(2) by simp
  then show ?thesis using o(1) d(1) Dominate_exact [OF o(2) d(2,3)] by blast
qed

text \<open>
  C5. For a well formed control flow graph with \<open>n\<close> blocks the depth first walk of
  \<open>GenPostOrderID\<close> ends, the rounds of \<open>ComputeDominance\<close> reach their fixed point within \<open>n * n + 2\<close> rounds
  with at most \<open>2 * n + 1\<close> steps in every \<open>Intersect\<close>, no null pointer is followed, and then
  \<open>Dominate\<close> answers for every reachable block \<open>b\<close> whether every path from the common entry to \<open>b\<close>
  goes through \<open>a\<close>; of an unreachable block it says that only the block itself dominates it.
\<close>

theorem ComputeDominance_correct:
  assumes "wf_cfg g" and "n = bb_count g"
  shows "\<exists>order doms. GenPostOrderID (n + 1) g = Some order \<and>
    ComputeDominance (n * n + 2) (2 * n + 1) g order = Some doms \<and>
    (\<forall>a b. Dominate (n + 1) g doms a b = Some (if reachable g b then dominates g a b else a = b))"
  using assms by (rule ComputeDominance_answers)

text \<open>A branch and a loop: block 0 is the common entry, block 1 the common exit.\<close>

definition loop_cfg :: cfg where
  "loop_cfg = \<lparr>bbVec = replicate 7 True,
     GetSucc = (\<lambda>b. [[2], [], [3, 4], [5], [5], [2, 6], []] ! b),
     GetPred = (\<lambda>b. [[], [6], [5], [2], [2], [3, 4], [5]] ! b),
     commonEntryBB = 0, commonExitBB = 1, is_exit = (\<lambda>b. b = 6)\<rparr>"

lemma loop_cfg_wf: "wf_cfg loop_cfg"
  by code_simp

theorem ComputeDominance_correct_witness:
  "wf_cfg loop_cfg \<and> (\<exists>order doms. GenPostOrderID 8 loop_cfg = Some order \<and> ComputeDominance 51 15 loop_cfg order = Some doms \<and>
     (\<forall>a b. Dominate 8 loop_cfg doms a b = Some (if reachable loop_cfg b then dominates loop_cfg a b else a = b)))"
  using ComputeDominance_correct [OF loop_cfg_wf, of 7] loop_cfg_wf by (simp add: loop_cfg_def)

text \<open>
  C19. The parent of a block in the tree is its immediate dominator: it dominates the block, is another
  block, and every other dominator of the block dominates it.
\<close>

theorem doms_immediate:
  assumes "wf_cfg g" and "GenPostOrderID k g = Some order" and "bb_count g < k"
    and "ComputeDominance (bb_count g * bb_count g + 2) (2 * bb_count g + 1) g order = Some doms"
    and "reachable g b" and "b \<noteq> commonEntryBB g"
  shows "\<exists>d. doms b = Some d \<and> d \<noteq> b \<and> dominates g d b \<and> (\<forall>a. dominates g a b \<and> a \<noteq> b \<longrightarrow> dominates g a d)"
proof -
  obtain ids os where o: "order = (ids, os)" "dfs_order g ids os" using GenPostOrderID_order [OF assms(1,3)] assms(2) by auto
  have t: "tree_ok g ids doms" and e: "exact g doms" using ComputeDominance_exact [OF assms(1) o(2)] assms(4) o(1) by fastforce+
  obtain d where d: "doms b = Some d" using e assms(5) unfolding exact_def by blast
  have dn: "doms d \<noteq> None" using tree_okD(3) [OF t d] .
  have rd: "reachable g d" using tree_okD(2) [OF t] dn by blast
  have anc: "ancs doms b = insert b (ancs doms d)" by (rule ancs_unfold [of doms b d, OF d])
  have "d \<noteq> b" using tree_okD(4) [OF t d assms(6)] by auto
  moreover have "ancs doms b = {a. dominates g a b}" "ancs doms d = {a. dominates g a d}"
    using e assms(5) rd unfolding exact_def by blast+
  ultimately show ?thesis using d anc dominates_refl [of g d] by (intro exI [of _ d]) auto
qed

theorem doms_immediate_witness:
  "\<exists>order doms d. GenPostOrderID 8 loop_cfg = Some order \<and> ComputeDominance 51 15 loop_cfg order = Some doms \<and>
     doms 5 = Some d \<and> d \<noteq> 5 \<and> dominates loop_cfg d 5 \<and> (\<forall>a. dominates loop_cfg a 5 \<and> a \<noteq> 5 \<longrightarrow> dominates loop_cfg a d)"
proof -
  have n: "bb_count loop_cfg = 7" "commonEntryBB loop_cfg = 0" by (simp_all add: loop_cfg_def)
  obtain ids order where o: "GenPostOrderID 8 loop_cfg = Some (ids, order)" "dfs_order loop_cfg ids order"
    using GenPostOrderID_order [OF loop_cfg_wf, of 8] n by auto
  obtain doms where d: "ComputeDominance 51 15 loop_cfg (ids, order) = Some doms"
    using ComputeDominance_exact [OF loop_cfg_wf o(2), of 15 51] n by auto
  have "2 \<in> set (GetSucc loop_cfg 0)" "3 \<in> set (GetSucc loop_cfg 2)" "5 \<in> set (GetSucc loop_cfg 3)"
    by (simp_all add: loop_cfg_def)
  then have "reachable loop_cfg 5" using reachable.Entry [of loop_cfg] reachable.Edge unfolding n(2) by metis
  then show ?thesis using doms_immediate [OF loop_cfg_wf o(1), of doms 5] o(1) d n by auto
qed

end
