(* ===== verification/DomFrontier.thy ===== *)
theory DomFrontier
  imports Dominance
begin

text \<open>
  What class \<open>Dominance\<close> derives from the tree (maple_me/src/dominance.cpp): dominance frontiers, their
  closure, the children of a block, the preorder of the tree and the position of a block in it. A
  \<open>MapleSet\<close> of ids is the ascending list of its elements. \<open>None\<close> is as in \<open>Dominance\<close>.
\<close>

type_synonym bbsets = "bb \<Rightarrow> bb list"

section \<open>Dominance frontiers\<close>

text \<open>The runner goes up from a predecessor to the immediate dominator; a null runner cannot be entered.\<close>

fun up_frontier :: "nat \<Rightarrow> cfg \<Rightarrow> doms \<Rightarrow> bb \<Rightarrow> bb option \<Rightarrow> bbsets \<Rightarrow> bbsets option" where
  "up_frontier 0 g doms b runner df = None"
| "up_frontier (Suc k) g doms b runner df =
     (if runner = doms b \<or> runner = Some (commonEntryBB g) then Some df
      else do { r \<leftarrow> runner; up_frontier k g doms b (doms r) (df(r := insort_insert b (df r))) })"

fun frontier_preds :: "nat \<Rightarrow> cfg \<Rightarrow> doms \<Rightarrow> bb \<Rightarrow> bb list \<Rightarrow> bbsets \<Rightarrow> bbsets option" where
  "frontier_preds k g doms b [] df = Some df"
| "frontier_preds k g doms b (pre # ps) df = do {
     df \<leftarrow> up_frontier k g doms b (Some pre) df;
     frontier_preds k g doms b ps df }"

fun frontier_blocks :: "nat \<Rightarrow> cfg \<Rightarrow> doms \<Rightarrow> bb list \<Rightarrow> bbsets \<Rightarrow> bbsets option" where
  "frontier_blocks k g doms [] df = Some df"
| "frontier_blocks k g doms (b # bs) df =
     (if \<not> bbVec g ! b \<or> b = commonExitBB g then frontier_blocks k g doms bs df
      else if length (GetPred g b) < 2 then frontier_blocks k g doms bs df
      else do { df \<leftarrow> frontier_preds k g doms b (GetPred g b) df; frontier_blocks k g doms bs df })"

definition ComputeDomFrontiers :: "nat \<Rightarrow> cfg \<Rightarrow> doms \<Rightarrow> bbsets option" where
  "ComputeDomFrontiers k g doms = frontier_blocks k g doms [0..<bb_count g] (\<lambda>b. [])"

section \<open>Iterated frontiers\<close>

text \<open>
  \<open>it\<close> holds the sets that are complete, those of the blocks below \<open>bbidMarker\<close>; the state is the set
  under construction and the visited blocks.
\<close>

fun GetIterDomFrontier :: "nat \<Rightarrow> cfg \<Rightarrow> bbsets \<Rightarrow> bbsets \<Rightarrow> bb \<Rightarrow> bb \<Rightarrow> bb list \<times> bool list \<Rightarrow> (bb list \<times> bool list) option"
  and iter_frontier_loop :: "nat \<Rightarrow> cfg \<Rightarrow> bbsets \<Rightarrow> bbsets \<Rightarrow> bb \<Rightarrow> bb list \<Rightarrow> bb list \<times> bool list \<Rightarrow> (bb list \<times> bool list) option"
  where
  "GetIterDomFrontier 0 g df it bbidMarker b st = None"
| "GetIterDomFrontier (Suc k) g df it bbidMarker b (dfset, visitedMap) =
     (if b \<ge> length visitedMap then None
      else if visitedMap ! b then Some (dfset, visitedMap)
      else iter_frontier_loop k g df it bbidMarker (df b) (dfset, visitedMap[b := True]))"
| "iter_frontier_loop k g df it bbidMarker [] st = Some st"
| "iter_frontier_loop k g df it bbidMarker (f # fs) (dfset, visitedMap) =
     (let dfset = insort_insert f dfset in
      if f < bbidMarker then iter_frontier_loop k g df it bbidMarker fs (fold insort_insert (it f) dfset, visitedMap)
      else if f \<ge> bb_count g \<or> \<not> bbVec g ! f then None
      else do {
        st \<leftarrow> GetIterDomFrontier k g df it bbidMarker f (dfset, visitedMap);
        iter_frontier_loop k g df it bbidMarker fs st })"

fun iter_frontier_blocks :: "nat \<Rightarrow> cfg \<Rightarrow> bbsets \<Rightarrow> bb list \<Rightarrow> bbsets \<Rightarrow> bbsets option" where
  "iter_frontier_blocks k g df [] it = Some it"
| "iter_frontier_blocks k g df (b # bs) it =
     (if \<not> bbVec g ! b \<or> b = commonExitBB g then iter_frontier_blocks k g df bs it
      else do {
        (dfset, visitedMap) \<leftarrow> GetIterDomFrontier k g df it b b (it b, replicate (bb_count g) False);
        iter_frontier_blocks k g df bs (it(b := dfset)) })"

definition ComputeIterDomFrontiers :: "nat \<Rightarrow> cfg \<Rightarrow> bbsets \<Rightarrow> bbsets option" where
  "ComputeIterDomFrontiers k g df = iter_frontier_blocks k g df [0..<bb_count g] (\<lambda>b. [])"

section \<open>The preorder of the tree\<close>

definition ComputeDomChildren :: "cfg \<Rightarrow> doms \<Rightarrow> bbsets" where
  "ComputeDomChildren g doms =
     fold (\<lambda>b children.
         if \<not> bbVec g ! b then children
         else case doms b of
           None \<Rightarrow> children
         | Some parent \<Rightarrow> if parent = b then children else children(parent := insort_insert b (children parent)))
       [0..<bb_count g] (\<lambda>b. [])"

text \<open>The ids written so far; the vector has room for one id of every block.\<close>

fun ComputeDtPreorder :: "nat \<Rightarrow> cfg \<Rightarrow> bbsets \<Rightarrow> bb \<Rightarrow> bb list \<Rightarrow> bb list option"
  and preorder_children :: "nat \<Rightarrow> cfg \<Rightarrow> bbsets \<Rightarrow> bb list \<Rightarrow> bb list \<Rightarrow> bb list option" where
  "ComputeDtPreorder 0 g children b dtPreOrder = None"
| "ComputeDtPreorder (Suc n) g children b dtPreOrder =
     (if length dtPreOrder < bb_count g then preorder_children n g children (children b) (dtPreOrder @ [b]) else None)"
| "preorder_children n g children [] dtPreOrder = Some dtPreOrder"
| "preorder_children n g children (k # ks) dtPreOrder =
     (if k \<ge> bb_count g \<or> \<not> bbVec g ! k then None
      else do {
        dtPreOrder \<leftarrow> ComputeDtPreorder n g children k dtPreOrder;
        preorder_children n g children ks dtPreOrder })"

text \<open>The initial value is -1 in 32 bits without a sign.\<close>

definition ComputeDtDfn :: "cfg \<Rightarrow> bb list \<Rightarrow> nat list" where
  "ComputeDtDfn g dtPreOrder =
     fold (\<lambda>i dtDfn. dtDfn[dtPreOrder ! i := i]) [0..<length dtPreOrder] (replicate (bb_count g) 4294967295)"

end
