(* ===== verification/FrontierSound.thy ===== *)
theory FrontierSound
  imports DomSound DomFrontier
begin

text \<open>
  The frontiers that \<open>ComputeDomFrontiers\<close> finds are the dominance frontiers, except at blocks the
  common entry enters and that have one other predecessor, and the iterated sets are their closure.
\<close>

section \<open>One runner\<close>

declare set_insort_insert [simp]

lemma set_fold_insort_insert [simp]: "set (fold insort_insert xs ys) = set xs \<union> set ys"
  by (induction xs arbitrary: ys) auto

text \<open>What a runner adds: \<open>b\<close> to the sets of the blocks from \<open>r\<close> up to but without \<open>d\<close>.\<close>

lemma up_frontier_adds:
  assumes o: "dfs_order g ids order" and t: "tree_ok g ids doms" and b: "doms b = Some d"
  shows "doms r \<noteq> None \<Longrightarrow> d \<in> ancs doms r \<Longrightarrow> height ids order r < k \<Longrightarrow>
    \<exists>df'. up_frontier k g doms b (Some r) df = Some df' \<and>
      (\<forall>x. set (df' x) = set (df x) \<union> (if x \<in> ancs doms r - ancs doms d then {b} else {}))"
proof (induction k arbitrary: r df)
  case (Suc k)
  show ?case
  proof (cases "r = d")
    case False
    have "r \<noteq> commonEntryBB g" using Suc.prems(2) ancs_entry [OF t] False by auto
    moreover obtain r' where r': "doms r = Some r'" using Suc.prems(1) by blast
    ultimately have h: "height ids order r' < k" using height_step [OF o t r'] Suc.prems(3) by simp
    have anc: "ancs doms r = insert r (ancs doms r')" by (rule ancs_unfold [of doms r r', OF r'])
    then have "d \<in> ancs doms r'" using Suc.prems(2) False by auto
    then obtain df' where df': "up_frontier k g doms b (Some r') (df(r := insort_insert b (df r))) = Some df'"
      "\<And>x. set (df' x) = set ((df(r := insort_insert b (df r))) x) \<union> (if x \<in> ancs doms r' - ancs doms d then {b} else {})"
      using Suc.IH [of r' "df(r := insort_insert b (df r))"] tree_okD(3) [OF t r'] h by blast
    have "r \<notin> ancs doms d" using ancs_antisym [OF t Suc.prems(1) _ Suc.prems(2)] False by blast
    then have "set (df' x) = set (df x) \<union> (if x \<in> ancs doms r - ancs doms d then {b} else {})" for x
      using df'(2) [of x] unfolding anc by auto
    then show ?thesis using df'(1) False b r' \<open>r \<noteq> commonEntryBB g\<close> by simp
  qed (use b in simp)
qed simp

lemma frontier_preds_adds:
  assumes o: "dfs_order g ids order" and t: "tree_ok g ids doms" and b: "doms b = Some d" and k: "length order < k"
  shows "(\<And>p. p \<in> set ps \<Longrightarrow> doms p \<noteq> None \<and> d \<in> ancs doms p) \<Longrightarrow>
    \<exists>df'. frontier_preds k g doms b ps df = Some df' \<and>
      (\<forall>x. set (df' x) = set (df x) \<union> (if \<exists>p \<in> set ps. x \<in> ancs doms p - ancs doms d then {b} else {}))"
proof (induction ps arbitrary: df)
  case (Cons p ps)
  have p: "doms p \<noteq> None" "d \<in> ancs doms p" using Cons.prems by simp_all
  have "height ids order p < k" using height_le [OF o] tree_okD(2) [OF t] p(1) k by fastforce
  then obtain df1 where df1: "up_frontier k g doms b (Some p) df = Some df1"
    "\<And>x. set (df1 x) = set (df x) \<union> (if x \<in> ancs doms p - ancs doms d then {b} else {})"
    using up_frontier_adds [OF o t b p] by blast
  obtain df' where df': "frontier_preds k g doms b ps df1 = Some df'"
    "\<And>x. set (df' x) = set (df1 x) \<union> (if \<exists>p \<in> set ps. x \<in> ancs doms p - ancs doms d then {b} else {})"
    using Cons.IH [of df1] Cons.prems by auto
  have "set (df' x) = set (df x) \<union> (if \<exists>p \<in> set (p # ps). x \<in> ancs doms p - ancs doms d then {b} else {})" for x
    using df1(2) [of x] df'(2) [of x] by auto
  then show ?case using df1(1) df'(1) by simp
qed simp

section \<open>All blocks\<close>

text \<open>
  The dominance frontier, with the edges from the common entry: \<open>a\<close> dominates a predecessor of \<open>b\<close> and
  does not strictly dominate \<open>b\<close>.
\<close>

definition in_frontier :: "cfg \<Rightarrow> bb \<Rightarrow> bb \<Rightarrow> bool" where
  "in_frontier g a b = (\<exists>p. reachable g p \<and> b \<in> set (GetSucc g p) \<and> dominates g a p \<and> \<not> (dominates g a b \<and> a \<noteq> b))"

text \<open>Every block can be reached, as after the removal of unreachable code.\<close>

definition pruned :: "cfg \<Rightarrow> bool" where
  "pruned g = (\<forall>b < bb_count g. if b = commonExitBB g then GetSucc g b = [] else bbVec g ! b \<and> reachable g b)"

lemma prunedD:
  assumes "pruned g" "b < bb_count g" "b \<noteq> commonExitBB g"
  shows "bbVec g ! b" "reachable g b"
  using assms unfolding pruned_def by auto

lemma pred_pruned:
  assumes wf: "wf_cfg g" and p: "pruned g" and b: "b < bb_count g" "b \<noteq> commonExitBB g" and q: "q \<in> set (GetPred g b)"
  shows "reachable g q" "b \<in> set (GetSucc g q)" "b \<noteq> commonEntryBB g"
proof -
  show s: "b \<in> set (GetSucc g q)" using wf_cfgD(4) [OF wf b q] by blast
  have r: "q < bb_count g" using wf_cfgD(4) [OF wf b q] by blast
  then have "q \<noteq> commonExitBB g" using p s unfolding pruned_def by fastforce
  then show "reachable g q" using prunedD(2) [OF p r] by blast
  show "b \<noteq> commonEntryBB g" using wf_cfgD(2) [OF wf r s] by blast
qed

lemma edge_idom:
  assumes t: "tree_ok g ids doms" and e: "exact g doms" and b: "reachable g b" "doms b = Some d" "b \<noteq> commonEntryBB g"
    and q: "reachable g q" "b \<in> set (GetSucc g q)"
  shows "d \<in> ancs doms q" "x \<in> ancs doms q - ancs doms d \<longleftrightarrow> dominates g x q \<and> \<not> (dominates g x b \<and> x \<noteq> b)"
proof -
  have anc: "ancs doms b = insert b (ancs doms d)" by (rule ancs_unfold [of doms b d, OF b(2)])
  have ab: "ancs doms b = {a. dominates g a b}" and aq: "ancs doms q = {a. dominates g a q}"
    using e b(1) q(1) unfolding exact_def by blast+
  have nb: "b \<notin> ancs doms d"
    using ancs_ids(2) [OF t tree_okD(3) [OF t b(2)], of b] tree_okD(4) [OF t b(2,3)] by fastforce
  have "d \<noteq> b" using nb ancs_refl [of d doms] by blast
  moreover have "dominates g d b" using anc ab ancs_refl [of d doms] by blast
  ultimately have "dominates g d q" using dominates_pred q(2) by blast
  then show "d \<in> ancs doms q" using aq by blast
  have "ancs doms d = {a. dominates g a b \<and> a \<noteq> b}" using anc ab nb by blast
  then show "x \<in> ancs doms q - ancs doms d \<longleftrightarrow> dominates g x q \<and> \<not> (dominates g x b \<and> x \<noteq> b)" using aq by simp
qed

text \<open>A block with one predecessor that is not entered otherwise is in no frontier.\<close>

lemma one_pred_no_frontier:
  assumes wf: "wf_cfg g" and b: "reachable g b" and n: "\<not> CommonEntryBBIsPred g b" and l: "length (GetPred g b) < 2"
  shows "\<not> in_frontier g a b"
proof
  assume "in_frontier g a b"
  then obtain p where p: "reachable g p" "b \<in> set (GetSucc g p)" "dominates g a p" "\<not> (dominates g a b \<and> a \<noteq> b)"
    unfolding in_frontier_def by blast
  have be: "b \<noteq> commonEntryBB g" using wf_cfgD(2) [OF wf, of p b] reachable_range [OF p(1) wf] p(2) by blast
  have pe: "u = p" if "reachable g u" "b \<in> set (GetSucc g u)" for u
  proof -
    have mem: "x \<in> set (GetPred g b)" if x: "reachable g x" "b \<in> set (GetSucc g x)" for x
      using wf_cfgD(3) [OF wf, of x b] reachable_range [OF x(1) wf] n x(2) by (auto simp: CommonEntryBBIsPred_def)
    obtain y where "GetPred g b = [y]" using l mem [OF p(1,2)] by (cases "GetPred g b") auto
    then show ?thesis using mem [OF that] mem [OF p(1,2)] by simp
  qed
  have "dominates g a b" unfolding dominates_def
  proof (intro allI impI)
    fix q assume "cfg_path g q b"
    then show "a \<in> set q"
    proof (cases rule: cfg_path.cases)
      case (Step q' u)
      then have "u = p" using pe path_reachable by blast
      then show ?thesis using p(3) Step unfolding dominates_def by simp
    qed (use be in simp)
  qed
  then have "a = b" using p(4) by blast
  have "cfg_path g q x \<Longrightarrow> x \<noteq> b \<and> b \<notin> set q" for q x
  proof (induction rule: cfg_path.induct)
    case (Step q u v)
    have "v \<noteq> b"
    proof
      assume v: "v = b"
      then have "u = p" using pe path_reachable [OF Step.hyps(1)] Step.hyps(2) by blast
      then show False using Step p(3) \<open>a = b\<close> unfolding dominates_def by blast
    qed
    then show ?case using Step by auto
  qed (use be in auto)
  then show False using reachable_path [OF b] by blast
qed

lemma frontier_blocks_adds:
  assumes wf: "wf_cfg g" and pr: "pruned g" and o: "dfs_order g ids order" and t: "tree_ok g ids doms" and e: "exact g doms"
    and k: "length order < k"
  shows "set bs \<subseteq> {..<bb_count g} \<Longrightarrow> \<exists>df'. frontier_blocks k g doms bs df = Some df' \<and>
    (\<forall>x y. y \<in> set (df' x) \<longleftrightarrow> y \<in> set (df x) \<or> y \<in> set bs \<and> y \<noteq> commonExitBB g \<and> 2 \<le> length (GetPred g y) \<and>
      (\<exists>p \<in> set (GetPred g y). dominates g x p \<and> \<not> (dominates g x y \<and> x \<noteq> y)))"
proof (induction bs arbitrary: df)
  case (Cons b bs)
  have b: "b < bb_count g" "set bs \<subseteq> {..<bb_count g}" using Cons.prems by simp_all
  show ?case
  proof (cases "b = commonExitBB g \<or> length (GetPred g b) < 2")
    case True
    then have "frontier_blocks k g doms (b # bs) df = frontier_blocks k g doms bs df" by auto
    then show ?thesis using Cons.IH [OF b(2), of df] True by auto
  next
    case False
    then have bx: "b \<noteq> commonExitBB g" "2 \<le> length (GetPred g b)" by simp_all
    note bb = prunedD [OF pr b(1) bx(1)]
    note pred = pred_pruned [OF wf pr b(1) bx(1)]
    obtain q where "q \<in> set (GetPred g b)" using bx(2) by (cases "GetPred g b") auto
    then have be: "b \<noteq> commonEntryBB g" using pred(3) by blast
    obtain d where d: "doms b = Some d" using e bb(2) unfolding exact_def by blast
    have up: "doms p \<noteq> None" "d \<in> ancs doms p"
      "x \<in> ancs doms p - ancs doms d \<longleftrightarrow> dominates g x p \<and> \<not> (dominates g x b \<and> x \<noteq> b)" if p: "p \<in> set (GetPred g b)" for p x
      using edge_idom [OF t e bb(2) d be pred(1,2) [OF p]] e pred(1) [OF p] unfolding exact_def by blast+
    obtain df1 where df1: "frontier_preds k g doms b (GetPred g b) df = Some df1"
      "\<And>x. set (df1 x) = set (df x) \<union> (if \<exists>p \<in> set (GetPred g b). x \<in> ancs doms p - ancs doms d then {b} else {})"
      using frontier_preds_adds [OF o t d k, of "GetPred g b" df] up(1,2) by blast
    obtain df' where df': "frontier_blocks k g doms bs df1 = Some df'"
      "\<And>x y. y \<in> set (df' x) \<longleftrightarrow> y \<in> set (df1 x) \<or> y \<in> set bs \<and> y \<noteq> commonExitBB g \<and> 2 \<le> length (GetPred g y) \<and>
        (\<exists>p \<in> set (GetPred g y). dominates g x p \<and> \<not> (dominates g x y \<and> x \<noteq> y))"
      using Cons.IH [OF b(2), of df1] by blast
    have "(\<exists>p \<in> set (GetPred g b). x \<in> ancs doms p - ancs doms d) \<longleftrightarrow>
        (\<exists>p \<in> set (GetPred g b). dominates g x p \<and> \<not> (dominates g x b \<and> x \<noteq> b))" for x
      using up(3) by blast
    then have "set (df1 x) = set (df x) \<union>
        (if \<exists>p \<in> set (GetPred g b). dominates g x p \<and> \<not> (dominates g x b \<and> x \<noteq> b) then {b} else {})" for x
      using df1(2) [of x] by (simp only:)
    then have "y \<in> set (df' x) \<longleftrightarrow> y \<in> set (df x) \<or> y \<in> set (b # bs) \<and> y \<noteq> commonExitBB g \<and> 2 \<le> length (GetPred g y) \<and>
        (\<exists>p \<in> set (GetPred g y). dominates g x p \<and> \<not> (dominates g x y \<and> x \<noteq> y))" for x y
      unfolding df'(2) using bx by auto
    moreover have "frontier_blocks k g doms (b # bs) df = Some df'" using bb(1) bx df1(1) df'(1) by simp
    ultimately show ?thesis by blast
  qed
qed simp

lemma ComputeDomFrontiers_sets:
  assumes wf: "wf_cfg g" and pr: "pruned g" and o: "dfs_order g ids order" and t: "tree_ok g ids doms" and e: "exact g doms"
    and k: "length order < k"
  shows "\<exists>df. ComputeDomFrontiers k g doms = Some df \<and> (\<forall>a b. b \<in> set (df a) \<longleftrightarrow>
    in_frontier g a b \<and> \<not> (CommonEntryBBIsPred g b \<and> length (GetPred g b) < 2))"
proof -
  have sub: "set [0..<bb_count g] \<subseteq> {..<bb_count g}" by auto
  obtain df where df: "ComputeDomFrontiers k g doms = Some df"
    and "\<forall>a b. b \<in> set (df a) \<longleftrightarrow> b \<in> set [] \<or> b \<in> set [0..<bb_count g] \<and> b \<noteq> commonExitBB g \<and> 2 \<le> length (GetPred g b) \<and>
      (\<exists>p \<in> set (GetPred g b). dominates g a p \<and> \<not> (dominates g a b \<and> a \<noteq> b))"
    using frontier_blocks_adds [OF wf pr o t e k sub, of "\<lambda>b. []"] unfolding ComputeDomFrontiers_def by blast
  then have df2: "\<And>a b. b \<in> set (df a) \<longleftrightarrow> b < bb_count g \<and> b \<noteq> commonExitBB g \<and> 2 \<le> length (GetPred g b) \<and>
      (\<exists>p \<in> set (GetPred g b). dominates g a p \<and> \<not> (dominates g a b \<and> a \<noteq> b))"
    by simp
  have "b \<in> set (df a) \<longleftrightarrow> in_frontier g a b \<and> \<not> (CommonEntryBBIsPred g b \<and> length (GetPred g b) < 2)" for a b
  proof
    assume "b \<in> set (df a)"
    then obtain p where b: "b < bb_count g" "b \<noteq> commonExitBB g" "2 \<le> length (GetPred g b)" and p: "p \<in> set (GetPred g b)"
      "dominates g a p" "\<not> (dominates g a b \<and> a \<noteq> b)" unfolding df2 by blast
    then show "in_frontier g a b \<and> \<not> (CommonEntryBBIsPred g b \<and> length (GetPred g b) < 2)"
      using pred_pruned(1,2) [OF wf pr b(1,2) p(1)] unfolding in_frontier_def by auto
  next
    assume f: "in_frontier g a b \<and> \<not> (CommonEntryBBIsPred g b \<and> length (GetPred g b) < 2)"
    then obtain p where p: "reachable g p" "b \<in> set (GetSucc g p)" "dominates g a p" "\<not> (dominates g a b \<and> a \<noteq> b)"
      unfolding in_frontier_def by blast
    have rb: "reachable g b" using reachable.Edge [OF p(1,2)] .
    have b: "b < bb_count g" "b \<noteq> commonExitBB g" using reachable_range [OF rb wf] by simp_all
    have l: "2 \<le> length (GetPred g b)" using one_pred_no_frontier [OF wf rb] f by fastforce
    have "p \<noteq> commonEntryBB g"
    proof
      assume pe: "p = commonEntryBB g"
      then have "a = commonEntryBB g" using dominates_entry_only p(3) by blast
      moreover have "b \<noteq> commonEntryBB g" using wf_cfgD(2) [OF wf, of p b] reachable_range [OF p(1) wf] p(2) by blast
      ultimately show False using p(4) dominates_entry [of g b] by auto
    qed
    then have "p \<in> set (GetPred g b)" using wf_cfgD(3) [OF wf, of p b] reachable_range [OF p(1) wf] p(2) by blast
    then show "b \<in> set (df a)" unfolding df2 using b l p(3,4) by blast
  qed
  then show ?thesis using df by blast
qed

section \<open>The closure\<close>

definition frontier_rel :: "bbsets \<Rightarrow> (bb \<times> bb) set" where
  "frontier_rel df = {(a, b). b \<in> set (df a)}"

text \<open>What a call does to the set and the visited blocks; \<open>done\<close> is what holds of a visited block.\<close>

definition iter_step :: "bbsets \<Rightarrow> bbsets \<Rightarrow> bb \<Rightarrow> bb set \<Rightarrow> bb list \<times> bool list \<Rightarrow> bb list \<times> bool list \<Rightarrow> bool" where
  "iter_step df it m reach st st' = (case (st, st') of ((s, vis), (s', vis')) \<Rightarrow>
     length vis' = length vis \<and> set s \<subseteq> set s' \<and> set s' \<subseteq> set s \<union> reach \<and>
     (\<forall>u < length vis. vis ! u \<longrightarrow> vis' ! u) \<and>
     (\<forall>u < length vis. vis' ! u \<and> \<not> vis ! u \<longrightarrow>
        (\<forall>f \<in> set (df u). f \<in> set s' \<and> (if f < m then set (it f) \<subseteq> set s' else vis' ! f))))"

lemma iter_stepI:
  assumes "length vis' = length vis" "set s \<subseteq> set s'" "set s' \<subseteq> set s \<union> reach"
    "\<And>u. u < length vis \<Longrightarrow> vis ! u \<Longrightarrow> vis' ! u"
    "\<And>u f. u < length vis \<Longrightarrow> vis' ! u \<Longrightarrow> \<not> vis ! u \<Longrightarrow> f \<in> set (df u) \<Longrightarrow>
       f \<in> set s' \<and> (if f < m then set (it f) \<subseteq> set s' else vis' ! f)"
  shows "iter_step df it m reach (s, vis) (s', vis')"
  unfolding iter_step_def prod.case using assms by blast

lemma iter_stepD:
  assumes "iter_step df it m reach (s, vis) (s', vis')"
  shows "length vis' = length vis" "set s \<subseteq> set s'" "set s' \<subseteq> set s \<union> reach"
    "\<And>u. u < length vis \<Longrightarrow> vis ! u \<Longrightarrow> vis' ! u"
    "\<And>u f. u < length vis \<Longrightarrow> vis' ! u \<Longrightarrow> \<not> vis ! u \<Longrightarrow> f \<in> set (df u) \<Longrightarrow>
       f \<in> set s' \<and> (if f < m then set (it f) \<subseteq> set s' else vis' ! f)"
  using assms unfolding iter_step_def prod.case by blast+

lemma iter_step_refl: "iter_step df it m {} st st"
  by (cases st) (simp add: iter_step_def)

lemma iter_step_trans:
  assumes 1: "iter_step df it m r1 (s, vis) (s1, vis1)" and 2: "iter_step df it m r2 (s1, vis1) (s2, vis2)"
    and range: "\<And>u. set (df u) \<subseteq> {..<length vis}"
  shows "iter_step df it m (r1 \<union> r2) (s, vis) (s2, vis2)"
proof (rule iter_stepI)
  note d1 = iter_stepD [OF 1] and d2 = iter_stepD [OF 2]
  show "length vis2 = length vis" using d1(1) d2(1) by simp
  show "set s \<subseteq> set s2" using d1(2) d2(2) by blast
  show "set s2 \<subseteq> set s \<union> (r1 \<union> r2)" using d1(3) d2(3) by blast
  show "vis2 ! u" if "u < length vis" "vis ! u" for u using d2(4) [of u] d1(1,4) that by simp
  show "f \<in> set s2 \<and> (if f < m then set (it f) \<subseteq> set s2 else vis2 ! f)"
    if u: "u < length vis" "vis2 ! u" "\<not> vis ! u" "f \<in> set (df u)" for u f
  proof (cases "vis1 ! u")
    case True
    have "f < length vis1" using range [of u] u(4) d1(1) by auto
    then show ?thesis using d1(5) [OF u(1) True u(3,4)] d2(2) d2(4) [of f] by (auto split: if_splits)
  next
    case False
    then show ?thesis using d2(5) [of u f] u d1(1) by simp
  qed
qed

definition df_range :: "cfg \<Rightarrow> bbsets \<Rightarrow> bool" where
  "df_range g df = (\<forall>a b. b \<in> set (df a) \<longrightarrow> b < bb_count g \<and> bbVec g ! b)"

definition reaches :: "bbsets \<Rightarrow> bb \<Rightarrow> bb set" where
  "reaches df b = {y. (b, y) \<in> (frontier_rel df)\<^sup>+}"

lemma reaches_step: "f \<in> set (df b) \<Longrightarrow> insert f (reaches df f) \<subseteq> reaches df b"
  by (auto simp: reaches_def frontier_rel_def intro: trancl_into_trancl2)

definition iter_ok :: "nat \<Rightarrow> cfg \<Rightarrow> bbsets \<Rightarrow> bbsets \<Rightarrow> bb \<Rightarrow> bool" where
  "iter_ok k g df it m = (\<forall>b s vis. unvisited vis < k \<longrightarrow> length vis = bb_count g \<longrightarrow> b < bb_count g \<longrightarrow>
    (\<exists>s' vis'. GetIterDomFrontier k g df it m b (s, vis) = Some (s', vis') \<and>
      iter_step df it m (reaches df b) (s, vis) (s', vis') \<and> vis' ! b))"

lemma iter_step_unvisited:
  assumes "iter_step df it m r (s, vis) (s', vis')"
  shows "unvisited vis' \<le> unvisited vis"
proof -
  have "{b. b < length vis' \<and> \<not> vis' ! b} \<subseteq> {b. b < length vis \<and> \<not> vis ! b}"
    using iter_stepD(1,4) [OF assms] by auto
  then show ?thesis unfolding unvisited_def by (intro card_mono) simp_all
qed

lemma iter_frontier_loop_step:
  assumes call: "iter_ok k g df it m" and df: "df_range g df" and it: "\<And>f. f < m \<Longrightarrow> set (it f) \<subseteq> reaches df f"
  shows "unvisited vis < k \<Longrightarrow> length vis = bb_count g \<Longrightarrow> (\<And>f. f \<in> set fs \<Longrightarrow> f < bb_count g \<and> bbVec g ! f) \<Longrightarrow>
    \<exists>s' vis'. iter_frontier_loop k g df it m fs (s, vis) = Some (s', vis') \<and>
      iter_step df it m (\<Union>f \<in> set fs. insert f (reaches df f)) (s, vis) (s', vis') \<and>
      (\<forall>f \<in> set fs. f \<in> set s' \<and> (if f < m then set (it f) \<subseteq> set s' else vis' ! f))"
proof (induction fs arbitrary: s vis)
  case (Cons f fs)
  have f: "f < bb_count g" "bbVec g ! f" using Cons.prems(3) by simp_all
  let ?s = "if f < m then fold insort_insert (it f) (insort_insert f s) else insort_insert f s"
  have range: "set (df u) \<subseteq> {..<length vis}" for u using df Cons.prems(2) by (auto simp: df_range_def)
  have first: "\<exists>s1 vis1. iter_frontier_loop k g df it m (f # fs) (s, vis) = iter_frontier_loop k g df it m fs (s1, vis1) \<and>
      iter_step df it m (insert f (reaches df f)) (s, vis) (s1, vis1) \<and> f \<in> set s1 \<and>
      (if f < m then set (it f) \<subseteq> set s1 else vis1 ! f)"
  proof (cases "f < m")
    case True
    have "iter_step df it m (insert f (reaches df f)) (s, vis) (?s, vis)"
      using it [OF True] True by (intro iter_stepI) auto
    then show ?thesis using True by (intro exI [of _ ?s] exI [of _ vis]) auto
  next
    case False
    obtain s1 vis1 where c: "GetIterDomFrontier k g df it m f (insort_insert f s, vis) = Some (s1, vis1)"
      "iter_step df it m (reaches df f) (insort_insert f s, vis) (s1, vis1)" "vis1 ! f"
      using call Cons.prems(1,2) f(1) unfolding iter_ok_def by blast
    have "iter_step df it m {f} (s, vis) (insort_insert f s, vis)" by (intro iter_stepI) auto
    then have "iter_step df it m ({f} \<union> reaches df f) (s, vis) (s1, vis1)" by (rule iter_step_trans [OF _ c(2) range])
    moreover have "f \<in> set s1" using iter_stepD(2) [OF c(2)] by auto
    ultimately show ?thesis using False f c(1,3) by (intro exI [of _ s1] exI [of _ vis1]) (simp add: Let_def)
  qed
  then obtain s1 vis1 where c: "iter_frontier_loop k g df it m (f # fs) (s, vis) = iter_frontier_loop k g df it m fs (s1, vis1)"
    "iter_step df it m (insert f (reaches df f)) (s, vis) (s1, vis1)" "f \<in> set s1"
    "if f < m then set (it f) \<subseteq> set s1 else vis1 ! f" by blast
  have v: "unvisited vis1 < k" "length vis1 = bb_count g"
    using iter_step_unvisited [OF c(2)] iter_stepD(1) [OF c(2)] Cons.prems(1,2) by simp_all
  obtain s' vis' where r: "iter_frontier_loop k g df it m fs (s1, vis1) = Some (s', vis')"
    "iter_step df it m (\<Union>f \<in> set fs. insert f (reaches df f)) (s1, vis1) (s', vis')"
    "\<forall>f \<in> set fs. f \<in> set s' \<and> (if f < m then set (it f) \<subseteq> set s' else vis' ! f)"
    using Cons.IH [OF v, of s1] Cons.prems(3) by auto
  have "iter_step df it m (insert f (reaches df f) \<union> (\<Union>f \<in> set fs. insert f (reaches df f))) (s, vis) (s', vis')"
    by (rule iter_step_trans [OF c(2) r(2) range])
  moreover have "f \<in> set s' \<and> (if f < m then set (it f) \<subseteq> set s' else vis' ! f)"
    using c(3,4) iter_stepD(2) [OF r(2)] iter_stepD(4) [OF r(2), of f] v(2) f(1) by (auto split: if_splits)
  ultimately show ?case unfolding c(1) using r(1,3) by simp
qed (simp add: iter_step_refl)

lemma GetIterDomFrontier_step:
  assumes df: "df_range g df" and it: "\<And>f. f < m \<Longrightarrow> set (it f) \<subseteq> reaches df f"
  shows "iter_ok k g df it m"
proof (induction k)
  case (Suc k)
  have "\<exists>s' vis'. GetIterDomFrontier (Suc k) g df it m b (s, vis) = Some (s', vis') \<and>
      iter_step df it m (reaches df b) (s, vis) (s', vis') \<and> vis' ! b"
    if v: "unvisited vis < Suc k" "length vis = bb_count g" and b: "b < bb_count g" for b s vis
  proof (cases "vis ! b")
    case True
    then show ?thesis using b v(2) by (auto intro: iter_stepI)
  next
    case False
    let ?v = "vis[b := True]"
    have u: "unvisited ?v < k" using unvisited_mark [of b vis] False v b by simp
    have lv: "length ?v = bb_count g" using v(2) by simp
    have range: "\<And>f. f \<in> set (df b) \<Longrightarrow> f < bb_count g \<and> bbVec g ! f" using df by (simp add: df_range_def)
    have "\<exists>s' vis'. iter_frontier_loop k g df it m (df b) (s, ?v) = Some (s', vis') \<and>
        iter_step df it m (\<Union>f \<in> set (df b). insert f (reaches df f)) (s, ?v) (s', vis') \<and>
        (\<forall>f \<in> set (df b). f \<in> set s' \<and> (if f < m then set (it f) \<subseteq> set s' else vis' ! f))"
      by (rule iter_frontier_loop_step [OF Suc.IH df it u lv range])
    then obtain s' vis' where r: "iter_frontier_loop k g df it m (df b) (s, ?v) = Some (s', vis')"
      "iter_step df it m (\<Union>f \<in> set (df b). insert f (reaches df f)) (s, ?v) (s', vis')"
      "\<forall>f \<in> set (df b). f \<in> set s' \<and> (if f < m then set (it f) \<subseteq> set s' else vis' ! f)" by blast
    note d = iter_stepD [OF r(2)]
    have vb: "vis' ! b" using d(4) [of b] b v(2) by simp
    have "iter_step df it m (reaches df b) (s, vis) (s', vis')"
    proof (rule iter_stepI)
      show "set s' \<subseteq> set s \<union> reaches df b" using d(3) reaches_step by blast
      show "vis' ! u" if "u < length vis" "vis ! u" for u using d(4) [of u] that vb by (cases "u = b") simp_all
      show "f \<in> set s' \<and> (if f < m then set (it f) \<subseteq> set s' else vis' ! f)"
        if "u < length vis" "vis' ! u" "\<not> vis ! u" "f \<in> set (df u)" for u f
        using d(5) [of u f] r(3) that by (cases "u = b") simp_all
    qed (use d(1,2) in simp_all)
    then show ?thesis using r(1) False b v(2) vb by simp
  qed
  then show ?case unfolding iter_ok_def by blast
qed (simp add: iter_ok_def)

lemma GetIterDomFrontier_closure:
  assumes df: "df_range g df" and it: "\<And>f. f < m \<Longrightarrow> bbVec g ! f \<Longrightarrow> f < bb_count g \<Longrightarrow> f \<noteq> commonExitBB g \<Longrightarrow> set (it f) = reaches df f"
    and none: "\<And>f. f < m \<Longrightarrow> set (it f) \<subseteq> reaches df f" and x: "\<And>a. commonExitBB g \<notin> set (df a)"
    and b: "b < bb_count g" "it b = []" and k: "bb_count g < k"
  shows "\<exists>s vis. GetIterDomFrontier k g df it m b (it b, replicate (bb_count g) False) = Some (s, vis) \<and> set s = reaches df b"
proof -
  let ?v = "replicate (bb_count g) False"
  have ok: "iter_ok k g df it m" by (rule GetIterDomFrontier_step [OF df none])
  have "{b. b < length ?v \<and> \<not> ?v ! b} = {..<bb_count g}" by auto
  then have "unvisited ?v < k" using k by (simp add: unvisited_def)
  moreover have lv: "length ?v = bb_count g" by simp
  ultimately obtain s vis where r: "GetIterDomFrontier k g df it m b (it b, ?v) = Some (s, vis)"
    "iter_step df it m (reaches df b) (it b, ?v) (s, vis)" "vis ! b"
    using ok b(1) unfolding iter_ok_def by blast
  note d = iter_stepD [OF r(2)]
  have "y \<in> set s" if "(u, y) \<in> (frontier_rel df)\<^sup>+" "u < bb_count g" "vis ! u" for u y
    using that
  proof (induction rule: converse_trancl_induct)
    case (base u)
    then show ?case using d(5) [of u y] by (simp add: frontier_rel_def)
  next
    case (step u f)
    have f: "f \<in> set (df u)" using step.hyps(1) by (simp add: frontier_rel_def)
    then have fr: "f < bb_count g" "bbVec g ! f" "f \<noteq> commonExitBB g" using df x by (auto simp: df_range_def)
    have c: "if f < m then set (it f) \<subseteq> set s else vis ! f" using d(5) [of u f] step.prems f by simp
    show ?case
    proof (cases "f < m")
      case True
      then have "y \<in> set (it f)" using it [OF True fr(2,1,3)] step.hyps(2) by (simp add: reaches_def)
      then show ?thesis using c True by auto
    next
      case False
      then show ?thesis using step.IH fr(1) c by simp
    qed
  qed
  then have "reaches df b \<subseteq> set s" using b(1) r(3) by (auto simp: reaches_def)
  then show ?thesis using r(1) d(3) b(2) by auto
qed

lemma iter_frontier_blocks_closure:
  assumes df: "df_range g df" and x: "\<And>a. commonExitBB g \<notin> set (df a)" and k: "bb_count g < k"
  shows "m + length bs = bb_count g \<Longrightarrow> bs = [m..<bb_count g] \<Longrightarrow>
    (\<And>f. set (it f) = (if f < m \<and> bbVec g ! f \<and> f \<noteq> commonExitBB g then reaches df f else {})) \<Longrightarrow>
    \<exists>it'. iter_frontier_blocks k g df bs it = Some it' \<and>
      (\<forall>f. set (it' f) = (if f < bb_count g \<and> bbVec g ! f \<and> f \<noteq> commonExitBB g then reaches df f else {}))"
proof (induction bs arbitrary: m it)
  case (Cons b bs)
  have m: "b = m" "bs = [Suc m..<bb_count g]" "m < bb_count g"
    using Cons.prems(2) by (auto simp: upt_rec [of m] split: if_splits)
  have len: "Suc m + length bs = bb_count g" using Cons.prems(1) by simp
  show ?case
  proof (cases "\<not> bbVec g ! b \<or> b = commonExitBB g")
    case True
    have "set (it f) = (if f < Suc m \<and> bbVec g ! f \<and> f \<noteq> commonExitBB g then reaches df f else {})" for f
      using Cons.prems(3) [of f] True m(1) by (auto simp: less_Suc_eq)
    then show ?thesis using Cons.IH [OF len m(2), of it] True by simp
  next
    case False
    have "it b = []" using Cons.prems(3) [of b] m(1) by simp
    moreover have "\<And>f. set (it f) \<subseteq> reaches df f" using Cons.prems(3) by simp
    moreover have "\<And>f. f < b \<Longrightarrow> bbVec g ! f \<Longrightarrow> f \<noteq> commonExitBB g \<Longrightarrow> set (it f) = reaches df f"
      using Cons.prems(3) m(1) by simp
    moreover have "b < bb_count g" using m by simp
    ultimately obtain s vis where s: "GetIterDomFrontier k g df it b b (it b, replicate (bb_count g) False) = Some (s, vis)"
      "set s = reaches df b"
      using GetIterDomFrontier_closure [OF df _ _ x _ _ k, of b it b] by blast
    have "set ((it(b := s)) f) = (if f < Suc m \<and> bbVec g ! f \<and> f \<noteq> commonExitBB g then reaches df f else {})" for f
      using Cons.prems(3) [of f] False m(1) s(2) by (auto simp: less_Suc_eq)
    then have "\<exists>it'. iter_frontier_blocks k g df bs (it(b := s)) = Some it' \<and>
      (\<forall>f. set (it' f) = (if f < bb_count g \<and> bbVec g ! f \<and> f \<noteq> commonExitBB g then reaches df f else {}))"
      by (rule Cons.IH [OF len m(2)])
    moreover have "iter_frontier_blocks k g df (b # bs) it = iter_frontier_blocks k g df bs (it(b := s))"
      using False s(1) by (simp del: fun_upd_apply)
    ultimately show ?thesis by (simp only:)
  qed
qed auto

lemma ComputeIterDomFrontiers_sets:
  assumes "df_range g df" "\<And>a. commonExitBB g \<notin> set (df a)" "bb_count g < k"
  shows "\<exists>it. ComputeIterDomFrontiers k g df = Some it \<and>
    (\<forall>f. set (it f) = (if f < bb_count g \<and> bbVec g ! f \<and> f \<noteq> commonExitBB g then reaches df f else {}))"
  unfolding ComputeIterDomFrontiers_def by (rule iter_frontier_blocks_closure [OF assms, of 0]) simp_all

section \<open>The theorems\<close>

lemma frontier_range:
  assumes wf: "wf_cfg g" and pr: "pruned g" and df: "\<And>a b. b \<in> set (df a) \<Longrightarrow> in_frontier g a b"
  shows "df_range g df" "commonExitBB g \<notin> set (df a)"
proof -
  have r: "reachable g b" if "b \<in> set (df a)" for a b using df [OF that] reachable.Edge unfolding in_frontier_def by blast
  show "df_range g df" unfolding df_range_def using r reachable_range [OF _ wf] prunedD(1) [OF pr] by blast
  show "commonExitBB g \<notin> set (df a)" using r reachable_range [OF _ wf] by blast
qed

text \<open>
  C12. In a graph without unreachable blocks no runner of \<open>ComputeDomFrontiers\<close> meets a null pointer,
  and the set of \<open>a\<close> holds exactly the blocks \<open>b\<close> in its dominance frontier: \<open>a\<close> dominates a predecessor
  of \<open>b\<close>, counting the common entry, and does not strictly dominate \<open>b\<close>. The one exception are blocks
  that the common entry enters and that have a single other predecessor, which the test on the number
  of predecessors skips.
\<close>

theorem ComputeDomFrontiers_correct:
  assumes "wf_cfg g" and "pruned g" and "n = bb_count g"
  shows "\<exists>order doms df. GenPostOrderID (n + 1) g = Some order \<and>
    ComputeDominance (n * n + 2) (2 * n + 1) g order = Some doms \<and>
    ComputeDomFrontiers (n + 1) g doms = Some df \<and>
    (\<forall>a b. b \<in> set (df a) \<longleftrightarrow> in_frontier g a b \<and> \<not> (CommonEntryBBIsPred g b \<and> length (GetPred g b) < 2))"
proof -
  obtain ids order where o: "GenPostOrderID (n + 1) g = Some (ids, order)" "dfs_order g ids order"
    using GenPostOrderID_order [of g "n + 1"] assms by auto
  obtain doms where d: "ComputeDominance (n * n + 2) (2 * n + 1) g (ids, order) = Some doms"
    and t: "tree_ok g ids doms" and e: "exact g doms" using ComputeDominance_exact [OF assms(1) o(2)] assms(3) by fastforce
  have "length order < n + 1" using length_order [OF assms(1) o(2)] assms(3) by simp
  then show ?thesis using ComputeDomFrontiers_sets [OF assms(1,2) o(2) t e, of "n + 1"] o(1) d by blast
qed

lemma loop_cfg_reachable: "b < 7 \<Longrightarrow> b \<noteq> 1 \<Longrightarrow> reachable loop_cfg b"
proof -
  have 0: "reachable loop_cfg 0" using reachable.Entry [of loop_cfg] by (simp add: loop_cfg_def)
  have 2: "reachable loop_cfg 2" by (rule reachable.Edge [OF 0]) (simp add: loop_cfg_def)
  have 3: "reachable loop_cfg 3" by (rule reachable.Edge [OF 2]) (simp add: loop_cfg_def)
  have 4: "reachable loop_cfg 4" by (rule reachable.Edge [OF 2]) (simp add: loop_cfg_def)
  have 5: "reachable loop_cfg 5" by (rule reachable.Edge [OF 3]) (simp add: loop_cfg_def)
  have 6: "reachable loop_cfg 6" by (rule reachable.Edge [OF 5]) (simp add: loop_cfg_def)
  assume "b < 7" "b \<noteq> 1"
  then have "b \<in> {0, 2, 3, 4, 5, 6}" by auto
  then show ?thesis using 0 2 3 4 5 6 by auto
qed

lemma loop_cfg_pruned: "pruned loop_cfg"
proof -
  have n: "bb_count loop_cfg = 7" "commonExitBB loop_cfg = 1" "GetSucc loop_cfg 1 = []" by (simp_all add: loop_cfg_def)
  have "bbVec loop_cfg ! b" if "b < 7" for b using that by (simp add: loop_cfg_def)
  then show ?thesis using loop_cfg_reachable n unfolding pruned_def by simp
qed

theorem ComputeDomFrontiers_correct_witness:
  "\<exists>order doms df. GenPostOrderID 8 loop_cfg = Some order \<and> ComputeDominance 51 15 loop_cfg order = Some doms \<and>
    ComputeDomFrontiers 8 loop_cfg doms = Some df \<and>
    (\<forall>a b. b \<in> set (df a) \<longleftrightarrow> in_frontier loop_cfg a b \<and> \<not> (CommonEntryBBIsPred loop_cfg b \<and> length (GetPred loop_cfg b) < 2))"
  using ComputeDomFrontiers_correct [OF loop_cfg_wf loop_cfg_pruned, of 7] by (simp add: loop_cfg_def)

text \<open>
  C13. From these sets \<open>ComputeIterDomFrontiers\<close> computes their transitive closure, although it reuses
  the sets of blocks with smaller ids and cuts off at visited blocks.
\<close>

theorem ComputeIterDomFrontiers_correct:
  assumes "wf_cfg g" and "pruned g" and "n = bb_count g"
    and "GenPostOrderID (n + 1) g = Some order" and "ComputeDominance (n * n + 2) (2 * n + 1) g order = Some doms"
    and "ComputeDomFrontiers (n + 1) g doms = Some df"
  shows "\<exists>it. ComputeIterDomFrontiers (n + 1) g df = Some it \<and>
    (\<forall>a < n. a \<noteq> commonExitBB g \<longrightarrow> set (it a) = {b. (a, b) \<in> {(a, b). b \<in> set (df a)}\<^sup>+})"
proof -
  obtain ids os where o: "order = (ids, os)" "dfs_order g ids os"
    using GenPostOrderID_order [OF assms(1), of "n + 1"] assms(3,4) by auto
  have t: "tree_ok g ids doms" and e: "exact g doms"
    using ComputeDominance_exact [OF assms(1) o(2)] assms(3,5) o(1) by fastforce+
  have l: "length os < n + 1" using length_order [OF assms(1) o(2)] assms(3) by simp
  have f: "in_frontier g a b" if "b \<in> set (df a)" for a b
    using ComputeDomFrontiers_sets [OF assms(1,2) o(2) t e l] assms(6) that by auto
  have r: "df_range g df" "\<And>a. commonExitBB g \<notin> set (df a)"
    by (rule frontier_range [OF assms(1,2)], rule f, assumption)+
  obtain it where "ComputeIterDomFrontiers (n + 1) g df = Some it"
    "\<And>f. set (it f) = (if f < bb_count g \<and> bbVec g ! f \<and> f \<noteq> commonExitBB g then reaches df f else {})"
    using ComputeIterDomFrontiers_sets [OF r, where k = "n + 1"] assms(3) by auto
  then show ?thesis using prunedD(1) [OF assms(2)] assms(3) by (intro exI [of _ it]) (simp add: reaches_def frontier_rel_def)
qed

theorem ComputeIterDomFrontiers_correct_witness:
  "\<exists>order doms df it. GenPostOrderID 8 loop_cfg = Some order \<and> ComputeDominance 51 15 loop_cfg order = Some doms \<and>
    ComputeDomFrontiers 8 loop_cfg doms = Some df \<and> ComputeIterDomFrontiers 8 loop_cfg df = Some it \<and>
    set (it 3) = {b. (3, b) \<in> {(a, b). b \<in> set (df a)}\<^sup>+}"
proof -
  have n: "bb_count loop_cfg = 7" "commonExitBB loop_cfg = 1" by (simp_all add: loop_cfg_def)
  obtain ids order where o: "GenPostOrderID 8 loop_cfg = Some (ids, order)" "dfs_order loop_cfg ids order"
    using GenPostOrderID_order [OF loop_cfg_wf, of 8] n by auto
  obtain doms where d: "ComputeDominance 51 15 loop_cfg (ids, order) = Some doms"
    and t: "tree_ok loop_cfg ids doms" and e: "exact loop_cfg doms"
    using ComputeDominance_exact [OF loop_cfg_wf o(2), of 15 51] n by auto
  have "length order < 8" using length_order [OF loop_cfg_wf o(2)] n by simp
  then obtain df where df: "ComputeDomFrontiers 8 loop_cfg doms = Some df"
    using ComputeDomFrontiers_sets [OF loop_cfg_wf loop_cfg_pruned o(2) t e, of 8] by blast
  show ?thesis using ComputeIterDomFrontiers_correct [OF loop_cfg_wf loop_cfg_pruned, of 7 "(ids, order)" doms df] o(1) d df n by auto
qed

end
