(* ===== verification/DomPreorder.thy ===== *)
theory DomPreorder
  imports DomSound DomFrontier
begin

text \<open>
  The preorder of the dominator tree: every reachable block occurs once, and the blocks that a block
  dominates stand together, the block first.
\<close>

section \<open>Children\<close>

lemma ComputeDomChildren_set:
  "set (ComputeDomChildren g doms a) = {b. b < bb_count g \<and> bbVec g ! b \<and> doms b = Some a \<and> b \<noteq> a}"
  "distinct (ComputeDomChildren g doms a)"
proof -
  let ?f = "\<lambda>b children. if \<not> bbVec g ! b then children
      else case doms b of None \<Rightarrow> children
         | Some parent \<Rightarrow> if parent = b then children else children(parent := insort_insert b (children parent))"
  have "set (fold ?f [0..<n] (\<lambda>b. []) a) = {b. b < n \<and> bbVec g ! b \<and> doms b = Some a \<and> b \<noteq> a} \<and>
      distinct (fold ?f [0..<n] (\<lambda>b. []) a)" for n
  proof (induction n)
    case (Suc n)
    let ?c = "fold ?f [0..<n] (\<lambda>b. [])"
    have e: "fold ?f [0..<Suc n] (\<lambda>b. []) a = ?f n ?c a" by simp
    show ?case
    proof (cases "bbVec g ! n \<and> doms n = Some a \<and> n \<noteq> a")
      case True
      then have "?f n ?c a = insort_insert n (?c a)" by simp
      then show ?thesis unfolding e using True Suc
        by (auto simp: less_Suc_eq set_insort_insert distinct_insort_insert)
    next
      case False
      then have "?f n ?c a = ?c a" by (cases "doms n") auto
      then show ?thesis unfolding e using False Suc by (auto simp: less_Suc_eq)
    qed
  qed simp
  then show "set (ComputeDomChildren g doms a) = {b. b < bb_count g \<and> bbVec g ! b \<and> doms b = Some a \<and> b \<noteq> a}"
    "distinct (ComputeDomChildren g doms a)" by (simp_all add: ComputeDomChildren_def)
qed

definition subtree :: "doms \<Rightarrow> bb \<Rightarrow> bb set" where
  "subtree doms b = {x. doms x \<noteq> None \<and> b \<in> ancs doms x}"

lemma child_towards: "b \<in> ancs doms x \<Longrightarrow> b = x \<or> (\<exists>c. doms c = Some b \<and> c \<noteq> b \<and> c \<in> ancs doms x)"
proof (induction rule: ancs_induct)
  case (step y z)
  then show ?case by (cases "y = z") auto
qed simp

lemma subtree_children:
  assumes "doms b \<noteq> None"
  shows "subtree doms b = insert b (\<Union>c \<in> {c. doms c = Some b \<and> c \<noteq> b}. subtree doms c)"
proof
  show "subtree doms b \<subseteq> insert b (\<Union>c \<in> {c. doms c = Some b \<and> c \<noteq> b}. subtree doms c)"
  proof
    fix x assume x: "x \<in> subtree doms b"
    then show "x \<in> insert b (\<Union>c \<in> {c. doms c = Some b \<and> c \<noteq> b}. subtree doms c)"
      using child_towards [of b doms x] by (auto simp: subtree_def)
  qed
  show "insert b (\<Union>c \<in> {c. doms c = Some b \<and> c \<noteq> b}. subtree doms c) \<subseteq> subtree doms b"
    using assms ancs_step [of _ doms] by (auto simp: subtree_def)
qed

lemma child_not_above:
  assumes t: "tree_ok g ids doms" and c: "doms c = Some b" "c \<noteq> b"
  shows "c \<notin> ancs doms b"
proof
  assume "c \<in> ancs doms b"
  moreover have "b \<in> ancs doms c" using ancs_unfold [of doms c b, OF c(1)] by simp
  moreover have "doms c \<noteq> None" using c(1) by simp
  ultimately show False using ancs_antisym [OF t] c(2) by blast
qed

lemma subtree_child_disjoint:
  assumes t: "tree_ok g ids doms" and c: "doms c = Some b" "c \<noteq> b" and d: "doms d = Some b" "d \<noteq> b" and ne: "c \<noteq> d"
  shows "subtree doms c \<inter> subtree doms d = {}"
proof -
  have "x \<notin> ancs doms y" if "doms x = Some b" "x \<noteq> b" "doms y = Some b" "x \<noteq> y" for x y
    using ancs_unfold [of doms y b, OF that(3)] child_not_above [OF t that(1,2)] that(4) by simp
  then have "\<not> (c \<in> ancs doms x \<and> d \<in> ancs doms x)" for x using ancs_chain [of c doms x d] c d ne by blast
  then show ?thesis by (auto simp: subtree_def)
qed

section \<open>The walk\<close>

definition has_segments :: "doms \<Rightarrow> bb list \<Rightarrow> bool" where
  "has_segments doms ys = (\<forall>a \<in> set ys. \<exists>xs as zs. ys = xs @ (a # as) @ zs \<and> set (a # as) = subtree doms a)"

lemma has_segments_append: "has_segments doms xs \<Longrightarrow> has_segments doms ys \<Longrightarrow> has_segments doms (xs @ ys)"
  unfolding has_segments_def
proof
  fix a
  assume xs: "\<forall>a \<in> set xs. \<exists>us as zs. xs = us @ (a # as) @ zs \<and> set (a # as) = subtree doms a"
    and ys: "\<forall>a \<in> set ys. \<exists>us as zs. ys = us @ (a # as) @ zs \<and> set (a # as) = subtree doms a" and a: "a \<in> set (xs @ ys)"
  show "\<exists>us as zs. xs @ ys = us @ (a # as) @ zs \<and> set (a # as) = subtree doms a"
  proof (cases "a \<in> set xs")
    case True
    then obtain us as zs where "xs = us @ (a # as) @ zs" "set (a # as) = subtree doms a" using xs by blast
    then have "xs @ ys = us @ (a # as) @ (zs @ ys)" "set (a # as) = subtree doms a" by simp_all
    then show ?thesis by blast
  next
    case False
    then obtain us as zs where "ys = us @ (a # as) @ zs" "set (a # as) = subtree doms a" using ys a by auto
    then have "xs @ ys = (xs @ us) @ (a # as) @ zs" "set (a # as) = subtree doms a" by simp_all
    then show ?thesis by blast
  qed
qed

lemma has_segments_Cons:
  assumes "has_segments doms ys" "set (b # ys) = subtree doms b"
  shows "has_segments doms (b # ys)"
  unfolding has_segments_def
proof
  fix a assume a: "a \<in> set (b # ys)"
  show "\<exists>us as zs. b # ys = us @ (a # as) @ zs \<and> set (a # as) = subtree doms a"
  proof (cases "a = b")
    case True
    then have "b # ys = [] @ (a # ys) @ []" by simp
    then show ?thesis using assms(2) True by blast
  next
    case False
    then obtain us as zs where "ys = us @ (a # as) @ zs" "set (a # as) = subtree doms a"
      using a assms(1) unfolding has_segments_def by auto
    then have "b # ys = (b # us) @ (a # as) @ zs" "set (a # as) = subtree doms a" by simp_all
    then show ?thesis by blast
  qed
qed

definition writes :: "cfg \<Rightarrow> (bb list \<Rightarrow> bb list option) \<Rightarrow> bb list \<Rightarrow> bool" where
  "writes g f ys = (\<forall>acc. length acc + length ys \<le> bb_count g \<longrightarrow> f acc = Some (acc @ ys))"

lemma preorder_children_writes:
  assumes t: "tree_ok g ids doms"
    and sub: "\<And>c. c \<in> set cs \<Longrightarrow> c < bb_count g \<and> bbVec g ! c \<and> doms c = Some b \<and> c \<noteq> b \<and>
      (\<exists>ys. writes g (ComputeDtPreorder k g ch c) ys \<and> distinct ys \<and> set ys = subtree doms c \<and> has_segments doms ys)"
  shows "distinct cs \<Longrightarrow> \<exists>ys. writes g (preorder_children k g ch cs) ys \<and> distinct ys \<and>
      set ys = (\<Union>c \<in> set cs. subtree doms c) \<and> has_segments doms ys"
  using sub
proof (induction cs)
  case Nil
  show ?case by (intro exI [of _ "[]"]) (simp add: writes_def has_segments_def)
next
  case (Cons c cs)
  obtain ys where ys: "writes g (ComputeDtPreorder k g ch c) ys" "distinct ys" "set ys = subtree doms c" "has_segments doms ys"
    using Cons.prems(2) [of c] by auto
  have c: "c < bb_count g" "bbVec g ! c" "doms c = Some b" "c \<noteq> b" using Cons.prems(2) [of c] by simp_all
  have "\<exists>zs. writes g (preorder_children k g ch cs) zs \<and> distinct zs \<and> set zs = (\<Union>c \<in> set cs. subtree doms c) \<and> has_segments doms zs"
    by (rule Cons.IH) (use Cons.prems in simp_all)
  then obtain zs where zs: "writes g (preorder_children k g ch cs) zs" "distinct zs"
    "set zs = (\<Union>c \<in> set cs. subtree doms c)" "has_segments doms zs" by blast
  have dis: "subtree doms c \<inter> subtree doms d = {}" if "d \<in> set cs" for d
    using subtree_child_disjoint [OF t c(3,4), of d] Cons.prems that by auto
  have "writes g (preorder_children k g ch (c # cs)) (ys @ zs)"
    unfolding writes_def
  proof (intro allI impI)
    fix acc :: "bb list" assume l: "length acc + length (ys @ zs) \<le> bb_count g"
    then have "ComputeDtPreorder k g ch c acc = Some (acc @ ys)" using ys(1) unfolding writes_def by simp
    moreover have "preorder_children k g ch cs (acc @ ys) = Some ((acc @ ys) @ zs)" using zs(1) l unfolding writes_def by simp
    ultimately show "preorder_children k g ch (c # cs) acc = Some (acc @ ys @ zs)" using c by simp
  qed
  moreover have "distinct (ys @ zs)" using ys(2,3) zs(2,3) dis by auto
  moreover have "set (ys @ zs) = (\<Union>c \<in> set (c # cs). subtree doms c)" using ys(3) zs(3) by simp
  ultimately show ?case using has_segments_append [OF ys(4) zs(4)] by blast
qed

lemma ComputeDtPreorder_writes:
  assumes o: "dfs_order g ids order" and t: "tree_ok g ids doms" and wf: "wf_cfg g"
    and here: "\<And>b. reachable g b \<Longrightarrow> bbVec g ! b"
  shows "doms b \<noteq> None \<Longrightarrow> nat (ids ! b) < k \<Longrightarrow>
    \<exists>ys. writes g (ComputeDtPreorder k g (ComputeDomChildren g doms) b) ys \<and> distinct ys \<and> set ys = subtree doms b \<and>
      has_segments doms ys \<and> ys \<noteq> [] \<and> hd ys = b"
proof (induction k arbitrary: b)
  case (Suc k)
  let ?ch = "ComputeDomChildren g doms"
  have reach: "reachable g x" if "doms x = Some y" for x y using tree_okD(2) [OF t that] .
  have ch: "set (?ch b) = {c. doms c = Some b \<and> c \<noteq> b}"
    using ComputeDomChildren_set(1) [of g doms b] reach here reachable_range [OF _ wf] by blast
  have "c < bb_count g \<and> bbVec g ! c \<and> doms c = Some b \<and> c \<noteq> b \<and>
      (\<exists>ys. writes g (ComputeDtPreorder k g ?ch c) ys \<and> distinct ys \<and> set ys = subtree doms c \<and> has_segments doms ys)"
    if "c \<in> set (?ch b)" for c
  proof -
    have c: "doms c = Some b" "c \<noteq> b" using that ch by blast+
    have "c \<noteq> commonEntryBB g" using c tree_okD(1) [OF t] by auto
    then have "ids ! c < ids ! b" using tree_okD(4) [OF t c(1)] by blast
    then have "nat (ids ! c) < k" using Suc.prems(2) order_facts(1) [OF o reach [OF c(1)]] by linarith
    then show ?thesis using Suc.IH [of c] c that ComputeDomChildren_set(1) [of g doms b] by blast
  qed
  note kid = this
  have "\<exists>ys. writes g (preorder_children k g ?ch (?ch b)) ys \<and> distinct ys \<and>
      set ys = (\<Union>c \<in> set (?ch b). subtree doms c) \<and> has_segments doms ys"
    by (rule preorder_children_writes [OF t kid ComputeDomChildren_set(2)])
  then obtain ys where
    ys: "writes g (preorder_children k g ?ch (?ch b)) ys" "distinct ys" "set ys = (\<Union>c \<in> set (?ch b). subtree doms c)"
    "has_segments doms ys" by (elim exE conjE)
  have sub: "set (b # ys) = subtree doms b" using subtree_children [of doms b] Suc.prems(1) ys(3) ch by simp
  have nb: "b \<notin> subtree doms c" if "doms c = Some b" "c \<noteq> b" for c
    using child_not_above [OF t that] by (simp add: subtree_def)
  then have "distinct (b # ys)" using ys(2,3) ch by auto
  moreover have "writes g (ComputeDtPreorder (Suc k) g ?ch b) (b # ys)"
    unfolding writes_def
  proof (intro allI impI)
    fix acc :: "bb list" assume l: "length acc + length (b # ys) \<le> bb_count g"
    then have "preorder_children k g ?ch (?ch b) (acc @ [b]) = Some ((acc @ [b]) @ ys)" using ys(1) unfolding writes_def by simp
    then show "ComputeDtPreorder (Suc k) g ?ch b acc = Some (acc @ b # ys)" using l by simp
  qed
  ultimately show ?case using sub has_segments_Cons [OF ys(4) sub]
    by (intro exI [of _ "b # ys"] conjI) (simp_all only: list.sel list.distinct not_False_eq_True)
qed simp

lemma ComputeDtDfn_nth:
  assumes "distinct pre" "set pre \<subseteq> {..<bb_count g}" "i < length pre"
  shows "ComputeDtDfn g pre ! (pre ! i) = i"
proof -
  let ?f = "\<lambda>i dtDfn. dtDfn[pre ! i := i]"
  have len: "length (fold ?f xs d) = length d" for xs and d :: "nat list" by (induction xs arbitrary: d) auto
  have "fold ?f [0..<n] (replicate (bb_count g) 4294967295) ! (pre ! i) = i" if "i < n" "n \<le> length pre" for n
    using that
  proof (induction n)
    case (Suc n)
    have lt: "pre ! i < bb_count g" using assms(2,3) nth_mem by blast
    show ?case
    proof (cases "i = n")
      case False
      then have "pre ! i \<noteq> pre ! n" using assms(1,3) Suc.prems by (simp add: nth_eq_iff_index_eq)
      then show ?thesis using Suc False by simp
    qed (use lt len in simp)
  qed simp
  from this [of "length pre"] show ?thesis using assms(3) by (simp add: ComputeDtDfn_def)
qed

lemma dominator_subtree:
  assumes t: "tree_ok g ids doms" and e: "exact g doms"
  shows "subtree doms a = {b. reachable g b \<and> dominates g a b}"
  using tree_okD(2) [OF t] e unfolding subtree_def exact_def by blast

text \<open>
  C17. The preorder of the dominator tree lists every reachable block once, the blocks that \<open>a\<close>
  dominates are a segment of it that begins with \<open>a\<close>, and \<open>dtDfn\<close> gives the position of a block; the
  vector of ids never overflows.
\<close>

theorem ComputeDtPreorder_correct:
  assumes "wf_cfg g" and "\<And>b. reachable g b \<Longrightarrow> bbVec g ! b" and "n = bb_count g"
  shows "\<exists>order doms pre. GenPostOrderID (n + 1) g = Some order \<and>
    ComputeDominance (n * n + 2) (2 * n + 1) g order = Some doms \<and>
    ComputeDtPreorder (n + 1) g (ComputeDomChildren g doms) (commonEntryBB g) [] = Some pre \<and>
    distinct pre \<and> set pre = {b. reachable g b} \<and> (\<forall>i < length pre. ComputeDtDfn g pre ! (pre ! i) = i) \<and>
    (\<forall>a. reachable g a \<longrightarrow> (\<exists>xs as zs. pre = xs @ (a # as) @ zs \<and> set (a # as) = {b. reachable g b \<and> dominates g a b}))"
proof -
  obtain ids order where o: "GenPostOrderID (n + 1) g = Some (ids, order)" "dfs_order g ids order"
    using GenPostOrderID_order [of g "n + 1"] assms by auto
  obtain doms where d: "ComputeDominance (n * n + 2) (2 * n + 1) g (ids, order) = Some doms"
    and t: "tree_ok g ids doms" and e: "exact g doms" using ComputeDominance_exact [OF assms(1) o(2)] assms(3) by fastforce
  let ?e = "commonEntryBB g"
  have "nat (ids ! ?e) < n + 1" using order_facts(2) [OF o(2) reachable.Entry] length_order [OF assms(1) o(2)] assms(3) by linarith
  then obtain pre where pre: "writes g (ComputeDtPreorder (n + 1) g (ComputeDomChildren g doms) ?e) pre" "distinct pre"
    "set pre = subtree doms ?e" "has_segments doms pre"
    using ComputeDtPreorder_writes [OF o(2) t assms(1,2), of ?e "n + 1"] tree_okD(1) [OF t] by auto
  have sub: "subtree doms a = {b. reachable g b \<and> dominates g a b}" for a by (rule dominator_subtree [OF t e])
  have s: "set pre = {b. reachable g b}" using pre(3) sub dominates_entry by simp
  then have range: "set pre \<subseteq> {..<bb_count g}" using reachable_range [OF _ assms(1)] by blast
  then have "length pre \<le> bb_count g" using distinct_card [OF pre(2)] card_mono [of "{..<bb_count g}" "set pre"] by simp
  then have "ComputeDtPreorder (n + 1) g (ComputeDomChildren g doms) ?e [] = Some pre"
    using pre(1) unfolding writes_def by (metis append_Nil list.size(3) plus_nat.add_0)
  moreover have "\<forall>i < length pre. ComputeDtDfn g pre ! (pre ! i) = i" using ComputeDtDfn_nth [OF pre(2) range] by blast
  moreover have "\<exists>xs as zs. pre = xs @ (a # as) @ zs \<and> set (a # as) = {b. reachable g b \<and> dominates g a b}"
    if "reachable g a" for a using pre(4) s that unfolding has_segments_def sub by simp
  ultimately have "distinct pre \<and> set pre = {b. reachable g b} \<and> (\<forall>i < length pre. ComputeDtDfn g pre ! (pre ! i) = i) \<and>
      (\<forall>a. reachable g a \<longrightarrow> (\<exists>xs as zs. pre = xs @ (a # as) @ zs \<and> set (a # as) = {b. reachable g b \<and> dominates g a b}))"
    "ComputeDtPreorder (n + 1) g (ComputeDomChildren g doms) ?e [] = Some pre"
    using pre(2) s by blast+
  then show ?thesis using o(1) d by blast
qed

theorem ComputeDtPreorder_correct_witness:
  "\<exists>order doms pre. GenPostOrderID 8 loop_cfg = Some order \<and> ComputeDominance 51 15 loop_cfg order = Some doms \<and>
    ComputeDtPreorder 8 loop_cfg (ComputeDomChildren loop_cfg doms) 0 [] = Some pre \<and>
    distinct pre \<and> set pre = {b. reachable loop_cfg b} \<and> (\<forall>i < length pre. ComputeDtDfn loop_cfg pre ! (pre ! i) = i) \<and>
    (\<forall>a. reachable loop_cfg a \<longrightarrow>
      (\<exists>xs as zs. pre = xs @ (a # as) @ zs \<and> set (a # as) = {b. reachable loop_cfg b \<and> dominates loop_cfg a b}))"
proof -
  have n: "bb_count loop_cfg = 7" "commonEntryBB loop_cfg = 0" by (simp_all add: loop_cfg_def)
  have "bbVec loop_cfg ! b" if "reachable loop_cfg b" for b
  proof -
    have "b < 7" using reachable_range [OF that loop_cfg_wf] n by simp
    then show ?thesis by (simp add: loop_cfg_def)
  qed
  from ComputeDtPreorder_correct [OF loop_cfg_wf this, of 7] show ?thesis using n by simp
qed

end
