(* ===== verification/PostDom.thy ===== *)
theory PostDom
  imports DomFrontier
begin

text \<open>
  Post dominance in class \<open>Dominance\<close> (maple_me/src/dominance.cpp): the same computations from the
  common exit against the edges, written a second time in the source and here.
\<close>

section \<open>Post order\<close>

fun PdomPostOrderWalk :: "nat \<Rightarrow> cfg \<Rightarrow> bb \<Rightarrow> walk_state \<Rightarrow> walk_state option"
  and pdom_walk_preds :: "nat \<Rightarrow> cfg \<Rightarrow> bb list \<Rightarrow> walk_state \<Rightarrow> walk_state option" where
  "PdomPostOrderWalk 0 g b st = None"
| "PdomPostOrderWalk (Suc k) g b (pid, visitedMap, ids) =
     (if b \<ge> length visitedMap then None
      else if \<not> bbVec g ! b then Some (pid, visitedMap, ids)
      else if visitedMap ! b then Some (pid, visitedMap, ids)
      else do {
        (pid, visitedMap, ids) \<leftarrow> pdom_walk_preds k g (GetPred g b) (pid, visitedMap[b := True], ids);
        Some (pid + 1, visitedMap, ids[b := pid]) })"
| "pdom_walk_preds k g [] st = Some st"
| "pdom_walk_preds k g (pre # ps) st = do { st \<leftarrow> PdomPostOrderWalk k g pre st; pdom_walk_preds k g ps st }"

definition PdomGenPostOrderID :: "nat \<Rightarrow> cfg \<Rightarrow> (int list \<times> bb list) option" where
  "PdomGenPostOrderID k g = do {
     (pid, visitedMap, ids) \<leftarrow> PdomPostOrderWalk k g (commonExitBB g)
       (0, replicate (bb_count g) False, replicate (bb_count g) (- 1));
     Some (ids, fill_order ids (pid - 1)) }"

section \<open>Immediate post dominators\<close>

fun PdomIntersect :: "nat \<Rightarrow> int list \<Rightarrow> doms \<Rightarrow> bb \<Rightarrow> bb \<Rightarrow> bb option" where
  "PdomIntersect 0 ids pdoms b1 b2 = None"
| "PdomIntersect (Suc k) ids pdoms b1 b2 =
     (if b1 = b2 then Some b1
      else if ids ! b1 < ids ! b2 then do { b1 \<leftarrow> pdoms b1; PdomIntersect k ids pdoms b1 b2 }
      else if ids ! b2 < ids ! b1 then do { b2 \<leftarrow> pdoms b2; PdomIntersect k ids pdoms b1 b2 }
      else None)"

fun pdom_first_processed :: "doms \<Rightarrow> bb \<Rightarrow> bb \<Rightarrow> bb list \<Rightarrow> bb \<times> bb list" where
  "pdom_first_processed pdoms b suc [] = (suc, [])"
| "pdom_first_processed pdoms b suc (s # ss) =
     (if pdoms suc = None \<or> suc = b then pdom_first_processed pdoms b s ss else (suc, s # ss))"

fun pdom_meet_processed :: "nat \<Rightarrow> int list \<Rightarrow> doms \<Rightarrow> bb \<Rightarrow> bb list \<Rightarrow> bb \<Rightarrow> bb option" where
  "pdom_meet_processed k ids pdoms b [] newIDom = Some newIDom"
| "pdom_meet_processed k ids pdoms b (s # ss) newIDom =
     (if pdoms s \<noteq> None \<and> s \<noteq> b
      then do { newIDom \<leftarrow> PdomIntersect k ids pdoms s newIDom; pdom_meet_processed k ids pdoms b ss newIDom }
      else pdom_meet_processed k ids pdoms b ss newIDom)"

definition pdom_new_idom :: "nat \<Rightarrow> cfg \<Rightarrow> int list \<Rightarrow> doms \<Rightarrow> bb \<Rightarrow> bb option" where
  "pdom_new_idom k g ids pdoms b =
     (let suc = (if is_exit g b \<or> GetSucc g b = [] then commonExitBB g else hd (GetSucc g b));
          (suc, ss) = pdom_first_processed pdoms b suc (tl (GetSucc g b));
          suc = (if pdoms suc = None then commonExitBB g else suc)
      in pdom_meet_processed k ids pdoms b ss suc)"

fun pdom_round :: "nat \<Rightarrow> cfg \<Rightarrow> int list \<Rightarrow> bb list \<Rightarrow> doms \<times> bool \<Rightarrow> (doms \<times> bool) option" where
  "pdom_round k g ids [] st = Some st"
| "pdom_round k g ids (b # bs) (pdoms, changed) = do {
     newIDom \<leftarrow> pdom_new_idom k g ids pdoms b;
     pdom_round k g ids bs
       (if pdoms b \<noteq> Some newIDom then (pdoms(b \<mapsto> newIDom), True) else (pdoms, changed)) }"

fun pdom_rounds :: "nat \<Rightarrow> nat \<Rightarrow> cfg \<Rightarrow> int list \<Rightarrow> bb list \<Rightarrow> doms \<Rightarrow> doms option" where
  "pdom_rounds 0 k g ids bs pdoms = None"
| "pdom_rounds (Suc n) k g ids bs pdoms = do {
     (pdoms, changed) \<leftarrow> pdom_round k g ids bs (pdoms, False);
     (if changed then pdom_rounds n k g ids bs pdoms else Some pdoms) }"

definition ComputePostDominance :: "nat \<Rightarrow> nat \<Rightarrow> cfg \<Rightarrow> int list \<times> bb list \<Rightarrow> doms option" where
  "ComputePostDominance n k g order =
     pdom_rounds n k g (fst order) (tl (snd order)) (\<lambda>b. if b = commonExitBB g then Some b else None)"

fun pdom_walk :: "nat \<Rightarrow> cfg \<Rightarrow> doms \<Rightarrow> bb \<Rightarrow> bb \<Rightarrow> bool option" where
  "pdom_walk 0 g pdoms b1 b = None"
| "pdom_walk (Suc k) g pdoms b1 b =
     (case pdoms b of
        None \<Rightarrow> Some False
      | Some d \<Rightarrow> if d = b1 then Some True else if d = commonExitBB g then Some False else pdom_walk k g pdoms b1 d)"

definition PostDominate :: "nat \<Rightarrow> cfg \<Rightarrow> doms \<Rightarrow> bb \<Rightarrow> bb \<Rightarrow> bool option" where
  "PostDominate k g pdoms b1 b2 =
     (if b1 = b2 then Some True else if pdoms b2 = None then Some False else pdom_walk k g pdoms b1 b2)"

section \<open>Frontiers\<close>

text \<open>The runner is compared with the common entry, as in the source.\<close>

fun pdom_up_frontier :: "nat \<Rightarrow> cfg \<Rightarrow> doms \<Rightarrow> bb \<Rightarrow> bb option \<Rightarrow> bbsets \<Rightarrow> bbsets option" where
  "pdom_up_frontier 0 g pdoms b runner pf = None"
| "pdom_up_frontier (Suc k) g pdoms b runner pf =
     (if runner = pdoms b \<or> runner = Some (commonEntryBB g) then Some pf
      else do { r \<leftarrow> runner; pdom_up_frontier k g pdoms b (pdoms r) (pf(r := insort_insert b (pf r))) })"

fun pdom_frontier_succs :: "nat \<Rightarrow> cfg \<Rightarrow> doms \<Rightarrow> bb \<Rightarrow> bb list \<Rightarrow> bbsets \<Rightarrow> bbsets option" where
  "pdom_frontier_succs k g pdoms b [] pf = Some pf"
| "pdom_frontier_succs k g pdoms b (suc # ss) pf = do {
     pf \<leftarrow> pdom_up_frontier k g pdoms b (Some suc) pf;
     pdom_frontier_succs k g pdoms b ss pf }"

fun pdom_frontier_blocks :: "nat \<Rightarrow> cfg \<Rightarrow> doms \<Rightarrow> bb list \<Rightarrow> bbsets \<Rightarrow> bbsets option" where
  "pdom_frontier_blocks k g pdoms [] pf = Some pf"
| "pdom_frontier_blocks k g pdoms (b # bs) pf =
     (if \<not> bbVec g ! b \<or> b = commonEntryBB g then pdom_frontier_blocks k g pdoms bs pf
      else if length (GetSucc g b) < 2 then pdom_frontier_blocks k g pdoms bs pf
      else do { pf \<leftarrow> pdom_frontier_succs k g pdoms b (GetSucc g b) pf; pdom_frontier_blocks k g pdoms bs pf })"

definition ComputePdomFrontiers :: "nat \<Rightarrow> cfg \<Rightarrow> doms \<Rightarrow> bbsets option" where
  "ComputePdomFrontiers k g pdoms = pdom_frontier_blocks k g pdoms [0..<bb_count g] (\<lambda>b. [])"

fun GetIterPdomFrontier :: "nat \<Rightarrow> cfg \<Rightarrow> bbsets \<Rightarrow> bbsets \<Rightarrow> bb \<Rightarrow> bb \<Rightarrow> bb list \<times> bool list \<Rightarrow> (bb list \<times> bool list) option"
  and iter_pdom_loop :: "nat \<Rightarrow> cfg \<Rightarrow> bbsets \<Rightarrow> bbsets \<Rightarrow> bb \<Rightarrow> bb list \<Rightarrow> bb list \<times> bool list \<Rightarrow> (bb list \<times> bool list) option"
  where
  "GetIterPdomFrontier 0 g pf it bbidMarker b st = None"
| "GetIterPdomFrontier (Suc k) g pf it bbidMarker b (dfset, visitedMap) =
     (if b \<ge> length visitedMap then None
      else if visitedMap ! b then Some (dfset, visitedMap)
      else iter_pdom_loop k g pf it bbidMarker (pf b) (dfset, visitedMap[b := True]))"
| "iter_pdom_loop k g pf it bbidMarker [] st = Some st"
| "iter_pdom_loop k g pf it bbidMarker (f # fs) (dfset, visitedMap) =
     (let dfset = insort_insert f dfset in
      if f < bbidMarker then iter_pdom_loop k g pf it bbidMarker fs (fold insort_insert (it f) dfset, visitedMap)
      else if f \<ge> bb_count g \<or> \<not> bbVec g ! f then None
      else do {
        st \<leftarrow> GetIterPdomFrontier k g pf it bbidMarker f (dfset, visitedMap);
        iter_pdom_loop k g pf it bbidMarker fs st })"

fun iter_pdom_blocks :: "nat \<Rightarrow> cfg \<Rightarrow> bbsets \<Rightarrow> bb list \<Rightarrow> bbsets \<Rightarrow> bbsets option" where
  "iter_pdom_blocks k g pf [] it = Some it"
| "iter_pdom_blocks k g pf (b # bs) it =
     (if \<not> bbVec g ! b \<or> b = commonEntryBB g then iter_pdom_blocks k g pf bs it
      else do {
        (dfset, visitedMap) \<leftarrow> GetIterPdomFrontier k g pf it b b (it b, replicate (bb_count g) False);
        iter_pdom_blocks k g pf bs (it(b := dfset)) })"

definition ComputeIterPdomFrontiers :: "nat \<Rightarrow> cfg \<Rightarrow> bbsets \<Rightarrow> bbsets option" where
  "ComputeIterPdomFrontiers k g pf = iter_pdom_blocks k g pf [0..<bb_count g] (\<lambda>b. [])"

section \<open>The preorder of the tree\<close>

definition ComputePdomChildren :: "cfg \<Rightarrow> doms \<Rightarrow> bbsets" where
  "ComputePdomChildren g pdoms =
     fold (\<lambda>b children.
         if \<not> bbVec g ! b then children
         else case pdoms b of
           None \<Rightarrow> children
         | Some parent \<Rightarrow> if parent = b then children else children(parent := insort_insert b (children parent)))
       [0..<bb_count g] (\<lambda>b. [])"

fun ComputePdtPreorder :: "nat \<Rightarrow> cfg \<Rightarrow> bbsets \<Rightarrow> bb \<Rightarrow> bb list \<Rightarrow> bb list option"
  and pdom_preorder_children :: "nat \<Rightarrow> cfg \<Rightarrow> bbsets \<Rightarrow> bb list \<Rightarrow> bb list \<Rightarrow> bb list option" where
  "ComputePdtPreorder 0 g children b pdtPreOrder = None"
| "ComputePdtPreorder (Suc n) g children b pdtPreOrder =
     (if length pdtPreOrder < bb_count g then pdom_preorder_children n g children (children b) (pdtPreOrder @ [b]) else None)"
| "pdom_preorder_children n g children [] pdtPreOrder = Some pdtPreOrder"
| "pdom_preorder_children n g children (k # ks) pdtPreOrder =
     (if k \<ge> bb_count g \<or> \<not> bbVec g ! k then None
      else do {
        pdtPreOrder \<leftarrow> ComputePdtPreorder n g children k pdtPreOrder;
        pdom_preorder_children n g children ks pdtPreOrder })"

definition ComputePdtDfn :: "cfg \<Rightarrow> bb list \<Rightarrow> nat list" where
  "ComputePdtDfn g pdtPreOrder =
     fold (\<lambda>i pdtDfn. pdtDfn[pdtPreOrder ! i := i]) [0..<length pdtPreOrder] (replicate (bb_count g) 4294967295)"

end
