(* ===== verification/PostDomSound.thy ===== *)
theory PostDomSound
  imports FrontierSound DomPreorder PostDom
begin

text \<open>
  Post dominance is dominance in the reversed graph: each function of \<open>PostDom\<close> computes what its
  counterpart computes there, so that its correctness is the theorem of the counterpart.
\<close>

section \<open>The reversed graph\<close>

definition rev_cfg :: "cfg \<Rightarrow> cfg" where
  "rev_cfg g = \<lparr>bbVec = bbVec g, GetSucc = GetPred g, GetPred = GetSucc g,
     commonEntryBB = commonExitBB g, commonExitBB = commonEntryBB g, is_exit = CommonEntryBBIsPred g\<rparr>"

lemma rev_cfg_simps [simp]:
  "bbVec (rev_cfg g) = bbVec g" "GetSucc (rev_cfg g) = GetPred g" "GetPred (rev_cfg g) = GetSucc g"
  "commonEntryBB (rev_cfg g) = commonExitBB g" "commonExitBB (rev_cfg g) = commonEntryBB g"
  by (simp_all add: rev_cfg_def)

text \<open>
  The reversed graph is well formed, the blocks with \<open>kBBAttrIsExit\<close> are the predecessors of the common
  exit, and the predecessors of a block exist.
\<close>

definition exits_agree :: "cfg \<Rightarrow> bool" where
  "exits_agree g = (bbVec g ! commonExitBB g \<and>
     (\<forall>b < bb_count g. b \<noteq> commonExitBB g \<longrightarrow> is_exit g b = (b \<in> set (GetPred g (commonExitBB g)))) \<and>
     (\<forall>b < bb_count g. \<forall>p \<in> set (GetPred g b). bbVec g ! p))"

definition wf_exits :: "cfg \<Rightarrow> bool" where
  "wf_exits g = (wf_cfg (rev_cfg g) \<and> exits_agree g)"

lemma wf_exitsD:
  assumes "wf_exits g"
  shows "wf_cfg (rev_cfg g)" "bbVec g ! commonExitBB g"
    "b < bb_count g \<Longrightarrow> b \<noteq> commonExitBB g \<Longrightarrow> is_exit g b = CommonEntryBBIsPred (rev_cfg g) b"
    "b < bb_count g \<Longrightarrow> p \<in> set (GetPred g b) \<Longrightarrow> bbVec g ! p"
  using assms unfolding wf_exits_def exits_agree_def CommonEntryBBIsPred_def by simp_all

section \<open>The functions agree\<close>

lemma PdomPostOrderWalk_rev:
  assumes wf: "wf_exits g"
  shows "length vis = bb_count g \<Longrightarrow> bbVec g ! b \<Longrightarrow>
      PdomPostOrderWalk k g b (pid, vis, ids) = PostOrderWalk k (rev_cfg g) b (pid, vis, ids) \<and>
      (\<forall>pid' vis' ids'. PostOrderWalk k (rev_cfg g) b (pid, vis, ids) = Some (pid', vis', ids') \<longrightarrow> length vis' = length vis)"
    "length vis = bb_count g \<Longrightarrow> \<forall>p \<in> set ps. bbVec g ! p \<Longrightarrow>
      pdom_walk_preds k g ps (pid, vis, ids) = walk_succs k (rev_cfg g) ps (pid, vis, ids) \<and>
      (\<forall>pid' vis' ids'. walk_succs k (rev_cfg g) ps (pid, vis, ids) = Some (pid', vis', ids') \<longrightarrow> length vis' = length vis)"
proof (induction k arbitrary: b ps pid vis ids)
  case 0
  {
    case 1
    show ?case by simp
  next
    case 2
    show ?case by (cases ps) simp_all
  }
next
  case (Suc k)
  have walk: "PdomPostOrderWalk (Suc k) g b (pid, vis, ids) = PostOrderWalk (Suc k) (rev_cfg g) b (pid, vis, ids) \<and>
      (\<forall>pid' vis' ids'. PostOrderWalk (Suc k) (rev_cfg g) b (pid, vis, ids) = Some (pid', vis', ids') \<longrightarrow> length vis' = length vis)"
    if "length vis = bb_count g" "bbVec g ! b" for b pid vis ids
  proof (cases "b < bb_count g")
    case True
    have "\<forall>p \<in> set (GetPred g b). bbVec g ! p" using wf_exitsD(4) [OF wf True] by blast
    then have IH: "pdom_walk_preds k g (GetPred g b) (pid, vis[b := True], ids) =
        walk_succs k (rev_cfg g) (GetPred g b) (pid, vis[b := True], ids)"
      "\<And>pid' vis' ids'. walk_succs k (rev_cfg g) (GetPred g b) (pid, vis[b := True], ids) = Some (pid', vis', ids') \<Longrightarrow>
        length vis' = length vis"
      using Suc.IH(2) [of "vis[b := True]" "GetPred g b" pid ids] that(1) by simp_all
    show ?thesis
    proof (cases "walk_succs k (rev_cfg g) (GetPred g b) (pid, vis[b := True], ids)")
      case None
      then show ?thesis using IH(1) that True by simp
    next
      case (Some st)
      obtain pid1 vis1 ids1 where "st = (pid1, vis1, ids1)" by (cases st)
      then show ?thesis using IH(1) IH(2) [of pid1 vis1 ids1] that True Some by simp
    qed
  qed (use that in simp)
  {
    case 1
    then show ?case by (rule walk)
  next
    case 2
    then show ?case
    proof (induction ps arbitrary: pid vis ids)
      case (Cons p ps)
      have bp: "bbVec g ! p" using Cons.prems(2) by simp
      note w = walk [OF Cons.prems(1) bp, of pid ids]
      show ?case
      proof (cases "PostOrderWalk (Suc k) (rev_cfg g) p (pid, vis, ids)")
        case None
        moreover have "PdomPostOrderWalk (Suc k) g p (pid, vis, ids) = None" unfolding conjunct1 [OF w] None ..
        ultimately show ?thesis by (simp del: PdomPostOrderWalk.simps PostOrderWalk.simps)
      next
        case (Some st)
        obtain pid' vis' ids' where st: "st = (pid', vis', ids')" by (cases st)
        have len: "length vis' = length vis" using conjunct2 [OF w] Some st by blast
        have p: "PdomPostOrderWalk (Suc k) g p (pid, vis, ids) = Some (pid', vis', ids')"
          unfolding conjunct1 [OF w] Some st ..
        have e: "pdom_walk_preds (Suc k) g (p # ps) (pid, vis, ids) = pdom_walk_preds (Suc k) g ps (pid', vis', ids')"
          "walk_succs (Suc k) (rev_cfg g) (p # ps) (pid, vis, ids) = walk_succs (Suc k) (rev_cfg g) ps (pid', vis', ids')"
          unfolding pdom_walk_preds.simps walk_succs.simps p Some st by simp_all
        have l: "length vis' = bb_count g" "\<forall>p \<in> set ps. bbVec g ! p" using Cons.prems len by simp_all
        show ?thesis unfolding e len [symmetric] by (rule Cons.IH [OF l])
      qed
    qed simp
  }
qed

lemma PdomGenPostOrderID_rev: "wf_exits g \<Longrightarrow> PdomGenPostOrderID k g = GenPostOrderID k (rev_cfg g)"
proof -
  assume wf: "wf_exits g"
  have "PdomPostOrderWalk k g (commonExitBB g) (0, replicate (bb_count g) False, replicate (bb_count g) (- 1)) =
      PostOrderWalk k (rev_cfg g) (commonExitBB g) (0, replicate (bb_count g) False, replicate (bb_count g) (- 1))"
    by (rule conjunct1 [OF PdomPostOrderWalk_rev(1) [OF wf _ wf_exitsD(2) [OF wf]]]) simp
  then show ?thesis unfolding PdomGenPostOrderID_def GenPostOrderID_def rev_cfg_simps by (rule arg_cong)
qed

lemma PdomIntersect_eq: "PdomIntersect k ids pdoms = Intersect k ids pdoms"
  by (induction k) (intro ext, simp)+

lemma pdom_first_processed_eq: "pdom_first_processed pdoms b s ss = first_processed pdoms b s ss"
  by (induction ss arbitrary: s) simp_all

lemma pdom_meet_processed_eq: "pdom_meet_processed k ids pdoms b ss = meet_processed k ids pdoms b ss"
  by (induction ss) (intro ext, simp add: PdomIntersect_eq)+

lemma pdom_walk_rev: "pdom_walk k g pdoms a b = dom_walk k (rev_cfg g) pdoms a b"
  by (induction k arbitrary: b) (simp_all split: option.splits)

lemma PostDominate_rev: "PostDominate k g pdoms a b = Dominate k (rev_cfg g) pdoms a b"
  by (simp add: PostDominate_def Dominate_def pdom_walk_rev)

text \<open>
  The two differ where the source falls back to the common exit, which does not happen once a
  successor has been processed.
\<close>

lemma pdom_new_idom_rev:
  assumes wf: "wf_exits g" and o: "dfs_order (rev_cfg g) ids order" and t: "tree_ok (rev_cfg g) ids pdoms"
    and b: "reachable (rev_cfg g) b" "b \<noteq> commonExitBB g"
    and ready: "\<And>u. reachable (rev_cfg g) u \<Longrightarrow> ids ! b < ids ! u \<Longrightarrow> pdoms u \<noteq> None"
  shows "pdom_new_idom k g ids pdoms b = new_idom k (rev_cfg g) ids pdoms b"
proof -
  let ?r = "rev_cfg g"
  note wfr = wf_exitsD(1) [OF wf]
  have "b < bb_count g" using reachable_range [OF b(1) wfr] by simp
  then have x: "is_exit g b = CommonEntryBBIsPred ?r b" by (rule wf_exitsD(3) [OF wf _ b(2)])
  let ?pre = "if CommonEntryBBIsPred ?r b \<or> GetSucc g b = [] then commonExitBB g else hd (GetSucc g b)"
  obtain pre ps where f: "first_processed pdoms b ?pre (tl (GetSucc g b)) = (pre, ps)" by (rule prod.exhaust)
  have "\<exists>q \<in> set (?pre # tl (GetSucc g b)). pdoms q \<noteq> None \<and> q \<noteq> b"
  proof (cases "CommonEntryBBIsPred ?r b \<or> GetSucc g b = []")
    case True
    have "pdoms (commonExitBB g) \<noteq> None" using tree_okD(1) [OF t] by simp
    then show ?thesis using True b(2) by simp
  next
    case False
    obtain u where u: "reachable ?r u" "b \<in> set (GetSucc ?r u)" "ids ! b < ids ! u" using order_facts(4) [OF o b(1)] b(2) by auto
    have du: "pdoms u \<noteq> None" "u \<noteq> b" using ready u(1,3) by auto
    have "u \<in> preds_of ?r b" using u du by (simp add: preds_of_def)
    then have "u \<in> set (GetSucc g b)" using preds_of_GetPred [OF wfr b(1)] False by auto
    then show ?thesis using du False by (cases "GetSucc g b") auto
  qed
  then have "pdoms pre \<noteq> None" using first_processed_split [OF f] by blast
  then show ?thesis
    unfolding pdom_new_idom_def new_idom_def Let_def rev_cfg_simps x pdom_first_processed_eq pdom_meet_processed_eq f prod.case
    by auto
qed

lemma pdom_round_rev:
  assumes wf: "wf_exits g" and o: "dfs_order (rev_cfg g) ids order" and k: "2 * length order < k"
  shows "dom_state (rev_cfg g) ids pdoms X \<Longrightarrow> sorted_wrt (\<lambda>a b. ids ! b < ids ! a) bs \<Longrightarrow>
    (\<And>b. b \<in> set bs \<Longrightarrow> reachable (rev_cfg g) b \<and> b \<noteq> commonExitBB g) \<Longrightarrow>
    (\<And>u. reachable (rev_cfg g) u \<Longrightarrow> pdoms u = None \<Longrightarrow> u \<in> set bs) \<Longrightarrow>
    pdom_round k g ids bs (pdoms, changed) = dom_round k (rev_cfg g) ids bs (pdoms, changed)"
proof (induction bs arbitrary: pdoms X changed)
  case (Cons b bs)
  let ?r = "rev_cfg g"
  have b: "reachable ?r b" "b \<noteq> commonExitBB g" using Cons.prems(3) [of b] by simp_all
  have ready: "pdoms u \<noteq> None" if u: "reachable ?r u" "ids ! b < ids ! u" for u
    by (rule round_ready [OF Cons.prems(2,4) u])
  have t: "tree_ok ?r ids pdoms" using Cons.prems(1) by (simp add: dom_state_def)
  obtain m where m: "new_idom k ?r ids pdoms b = Some m" "dom_state ?r ids (pdoms(b \<mapsto> m)) (set_step ?r b X)"
    using dom_state_upd [OF wf_exitsD(1) [OF wf] o k Cons.prems(1) b(1) _ ready] b(2) by auto
  have s: "sorted_wrt (\<lambda>a b. ids ! b < ids ! a) bs" using Cons.prems(2) unfolding sorted_wrt.simps by blast
  have in_bs: "u \<in> set bs" if "reachable ?r u" "(pdoms(b \<mapsto> m)) u = None" for u
    using Cons.prems(4) [of u] that by (auto split: if_splits)
  have mem: "c \<in> set bs \<Longrightarrow> reachable ?r c \<and> c \<noteq> commonExitBB g" for c using Cons.prems(3) [of c] by simp
  have "pdom_round k g ids bs (pdoms(b \<mapsto> m), c) = dom_round k ?r ids bs (pdoms(b \<mapsto> m), c)" for c
    by (rule Cons.IH [OF m(2) s mem in_bs])
  moreover have "pdom_new_idom k g ids pdoms b = Some m"
    unfolding m(1) [symmetric] by (rule pdom_new_idom_rev [OF wf o t b ready])
  ultimately have "pdom_round k g ids bs (if pdoms b \<noteq> Some m then (pdoms(b \<mapsto> m), True) else (pdoms, changed)) =
      dom_round k ?r ids bs (if pdoms b \<noteq> Some m then (pdoms(b \<mapsto> m), True) else (pdoms, changed))"
    by (cases "pdoms b = Some m") (simp_all add: fun_upd_idem)
  then show ?case using m(1) \<open>pdom_new_idom k g ids pdoms b = Some m\<close> by simp
qed simp

lemma pdom_rounds_rev:
  assumes wf: "wf_exits g" and o: "dfs_order (rev_cfg g) ids order" and k: "2 * length order < k"
  shows "dom_state (rev_cfg g) ids pdoms X \<Longrightarrow>
    pdom_rounds n k g ids (tl order) pdoms = dom_rounds n k (rev_cfg g) ids (tl order) pdoms"
proof (induction n arbitrary: pdoms X)
  case (Suc n)
  let ?r = "rev_cfg g"
  note tl = dom_order_tl [OF o]
  note wfr = wf_exitsD(1) [OF wf]
  have mem: "b \<in> set (tl order) \<Longrightarrow> reachable ?r b \<and> b \<noteq> commonExitBB g" for b using tl(2) by simp
  have e: "pdoms (commonExitBB g) \<noteq> None" using Suc.prems tree_okD(1) by (fastforce simp: dom_state_def)
  have left: "u \<in> set (tl order)" if "reachable ?r u" "pdoms u = None" for u
  proof -
    have "u \<noteq> commonExitBB g" using that(2) e by auto
    then show ?thesis using tl(2) that(1) by simp
  qed
  have eq: "pdom_round k g ids (tl order) (pdoms, False) = dom_round k ?r ids (tl order) (pdoms, False)"
    by (rule pdom_round_rev [OF wf o k Suc.prems tl(1) mem left])
  have mem': "b \<in> set (tl order) \<Longrightarrow> reachable ?r b \<and> b \<noteq> commonEntryBB ?r" for b using mem by simp
  obtain doms' c' where r: "dom_round k ?r ids (tl order) (pdoms, False) = Some (doms', c')"
    "dom_state ?r ids doms' (fold (set_step ?r) (tl order) X)"
    using dom_round_state [OF wfr o k Suc.prems tl(1) mem' left, of False] by blast
  show ?case using Suc.IH [OF r(2)] by (simp add: eq r(1))
qed simp

lemma ComputePostDominance_rev:
  assumes wf: "wf_exits g" and o: "dfs_order (rev_cfg g) ids order" and k: "2 * bb_count g < k"
  shows "ComputePostDominance n k g (ids, order) = ComputeDominance n k (rev_cfg g) (ids, order)"
proof -
  note wfr = wf_exitsD(1) [OF wf]
  obtain X where "dom_state (rev_cfg g) ids (\<lambda>b. if b = commonExitBB g then Some b else None) X"
    using start_state [OF wfr o] by auto
  moreover have "2 * length order < k" using length_order [OF wfr o] k by simp
  ultimately show ?thesis using pdom_rounds_rev [OF wf o] by (simp add: ComputePostDominance_def ComputeDominance_def)
qed

section \<open>Frontiers, closure and preorder\<close>

lemma pdom_up_frontier_rev:
  assumes t: "tree_ok (rev_cfg g) ids pdoms" and wf: "wf_cfg (rev_cfg g)" and b: "pdoms b = Some d"
  shows "pdoms r \<noteq> None \<Longrightarrow> d \<in> ancs pdoms r \<Longrightarrow>
    pdom_up_frontier k g pdoms b (Some r) pf = up_frontier k (rev_cfg g) pdoms b (Some r) pf"
proof (induction k arbitrary: r pf)
  case (Suc k)
  show ?case
  proof (cases "r = d")
    case False
    have "reachable (rev_cfg g) r" using tree_okD(2) [OF t] Suc.prems(1) by blast
    then have "r \<noteq> commonEntryBB g" using reachable_range [OF _ wf] by fastforce
    moreover have "r \<noteq> commonExitBB g" using ancs_entry [OF t] Suc.prems(2) False by auto
    moreover obtain r' where r': "pdoms r = Some r'" using Suc.prems(1) by blast
    moreover have "d \<in> ancs pdoms r'" using ancs_unfold [of pdoms r r', OF r'] Suc.prems(2) False by simp
    ultimately show ?thesis using Suc.IH [of r' "pf(r := insort_insert b (pf r))"] tree_okD(3) [OF t r'] False b
      by (simp del: fun_upd_apply)
  qed (use b in simp)
qed simp

lemma pdom_frontier_succs_rev:
  assumes t: "tree_ok (rev_cfg g) ids pdoms" and wf: "wf_cfg (rev_cfg g)" and b: "pdoms b = Some d"
  shows "(\<And>r. r \<in> set ss \<Longrightarrow> pdoms r \<noteq> None \<and> d \<in> ancs pdoms r) \<Longrightarrow>
    pdom_frontier_succs k g pdoms b ss pf = frontier_preds k (rev_cfg g) pdoms b ss pf"
proof (induction ss arbitrary: pf)
  case (Cons r ss)
  have "pdom_up_frontier k g pdoms b (Some r) pf = up_frontier k (rev_cfg g) pdoms b (Some r) pf"
    using pdom_up_frontier_rev [OF t wf b] Cons.prems by simp
  moreover have "pdom_frontier_succs k g pdoms b ss = frontier_preds k (rev_cfg g) pdoms b ss"
    using Cons by (intro ext) simp
  ultimately show ?case by simp
qed simp

lemma ComputePdomFrontiers_rev:
  assumes wf: "wf_exits g" and pr: "pruned (rev_cfg g)" and t: "tree_ok (rev_cfg g) ids pdoms" and e: "exact (rev_cfg g) pdoms"
  shows "ComputePdomFrontiers k g pdoms = ComputeDomFrontiers k (rev_cfg g) pdoms"
proof -
  let ?r = "rev_cfg g"
  note wfr = wf_exitsD(1) [OF wf]
  have succs: "pdom_frontier_succs k g pdoms b (GetSucc g b) pf = frontier_preds k ?r pdoms b (GetSucc g b) pf"
    if b: "b < bb_count g" "b \<noteq> commonEntryBB g" "2 \<le> length (GetSucc g b)" for b pf
  proof -
    have rb: "reachable ?r b" using prunedD(2) [OF pr, of b] b by simp
    note pred = pred_pruned [OF wfr pr, of b, unfolded rev_cfg_simps, OF b(1,2)]
    obtain q where "q \<in> set (GetSucc g b)" using b(3) by (cases "GetSucc g b") auto
    then have ne: "b \<noteq> commonExitBB g" using pred(3) by blast
    obtain d where d: "pdoms b = Some d" using e rb unfolding exact_def by blast
    have "pdoms r \<noteq> None \<and> d \<in> ancs pdoms r" if r: "r \<in> set (GetSucc g b)" for r
      using edge_idom(1) [OF t e rb d, of r] ne pred(1,2) [OF r] e unfolding exact_def by simp
    then show ?thesis by (rule pdom_frontier_succs_rev [OF t wfr d])
  qed
  have "\<forall>b \<in> set bs. b < bb_count g \<Longrightarrow> pdom_frontier_blocks k g pdoms bs pf = frontier_blocks k ?r pdoms bs pf" for bs pf
  proof (induction bs arbitrary: pf)
    case (Cons b bs)
    have IH: "pdom_frontier_blocks k g pdoms bs pf = frontier_blocks k ?r pdoms bs pf" for pf using Cons by simp
    show ?case
    proof (cases "b = commonEntryBB g \<or> length (GetSucc g b) < 2")
      case True
      then show ?thesis using IH by auto
    next
      case False
      moreover have "pdom_frontier_blocks k g pdoms bs = frontier_blocks k ?r pdoms bs" by (intro ext IH)
      ultimately show ?thesis using succs [of b pf] Cons.prems by simp
    qed
  qed simp
  then show ?thesis by (simp add: ComputePdomFrontiers_def ComputeDomFrontiers_def)
qed

lemma iter_pdom_loop_rev:
  assumes "GetIterPdomFrontier k g pf it m = GetIterDomFrontier k (rev_cfg g) pf it m"
  shows "iter_pdom_loop k g pf it m fs = iter_frontier_loop k (rev_cfg g) pf it m fs"
proof (induction fs)
  case (Cons f fs)
  show ?case
  proof
    fix st :: "bb list \<times> bool list"
    show "iter_pdom_loop k g pf it m (f # fs) st = iter_frontier_loop k (rev_cfg g) pf it m (f # fs) st"
      by (cases st) (simp add: Cons assms Let_def)
  qed
qed (intro ext, simp)

lemma GetIterPdomFrontier_rev: "GetIterPdomFrontier k g pf it m = GetIterDomFrontier k (rev_cfg g) pf it m"
proof (induction k)
  case (Suc k)
  show ?case
  proof (intro ext)
    fix b and st :: "bb list \<times> bool list"
    show "GetIterPdomFrontier (Suc k) g pf it m b st = GetIterDomFrontier (Suc k) (rev_cfg g) pf it m b st"
      by (cases st) (simp add: iter_pdom_loop_rev [OF Suc])
  qed
qed (intro ext, simp)

lemma ComputeIterPdomFrontiers_rev: "ComputeIterPdomFrontiers k g pf = ComputeIterDomFrontiers k (rev_cfg g) pf"
proof -
  have "iter_pdom_blocks k g pf bs = iter_frontier_blocks k (rev_cfg g) pf bs" for bs
    by (induction bs) (intro ext, simp add: GetIterPdomFrontier_rev)+
  then show ?thesis by (simp add: ComputeIterPdomFrontiers_def ComputeIterDomFrontiers_def)
qed

lemma pdom_preorder_children_rev:
  assumes "ComputePdtPreorder k g ch = ComputeDtPreorder k (rev_cfg g) ch"
  shows "pdom_preorder_children k g ch cs = preorder_children k (rev_cfg g) ch cs"
  by (induction cs) (intro ext, simp add: assms)+

lemma ComputePdtPreorder_rev: "ComputePdtPreorder k g ch = ComputeDtPreorder k (rev_cfg g) ch"
  by (induction k) (intro ext, simp add: pdom_preorder_children_rev)+

lemma pdt_rev: "ComputePdomChildren g pdoms = ComputeDomChildren (rev_cfg g) pdoms" "ComputePdtDfn g = ComputeDtDfn (rev_cfg g)"
  by (simp_all add: ComputePdomChildren_def ComputeDomChildren_def ComputePdtDfn_def ComputeDtDfn_def fun_eq_iff)

section \<open>The theorems\<close>

text \<open>Paths to the common exit, along the lists of predecessors.\<close>

inductive exit_path :: "cfg \<Rightarrow> bb list \<Rightarrow> bb \<Rightarrow> bool" for g where
  Exit: "exit_path g [commonExitBB g] (commonExitBB g)"
| Step: "exit_path g p v \<Longrightarrow> u \<in> set (GetPred g v) \<Longrightarrow> exit_path g (u # p) u"

definition postdominates :: "cfg \<Rightarrow> bb \<Rightarrow> bb \<Rightarrow> bool" where
  "postdominates g a b = (\<forall>p. exit_path g p b \<longrightarrow> a \<in> set p)"

definition reaches_exit :: "cfg \<Rightarrow> bb \<Rightarrow> bool" where
  "reaches_exit g b = (\<exists>p. exit_path g p b)"

lemma exit_path_rev: "exit_path g p b \<longleftrightarrow> cfg_path (rev_cfg g) (rev p) b"
proof
  show "exit_path g p b \<Longrightarrow> cfg_path (rev_cfg g) (rev p) b"
  proof (induction rule: exit_path.induct)
    case Exit
    then show ?case using cfg_path.Start [of "rev_cfg g"] by simp
  next
    case (Step p v u)
    then show ?case using cfg_path.Step [of "rev_cfg g" "rev p" v u] by simp
  qed
  have "cfg_path (rev_cfg g) q b \<Longrightarrow> exit_path g (rev q) b" for q
  proof (induction rule: cfg_path.induct)
    case Start
    then show ?case using exit_path.Exit [of g] by simp
  next
    case (Step p u v)
    then show ?case using exit_path.Step [of g "rev p" u v] by simp
  qed
  from this [of "rev p"] show "cfg_path (rev_cfg g) (rev p) b \<Longrightarrow> exit_path g p b" by simp
qed

lemma postdominates_rev: "postdominates g a b = dominates (rev_cfg g) a b"
proof
  show "dominates (rev_cfg g) a b \<Longrightarrow> postdominates g a b"
    unfolding postdominates_def dominates_def exit_path_rev by fastforce
  assume p: "postdominates g a b"
  have "a \<in> set q" if "cfg_path (rev_cfg g) q b" for q
    using p that unfolding postdominates_def exit_path_rev by (metis rev_rev_ident set_rev)
  then show "dominates (rev_cfg g) a b" by (simp add: dominates_def)
qed

lemma reaches_exit_rev: "reaches_exit g b = reachable (rev_cfg g) b"
  unfolding reaches_exit_def exit_path_rev using reachable_path path_reachable by (metis rev_rev_ident)

lemma ComputePostDominance_answers:
  assumes "wf_exits g" and "n = bb_count g"
  shows "\<exists>order pdoms. PdomGenPostOrderID (n + 1) g = Some order \<and>
    ComputePostDominance (n * n + 2) (2 * n + 1) g order = Some pdoms \<and>
    (\<forall>a b. PostDominate (n + 1) g pdoms a b = Some (if reaches_exit g b then postdominates g a b else a = b))"
proof -
  let ?r = "rev_cfg g"
  note wfr = wf_exitsD(1) [OF assms(1)]
  obtain ids order where o: "GenPostOrderID (n + 1) ?r = Some (ids, order)" "dfs_order ?r ids order"
    using GenPostOrderID_order [OF wfr, of "n + 1"] assms(2) by auto
  obtain pdoms where d: "ComputeDominance (n * n + 2) (2 * n + 1) ?r (ids, order) = Some pdoms"
    and t: "tree_ok ?r ids pdoms" and e: "exact ?r pdoms"
    using ComputeDominance_exact [OF wfr o(2), of "2 * n + 1" "n * n + 2"] assms(2) by auto
  have "length order < n + 1" using length_order [OF wfr o(2)] assms(2) by simp
  then have "PostDominate (n + 1) g pdoms a b = Some (if reaches_exit g b then postdominates g a b else a = b)" for a b
    unfolding PostDominate_rev reaches_exit_rev postdominates_rev by (rule Dominate_exact [OF o(2) t e])
  moreover have "ComputePostDominance (n * n + 2) (2 * n + 1) g (ids, order) = Some pdoms"
    using ComputePostDominance_rev [OF assms(1) o(2), of "2 * n + 1" "n * n + 2"] assms(2) d by simp
  moreover have "PdomGenPostOrderID (n + 1) g = Some (ids, order)" using PdomGenPostOrderID_rev [OF assms(1)] o(1) by simp
  ultimately show ?thesis by blast
qed

text \<open>
  C18. Post dominance: when the edges and the exits agree, \<open>ComputePostDominance\<close> reaches its fixed
  point within the same bounds and \<open>PostDominate\<close> answers for every block \<open>b\<close> from which the common exit
  can be reached whether every path from \<open>b\<close> to the common exit goes through \<open>a\<close>. The fallback to the
  common exit that only this copy of the algorithm has is never taken.
\<close>

theorem ComputePostDominance_correct:
  assumes "wf_exits g" and "n = bb_count g"
  shows "\<exists>order pdoms. PdomGenPostOrderID (n + 1) g = Some order \<and>
    ComputePostDominance (n * n + 2) (2 * n + 1) g order = Some pdoms \<and>
    (\<forall>a b. PostDominate (n + 1) g pdoms a b = Some (if reaches_exit g b then postdominates g a b else a = b))"
  using assms by (rule ComputePostDominance_answers)

definition rev_loop_cfg :: cfg where
  "rev_loop_cfg = \<lparr>bbVec = replicate 7 True,
     GetSucc = (\<lambda>b. [[], [6], [5], [2], [2], [3, 4], [5]] ! b),
     GetPred = (\<lambda>b. [[2], [], [3, 4], [5], [5], [2, 6], []] ! b),
     commonEntryBB = 1, commonExitBB = 0, is_exit = (\<lambda>b. b = 2)\<rparr>"

lemma rev_loop_cfg: "rev_cfg loop_cfg = rev_loop_cfg"
  by (simp add: rev_cfg_def rev_loop_cfg_def loop_cfg_def CommonEntryBBIsPred_def fun_eq_iff)

lemma loop_cfg_exits: "wf_exits loop_cfg"
proof -
  have "wf_cfg rev_loop_cfg" by code_simp
  moreover have "exits_agree loop_cfg" unfolding exits_agree_def
  proof (intro conjI allI impI ballI)
    fix b p assume "b < bb_count loop_cfg" "p \<in> set (GetPred loop_cfg b)"
    then have "p < 7" using wf_cfgD(2) [of rev_loop_cfg b p] \<open>wf_cfg rev_loop_cfg\<close>
      by (simp add: rev_loop_cfg [symmetric]) (simp add: loop_cfg_def)
    then show "bbVec loop_cfg ! p" by (simp add: loop_cfg_def)
  qed (simp_all add: loop_cfg_def)
  ultimately show ?thesis unfolding wf_exits_def rev_loop_cfg by blast
qed

theorem ComputePostDominance_correct_witness:
  "\<exists>order pdoms. PdomGenPostOrderID 8 loop_cfg = Some order \<and> ComputePostDominance 51 15 loop_cfg order = Some pdoms \<and>
    (\<forall>a b. PostDominate 8 loop_cfg pdoms a b =
       Some (if reaches_exit loop_cfg b then postdominates loop_cfg a b else a = b))"
  using ComputePostDominance_correct [OF loop_cfg_exits, of 7] by (simp add: loop_cfg_def)

text \<open>
  C33. The frontiers, their closure and the preorder of the post dominator tree are the ones of the
  reversed graph, although \<open>ComputePdomFrontiers\<close> still compares its runner with the common entry where
  the reversal would have the common exit.
\<close>

theorem pdom_reversed:
  assumes "wf_exits g" and "pruned (rev_cfg g)" and "n = bb_count g"
  shows "\<exists>order pdoms pf. PdomGenPostOrderID (n + 1) g = Some order \<and>
    ComputePostDominance (n * n + 2) (2 * n + 1) g order = Some pdoms \<and> ComputePdomFrontiers (n + 1) g pdoms = Some pf \<and>
    (\<forall>a b. b \<in> set (pf a) \<longleftrightarrow> in_frontier (rev_cfg g) a b \<and> \<not> (b \<in> set (GetPred g (commonExitBB g)) \<and> length (GetSucc g b) < 2)) \<and>
    ComputeIterPdomFrontiers (n + 1) g pf = ComputeIterDomFrontiers (n + 1) (rev_cfg g) pf \<and>
    ComputePdtPreorder (n + 1) g (ComputePdomChildren g pdoms) (commonExitBB g) [] =
      ComputeDtPreorder (n + 1) (rev_cfg g) (ComputeDomChildren (rev_cfg g) pdoms) (commonEntryBB (rev_cfg g)) [] \<and>
    ComputePdtDfn g = ComputeDtDfn (rev_cfg g)"
proof -
  let ?r = "rev_cfg g"
  note wfr = wf_exitsD(1) [OF assms(1)]
  obtain ids order where o: "GenPostOrderID (n + 1) ?r = Some (ids, order)" "dfs_order ?r ids order"
    using GenPostOrderID_order [OF wfr, of "n + 1"] assms(3) by auto
  obtain pdoms where d: "ComputeDominance (n * n + 2) (2 * n + 1) ?r (ids, order) = Some pdoms"
    and t: "tree_ok ?r ids pdoms" and e: "exact ?r pdoms"
    using ComputeDominance_exact [OF wfr o(2), of "2 * n + 1" "n * n + 2"] assms(3) by auto
  have "length order < n + 1" using length_order [OF wfr o(2)] assms(3) by simp
  then obtain pf where pf: "ComputeDomFrontiers (n + 1) ?r pdoms = Some pf"
    "\<forall>a b. b \<in> set (pf a) \<longleftrightarrow> in_frontier ?r a b \<and> \<not> (CommonEntryBBIsPred ?r b \<and> length (GetPred ?r b) < 2)"
    using ComputeDomFrontiers_sets [OF wfr assms(2) o(2) t e] by blast
  have "ComputePostDominance (n * n + 2) (2 * n + 1) g (ids, order) = Some pdoms"
    using ComputePostDominance_rev [OF assms(1) o(2), of "2 * n + 1" "n * n + 2"] assms(3) d by simp
  moreover have "PdomGenPostOrderID (n + 1) g = Some (ids, order)" using PdomGenPostOrderID_rev [OF assms(1)] o(1) by simp
  moreover have "ComputePdomFrontiers (n + 1) g pdoms = Some pf" using ComputePdomFrontiers_rev [OF assms(1,2) t e] pf(1) by simp
  ultimately show ?thesis using pf(2)
    by (intro exI [of _ "(ids, order)"] exI [of _ pdoms] exI [of _ pf])
      (simp add: CommonEntryBBIsPred_def ComputeIterPdomFrontiers_rev ComputePdtPreorder_rev pdt_rev)
qed

lemma loop_cfg_rev_pruned: "pruned (rev_cfg loop_cfg)"
proof -
  let ?r = "rev_cfg loop_cfg"
  have 1: "reachable ?r 1" using reachable.Entry [of ?r] by (simp add: loop_cfg_def)
  have 6: "reachable ?r 6" by (rule reachable.Edge [OF 1]) (simp add: loop_cfg_def)
  have 5: "reachable ?r 5" by (rule reachable.Edge [OF 6]) (simp add: loop_cfg_def)
  have 3: "reachable ?r 3" by (rule reachable.Edge [OF 5]) (simp add: loop_cfg_def)
  have 4: "reachable ?r 4" by (rule reachable.Edge [OF 5]) (simp add: loop_cfg_def)
  have 2: "reachable ?r 2" by (rule reachable.Edge [OF 3]) (simp add: loop_cfg_def)
  have "reachable ?r b" if "b < 7" "b \<noteq> 0" for b
  proof -
    have "b \<in> {1, 2, 3, 4, 5, 6}" using that by auto
    then show ?thesis using 1 2 3 4 5 6 by auto
  qed
  moreover have n: "bb_count ?r = 7" "commonExitBB ?r = 0" "GetSucc ?r 0 = []" by (simp_all add: loop_cfg_def)
  moreover have "bbVec ?r ! b" if "b < 7" for b using that by (simp add: loop_cfg_def)
  ultimately show ?thesis unfolding pruned_def by auto
qed

theorem pdom_reversed_witness:
  "\<exists>order pdoms pf. PdomGenPostOrderID 8 loop_cfg = Some order \<and> ComputePostDominance 51 15 loop_cfg order = Some pdoms \<and>
    ComputePdomFrontiers 8 loop_cfg pdoms = Some pf \<and>
    (\<forall>a b. b \<in> set (pf a) \<longleftrightarrow> in_frontier (rev_cfg loop_cfg) a b \<and> \<not> (b = 6 \<and> length (GetSucc loop_cfg b) < 2))"
proof -
  have n: "bb_count loop_cfg = 7" "commonExitBB loop_cfg = 1" "GetPred loop_cfg 1 = [6]" by (simp_all add: loop_cfg_def)
  show ?thesis using pdom_reversed [OF loop_cfg_exits loop_cfg_rev_pruned, of 7] n by auto
qed

end
