(* ===== verification/DomAnalysis.thy ===== *)
theory DomAnalysis
  imports PostDomSound
begin

text \<open>
  The contract that the two analyses of class \<open>Dominance\<close> share, and what the passes that ask them
  rely on: the answers are an order in which the dominators of a block form a chain.
\<close>

section \<open>Tree orders\<close>

definition tree_order :: "(bb \<Rightarrow> bb \<Rightarrow> bool) \<Rightarrow> bool" where
  "tree_order le = ((\<forall>a. le a a) \<and> (\<forall>a b c. le a b \<longrightarrow> le b c \<longrightarrow> le a c) \<and> (\<forall>a b. le a b \<longrightarrow> le b a \<longrightarrow> a = b) \<and>
     (\<forall>a b c. le a c \<longrightarrow> le b c \<longrightarrow> le a b \<or> le b a))"

section \<open>The contract\<close>

locale dominance_analysis =
  fixes good :: "cfg \<Rightarrow> bool"
    and order :: "nat \<Rightarrow> cfg \<Rightarrow> (int list \<times> bb list) option"
    and compute :: "nat \<Rightarrow> nat \<Rightarrow> cfg \<Rightarrow> int list \<times> bb list \<Rightarrow> doms option"
    and query :: "nat \<Rightarrow> cfg \<Rightarrow> doms \<Rightarrow> bb \<Rightarrow> bb \<Rightarrow> bool option"
    and reach :: "cfg \<Rightarrow> bb \<Rightarrow> bool"
    and rel :: "cfg \<Rightarrow> bb \<Rightarrow> bb \<Rightarrow> bool"
  assumes answers: "good g \<Longrightarrow> n = bb_count g \<Longrightarrow> \<exists>ord doms. order (n + 1) g = Some ord \<and>
      compute (n * n + 2) (2 * n + 1) g ord = Some doms \<and>
      (\<forall>a b. query (n + 1) g doms a b = Some (if reach g b then rel g a b else a = b))"
    and rel_refl: "rel g a a"
    and rel_trans: "good g \<Longrightarrow> reach g c \<Longrightarrow> rel g a b \<Longrightarrow> rel g b c \<Longrightarrow> rel g a c"
    and rel_antisym: "good g \<Longrightarrow> reach g b \<Longrightarrow> rel g a b \<Longrightarrow> rel g b a \<Longrightarrow> a = b"
    and rel_chain: "good g \<Longrightarrow> reach g c \<Longrightarrow> rel g a c \<Longrightarrow> rel g b c \<Longrightarrow> rel g a b \<or> rel g b a"
    and rel_reach: "good g \<Longrightarrow> reach g b \<Longrightarrow> rel g a b \<Longrightarrow> reach g a"
begin

lemma answers_tree_order:
  assumes g: "good g"
    and q: "\<And>a b. query k g doms a b = Some (if reach g b then rel g a b else a = b)"
  shows "tree_order (\<lambda>a b. query k g doms a b = Some True)"
  unfolding tree_order_def q option.inject
proof (intro conjI allI impI)
  let ?le = "\<lambda>a b. (if reach g b then rel g a b else a = b) = True"
  show "?le a a" for a using rel_refl by simp
  show "?le a c" if "?le a b" "?le b c" for a b c
  proof (cases "reach g c")
    case True
    then have "rel g b c" using that(2) by simp
    moreover from this have "rel g a b" using rel_reach [OF g True] that(1) by simp
    ultimately show ?thesis using True rel_trans [OF g True] by simp
  qed (use that in simp)
  show "a = b" if "?le a b" "?le b a" for a b
  proof (cases "reach g b")
    case True
    then have "rel g a b" using that(1) by simp
    moreover from this have "rel g b a" using rel_reach [OF g True] that(2) by simp
    ultimately show ?thesis by (rule rel_antisym [OF g True])
  qed (use that in simp)
  show "?le a b \<or> ?le b a" if "?le a c" "?le b c" for a b c
  proof (cases "reach g c")
    case True
    then have "rel g a c" "rel g b c" using that by simp_all
    then show ?thesis using rel_chain [OF g True, of a b] rel_reach [OF g True] by auto
  qed (use that rel_refl in simp)
qed

lemma computes_tree_order:
  assumes "good g" "n = bb_count g"
  shows "\<exists>ord doms. order (n + 1) g = Some ord \<and> compute (n * n + 2) (2 * n + 1) g ord = Some doms \<and>
    tree_order (\<lambda>a b. query (n + 1) g doms a b = Some True)"
  using answers [OF assms] answers_tree_order [OF assms(1)] by metis

end

section \<open>Both analyses keep it\<close>

lemma dominance_tree:
  assumes wf: "wf_cfg g"
  shows "\<exists>ids doms. tree_ok g ids doms \<and> exact g doms"
proof -
  obtain ids order where "dfs_order g ids order" using GenPostOrderID_order [OF wf, of "bb_count g + 1"] by auto
  from ComputeDominance_exact [OF wf this, of "2 * bb_count g + 1" "bb_count g * bb_count g + 2"]
  show ?thesis by auto
qed

lemma dominates_order:
  assumes wf: "wf_cfg g" and c: "reachable g c"
  shows "dominates g a c \<Longrightarrow> reachable g a"
    "dominates g a b \<Longrightarrow> dominates g b c \<Longrightarrow> dominates g a c"
    "dominates g a c \<Longrightarrow> dominates g c a \<Longrightarrow> a = c"
    "dominates g a c \<Longrightarrow> dominates g b c \<Longrightarrow> dominates g a b \<or> dominates g b a"
proof -
  obtain ids doms where t: "tree_ok g ids doms" and e: "exact g doms" using dominance_tree [OF wf] by blast
  have d: "dominates g x y \<longleftrightarrow> x \<in> ancs doms y" "doms y \<noteq> None" if "reachable g y" for x y
    using e that unfolding exact_def by blast+
  have r: "reachable g x" if "dominates g x c" for x using ancs_reachable [OF t d(2) [OF c]] d(1) [OF c] that by blast
  then show "dominates g a c \<Longrightarrow> reachable g a" .
  show "dominates g a b \<Longrightarrow> dominates g b c \<Longrightarrow> dominates g a c"
    using d(1) [OF r, of b a] d(1) [OF c] ancs_trans by blast
  show "dominates g a c \<Longrightarrow> dominates g c a \<Longrightarrow> a = c"
    using d(1) [OF r, of a c] d(1) [OF c] ancs_antisym [OF t d(2) [OF c]] by blast
  show "dominates g a c \<Longrightarrow> dominates g b c \<Longrightarrow> dominates g a b \<or> dominates g b a"
    using d(1) [OF r] d(1) [OF c] ancs_chain by blast
qed

interpretation dominators: dominance_analysis wf_cfg GenPostOrderID ComputeDominance Dominate reachable dominates
proof
  show "\<exists>ord doms. GenPostOrderID (n + 1) g = Some ord \<and> ComputeDominance (n * n + 2) (2 * n + 1) g ord = Some doms \<and>
      (\<forall>a b. Dominate (n + 1) g doms a b = Some (if reachable g b then dominates g a b else a = b))"
    if "wf_cfg g" "n = bb_count g" for g n using that by (rule ComputeDominance_answers)
qed (simp, (erule (1) dominates_order, assumption+)+)

interpretation postdominators:
  dominance_analysis wf_exits PdomGenPostOrderID ComputePostDominance PostDominate reaches_exit postdominates
proof
  show "\<exists>ord pdoms. PdomGenPostOrderID (n + 1) g = Some ord \<and> ComputePostDominance (n * n + 2) (2 * n + 1) g ord = Some pdoms \<and>
      (\<forall>a b. PostDominate (n + 1) g pdoms a b = Some (if reaches_exit g b then postdominates g a b else a = b))"
    if "wf_exits g" "n = bb_count g" for g n using that by (rule ComputePostDominance_answers)
qed (simp_all add: postdominates_rev reaches_exit_rev, (drule wf_exitsD(1), erule (1) dominates_order, assumption+)+)

text \<open>
  C20. The answers of \<open>Dominate\<close>, and those of \<open>PostDominate\<close>, are an order on the blocks of a function in
  which the blocks above a given one form a chain, as the passes that walk the trees assume.
\<close>

theorem dominance_orders:
  assumes "wf_cfg g" and "wf_exits g" and "n = bb_count g"
  shows "(\<exists>ord doms. GenPostOrderID (n + 1) g = Some ord \<and> ComputeDominance (n * n + 2) (2 * n + 1) g ord = Some doms \<and>
      tree_order (\<lambda>a b. Dominate (n + 1) g doms a b = Some True)) \<and>
    (\<exists>ord pdoms. PdomGenPostOrderID (n + 1) g = Some ord \<and> ComputePostDominance (n * n + 2) (2 * n + 1) g ord = Some pdoms \<and>
      tree_order (\<lambda>a b. PostDominate (n + 1) g pdoms a b = Some True))"
  using dominators.computes_tree_order [OF assms(1,3)] postdominators.computes_tree_order [OF assms(2,3)] by blast

theorem dominance_orders_witness:
  "\<exists>ord doms. GenPostOrderID 8 loop_cfg = Some ord \<and> ComputeDominance 51 15 loop_cfg ord = Some doms \<and>
     tree_order (\<lambda>a b. Dominate 8 loop_cfg doms a b = Some True)"
  using dominance_orders [OF loop_cfg_wf loop_cfg_exits, of 7] by (simp add: loop_cfg_def)

end
