(* ===== verification/DomPhase.thy ===== *)
theory DomPhase
  imports DomFrontier PostDom
begin

text \<open>
  The phase \<open>MEDominance\<close> (maple_me/src/me_dominance.cpp): every computation of class \<open>Dominance\<close>, in the
  order of \<open>PhaseRun\<close>, with the fuel that is enough for a graph of that many blocks.
\<close>

record dominance =
  dom_order :: "int list \<times> bb list"
  dom_doms :: doms
  dom_frontier :: bbsets
  dom_children :: bbsets
  iter_dom_frontier :: bbsets
  dt_preorder :: "bb list"
  dt_dfn :: "nat list"
  pdom_order :: "int list \<times> bb list"
  pdom_doms :: doms
  pdom_frontier :: bbsets
  pdom_children :: bbsets
  iter_pdom_frontier :: bbsets
  pdt_preorder :: "bb list"
  pdt_dfn :: "nat list"

definition MEDominance :: "cfg \<Rightarrow> dominance option" where
  "MEDominance g = (let n = bb_count g; k = n + 1 in do {
     order \<leftarrow> GenPostOrderID k g;
     doms \<leftarrow> ComputeDominance (n * n + 2) (2 * n + 1) g order;
     domFrontier \<leftarrow> ComputeDomFrontiers k g doms;
     let domChildren = ComputeDomChildren g doms;
     iterDomFrontier \<leftarrow> ComputeIterDomFrontiers k g domFrontier;
     dtPreOrder \<leftarrow> ComputeDtPreorder k g domChildren (commonEntryBB g) [];
     let dtDfn = ComputeDtDfn g dtPreOrder;
     pdomOrder \<leftarrow> PdomGenPostOrderID k g;
     pdoms \<leftarrow> ComputePostDominance (n * n + 2) (2 * n + 1) g pdomOrder;
     pdomFrontier \<leftarrow> ComputePdomFrontiers k g pdoms;
     let pdomChildren = ComputePdomChildren g pdoms;
     iterPdomFrontier \<leftarrow> ComputeIterPdomFrontiers k g pdomFrontier;
     pdtPreOrder \<leftarrow> ComputePdtPreorder k g pdomChildren (commonExitBB g) [];
     let pdtDfn = ComputePdtDfn g pdtPreOrder;
     Some \<lparr>dom_order = order, dom_doms = doms, dom_frontier = domFrontier, dom_children = domChildren,
       iter_dom_frontier = iterDomFrontier, dt_preorder = dtPreOrder, dt_dfn = dtDfn,
       pdom_order = pdomOrder, pdom_doms = pdoms, pdom_frontier = pdomFrontier, pdom_children = pdomChildren,
       iter_pdom_frontier = iterPdomFrontier, pdt_preorder = pdtPreOrder, pdt_dfn = pdtDfn\<rparr> })"

end
