(* ===== verification/LoopAnalysis.thy ===== *)
theory LoopAnalysis
  imports DomPhase
begin

text \<open>
  Loops: class \<open>IdentifyLoops\<close> and the phase \<open>MELoopAnalysis\<close> (maple_me/src/me_loop_analysis.cpp and
  maple_me/include/me_loop_analysis.h), a client of the dominator trees. A \<open>LoopDesc\<close> is its index in
  \<open>meLoops\<close>. \<open>None\<close> is as in \<open>Dominance\<close>, and a \<open>CHECK_FATAL\<close> or \<open>ASSERT\<close> that fails; the two loops over a work list have
  no fuel, a run that does not end is \<open>None\<close>.
\<close>

datatype bb_kind =
  kBBUnknown | kBBCondGoto | kBBGoto | kBBFallthru | kBBReturn | kBBAfterGosub | kBBSwitch | kBBIgoto | kBBInvalid

text \<open>What the analysis reads of the blocks beside the graph.\<close>

record bb_info =
  GetKind :: "bb \<Rightarrow> bb_kind"
  ends_in_return :: "bb \<Rightarrow> bool"  \<comment> \<open>there are statements, and \<open>GetLast\<close> is an \<open>OP_return\<close>\<close>
  attr_IsTry :: "bb \<Rightarrow> bool"
  attr_WontExit :: "bb \<Rightarrow> bool"
  GetBBLabel :: "bb \<Rightarrow> nat"
  AddrTakenLabels :: "nat \<Rightarrow> bool"

record loop_desc =
  lhead :: bb
  ltail :: bb
  preheader :: "bb option"
  latch :: "bb option"
  exitBB :: "bb option"
  inloopBB2exitBBs :: "bb \<Rightarrow> bb list option"
  loopBBs :: "bb list"
  lparent :: "nat option"
  nestDepth :: nat
  hasTryBB :: bool
  hasIgotoBB :: bool
  isCanonicalLoop :: bool

definition LoopDesc :: "bb \<Rightarrow> bb \<Rightarrow> loop_desc" where
  "LoopDesc headBB tailBB = \<lparr>lhead = headBB, ltail = tailBB, preheader = None, latch = None, exitBB = None,
     inloopBB2exitBBs = (\<lambda>_. None), loopBBs = [], lparent = None, nestDepth = 0, hasTryBB = False,
     hasIgotoBB = False, isCanonicalLoop = False\<rparr>"

definition Has :: "loop_desc \<Rightarrow> bb \<Rightarrow> bool" where
  "Has loop b = (b \<in> set (loopBBs loop))"

definition InsertInloopBB2exitBBs :: "bb \<Rightarrow> bb \<Rightarrow> loop_desc \<Rightarrow> loop_desc" where
  "InsertInloopBB2exitBBs key v loop =
     loop\<lparr>inloopBB2exitBBs := (inloopBB2exitBBs loop)(key \<mapsto>
       (case inloopBB2exitBBs loop key of None \<Rightarrow> [v] | Some vs \<Rightarrow> if v \<in> set vs then vs else vs @ [v]))\<rparr>"

text \<open>The first \<open>oldValue\<close> is replaced, and there must not be another one.\<close>

definition ReplaceInloopBB2exitBBs :: "bb \<Rightarrow> bb \<Rightarrow> bb \<Rightarrow> loop_desc \<Rightarrow> loop_desc option" where
  "ReplaceInloopBB2exitBBs key oldValue v loop = do {
     vs \<leftarrow> inloopBB2exitBBs loop key;
     if oldValue \<notin> set vs then None
     else let vs = takeWhile (\<lambda>b. b \<noteq> oldValue) vs @ v # tl (dropWhile (\<lambda>b. b \<noteq> oldValue) vs) in
       if oldValue \<in> set vs then None else Some (loop\<lparr>inloopBB2exitBBs := (inloopBB2exitBBs loop)(key \<mapsto> vs)\<rparr>) }"

definition IsNormalizationLoop :: "nat \<Rightarrow> loop_desc \<Rightarrow> bool" where
  "IsNormalizationLoop n loop = (\<not> hasTryBB loop \<and> \<not> hasIgotoBB loop \<and> preheader loop \<noteq> None \<and>
     (\<exists>b \<in> set [0..<n]. inloopBB2exitBBs loop b \<noteq> None))"

section \<open>The loops\<close>

text \<open>\<open>meLoops\<close> and \<open>bbLoopParent\<close>.\<close>

type_synonym loop_state = "loop_desc list \<times> (bb \<Rightarrow> nat option)"

definition CreateLoopDesc :: "bb \<Rightarrow> bb \<Rightarrow> loop_state \<Rightarrow> loop_state" where
  "CreateLoopDesc head tail st = (fst st @ [LoopDesc head tail], snd st)"

definition insert_loopBB :: "bb \<Rightarrow> nat \<Rightarrow> loop_state \<Rightarrow> loop_state" where
  "insert_loopBB b i st = ((fst st)[i := (fst st ! i)\<lparr>loopBBs := insort_insert b (loopBBs (fst st ! i))\<rparr>], snd st)"

definition SetLoopParent4BB :: "bb \<Rightarrow> nat \<Rightarrow> loop_state \<Rightarrow> loop_state" where
  "SetLoopParent4BB b i st =
     (let (ls, bbLoopParent) = st;
          ls = (case bbLoopParent b of
              None \<Rightarrow> ls
            | Some p \<Rightarrow>
                (if lparent (ls ! i) = None
                 then ls[i := (ls ! i)\<lparr>lparent := Some p, nestDepth := nestDepth (ls ! p) + 1\<rparr>] else ls))
      in (ls, bbLoopParent(b \<mapsto> i)))"

text \<open>The exit block only when it post dominates the head.\<close>

definition SetExitBB :: "nat \<Rightarrow> cfg \<Rightarrow> doms \<Rightarrow> nat \<Rightarrow> loop_state \<Rightarrow> loop_state option" where
  "SetExitBB k g pdoms i st =
     (let loop = fst st ! i; sucs = GetSucc g (lhead loop) in
      if length sucs \<noteq> 2 then Some st
      else let e = (if \<not> Has loop (sucs ! 0) then sucs ! 0 else sucs ! 1) in do {
        post \<leftarrow> PostDominate k g pdoms e (lhead loop);
        Some ((fst st)[i := loop\<lparr>exitBB := (if post then Some e else None)\<rparr>], snd st) })"

text \<open>The work list \<open>bodyList\<close> of one loop.\<close>

partial_function (option) loop_body :: "cfg \<Rightarrow> bb \<Rightarrow> nat \<Rightarrow> bb list \<Rightarrow> loop_state \<Rightarrow> loop_state option" where
  "loop_body g head i bodyList st =
     (case bodyList of
        [] \<Rightarrow> Some st
      | cur # rest \<Rightarrow>
          if cur = head \<or> Has (fst st ! i) cur then loop_body g head i rest st
          else loop_body g head i (rest @ GetPred g cur) (SetLoopParent4BB cur i (insert_loopBB cur i st)))"

declare loop_body.simps [code]

definition new_loop :: "nat \<Rightarrow> cfg \<Rightarrow> doms \<Rightarrow> bb \<Rightarrow> bb \<Rightarrow> loop_state \<Rightarrow> loop_state option" where
  "new_loop k g pdoms head pred st = do {
     let i = length (fst st);
     st \<leftarrow> loop_body g head i [pred] (CreateLoopDesc head pred st);
     SetExitBB k g pdoms i (SetLoopParent4BB head i (insert_loopBB head i st)) }"

fun process_preds :: "nat \<Rightarrow> cfg \<Rightarrow> doms \<Rightarrow> doms \<Rightarrow> bb \<Rightarrow> bb list \<Rightarrow> loop_state \<Rightarrow> loop_state option" where
  "process_preds k g doms pdoms head [] st = Some st"
| "process_preds k g doms pdoms head (pred # ps) st = do {
     dom \<leftarrow> Dominate k g doms head pred;
     st \<leftarrow> (if dom then new_loop k g pdoms head pred st else Some st);
     process_preds k g doms pdoms head ps st }"

text \<open>The recursion over the children in the dominator tree has fuel of its own.\<close>

fun ProcessBB :: "nat \<Rightarrow> nat \<Rightarrow> cfg \<Rightarrow> doms \<Rightarrow> doms \<Rightarrow> bbsets \<Rightarrow> bb \<Rightarrow> loop_state \<Rightarrow> loop_state option"
  and process_children :: "nat \<Rightarrow> nat \<Rightarrow> cfg \<Rightarrow> doms \<Rightarrow> doms \<Rightarrow> bbsets \<Rightarrow> bb list \<Rightarrow> loop_state \<Rightarrow> loop_state option" where
  "ProcessBB 0 k g doms pdoms ch b st = None"
| "ProcessBB (Suc n) k g doms pdoms ch b st =
     (if \<not> bbVec g ! b \<or> b = commonExitBB g then Some st
      else do {
        st \<leftarrow> process_preds k g doms pdoms b (GetPred g b) st;
        process_children n k g doms pdoms ch (ch b) st })"
| "process_children n k g doms pdoms ch [] st = Some st"
| "process_children n k g doms pdoms ch (c # cs) st =
     (if c \<ge> bb_count g then None
      else do {
        st \<leftarrow> ProcessBB n k g doms pdoms ch c st;
        process_children n k g doms pdoms ch cs st })"

section \<open>What is known of a loop\<close>

text \<open>One loop of \<open>meLoops\<close> at a time; a block of the loop that is null is dereferenced before a try block is found.\<close>

fun loop_has_try :: "cfg \<Rightarrow> bb_info \<Rightarrow> bb list \<Rightarrow> bool option" where
  "loop_has_try g info [] = Some False"
| "loop_has_try g info (b # bs) =
     (if \<not> bbVec g ! b then None
      else if attr_IsTry info b \<or> attr_WontExit info b then Some True else loop_has_try g info bs)"

definition SetTryBB :: "cfg \<Rightarrow> bb_info \<Rightarrow> loop_desc \<Rightarrow> loop_desc option" where
  "SetTryBB g info loop =
     (let loop = (if \<exists>pred \<in> set (GetPred g (lhead loop)). attr_IsTry info pred then loop\<lparr>hasTryBB := True\<rparr> else loop)
      in if hasTryBB loop then Some loop
         else do { found \<leftarrow> loop_has_try g info (loopBBs loop);
           Some (if found then loop\<lparr>hasTryBB := True\<rparr> else loop) })"

definition SetIGotoBB :: "bb_info \<Rightarrow> loop_desc \<Rightarrow> loop_desc option" where
  "SetIGotoBB info loop =
     (if GetBBLabel info (lhead loop) = 0 then None
      else Some (if AddrTakenLabels info (GetBBLabel info (lhead loop)) then loop\<lparr>hasIgotoBB := True\<rparr> else loop))"

text \<open>The successors of one block: the visited blocks, the work list and the loop.\<close>

fun exit_succs :: "bb \<Rightarrow> bb list \<Rightarrow> bb list \<Rightarrow> bb list \<Rightarrow> loop_desc \<Rightarrow> bb list \<times> bb list \<times> loop_desc" where
  "exit_succs cur [] traveled queue loop = (traveled, queue, loop)"
| "exit_succs cur (succ # sucs) traveled queue loop =
     (if succ \<in> set traveled then exit_succs cur sucs traveled queue loop
      else if Has loop succ then exit_succs cur sucs (succ # traveled) (queue @ [succ]) loop
      else exit_succs cur sucs traveled queue (InsertInloopBB2exitBBs cur succ loop))"

text \<open>A block that leaves the function is fatal.\<close>

definition returns :: "cfg \<Rightarrow> bb_info \<Rightarrow> bb \<Rightarrow> bool" where
  "returns g info cur =
     (if GetKind info cur = kBBCondGoto then length (GetSucc g cur) = 1 else ends_in_return info cur)"

partial_function (option) exit_walk :: "cfg \<Rightarrow> bb_info \<Rightarrow> bb list \<Rightarrow> bb list \<Rightarrow> loop_desc \<Rightarrow> loop_desc option" where
  "exit_walk g info traveled queue loop =
     (case queue of
        [] \<Rightarrow> Some loop
      | cur # rest \<Rightarrow>
          if returns g info cur then None
          else (case exit_succs cur (GetSucc g cur) traveled rest loop of
                  (traveled, queue, loop) \<Rightarrow> exit_walk g info traveled queue loop))"

declare exit_walk.simps [code]

definition InsertExitBB :: "cfg \<Rightarrow> bb_info \<Rightarrow> loop_desc \<Rightarrow> (bool \<times> loop_desc) option" where
  "InsertExitBB g info loop =
     (if \<exists>b \<in> set [0..<bb_count g]. inloopBB2exitBBs loop b \<noteq> None then None
      else do {
        loop \<leftarrow> exit_walk g info [] [lhead loop] loop;
        Some (\<forall>b \<in> set [0..<bb_count g]. case inloopBB2exitBBs loop b of
            None \<Rightarrow> True
          | Some succBB \<Rightarrow> \<forall>it \<in> set succBB. \<forall>pred \<in> set (GetPred g it). Has loop pred, loop) })"

definition ProcessPreheaderAndLatch :: "cfg \<Rightarrow> bb_info \<Rightarrow> loop_desc \<Rightarrow> (bool \<times> loop_desc) option" where
  "ProcessPreheaderAndLatch g info loop =
     (case GetPred g (lhead loop) of
        [p0] \<Rightarrow>
          (case GetSucc g (commonEntryBB g) of
             [] \<Rightarrow> None
           | s # _ \<Rightarrow>
               if s \<noteq> lhead loop then None
               else let loop = loop\<lparr>preheader := Some (commonEntryBB g)\<rparr> in
                 if attr_IsTry info p0 then None else Some (True, loop\<lparr>latch := Some p0\<rparr>))
      | [p0, p1] \<Rightarrow>
          (if \<not> Has loop p0 then
             let loop = loop\<lparr>preheader := Some p0\<rparr> in
             if GetKind info p0 \<noteq> kBBFallthru \<and> GetKind info p0 \<noteq> kBBGoto then Some (False, loop\<lparr>isCanonicalLoop := False\<rparr>)
             else if \<not> Has loop p1 then None
             else if attr_IsTry info p1 then None
             else Some (True, loop\<lparr>latch := Some p1\<rparr>)
           else
             let loop = loop\<lparr>latch := Some p0\<rparr> in
             if attr_IsTry info p0 then None
             else if Has loop p1 then None
             else Some (True, loop\<lparr>preheader := Some p1\<rparr>))
      | _ \<Rightarrow> Some (False, loop\<lparr>isCanonicalLoop := False, hasTryBB := True\<rparr>))"

section \<open>The phase\<close>

text \<open>The body of the last loop of \<open>MELoopAnalysis::PhaseRun\<close>.\<close>

definition canonical_step :: "cfg \<Rightarrow> bb_info \<Rightarrow> loop_desc \<Rightarrow> loop_desc option" where
  "canonical_step g info loop = do {
     (ok, loop) \<leftarrow> InsertExitBB g info loop;
     if \<not> ok then Some loop
     else if hasTryBB loop \<or> hasIgotoBB loop then Some loop
     else do {
       (ok, loop) \<leftarrow> ProcessPreheaderAndLatch g info loop;
       Some (if \<not> ok then loop else loop\<lparr>isCanonicalLoop := True\<rparr>) } }"

fun canonical_loops :: "cfg \<Rightarrow> bb_info \<Rightarrow> loop_desc list \<Rightarrow> loop_desc list option" where
  "canonical_loops g info [] = Some []"
| "canonical_loops g info (loop # ls) = do {
     loop \<leftarrow> canonical_step g info loop;
     ls \<leftarrow> canonical_loops g info ls;
     Some (loop # ls) }"

text \<open>The blocks from the common entry on; the fuel of both recursions is one more than the number of blocks.\<close>

definition identify :: "cfg \<Rightarrow> dominance \<Rightarrow> loop_state option" where
  "identify g d = (let k = bb_count g + 1 in
     ProcessBB k k g (dom_doms d) (pdom_doms d) (dom_children d) (commonEntryBB g) ([], \<lambda>_. None))"

definition MELoopAnalysis :: "cfg \<Rightarrow> bb_info \<Rightarrow> dominance \<Rightarrow> loop_state option" where
  "MELoopAnalysis g info d = do {
     (meLoops, bbLoopParent) \<leftarrow> identify g d;
     meLoops \<leftarrow> those (map (SetTryBB g info) meLoops);
     meLoops \<leftarrow> those (map (SetIGotoBB info) meLoops);
     meLoops \<leftarrow> canonical_loops g info meLoops;
     Some (meLoops, bbLoopParent) }"

text \<open>What other passes call: the attribute \<open>kBBAttrIsInLoopForEA\<close> of the blocks in loops, and the loop of a block.\<close>

definition MarkBB :: "cfg \<Rightarrow> loop_desc list \<Rightarrow> (bb \<Rightarrow> bool) \<Rightarrow> (bb \<Rightarrow> bool)" where
  "MarkBB g meLoops attr =
     fold (\<lambda>meLoop attr. fold (\<lambda>b attr. if \<not> bbVec g ! b then attr else attr(b := True)) (loopBBs meLoop) attr) meLoops attr"

definition GetBBLoopParent :: "cfg \<Rightarrow> loop_state \<Rightarrow> bb \<Rightarrow> nat option" where
  "GetBBLoopParent g st b = (if b \<ge> bb_count g then None else snd st b)"

end
