(* ===== verification/DomPhaseSound.thy ===== *)
theory DomPhaseSound
  imports DomPhase PostDomSound
begin

text \<open>
  The dominance phase as a whole: on the graphs that the control flow passes leave, without unreachable
  blocks and with an exit behind every block, it ends with a result that answers every question.
\<close>

section \<open>One direction\<close>

lemma one_direction_runs:
  assumes wf: "wf_cfg g" and pr: "pruned g" and n: "n = bb_count g"
  shows "\<exists>ids os doms df it pre. GenPostOrderID (n + 1) g = Some (ids, os) \<and> dfs_order g ids os \<and>
    ComputeDominance (n * n + 2) (2 * n + 1) g (ids, os) = Some doms \<and> tree_ok g ids doms \<and> exact g doms \<and>
    ComputeDomFrontiers (n + 1) g doms = Some df \<and> ComputeIterDomFrontiers (n + 1) g df = Some it \<and>
    ComputeDtPreorder (n + 1) g (ComputeDomChildren g doms) (commonEntryBB g) [] = Some pre"
proof -
  obtain ids os where o: "GenPostOrderID (n + 1) g = Some (ids, os)" "dfs_order g ids os"
    using GenPostOrderID_order [OF wf, of "n + 1"] n by auto
  obtain doms where d: "ComputeDominance (n * n + 2) (2 * n + 1) g (ids, os) = Some doms" "tree_ok g ids doms" "exact g doms"
    using ComputeDominance_exact [OF wf o(2), of "2 * n + 1" "n * n + 2"] n by auto
  have l: "length os < n + 1" using length_order [OF wf o(2)] n by simp
  obtain df where df: "ComputeDomFrontiers (n + 1) g doms = Some df" "\<And>a b. b \<in> set (df a) \<Longrightarrow> in_frontier g a b"
    using ComputeDomFrontiers_sets [OF wf pr o(2) d(2,3) l] by blast
  have r: "df_range g df" "\<And>a. commonExitBB g \<notin> set (df a)" by (rule frontier_range [OF wf pr df(2)], assumption)+
  obtain it where it: "ComputeIterDomFrontiers (n + 1) g df = Some it"
    using ComputeIterDomFrontiers_sets [OF r, of "n + 1"] n by auto
  have here: "bbVec g ! b" if "reachable g b" for b using prunedD(1) [OF pr] reachable_range [OF that wf] by blast
  have "nat (ids ! commonEntryBB g) < n + 1" using order_facts(2) [OF o(2) reachable.Entry] l by linarith
  then obtain ys where ys: "writes g (ComputeDtPreorder (n + 1) g (ComputeDomChildren g doms) (commonEntryBB g)) ys"
    "distinct ys" "set ys = subtree doms (commonEntryBB g)"
    using ComputeDtPreorder_writes [OF o(2) d(2) wf here, of "commonEntryBB g" "n + 1"] tree_okD(1) [OF d(2)] by auto
  have "set ys \<subseteq> {..<n}" unfolding ys(3) dominator_subtree [OF d(2,3)] using reachable_range [OF _ wf] n by auto
  then have "length ys \<le> bb_count g" using distinct_card [OF ys(2)] card_mono [of "{..<n}" "set ys"] n by simp
  then have "ComputeDtPreorder (n + 1) g (ComputeDomChildren g doms) (commonEntryBB g) [] = Some ys"
    using ys(1) [unfolded writes_def, rule_format, of "[]"] by simp
  then show ?thesis using o d df(1) it by blast
qed

section \<open>The phase\<close>

lemma MEDominanceD:
  assumes "MEDominance g = Some d" and "n = bb_count g"
  shows "GenPostOrderID (n + 1) g = Some (dom_order d)"
    "ComputeDominance (n * n + 2) (2 * n + 1) g (dom_order d) = Some (dom_doms d)"
    "dom_children d = ComputeDomChildren g (dom_doms d)"
    "PdomGenPostOrderID (n + 1) g = Some (pdom_order d)"
    "ComputePostDominance (n * n + 2) (2 * n + 1) g (pdom_order d) = Some (pdom_doms d)"
  using assms unfolding MEDominance_def by (auto simp: Let_def split: Option.bind_splits)

text \<open>The graphs that the control flow passes leave: both directions are well formed, nothing is unreachable.\<close>

definition clean_cfg :: "cfg \<Rightarrow> bool" where
  "clean_cfg g = (wf_cfg g \<and> wf_exits g \<and> pruned g \<and> pruned (rev_cfg g))"

lemma MEDominance_runs:
  assumes "clean_cfg g"
  shows "\<exists>d. MEDominance g = Some d"
proof -
  let ?n = "bb_count g" and ?r = "rev_cfg g"
  have wf: "wf_cfg g" "wf_exits g" "pruned g" "pruned ?r" using assms by (simp_all add: clean_cfg_def)
  note wfr = wf_exitsD(1) [OF wf(2)]
  obtain ids os doms df it pre where f: "GenPostOrderID (?n + 1) g = Some (ids, os)"
    "ComputeDominance (?n * ?n + 2) (2 * ?n + 1) g (ids, os) = Some doms" "ComputeDomFrontiers (?n + 1) g doms = Some df"
    "ComputeIterDomFrontiers (?n + 1) g df = Some it"
    "ComputeDtPreorder (?n + 1) g (ComputeDomChildren g doms) (commonEntryBB g) [] = Some pre"
    using one_direction_runs [OF wf(1,3) refl] by blast
  obtain pids pos pdoms pf pit ppre where p: "GenPostOrderID (?n + 1) ?r = Some (pids, pos)" "dfs_order ?r pids pos"
    "ComputeDominance (?n * ?n + 2) (2 * ?n + 1) ?r (pids, pos) = Some pdoms" "tree_ok ?r pids pdoms" "exact ?r pdoms"
    "ComputeDomFrontiers (?n + 1) ?r pdoms = Some pf" "ComputeIterDomFrontiers (?n + 1) ?r pf = Some pit"
    "ComputeDtPreorder (?n + 1) ?r (ComputeDomChildren ?r pdoms) (commonEntryBB ?r) [] = Some ppre"
    using one_direction_runs [OF wfr wf(4), of ?n] by auto
  have "PdomGenPostOrderID (?n + 1) g = Some (pids, pos)" using PdomGenPostOrderID_rev [OF wf(2)] p(1) by simp
  moreover have "ComputePostDominance (?n * ?n + 2) (2 * ?n + 1) g (pids, pos) = Some pdoms"
    using ComputePostDominance_rev [OF wf(2) p(2), of "2 * ?n + 1" "?n * ?n + 2"] p(3) by simp
  moreover have "ComputePdomFrontiers (?n + 1) g pdoms = Some pf" using ComputePdomFrontiers_rev [OF wf(2,4) p(4,5)] p(6) by simp
  moreover have "ComputeIterPdomFrontiers (?n + 1) g pf = Some pit" using p(7) by (simp add: ComputeIterPdomFrontiers_rev)
  moreover have "ComputePdtPreorder (?n + 1) g (ComputePdomChildren g pdoms) (commonExitBB g) [] = Some ppre"
    using p(8) by (simp add: ComputePdtPreorder_rev pdt_rev)
  ultimately show ?thesis using f unfolding MEDominance_def Let_def by simp
qed

lemma MEDominance_answers:
  assumes "clean_cfg g" and "MEDominance g = Some d" and "n = bb_count g"
  shows "Dominate (n + 1) g (dom_doms d) a b = Some (if reachable g b then dominates g a b else a = b)"
    "PostDominate (n + 1) g (pdom_doms d) a b = Some (if reaches_exit g b then postdominates g a b else a = b)"
proof -
  have wf: "wf_cfg g" "wf_exits g" using assms(1) by (simp_all add: clean_cfg_def)
  show "Dominate (n + 1) g (dom_doms d) a b = Some (if reachable g b then dominates g a b else a = b)"
    using ComputeDominance_answers [OF wf(1) assms(3)] MEDominanceD(1,2) [OF assms(2,3)] by auto
  show "PostDominate (n + 1) g (pdom_doms d) a b = Some (if reaches_exit g b then postdominates g a b else a = b)"
    using ComputePostDominance_answers [OF wf(2) assms(3)] MEDominanceD(4,5) [OF assms(2,3)] by auto
qed

text \<open>
  C16. The whole dominance phase ends with a result on every graph whose two directions are well formed and
  which has no block that is unreachable or has no way out, with its fuel given by the number of blocks; no
  null pointer is followed and no vector overflows, and \<open>Dominate\<close> and \<open>PostDominate\<close> answer from the
  result for all blocks but the common exit and the common entry.
\<close>

theorem MEDominance_total:
  assumes "clean_cfg g" and "n = bb_count g"
  shows "\<exists>d. MEDominance g = Some d \<and>
    (\<forall>a. \<forall>b < n. b \<noteq> commonExitBB g \<longrightarrow> Dominate (n + 1) g (dom_doms d) a b = Some (dominates g a b)) \<and>
    (\<forall>a. \<forall>b < n. b \<noteq> commonEntryBB g \<longrightarrow> PostDominate (n + 1) g (pdom_doms d) a b = Some (postdominates g a b))"
proof -
  obtain d where d: "MEDominance g = Some d" using MEDominance_runs [OF assms(1)] by blast
  have pr: "pruned g" "pruned (rev_cfg g)" using assms(1) by (simp_all add: clean_cfg_def)
  have "reachable g b" if "b < n" "b \<noteq> commonExitBB g" for b using prunedD(2) [OF pr(1)] that assms(2) by simp
  moreover have "reaches_exit g b" if "b < n" "b \<noteq> commonEntryBB g" for b
    using prunedD(2) [OF pr(2)] that assms(2) by (simp add: reaches_exit_rev)
  ultimately show ?thesis using d MEDominance_answers [OF assms(1) d assms(2)] by auto
qed

lemma loop_cfg_clean: "clean_cfg loop_cfg"
  using loop_cfg_wf loop_cfg_exits loop_cfg_pruned loop_cfg_rev_pruned by (simp add: clean_cfg_def)

theorem MEDominance_total_witness:
  "\<exists>d. MEDominance loop_cfg = Some d \<and> Dominate 8 loop_cfg (dom_doms d) 2 6 = Some (dominates loop_cfg 2 6) \<and>
    PostDominate 8 loop_cfg (pdom_doms d) 5 2 = Some (postdominates loop_cfg 5 2)"
  using MEDominance_total [OF loop_cfg_clean, of 7] by (auto simp: loop_cfg_def)

end
