(* ===== verification/LoopSound.thy ===== *)
theory LoopSound
  imports LoopAnalysis DomPhaseSound
begin

text \<open>
  What \<open>ProcessBB\<close> finds: one loop for every back edge, with the blocks of its natural loop, linked to the
  loops around it.
\<close>

section \<open>The blocks of one loop\<close>

text \<open>The natural loop of the back edge from \<open>t\<close> to \<open>h\<close>: what reaches \<open>t\<close> without passing \<open>h\<close>.\<close>

inductive in_loop :: "cfg \<Rightarrow> bb \<Rightarrow> bb \<Rightarrow> bb \<Rightarrow> bool" for g h t where
  Head: "in_loop g h t h"
| Tail: "in_loop g h t t"
| Pred: "in_loop g h t x \<Longrightarrow> x \<noteq> h \<Longrightarrow> p \<in> set (GetPred g x) \<Longrightarrow> in_loop g h t p"

text \<open>What later steps of the phase fill in is still empty.\<close>

abbreviation unfinished :: "loop_desc \<Rightarrow> bool" where
  "unfinished l \<equiv> inloopBB2exitBBs l = (\<lambda>_. None) \<and> \<not> isCanonicalLoop l"

abbreviation fresh :: "loop_desc \<Rightarrow> bool" where
  "fresh l \<equiv> unfinished l \<and> \<not> hasTryBB l \<and> \<not> hasIgotoBB l"

text \<open>The state after the blocks \<open>A\<close> have been put into loop \<open>i\<close>.\<close>

definition grown :: "nat \<Rightarrow> loop_state \<Rightarrow> loop_state \<Rightarrow> bb set \<Rightarrow> bool" where
  "grown i st0 st A = (
     length (fst st) = length (fst st0) \<and> (\<forall>j. j \<noteq> i \<longrightarrow> fst st ! j = fst st0 ! j) \<and>
     lhead (fst st ! i) = lhead (fst st0 ! i) \<and> ltail (fst st ! i) = ltail (fst st0 ! i) \<and> fresh (fst st ! i) \<and>
     set (loopBBs (fst st ! i)) = A \<and> snd st = (\<lambda>b. if b \<in> A then Some i else snd st0 b) \<and>
     (case lparent (fst st ! i) of
        None \<Rightarrow> nestDepth (fst st ! i) = 0 \<and> (\<forall>b \<in> A. snd st0 b = None)
      | Some p \<Rightarrow> nestDepth (fst st ! i) = nestDepth (fst st0 ! p) + 1 \<and> (\<exists>b \<in> A. snd st0 b = Some p)))"

lemma grown_create:
  "grown (length ls) (CreateLoopDesc h t (ls, lp)) (CreateLoopDesc h t (ls, lp)) {}"
  by (simp add: grown_def CreateLoopDesc_def LoopDesc_def)

lemma grown_insert:
  assumes g: "grown i st0 st A" and i: "i < length (fst st0)" and c: "c \<notin> A" and p: "snd st0 c \<noteq> Some i"
  shows "grown i st0 (SetLoopParent4BB c i (insert_loopBB c i st)) (insert c A)"
proof -
  obtain ls lp where st: "st = (ls, lp)" by (cases st)
  have len: "i < length ls" using g i st by (simp add: grown_def)
  have lp: "lp c = snd st0 c" using g c st by (simp add: grown_def)
  show ?thesis
  proof (cases "snd st0 c")
    case None
    then show ?thesis using g len lp unfolding grown_def st
      by (auto simp: SetLoopParent4BB_def insert_loopBB_def set_insort_insert split: option.splits)
  next
    case (Some q)
    then have "q \<noteq> i" using p by simp
    then have q: "ls ! q = fst st0 ! q" using g st by (simp add: grown_def)
    show ?thesis using g len lp Some q \<open>q \<noteq> i\<close> unfolding grown_def st
      by (auto simp: SetLoopParent4BB_def insert_loopBB_def set_insort_insert split: option.splits)
  qed
qed

lemma loop_body_grown:
  assumes i: "i < length (fst st0)" and lp: "\<And>b. snd st0 b \<noteq> Some i" and U: "finite U" "\<And>x. x \<in> U \<Longrightarrow> set (GetPred g x) \<subseteq> U"
    and P: "\<And>x p. P x \<Longrightarrow> p \<in> set (GetPred g x) \<Longrightarrow> p \<noteq> h \<Longrightarrow> P p"
  shows "set W \<subseteq> U \<Longrightarrow> A \<subseteq> U \<Longrightarrow> h \<notin> A \<Longrightarrow> grown i st0 st A \<Longrightarrow> \<forall>w \<in> set W. w \<noteq> h \<longrightarrow> P w \<Longrightarrow>
    \<exists>st' A'. loop_body g h i W st = Some st' \<and> grown i st0 st' A' \<and> A \<subseteq> A' \<and> A' \<subseteq> U \<and> h \<notin> A' \<and> set W \<subseteq> insert h A' \<and>
      (\<forall>x \<in> A' - A. set (GetPred g x) \<subseteq> insert h A' \<and> P x)"
proof (induction "card (U - A)" arbitrary: W A st rule: less_induct)
  case less
  from less.prems show ?case
  proof (induction W)
    case Nil
    then show ?case by (intro exI [of _ st] exI [of _ A]) (simp add: loop_body.simps)
  next
    case (Cons c W)
    have body: "set (loopBBs (fst st ! i)) = A" using Cons.prems(4) by (simp add: grown_def)
    show ?case
    proof (cases "c = h \<or> c \<in> A")
      case True
      have "loop_body g h i (c # W) st = loop_body g h i W st" using True body by (simp add: loop_body.simps Has_def)
      moreover have "\<exists>st' A'. loop_body g h i W st = Some st' \<and> grown i st0 st' A' \<and> A \<subseteq> A' \<and> A' \<subseteq> U \<and> h \<notin> A' \<and>
          set W \<subseteq> insert h A' \<and> (\<forall>x \<in> A' - A. set (GetPred g x) \<subseteq> insert h A' \<and> P x)"
        using Cons.prems by (intro Cons.IH) simp_all
      moreover have "c \<in> insert h A'" if "A \<subseteq> A'" for A' using True that by blast
      ultimately show ?thesis by (simp only: list.set insert_subset) blast
    next
      case False
      let ?st = "SetLoopParent4BB c i (insert_loopBB c i st)" and ?W = "W @ GetPred g c"
      have c: "c \<in> U" "P c" using Cons.prems(1,5) False by simp_all
      have e: "loop_body g h i (c # W) st = loop_body g h i ?W ?st" using False body by (simp add: loop_body.simps [of g h i "c # W"] Has_def)
      have 1: "card (U - insert c A) < card (U - A)" using U(1) c(1) False by (intro psubset_card_mono) auto
      have 2: "set ?W \<subseteq> U" using Cons.prems(1) U(2) [OF c(1)] by simp
      have 3: "insert c A \<subseteq> U" "h \<notin> insert c A" using Cons.prems(2,3) c(1) False by auto
      have 4: "grown i st0 ?st (insert c A)" using grown_insert [OF Cons.prems(4) i] False lp by blast
      have 5: "\<forall>w \<in> set ?W. w \<noteq> h \<longrightarrow> P w" using Cons.prems(5) P [OF c(2)] by auto
      obtain st' A' where r: "loop_body g h i ?W ?st = Some st'" "grown i st0 st' A'" "insert c A \<subseteq> A'" "A' \<subseteq> U" "h \<notin> A'"
        "set ?W \<subseteq> insert h A'" "\<forall>x \<in> A' - insert c A. set (GetPred g x) \<subseteq> insert h A' \<and> P x"
        using less.hyps [OF 1 2 3 4 5] by (elim exE conjE) (rule that)
      have "\<forall>x \<in> A' - A. set (GetPred g x) \<subseteq> insert h A' \<and> P x" using r(6,7) c(2) by auto
      moreover have "set (c # W) \<subseteq> insert h A'" using r(3,6) by auto
      ultimately show ?thesis using e r(1-5) by auto
    qed
  qed
qed

lemma loop_body_natural:
  assumes i: "i < length (fst st0)" and lp: "\<And>b. snd st0 b \<noteq> Some i" and U: "finite U" "\<And>x. x \<in> U \<Longrightarrow> set (GetPred g x) \<subseteq> U"
    and t: "t \<in> U" and g: "grown i st0 st0 {}"
  shows "\<exists>st'. loop_body g h i [t] st0 = Some st' \<and> grown i st0 st' ({x. in_loop g h t x} - {h})"
proof -
  let ?P = "\<lambda>x. in_loop g h t x \<and> x \<noteq> h"
  have "\<exists>st' A'. loop_body g h i [t] st0 = Some st' \<and> grown i st0 st' A' \<and> {} \<subseteq> A' \<and> A' \<subseteq> U \<and> h \<notin> A' \<and>
      set [t] \<subseteq> insert h A' \<and> (\<forall>x \<in> A' - {}. set (GetPred g x) \<subseteq> insert h A' \<and> ?P x)"
    by (rule loop_body_grown [OF i lp U]) (use t g in \<open>auto intro: in_loop.intros\<close>)
  then obtain st' A where r: "loop_body g h i [t] st0 = Some st'" "grown i st0 st' A" "h \<notin> A" "t \<in> insert h A"
    "\<And>x. x \<in> A \<Longrightarrow> set (GetPred g x) \<subseteq> insert h A" "\<And>x. x \<in> A \<Longrightarrow> in_loop g h t x \<and> x \<noteq> h" by auto
  have "in_loop g h t x \<Longrightarrow> x \<in> insert h A" for x
  proof (induction rule: in_loop.induct)
    case (Pred x p)
    then show ?case using r(5) [of x] by auto
  qed (use r(4) in auto)
  then have "A = {x. in_loop g h t x} - {h}" using r(3,6) by auto
  then show ?thesis using r(1,2) by blast
qed

section \<open>What holds of the loops found so far\<close>

abbreviation blocks :: "loop_desc \<Rightarrow> bb set" where
  "blocks l \<equiv> set (loopBBs l)"

definition parent_ok :: "loop_desc list \<Rightarrow> nat \<Rightarrow> bool" where
  "parent_ok ls j = (case lparent (ls ! j) of
     None \<Rightarrow> nestDepth (ls ! j) = 0 \<and> (\<forall>i < j. blocks (ls ! i) \<inter> blocks (ls ! j) = {})
   | Some p \<Rightarrow> p < j \<and> nestDepth (ls ! j) = nestDepth (ls ! p) + 1 \<and>
       (\<exists>b \<in> blocks (ls ! p) \<inter> blocks (ls ! j). \<forall>i < j. b \<in> blocks (ls ! i) \<longrightarrow> i \<le> p))"

definition innermost_ok :: "loop_desc list \<Rightarrow> (bb \<Rightarrow> nat option) \<Rightarrow> bool" where
  "innermost_ok ls lp = (\<forall>b. case lp b of
     None \<Rightarrow> \<forall>i < length ls. b \<notin> blocks (ls ! i)
   | Some j \<Rightarrow> j < length ls \<and> b \<in> blocks (ls ! j) \<and> (\<forall>i < length ls. b \<in> blocks (ls ! i) \<longrightarrow> i \<le> j))"

lemma innermost_okD:
  assumes "innermost_ok ls lp"
  shows "lp b = Some j \<Longrightarrow> j < length ls \<and> b \<in> blocks (ls ! j) \<and> (\<forall>i < length ls. b \<in> blocks (ls ! i) \<longrightarrow> i \<le> j)"
    "lp b = None \<Longrightarrow> i < length ls \<Longrightarrow> b \<notin> blocks (ls ! i)"
proof -
  have c: "case lp b of None \<Rightarrow> \<forall>i < length ls. b \<notin> blocks (ls ! i)
     | Some j \<Rightarrow> j < length ls \<and> b \<in> blocks (ls ! j) \<and> (\<forall>i < length ls. b \<in> blocks (ls ! i) \<longrightarrow> i \<le> j)"
    using assms unfolding innermost_ok_def by (rule spec)
  then show "lp b = Some j \<Longrightarrow> j < length ls \<and> b \<in> blocks (ls ! j) \<and> (\<forall>i < length ls. b \<in> blocks (ls ! i) \<longrightarrow> i \<le> j)"
    "lp b = None \<Longrightarrow> i < length ls \<Longrightarrow> b \<notin> blocks (ls ! i)" by simp_all
qed

definition loops_inv :: "cfg \<Rightarrow> doms \<Rightarrow> (bb \<times> bb) set \<Rightarrow> loop_state \<Rightarrow> bool" where
  "loops_inv g doms E st = (case st of (ls, lp) \<Rightarrow>
     (\<forall>l \<in> set ls. blocks l = {x. in_loop g (lhead l) (ltail l) x} \<and> fresh l) \<and>
     (\<lambda>l. (lhead l, ltail l)) ` set ls = E \<and> (\<forall>(h, t) \<in> E. reachable g h) \<and>
     innermost_ok ls lp \<and> (\<forall>j < length ls. parent_ok ls j) \<and>
     (\<forall>j < length ls. \<forall>i < j. lhead (ls ! i) = lhead (ls ! j) \<or> lhead (ls ! i) \<notin> subtree doms (lhead (ls ! j))))"

lemma parent_ok_snoc: "j < length ls \<Longrightarrow> parent_ok (ls @ [l]) j = parent_ok ls j"
  by (auto simp: parent_ok_def nth_append split: option.splits)

lemma loops_inv_snoc:
  assumes inv: "loops_inv g doms E (ls, lp)" and h: "reachable g h" and l: "lhead l = h" "ltail l = t" "blocks l = {x. in_loop g h t x}" "fresh l"
    and p: "case lparent l of None \<Rightarrow> nestDepth l = 0 \<and> (\<forall>b \<in> blocks l. lp b = None)
        | Some p \<Rightarrow> nestDepth l = nestDepth (ls ! p) + 1 \<and> (\<exists>b \<in> blocks l. lp b = Some p)"
    and E: "\<forall>(h', t') \<in> E. h' = h \<or> h' \<notin> subtree doms h"
  shows "loops_inv g doms (insert (h, t) E) (ls @ [l], \<lambda>b. if b \<in> blocks l then Some (length ls) else lp b)"
proof -
  let ?i = "length ls"
  have inn: "innermost_ok ls lp" and heads: "(\<lambda>l. (lhead l, ltail l)) ` set ls = E"
    using inv by (simp_all add: loops_inv_def)
  have "innermost_ok (ls @ [l]) (\<lambda>b. if b \<in> blocks l then Some ?i else lp b)"
    unfolding innermost_ok_def
  proof
    fix b
    show "case (if b \<in> blocks l then Some ?i else lp b) of
        None \<Rightarrow> \<forall>i < length (ls @ [l]). b \<notin> blocks ((ls @ [l]) ! i)
      | Some j \<Rightarrow> j < length (ls @ [l]) \<and> b \<in> blocks ((ls @ [l]) ! j) \<and> (\<forall>i < length (ls @ [l]). b \<in> blocks ((ls @ [l]) ! i) \<longrightarrow> i \<le> j)"
      using innermost_okD(1) [OF inn, of b] innermost_okD(2) [OF inn, of b]
      by (cases "lp b") (auto simp: nth_append less_Suc_eq)
  qed
  moreover have "parent_ok (ls @ [l]) ?i"
  proof (cases "lparent l")
    case None
    then have "\<forall>b \<in> blocks l. \<forall>i < length ls. b \<notin> blocks (ls ! i)" using p innermost_okD(2) [OF inn] by simp
    then show ?thesis using None p by (auto simp: parent_ok_def nth_append)
  next
    case (Some q)
    then obtain b where b: "b \<in> blocks l" "lp b = Some q" using p by auto
    then have "q < length ls" "b \<in> blocks (ls ! q)" "\<forall>i < length ls. b \<in> blocks (ls ! i) \<longrightarrow> i \<le> q"
      using innermost_okD(1) [OF inn] by blast+
    then show ?thesis using Some p b(1) by (auto simp: parent_ok_def nth_append)
  qed
  moreover have "lhead (ls ! i) = h \<or> lhead (ls ! i) \<notin> subtree doms h" if "i < length ls" for i
    using E that unfolding heads [symmetric] by auto
  ultimately show ?thesis using inv h l unfolding loops_inv_def
    by (auto simp: less_Suc_eq nth_append parent_ok_snoc)
qed

text \<open>The heads in the order of the loops: those that a step adds, and how often each.\<close>

definition latches :: "cfg \<Rightarrow> bb \<Rightarrow> nat" where
  "latches g h = length (filter (dominates g h) (GetPred g h))"

definition adds :: "cfg \<Rightarrow> bb set \<Rightarrow> loop_state \<Rightarrow> loop_state \<Rightarrow> bool" where
  "adds g V st st' = (\<exists>hs. map lhead (fst st') = map lhead (fst st) @ hs \<and> set hs \<subseteq> V \<and> (\<forall>h. count_list hs h \<le> latches g h))"

lemma adds_trans:
  assumes "adds g V st st1" and "adds g W st1 st2" and "V \<inter> W = {}"
  shows "adds g (V \<union> W) st st2"
proof -
  obtain xs ys where x: "map lhead (fst st1) = map lhead (fst st) @ xs" "set xs \<subseteq> V" "\<forall>h. count_list xs h \<le> latches g h"
    and y: "map lhead (fst st2) = map lhead (fst st1) @ ys" "set ys \<subseteq> W" "\<forall>h. count_list ys h \<le> latches g h"
    using assms(1,2) unfolding adds_def by blast
  have "count_list (xs @ ys) h \<le> latches g h" for h
  proof (cases "h \<in> V")
    case True
    then have "h \<notin> set ys" using y(2) assms(3) by blast
    then show ?thesis using x(3) by (simp add: count_list_0_iff [symmetric])
  next
    case False
    then have "h \<notin> set xs" using x(2) by blast
    then show ?thesis using y(3) by (simp add: count_list_0_iff [symmetric])
  qed
  then show ?thesis using x y unfolding adds_def by (intro exI [of _ "xs @ ys"]) auto
qed

lemma count_replicate: "count_list (replicate n b) h = (if h = b then n else 0)"
  by (induction n) auto

lemma adds_refl: "adds g V st st"
  by (simp add: adds_def)

lemma adds_mono: "adds g V st st' \<Longrightarrow> V \<subseteq> W \<Longrightarrow> adds g W st st'"
  unfolding adds_def by blast

section \<open>The functions keep it\<close>

lemma new_loop_inv:
  assumes inv: "loops_inv g doms E (ls, lp)" and h: "reachable g h" and E: "\<forall>(h', t') \<in> E. h' = h \<or> h' \<notin> subtree doms h"
    and U: "finite U" "\<And>x. x \<in> U \<Longrightarrow> set (GetPred g x) \<subseteq> U" and t: "t \<in> U"
    and post: "\<And>a b. PostDominate k g pdoms a b \<noteq> None"
  shows "\<exists>st'. new_loop k g pdoms h t (ls, lp) = Some st' \<and> loops_inv g doms (insert (h, t) E) st' \<and>
    map lhead (fst st') = map lhead ls @ [h]"
proof -
  let ?i = "length ls" and ?st0 = "CreateLoopDesc h t (ls, lp)" and ?N = "{x. in_loop g h t x}"
  have inn: "innermost_ok ls lp" using inv by (simp add: loops_inv_def)
  have lp: "snd ?st0 b \<noteq> Some ?i" for b using innermost_okD(1) [OF inn, of b ?i] by (auto simp: CreateLoopDesc_def LoopDesc_def)
  have i: "?i < length (fst ?st0)" by (simp add: CreateLoopDesc_def LoopDesc_def)
  obtain st1 where st1: "loop_body g h ?i [t] ?st0 = Some st1" "grown ?i ?st0 st1 (?N - {h})"
    using loop_body_natural [OF i lp U t grown_create] by blast
  let ?st2 = "SetLoopParent4BB h ?i (insert_loopBB h ?i st1)"
  have N: "insert h (?N - {h}) = ?N" by (auto intro: in_loop.Head)
  have g2: "grown ?i ?st0 ?st2 ?N" using grown_insert [OF st1(2) i _ lp, of h] unfolding N by simp
  obtain ls2 lp2 where st2: "?st2 = (ls2, lp2)" by (cases ?st2)
  obtain x where x: "SetExitBB k g pdoms ?i ?st2 = Some (ls2[?i := (ls2 ! ?i)\<lparr>exitBB := x\<rparr>], lp2)"
  proof (cases "length (GetSucc g (lhead (ls2 ! ?i))) = 2")
    case True
    let ?sucs = "GetSucc g (lhead (ls2 ! ?i))"
    let ?e = "if ?sucs ! 0 \<notin> blocks (ls2 ! ?i) then ?sucs ! 0 else ?sucs ! 1"
    obtain pd where "PostDominate k g pdoms ?e (lhead (ls2 ! ?i)) = Some pd" using post by blast
    then have "SetExitBB k g pdoms ?i ?st2 = Some (ls2[?i := (ls2 ! ?i)\<lparr>exitBB := (if pd then Some ?e else None)\<rparr>], lp2)"
      using True unfolding st2 by (simp add: SetExitBB_def Let_def Has_def)
    then show ?thesis by (rule that)
  next
    case False
    then have "SetExitBB k g pdoms ?i ?st2 = Some (ls2[?i := (ls2 ! ?i)\<lparr>exitBB := exitBB (ls2 ! ?i)\<rparr>], lp2)"
      unfolding st2 by (simp add: SetExitBB_def Let_def Has_def)
    then show ?thesis by (rule that)
  qed
  let ?l = "(ls2 ! ?i)\<lparr>exitBB := x\<rparr>"
  have s0: "snd ?st0 = lp" by (simp add: CreateLoopDesc_def LoopDesc_def)
  have len: "length ls2 = Suc ?i" and old: "\<And>j. j < ?i \<Longrightarrow> ls2 ! j = ls ! j"
    using g2 unfolding st2 grown_def by (simp_all add: CreateLoopDesc_def LoopDesc_def nth_append)
  have eq: "ls2[?i := ?l] = ls @ [?l]"
    by (rule nth_equalityI) (auto simp: len old nth_append nth_list_update less_Suc_eq)
  have l: "lhead ?l = h" "ltail ?l = t" "blocks ?l = ?N" "fresh ?l" "lp2 = (\<lambda>b. if b \<in> blocks ?l then Some ?i else lp b)"
    using g2 unfolding st2 grown_def s0 by (simp_all add: CreateLoopDesc_def LoopDesc_def)
  have p: "case lparent ?l of None \<Rightarrow> nestDepth ?l = 0 \<and> (\<forall>b \<in> blocks ?l. lp b = None)
        | Some p \<Rightarrow> nestDepth ?l = nestDepth (ls ! p) + 1 \<and> (\<exists>b \<in> blocks ?l. lp b = Some p)"
  proof (cases "lparent ?l")
    case None
    then show ?thesis using g2 unfolding st2 grown_def s0 by (simp add: CreateLoopDesc_def LoopDesc_def)
  next
    case (Some q)
    have c: "nestDepth (ls2 ! ?i) = nestDepth (fst ?st0 ! q) + 1 \<and> (\<exists>b \<in> ?N. lp b = Some q)"
      using g2 Some unfolding st2 grown_def s0 by simp
    then have "q < ?i" using innermost_okD(1) [OF inn] by blast
    then show ?thesis using c Some l(3) by (simp add: CreateLoopDesc_def LoopDesc_def nth_append)
  qed
  have "new_loop k g pdoms h t (ls, lp) = Some (ls @ [?l], lp2)"
    using st1(1) x unfolding eq by (simp add: new_loop_def)
  then show ?thesis using loops_inv_snoc [OF inv h l(1-4) p E] l(1) unfolding l(5) [symmetric] by auto
qed

definition back_edges :: "cfg \<Rightarrow> bb set \<Rightarrow> (bb \<times> bb) set" where
  "back_edges g V = {(h, t). h \<in> V \<and> t \<in> set (GetPred g h) \<and> dominates g h t}"

lemma process_preds_inv:
  assumes b: "reachable g b" and dom: "\<And>p. reachable g p \<Longrightarrow> Dominate k g doms b p = Some (dominates g b p)"
    and U: "finite U" "\<And>x. x \<in> U \<Longrightarrow> set (GetPred g x) \<subseteq> U" and post: "\<And>a b. PostDominate k g pdoms a b \<noteq> None"
  shows "loops_inv g doms E st \<Longrightarrow> \<forall>(h, t) \<in> E. h = b \<or> h \<notin> subtree doms b \<Longrightarrow>
    (\<And>p. p \<in> set ps \<Longrightarrow> reachable g p \<and> p \<in> U) \<Longrightarrow>
    \<exists>st'. process_preds k g doms pdoms b ps st = Some st' \<and>
      loops_inv g doms (E \<union> {(h, t). h = b \<and> t \<in> set ps \<and> dominates g b t}) st' \<and>
      map lhead (fst st') = map lhead (fst st) @ replicate (length (filter (dominates g b) ps)) b"
proof (induction ps arbitrary: E st)
  case (Cons p ps)
  have p: "reachable g p" "p \<in> U" using Cons.prems(3) by simp_all
  have rest: "q \<in> set ps \<Longrightarrow> reachable g q \<and> q \<in> U" for q using Cons.prems(3) by simp
  show ?case
  proof (cases "dominates g b p")
    case True
    obtain ls lp where st: "st = (ls, lp)" by (cases st)
    obtain st1 where st1: "new_loop k g pdoms b p st = Some st1" "loops_inv g doms (insert (b, p) E) st1"
      "map lhead (fst st1) = map lhead (fst st) @ [b]"
      using new_loop_inv [of g doms E ls lp b U p k pdoms] Cons.prems(1,2) b U p(2) post unfolding st fst_conv by blast
    obtain st' where st': "process_preds k g doms pdoms b ps st1 = Some st'"
      "loops_inv g doms (insert (b, p) E \<union> {(h, t). h = b \<and> t \<in> set ps \<and> dominates g b t}) st'"
      "map lhead (fst st') = map lhead (fst st1) @ replicate (length (filter (dominates g b) ps)) b"
      using Cons.IH [OF st1(2) _ rest] Cons.prems(2) by auto
    have "insert (b, p) E \<union> {(h, t). h = b \<and> t \<in> set ps \<and> dominates g b t} =
        E \<union> {(h, t). h = b \<and> t \<in> set (p # ps) \<and> dominates g b t}" using True by auto
    then show ?thesis using st' st1(1,3) dom [OF p(1)] True by simp
  next
    case False
    obtain st' where st': "process_preds k g doms pdoms b ps st = Some st'"
      "loops_inv g doms (E \<union> {(h, t). h = b \<and> t \<in> set ps \<and> dominates g b t}) st'"
      "map lhead (fst st') = map lhead (fst st) @ replicate (length (filter (dominates g b) ps)) b"
      using Cons.IH [OF Cons.prems(1,2) rest] by auto
    have "{(h, t). h = b \<and> t \<in> set ps \<and> dominates g b t} = {(h, t). h = b \<and> t \<in> set (p # ps) \<and> dominates g b t}"
      using False by auto
    then show ?thesis using st' dom [OF p(1)] False by simp
  qed
qed simp

lemma process_children_inv:
  assumes t: "tree_ok g ids doms"
    and sub: "\<And>c E st. c \<in> set cs \<Longrightarrow> loops_inv g doms E st \<Longrightarrow> \<forall>(h, t) \<in> E. h \<notin> subtree doms c \<Longrightarrow>
      \<exists>st'. ProcessBB n k g doms pdoms ch c st = Some st' \<and> loops_inv g doms (E \<union> back_edges g (subtree doms c)) st' \<and>
        adds g (subtree doms c) st st'"
    and c: "\<And>c. c \<in> set cs \<Longrightarrow> c < bb_count g \<and> doms c = Some b \<and> c \<noteq> b"
  shows "distinct cs \<Longrightarrow> loops_inv g doms E st \<Longrightarrow> \<forall>(h, t) \<in> E. \<forall>c \<in> set cs. h \<notin> subtree doms c \<Longrightarrow>
    \<exists>st'. process_children n k g doms pdoms ch cs st = Some st' \<and>
      loops_inv g doms (E \<union> back_edges g (\<Union>c \<in> set cs. subtree doms c)) st' \<and>
      adds g (\<Union>c \<in> set cs. subtree doms c) st st'"
  using sub c
proof (induction cs arbitrary: E st)
  case Nil
  then show ?case by (simp add: back_edges_def adds_refl)
next
  case (Cons c cs)
  have cc: "c < bb_count g" "doms c = Some b" "c \<noteq> b" using Cons.prems(5) [of c] by simp_all
  obtain st1 where st1: "ProcessBB n k g doms pdoms ch c st = Some st1" "loops_inv g doms (E \<union> back_edges g (subtree doms c)) st1"
      "adds g (subtree doms c) st st1"
    using Cons.prems(4) [of c E st] Cons.prems(2,3) by fastforce
  have sep: "subtree doms c \<inter> subtree doms d = {}" if "d \<in> set cs" for d
    using subtree_child_disjoint [OF t cc(2,3), of d] Cons.prems(1,5) that by auto
  then have dis: "\<forall>(h, t) \<in> E \<union> back_edges g (subtree doms c). \<forall>d \<in> set cs. h \<notin> subtree doms d"
    using Cons.prems(3) by (auto simp: back_edges_def)
  have "\<exists>st'. process_children n k g doms pdoms ch cs st1 = Some st' \<and>
      loops_inv g doms (E \<union> back_edges g (subtree doms c) \<union> back_edges g (\<Union>c \<in> set cs. subtree doms c)) st' \<and>
      adds g (\<Union>c \<in> set cs. subtree doms c) st1 st'"
    by (rule Cons.IH [OF _ st1(2) dis]) (use Cons.prems in auto)
  moreover have "E \<union> back_edges g (subtree doms c) \<union> back_edges g (\<Union>c \<in> set cs. subtree doms c) =
      E \<union> back_edges g (\<Union>c \<in> set (c # cs). subtree doms c)" by (auto simp: back_edges_def)
  moreover have "adds g (\<Union>c \<in> set (c # cs). subtree doms c) st st'" if "adds g (\<Union>c \<in> set cs. subtree doms c) st1 st'" for st'
    using adds_trans [OF st1(3) that] sep by auto
  ultimately show ?case using st1(1) cc(1) by auto
qed

lemma ProcessBB_inv:
  assumes wf: "wf_cfg g" and pr: "pruned g" and o: "dfs_order g ids order" and t: "tree_ok g ids doms" and e: "exact g doms"
    and k: "length order < k" and post: "\<And>a b. PostDominate k g pdoms a b \<noteq> None"
  shows "doms b \<noteq> None \<Longrightarrow> nat (ids ! b) < n \<Longrightarrow> loops_inv g doms E st \<Longrightarrow> \<forall>(h, t) \<in> E. h \<notin> subtree doms b \<Longrightarrow>
    \<exists>st'. ProcessBB n k g doms pdoms (ComputeDomChildren g doms) b st = Some st' \<and>
      loops_inv g doms (E \<union> back_edges g (subtree doms b)) st' \<and> adds g (subtree doms b) st st'"
proof (induction n arbitrary: b E st)
  case (Suc n)
  let ?ch = "ComputeDomChildren g doms" and ?U = "{x. reachable g x}"
  have reach: "reachable g x" if "doms x = Some y" for x y using tree_okD(2) [OF t that] .
  have rb: "reachable g b" using Suc.prems(1) reach by blast
  have range: "x < bb_count g" "x \<noteq> commonExitBB g" "bbVec g ! x" if "reachable g x" for x
    using reachable_range [OF that wf] prunedD(1) [OF pr] by simp_all
  have U: "finite ?U" "\<And>x. x \<in> ?U \<Longrightarrow> set (GetPred g x) \<subseteq> ?U"
    using finite_reachable [OF wf] pred_pruned(1) [OF wf pr] range by auto
  have dom: "Dominate k g doms b p = Some (dominates g b p)" if "reachable g p" for p
    using Dominate_exact [OF o t e k, of b p] that by simp
  let ?E1 = "E \<union> {(h, t). h = b \<and> t \<in> set (GetPred g b) \<and> dominates g b t}"
  obtain st1 where st1: "process_preds k g doms pdoms b (GetPred g b) st = Some st1" "loops_inv g doms ?E1 st1"
    "map lhead (fst st1) = map lhead (fst st) @ replicate (latches g b) b"
  proof -
    have E0: "\<forall>(h, t) \<in> E. h = b \<or> h \<notin> subtree doms b" using Suc.prems(4) by blast
    have P: "reachable g p \<and> p \<in> ?U" if "p \<in> set (GetPred g b)" for p using U(2) [of b] rb that by blast
    show ?thesis using process_preds_inv [OF rb dom U post Suc.prems(3) E0 P] that unfolding latches_def by blast
  qed
  have chs: "set (?ch b) = {c. doms c = Some b \<and> c \<noteq> b}"
    using ComputeDomChildren_set(1) [of g doms b] reach range by blast
  have cs: "c < bb_count g \<and> doms c = Some b \<and> c \<noteq> b" if "c \<in> set (?ch b)" for c
    using that chs reach range(1) by blast
  have lt: "nat (ids ! c) < n" if "c \<in> set (?ch b)" for c
  proof -
    have c: "doms c = Some b" "c \<noteq> b" using cs [OF that] by simp_all
    have "c \<noteq> commonEntryBB g" using c tree_okD(1) [OF t] by auto
    then have "ids ! c < ids ! b" using tree_okD(4) [OF t c(1)] by blast
    then show ?thesis using Suc.prems(2) order_facts(1) [OF o reach [OF c(1)]] by linarith
  qed
  have sub: "subtree doms b = insert b (\<Union>c \<in> set (?ch b). subtree doms c)"
    using subtree_children [of doms b] Suc.prems(1) chs by simp
  have nb: "b \<notin> subtree doms c" if "c \<in> set (?ch b)" for c
    using child_not_above [OF t, of c b] cs [OF that] by (simp add: subtree_def)
  have old: "\<forall>(h, t) \<in> ?E1. \<forall>c \<in> set (?ch b). h \<notin> subtree doms c"
    using Suc.prems(4) nb unfolding sub by auto
  have "\<exists>st'. process_children n k g doms pdoms ?ch (?ch b) st1 = Some st' \<and>
      loops_inv g doms (?E1 \<union> back_edges g (\<Union>c \<in> set (?ch b). subtree doms c)) st' \<and>
      adds g (\<Union>c \<in> set (?ch b). subtree doms c) st1 st'"
  proof (rule process_children_inv [OF t _ cs ComputeDomChildren_set(2) st1(2) old])
    fix c E st assume c: "c \<in> set (?ch b)" and i: "loops_inv g doms E st" "\<forall>(h, t) \<in> E. h \<notin> subtree doms c"
    have "doms c \<noteq> None" using cs [OF c] by simp
    then show "\<exists>st'. ProcessBB n k g doms pdoms ?ch c st = Some st' \<and> loops_inv g doms (E \<union> back_edges g (subtree doms c)) st' \<and>
        adds g (subtree doms c) st st'"
      by (rule Suc.IH [OF _ lt [OF c] i])
  qed
  moreover have "?E1 \<union> back_edges g (\<Union>c \<in> set (?ch b). subtree doms c) = E \<union> back_edges g (subtree doms b)"
    unfolding sub by (auto simp: back_edges_def)
  moreover have "ProcessBB (Suc n) k g doms pdoms ?ch b st = process_children n k g doms pdoms ?ch (?ch b) st1"
    using range(2,3) [OF rb] st1(1) by simp
  moreover have "adds g (subtree doms b) st st'" if "adds g (\<Union>c \<in> set (?ch b). subtree doms c) st1 st'" for st'
  proof -
    have "adds g {b} st st1" using st1(3) unfolding adds_def
      by (intro exI [of _ "replicate (latches g b) b"]) (auto simp: count_replicate)
    moreover have "{b} \<inter> (\<Union>c \<in> set (?ch b). subtree doms c) = {}" using nb by auto
    ultimately show ?thesis using adds_trans [OF _ that, of "{b}" st] unfolding sub by simp
  qed
  ultimately show ?case by auto
qed simp

end
