(* ===== verification/LoopNest.thy ===== *)
theory LoopNest
  imports LoopSound
begin

text \<open>
  The loops of the whole function: their heads dominate their blocks, and two of them with different heads
  are disjoint or nested. Where no head has two back edges, the parent of a loop is the closest one around
  it and \<open>bbLoopParent\<close> the innermost one around a block; loops that share a head are in the order of the
  predecessors of the head instead (\<open>shared_head_nested\<close>, \<open>last_loop_of_head\<close>).
\<close>

section \<open>Natural loops\<close>

text \<open>A back edge, of a graph without unreachable blocks.\<close>

definition back_edge :: "cfg \<Rightarrow> bb \<Rightarrow> bb \<Rightarrow> bool" where
  "back_edge g h t = (reachable g h \<and> t \<in> set (GetPred g h) \<and> dominates g h t)"

lemma pred_edge:
  assumes "wf_cfg g" and "pruned g" and "reachable g b" and "p \<in> set (GetPred g b)"
  shows "reachable g p" "b \<in> set (GetSucc g p)" "b \<noteq> commonEntryBB g"
  using pred_pruned [OF assms(1,2) _ _ assms(4)] reachable_range [OF assms(3,1)] by blast+

lemma in_loop_dominated:
  assumes wf: "wf_cfg g" and pr: "pruned g" and e: "back_edge g h t"
  shows "in_loop g h t x \<Longrightarrow> reachable g x \<and> dominates g h x"
proof (induction rule: in_loop.induct)
  case Tail
  then show ?case using e pred_edge(1) [OF wf pr] by (auto simp: back_edge_def)
next
  case (Pred x p)
  then show ?case using pred_edge [OF wf pr, of x p] dominates_pred [of g h x p] by blast
qed (use e in \<open>simp add: back_edge_def\<close>)

text \<open>Every block of the loop is reached from the head within the loop.\<close>

lemma loop_forward_induct:
  assumes wf: "wf_cfg g" and pr: "pruned g" and e: "back_edge g h t" and head: "P h"
    and step: "\<And>u v. P u \<Longrightarrow> in_loop g h t u \<Longrightarrow> in_loop g h t v \<Longrightarrow> v \<in> set (GetSucc g u) \<Longrightarrow> P v"
    and x: "in_loop g h t x"
  shows "P x"
proof -
  have "cfg_path g p x \<Longrightarrow> in_loop g h t x \<Longrightarrow> h \<in> set p \<Longrightarrow> P x" for p x
  proof (induction rule: cfg_path.induct)
    case Start
    then show ?case using head by simp
  next
    case (Step p u v)
    show ?case
    proof (cases "v = h")
      case False
      have h: "h \<in> set p" using Step.prems(2) False by simp
      have he: "h \<noteq> commonEntryBB g" using e pred_edge(3) [OF wf pr] by (auto simp: back_edge_def)
      have u: "u \<noteq> commonEntryBB g"
      proof
        assume ue: "u = commonEntryBB g"
        from Step.hyps(1) show False
        proof (cases rule: cfg_path.cases)
          case Start
          then show False using h he by simp
        next
          case (Step p' u')
          have "u' < bb_count g" using reachable_range [OF path_reachable [OF Step(2)] wf] by simp
          then show False using wf_cfgD(2) [OF wf _ Step(3)] ue by blast
        qed
      qed
      have "u \<in> set (GetPred g v)"
        using wf_cfgD(3) [OF wf _ Step.hyps(2) u] reachable_range [OF path_reachable [OF Step.hyps(1)] wf] by blast
      then have "in_loop g h t u" using in_loop.Pred [OF Step.prems(1) False] by blast
      then show ?thesis using step [OF Step.IH [OF _ h] _ Step.prems(1) Step.hyps(2)] by blast
    qed (use head in simp)
  qed
  moreover obtain p where "cfg_path g p x" using reachable_path in_loop_dominated [OF wf pr e x] by blast
  moreover have "dominates g h x" using in_loop_dominated [OF wf pr e x] by blast
  ultimately show ?thesis using x unfolding dominates_def by blast
qed

lemma path_in_loop:
  assumes wf: "wf_cfg g" and pr: "pruned g" and e: "back_edge g h t" and q: "cfg_path g q h"
  shows "in_loop g h t x \<Longrightarrow> \<exists>r. cfg_path g (q @ r) x \<and> (\<forall>y \<in> set r. in_loop g h t y)"
proof (erule loop_forward_induct [OF wf pr e, rotated 2])
  show "\<exists>r. cfg_path g (q @ r) h \<and> (\<forall>y \<in> set r. in_loop g h t y)" using q by (intro exI [of _ "[]"]) simp
next
  fix u v assume "\<exists>r. cfg_path g (q @ r) u \<and> (\<forall>y \<in> set r. in_loop g h t y)" and v: "in_loop g h t v" "v \<in> set (GetSucc g u)"
  then obtain r where "cfg_path g (q @ r) u" "\<forall>y \<in> set r. in_loop g h t y" by blast
  then show "\<exists>r. cfg_path g (q @ r) v \<and> (\<forall>y \<in> set r. in_loop g h t y)"
    using cfg_path.Step [OF _ v(2), of "q @ r"] v(1) by (intro exI [of _ "r @ [v]"]) simp
qed

lemma loops_nest:
  assumes wf: "wf_cfg g" and pr: "pruned g" and e: "back_edge g h t" and e': "back_edge g h' t'"
    and x: "in_loop g h t x" "in_loop g h' t' x" and n: "\<not> dominates g h' h"
  shows "in_loop g h' t' y \<Longrightarrow> in_loop g h t y"
proof -
  obtain q where q: "cfg_path g q h" "h' \<notin> set q" using n by (auto simp: dominates_def)
  obtain r where r: "cfg_path g (q @ r) x" "\<forall>y \<in> set r. in_loop g h t y"
    using path_in_loop [OF wf pr e q(1) x(1)] by blast
  have "h' \<in> set (q @ r)" using in_loop_dominated [OF wf pr e' x(2)] r(1) unfolding dominates_def by blast
  then have head: "in_loop g h t h'" using q(2) r(2) by auto
  have ne: "z \<noteq> h" if "in_loop g h' t' z" for z using in_loop_dominated [OF wf pr e' that] n by auto
  show "in_loop g h' t' y \<Longrightarrow> in_loop g h t y"
  proof (induction rule: in_loop.induct)
    case Tail
    have "t' \<in> set (GetPred g h')" using e' by (simp add: back_edge_def)
    then show ?case using in_loop.Pred [OF head] ne [OF in_loop.Head] by blast
  next
    case (Pred z p)
    then show ?case using in_loop.Pred [OF Pred.IH] ne by blast
  qed (rule head)
qed

section \<open>All loops\<close>

text \<open>
  What \<open>meLoops\<close> and \<open>bbLoopParent\<close> say: the loops have the blocks of the natural loops of all back edges, as
  many for a head as it has back edges, and an inner loop comes after the loops with other heads around it.
\<close>

definition loops_found :: "cfg \<Rightarrow> loop_desc list \<Rightarrow> (bb \<Rightarrow> nat option) \<Rightarrow> bool" where
  "loops_found g ls lp = (
     (\<lambda>l. (lhead l, ltail l)) ` set ls = {(h, t). back_edge g h t} \<and>
     (\<forall>l \<in> set ls. blocks l = {x. in_loop g (lhead l) (ltail l) x} \<and> fresh l) \<and>
     innermost_ok ls lp \<and> (\<forall>j < length ls. parent_ok ls j) \<and>
     (\<forall>j < length ls. \<forall>i < j. lhead (ls ! i) = lhead (ls ! j) \<or> \<not> dominates g (lhead (ls ! j)) (lhead (ls ! i))) \<and>
     (\<forall>h. count_list (map lhead ls) h \<le> latches g h))"

lemma identify_found:
  assumes clean: "clean_cfg g" and d: "MEDominance g = Some d"
  shows "\<exists>ls lp. identify g d = Some (ls, lp) \<and> loops_found g ls lp"
proof -
  let ?n = "bb_count g" and ?e = "commonEntryBB g" and ?doms = "dom_doms d"
  have wf: "wf_cfg g" and pr: "pruned g" using clean by (simp_all add: clean_cfg_def)
  note dd = MEDominanceD [OF d refl]
  obtain ids os where os: "dom_order d = (ids, os)" "dfs_order g ids os"
    using GenPostOrderID_order [OF wf, of "?n + 1"] dd(1) by auto
  have t: "tree_ok g ids ?doms" and e: "exact g ?doms" using ComputeDominance_exact [OF wf os(2)] dd(2) os(1) by fastforce+
  have k: "length os < ?n + 1" using length_order [OF wf os(2)] by simp
  have post: "PostDominate (?n + 1) g (pdom_doms d) a b \<noteq> None" for a b using MEDominance_answers(2) [OF clean d refl] by simp
  have inv: "loops_inv g ?doms {} ([], \<lambda>_. None)" by (simp add: loops_inv_def innermost_ok_def)
  have "nat (ids ! ?e) < ?n + 1" using order_facts(2) [OF os(2) reachable.Entry] k by linarith
  moreover have "?doms ?e \<noteq> None" using tree_okD(1) [OF t] by simp
  ultimately obtain st where st: "ProcessBB (?n + 1) (?n + 1) g ?doms (pdom_doms d) (ComputeDomChildren g ?doms) ?e ([], \<lambda>_. None) = Some st"
    "loops_inv g ?doms ({} \<union> back_edges g (subtree ?doms ?e)) st" "adds g (subtree ?doms ?e) ([], \<lambda>_. None) st"
    using ProcessBB_inv [OF wf pr os(2) t e k post _ _ inv] by blast
  have sub: "subtree ?doms a = {b. reachable g b \<and> dominates g a b}" for a by (rule dominator_subtree [OF t e])
  have edges: "back_edges g (subtree ?doms ?e) = {(h, t). back_edge g h t}"
    using dominates_entry by (auto simp: sub back_edges_def back_edge_def)
  obtain ls lp where ls: "st = (ls, lp)" by (cases st)
  have inv: "loops_inv g ?doms {(h, t). back_edge g h t} (ls, lp)" using st(2) edges ls by simp
  have "reachable g (lhead (ls ! i))" if "i < length ls" for i
    using inv nth_mem [OF that] unfolding loops_inv_def by fastforce
  moreover have "\<forall>h. count_list (map lhead ls) h \<le> latches g h" using st(3) ls by (auto simp: adds_def)
  ultimately have "loops_found g ls lp" using inv unfolding loops_found_def loops_inv_def sub by auto
  then show ?thesis using st(1) ls dd(3) unfolding identify_def Let_def by auto
qed

lemma found_nested:
  assumes wf: "wf_cfg g" and pr: "pruned g" and f: "loops_found g ls lp" and ij: "i < j" "j < length ls"
    and h: "lhead (ls ! i) \<noteq> lhead (ls ! j)" and x: "x \<in> blocks (ls ! i) \<inter> blocks (ls ! j)"
  shows "blocks (ls ! j) \<subseteq> blocks (ls ! i)"
proof -
  have m: "ls ! i \<in> set ls" "ls ! j \<in> set ls" using ij by simp_all
  have b: "blocks l = {x. in_loop g (lhead l) (ltail l) x}" "back_edge g (lhead l) (ltail l)" if "l \<in> set ls" for l
    using f that unfolding loops_found_def by blast+
  have "\<not> dominates g (lhead (ls ! j)) (lhead (ls ! i))" using f ij h unfolding loops_found_def by blast
  then show ?thesis using loops_nest [OF wf pr b(2) [OF m(1)] b(2) [OF m(2)]] x unfolding b(1) [OF m(1)] b(1) [OF m(2)] by blast
qed

lemma found_order:
  assumes wf: "wf_cfg g" and pr: "pruned g" and f: "loops_found g ls lp" and ij: "i < length ls" "j < length ls"
    and h: "lhead (ls ! i) \<noteq> lhead (ls ! j)" and s: "blocks (ls ! j) \<subseteq> blocks (ls ! i)"
  shows "i < j"
proof (rule ccontr)
  assume "\<not> i < j"
  then have lt: "j < i" using h by (metis linorder_neqE_nat)
  have m: "ls ! i \<in> set ls" "ls ! j \<in> set ls" using ij by simp_all
  have b: "blocks l = {x. in_loop g (lhead l) (ltail l) x}" "back_edge g (lhead l) (ltail l)" if "l \<in> set ls" for l
    using f that unfolding loops_found_def by blast+
  have "in_loop g (lhead (ls ! i)) (ltail (ls ! i)) (lhead (ls ! j))"
    using s in_loop.Head unfolding b(1) [OF m(1)] b(1) [OF m(2)] by blast
  then have "dominates g (lhead (ls ! i)) (lhead (ls ! j))" using in_loop_dominated [OF wf pr b(2) [OF m(1)]] by blast
  then show False using f lt ij(1) h unfolding loops_found_def by metis
qed

lemma found_parent:
  assumes wf: "wf_cfg g" and pr: "pruned g" and f: "loops_found g ls lp" and j: "j < length ls"
  shows "case lparent (ls ! j) of
      None \<Rightarrow> nestDepth (ls ! j) = 0 \<and> (\<forall>i < length ls. blocks (ls ! j) \<subseteq> blocks (ls ! i) \<longrightarrow> lhead (ls ! i) = lhead (ls ! j))
    | Some p \<Rightarrow> p < j \<and> nestDepth (ls ! j) = nestDepth (ls ! p) + 1 \<and>
        (lhead (ls ! p) = lhead (ls ! j) \<or> blocks (ls ! j) \<subset> blocks (ls ! p)) \<and>
        (\<forall>i < length ls. blocks (ls ! j) \<subseteq> blocks (ls ! i) \<and> lhead (ls ! i) \<noteq> lhead (ls ! j) \<longrightarrow>
           lhead (ls ! i) = lhead (ls ! p) \<or> blocks (ls ! p) \<subseteq> blocks (ls ! i))"
proof -
  have ok: "parent_ok ls j" and bl: "blocks (ls ! i) = {x. in_loop g (lhead (ls ! i)) (ltail (ls ! i)) x}" if "i < length ls" for i
    using f j that unfolding loops_found_def by auto
  have head: "lhead (ls ! i) \<in> blocks (ls ! i)" if "i < length ls" for i unfolding bl [OF that] using in_loop.Head by blast
  show ?thesis
  proof (cases "lparent (ls ! j)")
    case None
    then have d: "nestDepth (ls ! j) = 0" "\<forall>i < j. blocks (ls ! i) \<inter> blocks (ls ! j) = {}" using ok [OF j] by (simp_all add: parent_ok_def)
    have "lhead (ls ! i) = lhead (ls ! j)" if i: "i < length ls" "blocks (ls ! j) \<subseteq> blocks (ls ! i)" for i
    proof (rule ccontr)
      assume "lhead (ls ! i) \<noteq> lhead (ls ! j)"
      then have "i < j" using found_order [OF wf pr f i(1) j _ i(2)] by blast
      then show False using d(2) i(2) head [OF j] by blast
    qed
    then show ?thesis using None d(1) by simp
  next
    case (Some p)
    then obtain b where p: "p < j" "nestDepth (ls ! j) = nestDepth (ls ! p) + 1" "b \<in> blocks (ls ! p) \<inter> blocks (ls ! j)"
      "\<forall>i < j. b \<in> blocks (ls ! i) \<longrightarrow> i \<le> p" using ok [OF j] by (auto simp: parent_ok_def)
    have pl: "p < length ls" using p(1) j by simp
    have "blocks (ls ! j) \<subset> blocks (ls ! p)" if h: "lhead (ls ! p) \<noteq> lhead (ls ! j)"
    proof -
      have s: "blocks (ls ! j) \<subseteq> blocks (ls ! p)" by (rule found_nested [OF wf pr f p(1) j h p(3)])
      have "blocks (ls ! j) \<noteq> blocks (ls ! p)" using found_order [OF wf pr f j pl] h p(1) by fastforce
      then show ?thesis using s by blast
    qed
    moreover have "lhead (ls ! i) = lhead (ls ! p) \<or> blocks (ls ! p) \<subseteq> blocks (ls ! i)"
      if i: "i < length ls" "blocks (ls ! j) \<subseteq> blocks (ls ! i)" "lhead (ls ! i) \<noteq> lhead (ls ! j)" for i
    proof -
      have "i < j" using found_order [OF wf pr f i(1) j i(3) i(2)] .
      then have "i \<le> p" using p(3,4) i(2) by blast
      then show ?thesis using found_nested [OF wf pr f _ pl, of i b] p(3) i(2) by (cases "i = p") auto
    qed
    ultimately show ?thesis using Some p(1,2) by auto
  qed
qed

text \<open>Functions in which no block is the target of two back edges, as loop canonicalisation leaves them.\<close>

definition single_latch :: "cfg \<Rightarrow> bool" where
  "single_latch g = (\<forall>h < bb_count g. length (filter (dominates g h) (GetPred g h)) \<le> 1)"

lemma count_list_distinct: "\<forall>x. count_list xs x \<le> Suc 0 \<Longrightarrow> distinct xs"
proof (induction xs)
  case (Cons a xs)
  have "count_list xs a = 0" using Cons.prems [rule_format, of a] by simp
  moreover have "count_list xs x \<le> Suc 0" for x using Cons.prems [rule_format, of x] by (cases "a = x") simp_all
  ultimately show ?case using Cons.IH by (simp add: count_list_0_iff)
qed simp

lemma found_heads:
  assumes wf: "wf_cfg g" and f: "loops_found g ls lp" and s: "single_latch g" and ij: "i < length ls" "j < length ls"
  shows "lhead (ls ! i) = lhead (ls ! j) \<longleftrightarrow> i = j"
proof -
  have "count_list (map lhead ls) h \<le> Suc 0" for h
  proof (cases "h < bb_count g")
    case True
    then show ?thesis using f s unfolding loops_found_def single_latch_def latches_def by (metis One_nat_def le_trans)
  next
    case False
    have "back_edge g (lhead l) (ltail l)" if "l \<in> set ls" for l using f that unfolding loops_found_def by auto
    then have "h \<notin> set (map lhead ls)" using reachable_range [OF _ wf] False unfolding back_edge_def by auto
    then show ?thesis by (simp add: count_list_0_iff [symmetric])
  qed
  then have "\<forall>h. count_list (map lhead ls) h \<le> Suc 0" by blast
  then have "distinct (map lhead ls)" by (rule count_list_distinct)
  then show ?thesis using ij by (auto simp: distinct_conv_nth)
qed

text \<open>The loops that properly contain a loop are its parent and those that properly contain the parent.\<close>

lemma found_depth:
  assumes wf: "wf_cfg g" and pr: "pruned g" and f: "loops_found g ls lp" and s: "single_latch g"
  shows "j < length ls \<Longrightarrow> nestDepth (ls ! j) = card {i. i < length ls \<and> blocks (ls ! j) \<subset> blocks (ls ! i)}"
proof (induction j rule: less_induct)
  case (less j)
  note P = found_parent [OF wf pr f less.prems]
  note heads = found_heads [OF wf f s]
  show ?case
  proof (cases "lparent (ls ! j)")
    case None
    then have "nestDepth (ls ! j) = 0" "{i. i < length ls \<and> blocks (ls ! j) \<subset> blocks (ls ! i)} = {}"
      using P heads [OF _ less.prems] by auto
    then show ?thesis by simp
  next
    case (Some p)
    have p: "p < j" "nestDepth (ls ! j) = nestDepth (ls ! p) + 1" "blocks (ls ! j) \<subset> blocks (ls ! p)"
      using P Some heads [of p j] less.prems by auto
    have pl: "p < length ls" using p(1) less.prems by simp
    have up: "i = p \<or> blocks (ls ! p) \<subset> blocks (ls ! i)" if i: "i < length ls" "blocks (ls ! j) \<subset> blocks (ls ! i)" for i
    proof (cases "i = p")
      case False
      have "lhead (ls ! i) \<noteq> lhead (ls ! j)" "lhead (ls ! i) \<noteq> lhead (ls ! p)" using i heads [OF i(1)] less.prems pl False by auto
      then have "blocks (ls ! p) \<subseteq> blocks (ls ! i)" using P Some i by auto
      moreover have "blocks (ls ! p) \<noteq> blocks (ls ! i)"
        using found_order [OF wf pr f i(1) pl] found_order [OF wf pr f pl i(1)] \<open>lhead (ls ! i) \<noteq> lhead (ls ! p)\<close> by fastforce
      ultimately show ?thesis by blast
    qed simp
    have "{i. i < length ls \<and> blocks (ls ! j) \<subset> blocks (ls ! i)} =
        insert p {i. i < length ls \<and> blocks (ls ! p) \<subset> blocks (ls ! i)}" (is "?J = insert p ?P")
    proof
      show "?J \<subseteq> insert p ?P"
      proof
        fix i assume "i \<in> ?J"
        then show "i \<in> insert p ?P" using up [of i] by auto
      qed
      have "i \<in> ?J" if "i \<in> ?P" for i using that psubset_trans [OF p(3)] by simp
      then show "insert p ?P \<subseteq> ?J" using p(3) pl by (intro insert_subsetI subsetI) simp_all
    qed
    then show ?thesis using less.IH [OF p(1) pl] p(2) by simp
  qed
qed

section \<open>The theorems\<close>

text \<open>
  C10. With the trees of the dominance phase \<open>ProcessBB\<close> from the common entry ends without following a null
  pointer. The heads and tails of the loops it records are exactly the
  back edges, the blocks of a loop are those that reach the tail without passing the head, and
  \<open>bbLoopParent\<close> gives for a block the loop found last of those that contain it, and none when none does. Where
  no block is the target of two back edges (\<open>single_latch\<close>) that is the innermost one: it lies within every
  loop that contains the block. Of loops that share a head it need not be (\<open>last_loop_of_head\<close>).
\<close>

theorem ProcessBB_loops:
  assumes "clean_cfg g" and "MEDominance g = Some d"
  shows "\<exists>ls lp. identify g d = Some (ls, lp) \<and>
    (\<lambda>l. (lhead l, ltail l)) ` set ls = {(h, t). reachable g h \<and> t \<in> set (GetPred g h) \<and> dominates g h t} \<and>
    (\<forall>l \<in> set ls. set (loopBBs l) = {x. in_loop g (lhead l) (ltail l) x}) \<and>
    (\<forall>b. case lp b of
        None \<Rightarrow> \<forall>l \<in> set ls. b \<notin> set (loopBBs l)
      | Some j \<Rightarrow> j < length ls \<and> b \<in> set (loopBBs (ls ! j)) \<and>
          (\<forall>i < length ls. b \<in> set (loopBBs (ls ! i)) \<longrightarrow> i \<le> j) \<and>
          (single_latch g \<longrightarrow> (\<forall>l \<in> set ls. b \<in> set (loopBBs l) \<longrightarrow> set (loopBBs (ls ! j)) \<subseteq> set (loopBBs l))))"
proof -
  have wf: "wf_cfg g" "pruned g" using assms(1) by (simp_all add: clean_cfg_def)
  obtain ls lp where r: "identify g d = Some (ls, lp)" and f: "loops_found g ls lp" using identify_found [OF assms] by blast
  have inn: "innermost_ok ls lp" using f by (simp add: loops_found_def)
  have "case lp b of
        None \<Rightarrow> \<forall>l \<in> set ls. b \<notin> blocks l
      | Some j \<Rightarrow> j < length ls \<and> b \<in> blocks (ls ! j) \<and> (\<forall>i < length ls. b \<in> blocks (ls ! i) \<longrightarrow> i \<le> j) \<and>
          (single_latch g \<longrightarrow> (\<forall>l \<in> set ls. b \<in> blocks l \<longrightarrow> blocks (ls ! j) \<subseteq> blocks l))" for b
  proof (cases "lp b")
    case None
    then show ?thesis using innermost_okD(2) [OF inn None] by (simp add: all_set_conv_all_nth)
  next
    case (Some j)
    note j = innermost_okD(1) [OF inn Some]
    have "blocks (ls ! j) \<subseteq> blocks (ls ! i)" if "single_latch g" "i < length ls" "b \<in> blocks (ls ! i)" for i
    proof (cases "i = j")
      case False
      then have "i < j" "lhead (ls ! i) \<noteq> lhead (ls ! j)"
        using j that found_heads [OF wf(1) f that(1,2)] by (auto simp: le_less)
      then show ?thesis using found_nested [OF wf f, of i j b] j that(3) by blast
    qed simp
    then show ?thesis using Some j by (simp add: all_set_conv_all_nth)
  qed
  moreover have "(\<lambda>l. (lhead l, ltail l)) ` set ls = {(h, t). reachable g h \<and> t \<in> set (GetPred g h) \<and> dominates g h t}"
    using f by (simp add: loops_found_def back_edge_def)
  moreover have "\<forall>l \<in> set ls. blocks l = {x. in_loop g (lhead l) (ltail l) x}" using f unfolding loops_found_def by blast
  ultimately show ?thesis using r by (intro exI conjI allI)
qed

text \<open>
  C14. Parents and depths of loops in a function where no block is the target of two back edges
  (\<open>single_latch\<close>). The parent of a loop comes before it in \<open>meLoops\<close>, properly contains it, and lies within
  every other loop that properly contains it; a loop without parent lies within no other loop; and
  \<open>nestDepth\<close> is the number of loops that properly contain the loop. Without the condition the parent can
  be a loop with the same head that lies inside (\<open>shared_head_nested\<close>).
\<close>

theorem loop_parents:
  assumes "clean_cfg g" and "MEDominance g = Some d" and "single_latch g"
    and "identify g d = Some (ls, lp)" and "j < length ls"
  shows "nestDepth (ls ! j) = card {i. i < length ls \<and> set (loopBBs (ls ! j)) \<subset> set (loopBBs (ls ! i))} \<and>
    (case lparent (ls ! j) of
      None \<Rightarrow> \<forall>i < length ls. set (loopBBs (ls ! j)) \<subseteq> set (loopBBs (ls ! i)) \<longrightarrow> i = j
    | Some p \<Rightarrow> p < j \<and> set (loopBBs (ls ! j)) \<subset> set (loopBBs (ls ! p)) \<and>
        (\<forall>i < length ls. set (loopBBs (ls ! j)) \<subset> set (loopBBs (ls ! i)) \<longrightarrow> set (loopBBs (ls ! p)) \<subseteq> set (loopBBs (ls ! i))))"
proof -
  have wf: "wf_cfg g" "pruned g" using assms(1) by (simp_all add: clean_cfg_def)
  have f: "loops_found g ls lp" using identify_found [OF assms(1,2)] assms(4) by auto
  note P = found_parent [OF wf f assms(5)] and heads = found_heads [OF wf(1) f assms(3)]
  have "case lparent (ls ! j) of
      None \<Rightarrow> \<forall>i < length ls. blocks (ls ! j) \<subseteq> blocks (ls ! i) \<longrightarrow> i = j
    | Some p \<Rightarrow> p < j \<and> blocks (ls ! j) \<subset> blocks (ls ! p) \<and>
        (\<forall>i < length ls. blocks (ls ! j) \<subset> blocks (ls ! i) \<longrightarrow> blocks (ls ! p) \<subseteq> blocks (ls ! i))"
  proof (cases "lparent (ls ! j)")
    case None
    then show ?thesis using P heads [OF _ assms(5)] by auto
  next
    case (Some p)
    have p: "p < j" "p < length ls" "blocks (ls ! j) \<subset> blocks (ls ! p)" using P Some heads [of p j] assms(5) by auto
    have "blocks (ls ! p) \<subseteq> blocks (ls ! i)" if i: "i < length ls" "blocks (ls ! j) \<subset> blocks (ls ! i)" for i
    proof (cases "i = p")
      case False
      have "lhead (ls ! i) \<noteq> lhead (ls ! j)" "lhead (ls ! i) \<noteq> lhead (ls ! p)" using i heads [OF i(1)] assms(5) p(2) False by auto
      then show ?thesis using P Some i by auto
    qed simp
    then show ?thesis using Some p by simp
  qed
  then show ?thesis using found_depth [OF wf f assms(3,5)] by simp
qed

text \<open>
  Of the loops with one head that contain a block, \<open>bbLoopParent\<close> takes the one found last, which is the
  one of the last predecessor of the head and not the smallest.
\<close>

lemma last_loop_of_head:
  assumes "clean_cfg g" and "MEDominance g = Some d" and "identify g d = Some (ls, lp)"
    and ij: "i < j" "j < length ls" and h: "lhead (ls ! i) = lhead (ls ! j)" and b: "b \<in> blocks (ls ! i) \<inter> blocks (ls ! j)"
  shows "lp b \<noteq> Some i"
proof -
  have "innermost_ok ls lp" using identify_found [OF assms(1,2)] assms(3) by (auto simp: loops_found_def)
  from innermost_okD(1) [OF this, of b i] show ?thesis using ij b by (metis Int_iff not_le)
qed

text \<open>
  Two back edges to one head make two loops that share it; the second gets a parent and is one deeper,
  whatever their other blocks are.
\<close>

lemma shared_head_nested:
  assumes "clean_cfg g" and "MEDominance g = Some d" and "identify g d = Some (ls, lp)"
    and ij: "i < j" "j < length ls" and h: "lhead (ls ! i) = lhead (ls ! j)"
  shows "lparent (ls ! j) \<noteq> None \<and> 0 < nestDepth (ls ! j)"
proof -
  have f: "loops_found g ls lp" using identify_found [OF assms(1,2)] assms(3) by auto
  have head: "lhead l \<in> blocks l" if "l \<in> set ls" for l using f that unfolding loops_found_def by (auto intro: in_loop.Head)
  have "parent_ok ls j" using f ij unfolding loops_found_def by blast
  moreover have "lhead (ls ! j) \<in> blocks (ls ! i) \<inter> blocks (ls ! j)"
    using head [of "ls ! i"] head [of "ls ! j"] h ij by simp
  ultimately show ?thesis using ij(1) unfolding parent_ok_def by (auto split: option.splits)
qed

text \<open>Two nested loops, from 6 to 3 and from 5 to 4.\<close>

definition nest_cfg :: cfg where
  "nest_cfg = \<lparr>bbVec = replicate 8 True,
     GetSucc = (\<lambda>b. [[2], [], [3], [4], [5], [4, 6], [3, 7], []] ! b),
     GetPred = (\<lambda>b. [[], [7], [], [2, 6], [3, 5], [4], [5], [6]] ! b),
     commonEntryBB = 0, commonExitBB = 1, is_exit = (\<lambda>b. b = 7)\<rparr>"

lemma pruned_order:
  assumes "wf_cfg g" and "GenPostOrderID (bb_count g + 1) g = Some (ids, order)"
    and "\<forall>b < bb_count g. if b = commonExitBB g then GetSucc g b = [] else bbVec g ! b \<and> b \<in> set order"
  shows "pruned g"
proof -
  have "set order = {b. reachable g b}"
    using GenPostOrderID_order [OF assms(1), of "bb_count g + 1"] assms(2) by (auto simp: dfs_order_def)
  then show ?thesis using assms(3) unfolding pruned_def by auto
qed

lemma nest_cfg_wf: "wf_cfg nest_cfg"
  by code_simp

lemma nest_cfg_rev: "wf_cfg (rev_cfg nest_cfg)"
  by code_simp

lemma wf_exitsI:
  assumes "wf_cfg (rev_cfg g)" and "\<And>b. b < bb_count g \<Longrightarrow> bbVec g ! b"
    and "\<And>b. b < bb_count g \<Longrightarrow> b \<noteq> commonExitBB g \<Longrightarrow> is_exit g b = (b \<in> set (GetPred g (commonExitBB g)))"
  shows "wf_exits g"
  using assms wf_cfgD(1,2) [OF assms(1)] by (auto simp: wf_exits_def exits_agree_def)

lemma nest_cfg_exits: "wf_exits nest_cfg"
  by (rule wf_exitsI [OF nest_cfg_rev]) (simp_all add: nest_cfg_def)

lemma nest_cfg_pruned: "pruned nest_cfg"
proof (rule pruned_order [OF nest_cfg_wf])
  show "GenPostOrderID (bb_count nest_cfg + 1) nest_cfg = Some ([6, -1, 5, 4, 3, 2, 1, 0], [0, 2, 3, 4, 5, 6, 7])" by code_simp
  show "\<forall>b < bb_count nest_cfg. if b = commonExitBB nest_cfg then GetSucc nest_cfg b = []
      else bbVec nest_cfg ! b \<and> b \<in> set [0, 2, 3, 4, 5, 6, 7]" by code_simp
qed

lemma nest_cfg_rev_pruned: "pruned (rev_cfg nest_cfg)"
proof (rule pruned_order [OF nest_cfg_rev])
  show "GenPostOrderID (bb_count (rev_cfg nest_cfg) + 1) (rev_cfg nest_cfg) =
    Some ([-1, 6, 0, 1, 2, 3, 4, 5], [1, 7, 6, 5, 4, 3, 2])" by code_simp
  show "\<forall>b < bb_count (rev_cfg nest_cfg). if b = commonExitBB (rev_cfg nest_cfg) then GetSucc (rev_cfg nest_cfg) b = []
      else bbVec (rev_cfg nest_cfg) ! b \<and> b \<in> set [1, 7, 6, 5, 4, 3, 2]" by code_simp
qed

lemma nest_cfg_clean: "clean_cfg nest_cfg"
  using nest_cfg_wf nest_cfg_exits nest_cfg_pruned nest_cfg_rev_pruned by (simp add: clean_cfg_def)

lemma nest_dominates:
  assumes "h \<in> {3, 4}" "cfg_path nest_cfg p b" "h \<le> b"
  shows "h \<in> set p"
  using assms(2,3)
proof (induction rule: cfg_path.induct)
  case Start
  then show ?case using assms(1) by (auto simp: nest_cfg_def)
next
  case (Step p u v)
  show ?case
  proof (cases "v = h")
    case False
    have "u < 8" using reachable_range [OF path_reachable [OF Step.hyps(1)] nest_cfg_wf] by (simp add: nest_cfg_def)
    then have "u \<in> {0, 1, 2, 3, 4, 5, 6, 7}" by auto
    then have "h \<le> u" using Step.hyps(2) Step.prems False assms(1) by (auto simp: nest_cfg_def)
    then show ?thesis using Step.IH by simp
  qed simp
qed

lemma nest_reachable: "b < 8 \<Longrightarrow> b \<noteq> 1 \<Longrightarrow> reachable nest_cfg b"
  using prunedD(2) [OF nest_cfg_pruned, of b] by (simp add: nest_cfg_def)

lemma nest_back_edges: "back_edge nest_cfg 3 6" "back_edge nest_cfg 4 5"
  using nest_dominates [of 3 _ 6] nest_dominates [of 4 _ 5] nest_reachable [of 3] nest_reachable [of 4]
  by (simp_all add: back_edge_def dominates_def) (simp_all add: nest_cfg_def)

theorem ProcessBB_loops_witness:
  "\<exists>d ls lp. MEDominance nest_cfg = Some d \<and> identify nest_cfg d = Some (ls, lp) \<and>
    {(3, 6), (4, 5)} \<subseteq> (\<lambda>l. (lhead l, ltail l)) ` set ls \<and>
    (\<forall>l \<in> set ls. set (loopBBs l) = {x. in_loop nest_cfg (lhead l) (ltail l) x})"
proof -
  obtain d where d: "MEDominance nest_cfg = Some d" using MEDominance_runs [OF nest_cfg_clean] by blast
  show ?thesis using ProcessBB_loops [OF nest_cfg_clean d] d nest_back_edges unfolding back_edge_def by auto
qed

text \<open>The inner loop has a parent, since the outer one contains it.\<close>

lemma nest_inner: "in_loop nest_cfg 4 5 x \<Longrightarrow> in_loop nest_cfg 3 6 x"
proof -
  have 5: "in_loop nest_cfg 3 6 5" by (rule in_loop.Pred [OF in_loop.Tail]) (simp_all add: nest_cfg_def)
  have 4: "in_loop nest_cfg 3 6 4" by (rule in_loop.Pred [OF 5]) (simp_all add: nest_cfg_def)
  have "cfg_path nest_cfg [0] 0" using cfg_path.Start [of nest_cfg] by (simp add: nest_cfg_def)
  then have "cfg_path nest_cfg ([0] @ [2]) 2" by (rule cfg_path.Step) (simp add: nest_cfg_def)
  then have "cfg_path nest_cfg (([0] @ [2]) @ [3]) 3" by (rule cfg_path.Step) (simp add: nest_cfg_def)
  then have "\<not> dominates nest_cfg 4 3" unfolding dominates_def by fastforce
  then show "in_loop nest_cfg 4 5 x \<Longrightarrow> in_loop nest_cfg 3 6 x"
    by (rule loops_nest [OF nest_cfg_wf nest_cfg_pruned nest_back_edges 4 in_loop.Head])
qed

lemma nest_single_latch: "single_latch nest_cfg"
  unfolding single_latch_def
proof (intro allI impI)
  fix h assume "h < bb_count nest_cfg"
  then have h: "h \<in> {0, 1, 2, 3, 4, 5, 6, 7}" by (auto simp: nest_cfg_def)
  have path: "cfg_path nest_cfg [0, 2] 2"
    using cfg_path.Step [OF cfg_path.Start [of nest_cfg], of 2] by (simp add: nest_cfg_def)
  then have 3: "\<not> dominates nest_cfg 3 2" unfolding dominates_def by fastforce
  have "cfg_path nest_cfg ([0, 2] @ [3]) 3" using path by (rule cfg_path.Step) (simp add: nest_cfg_def)
  then have 4: "\<not> dominates nest_cfg 4 3" unfolding dominates_def by fastforce
  show "length (filter (dominates nest_cfg h) (GetPred nest_cfg h)) \<le> 1"
    using h 3 4 by (auto simp: nest_cfg_def)
qed

theorem loop_parents_witness:
  "\<exists>d ls lp j p. MEDominance nest_cfg = Some d \<and> identify nest_cfg d = Some (ls, lp) \<and> j < length ls \<and> lhead (ls ! j) = 4 \<and>
    lparent (ls ! j) = Some p \<and> p < j \<and> set (loopBBs (ls ! j)) \<subset> set (loopBBs (ls ! p)) \<and> 0 < nestDepth (ls ! j)"
proof -
  obtain d ls lp where d: "MEDominance nest_cfg = Some d" and ls: "identify nest_cfg d = Some (ls, lp)" and f: "loops_found nest_cfg ls lp"
    using MEDominance_runs [OF nest_cfg_clean] identify_found [OF nest_cfg_clean] by blast
  have "(3, 6) \<in> (\<lambda>l. (lhead l, ltail l)) ` set ls" "(4, 5) \<in> (\<lambda>l. (lhead l, ltail l)) ` set ls"
    using f nest_back_edges unfolding loops_found_def by auto
  then obtain outer inner where o: "outer \<in> set ls" "lhead outer = 3" "ltail outer = 6"
    and i: "inner \<in> set ls" "lhead inner = 4" "ltail inner = 5" by force
  obtain j where jl: "j < length ls" "ls ! j = inner" using i(1) by (auto simp: in_set_conv_nth)
  have j: "j < length ls" "lhead (ls ! j) = 4" "ltail (ls ! j) = 5" using jl i(2,3) by simp_all
  have b: "blocks l = {x. in_loop nest_cfg (lhead l) (ltail l) x}" if "l \<in> set ls" for l using f that unfolding loops_found_def by blast
  have sub: "blocks (ls ! j) \<subseteq> blocks outer" unfolding b [OF o(1)] b [OF nth_mem [OF j(1)]] using o(2,3) j(2,3) nest_inner by auto
  have "lparent (ls ! j) \<noteq> None"
  proof
    assume "lparent (ls ! j) = None"
    then have alone: "\<forall>i < length ls. blocks (ls ! j) \<subseteq> blocks (ls ! i) \<longrightarrow> i = j"
      using loop_parents [OF nest_cfg_clean d nest_single_latch ls j(1)] by simp
    obtain i where "i < length ls" "ls ! i = outer" using o(1) by (auto simp: in_set_conv_nth)
    then show False using sub o(2) j(2) alone by auto
  qed
  then obtain p where p: "lparent (ls ! j) = Some p" by blast
  have "p < j \<and> blocks (ls ! j) \<subset> blocks (ls ! p) \<and>
      nestDepth (ls ! j) = card {i. i < length ls \<and> blocks (ls ! j) \<subset> blocks (ls ! i)}"
    using loop_parents [OF nest_cfg_clean d nest_single_latch ls j(1)] p by simp
  moreover from this have "p \<in> {i. i < length ls \<and> blocks (ls ! j) \<subset> blocks (ls ! i)}" using j(1) by simp
  then have "0 < card {i. i < length ls \<and> blocks (ls ! j) \<subset> blocks (ls ! i)}" by (auto simp: card_gt_0_iff)
  ultimately have "p < j \<and> blocks (ls ! j) \<subset> blocks (ls ! p) \<and> 0 < nestDepth (ls ! j)" by simp
  then show ?thesis using d ls j(1,2) p by blast
qed

end
