(* ===== verification/LoopExit.thy ===== *)
theory LoopExit
  imports LoopNest
begin

text \<open>
  The exits of a loop, its preheader and its latch: what \<open>InsertExitBB\<close> and \<open>ProcessPreheaderAndLatch\<close>
  leave in a \<open>LoopDesc\<close>, and what a canonical loop is.
\<close>

section \<open>The walk to the exits\<close>

text \<open>The exits recorded for block \<open>b\<close> are the blocks \<open>A\<close>.\<close>

definition exits_are :: "loop_desc \<Rightarrow> bb \<Rightarrow> bb set \<Rightarrow> bool" where
  "exits_are loop b A = (case inloopBB2exitBBs loop b of None \<Rightarrow> A = {} | Some vs \<Rightarrow> vs \<noteq> [] \<and> distinct vs \<and> set vs = A)"

definition same_but_exits :: "loop_desc \<Rightarrow> loop_desc \<Rightarrow> bool" where
  "same_but_exits loop loop' = (loop' = loop\<lparr>inloopBB2exitBBs := inloopBB2exitBBs loop'\<rparr>)"

lemma same_but_exits_refl: "same_but_exits loop loop"
  by (simp add: same_but_exits_def)

lemma same_but_exits_trans: "same_but_exits a b \<Longrightarrow> same_but_exits b c \<Longrightarrow> same_but_exits a c"
  unfolding same_but_exits_def by (cases a; cases b; cases c) simp

lemma same_but_exitsD:
  assumes "same_but_exits a b"
  shows "loopBBs b = loopBBs a" "lhead b = lhead a" "ltail b = ltail a" "hasTryBB b = hasTryBB a" "hasIgotoBB b = hasIgotoBB a"
    "isCanonicalLoop b = isCanonicalLoop a"
proof -
  obtain m where "b = a\<lparr>inloopBB2exitBBs := m\<rparr>" using assms unfolding same_but_exits_def by blast
  then show "loopBBs b = loopBBs a" "lhead b = lhead a" "ltail b = ltail a" "hasTryBB b = hasTryBB a" "hasIgotoBB b = hasIgotoBB a"
    "isCanonicalLoop b = isCanonicalLoop a" by simp_all
qed

lemma InsertInloop_exits:
  "exits_are loop cur A \<Longrightarrow> exits_are (InsertInloopBB2exitBBs cur v loop) cur (insert v A)"
  "b \<noteq> cur \<Longrightarrow> exits_are (InsertInloopBB2exitBBs cur v loop) b B = exits_are loop b B"
  "same_but_exits loop (InsertInloopBB2exitBBs cur v loop)"
  by (auto simp: exits_are_def InsertInloopBB2exitBBs_def same_but_exits_def split: option.splits)

lemma exit_succs_finds:
  "exit_succs cur ss T Q loop = (T', Q', loop') \<Longrightarrow> set T \<subseteq> blocks loop \<Longrightarrow> exits_are loop cur A \<Longrightarrow>
   same_but_exits loop loop' \<and> set T' = set T \<union> (set ss \<inter> blocks loop) \<and>
   (\<exists>ns. Q' = Q @ ns \<and> T' = rev ns @ T \<and> set ns = set T' - set T) \<and>
   exits_are loop' cur (A \<union> (set ss - blocks loop)) \<and> (\<forall>b B. b \<noteq> cur \<longrightarrow> exits_are loop' b B = exits_are loop b B)"
proof (induction cur ss T Q loop arbitrary: A rule: exit_succs.induct)
  case (2 cur s ss T Q loop)
  consider (seen) "s \<in> set T" | (inside) "s \<notin> set T" "Has loop s" | (out) "s \<notin> set T" "\<not> Has loop s" by blast
  then show ?case
  proof cases
    case seen
    then have s: "s \<in> blocks loop" using 2(5) by blast
    have e1: "set T \<union> (set (s # ss) \<inter> blocks loop) = set T \<union> (set ss \<inter> blocks loop)" using seen by auto
    have e2: "set (s # ss) - blocks loop = set ss - blocks loop" using s by auto
    have "exit_succs cur ss T Q loop = (T', Q', loop')" using 2(4) seen by simp
    then show ?thesis unfolding e1 e2 using 2(1) [OF seen _ 2(5,6)] by blast
  next
    case inside
    then have s: "s \<in> blocks loop" by (simp add: Has_def)
    have e: "exit_succs cur ss (s # T) (Q @ [s]) loop = (T', Q', loop')" using 2(4) inside by simp
    have "same_but_exits loop loop' \<and> set T' = set (s # T) \<union> (set ss \<inter> blocks loop) \<and>
        (\<exists>ns. Q' = (Q @ [s]) @ ns \<and> T' = rev ns @ s # T \<and> set ns = set T' - set (s # T)) \<and>
        exits_are loop' cur (A \<union> (set ss - blocks loop)) \<and> (\<forall>b B. b \<noteq> cur \<longrightarrow> exits_are loop' b B = exits_are loop b B)"
      by (rule 2(2) [OF inside e _ 2(6)]) (use s 2(5) in auto)
    then obtain ns where r: "same_but_exits loop loop'" "set T' = set (s # T) \<union> (set ss \<inter> blocks loop)"
      "Q' = (Q @ [s]) @ ns" "T' = rev ns @ s # T" "set ns = set T' - set (s # T)" "exits_are loop' cur (A \<union> (set ss - blocks loop))"
      "\<forall>b B. b \<noteq> cur \<longrightarrow> exits_are loop' b B = exits_are loop b B" by blast
    have "set (s # ns) = set T' - set T" using r(2,5) inside(1) by auto
    moreover have "Q' = Q @ (s # ns)" "T' = rev (s # ns) @ T" using r(3,4) by simp_all
    ultimately have "\<exists>ns. Q' = Q @ ns \<and> T' = rev ns @ T \<and> set ns = set T' - set T" by (intro exI [of _ "s # ns"] conjI)
    moreover have e1: "set (s # ss) - blocks loop = set ss - blocks loop" using s by auto
    moreover have "set T' = set T \<union> (set (s # ss) \<inter> blocks loop)" using r(2) s by auto
    ultimately show ?thesis using r(1,6,7) unfolding e1 by (intro conjI)
  next
    case out
    let ?l = "InsertInloopBB2exitBBs cur s loop"
    have s: "s \<notin> blocks loop" using out by (simp add: Has_def)
    have bl: "loopBBs ?l = loopBBs loop" by (simp add: InsertInloopBB2exitBBs_def)
    have e: "exit_succs cur ss T Q ?l = (T', Q', loop')" using 2(4) out by simp
    note r = 2(3) [OF out e, unfolded bl, OF 2(5) InsertInloop_exits(1) [OF 2(6)]]
    have sets: "set (s # ss) - blocks loop = insert s (set ss - blocks loop)" "set (s # ss) \<inter> blocks loop = set ss \<inter> blocks loop"
      using s by auto
    have u: "insert s A \<union> (set ss - blocks loop) = A \<union> insert s (set ss - blocks loop)" by blast
    have "same_but_exits loop loop'" using r by (blast intro: same_but_exits_trans InsertInloop_exits(3))
    moreover have "exits_are loop' cur (A \<union> insert s (set ss - blocks loop))" using r unfolding u by blast
    moreover have "\<forall>b B. b \<noteq> cur \<longrightarrow> exits_are loop' b B = exits_are loop b B" using r InsertInloop_exits(2) by blast
    ultimately show ?thesis using r unfolding sets by blast
  qed
qed (auto simp: same_but_exits_refl)

text \<open>The blocks \<open>P\<close> have been processed.\<close>

definition exit_inv :: "cfg \<Rightarrow> loop_desc \<Rightarrow> bb list \<Rightarrow> bb list \<Rightarrow> bb set \<Rightarrow> loop_desc \<Rightarrow> bool" where
  "exit_inv g loop0 T Q P loop = (
     same_but_exits loop0 loop \<and> set T \<subseteq> blocks loop0 \<and> set Q \<subseteq> blocks loop0 \<and> P \<subseteq> blocks loop0 \<and>
     lhead loop0 \<in> P \<union> set Q \<and> set T \<subseteq> P \<union> set Q \<and> (\<forall>b \<in> P. set (GetSucc g b) \<inter> blocks loop0 \<subseteq> set T) \<and>
     (\<forall>b. exits_are loop b (if b \<in> P then set (GetSucc g b) - blocks loop0 else {})))"

lemma exit_inv_step:
  assumes i: "exit_inv g loop0 T (cur # Q) P loop" and s: "exit_succs cur (GetSucc g cur) T Q loop = (T', Q', loop')"
  shows "exit_inv g loop0 T' Q' (insert cur P) loop' \<and> set T \<subseteq> set T' \<and> (set T' = set T \<longrightarrow> T' = T \<and> Q' = Q)"
proof -
  have same: "same_but_exits loop0 loop" and bl: "blocks loop = blocks loop0"
    using i same_but_exitsD(1) unfolding exit_inv_def by auto
  let ?A = "if cur \<in> P then set (GetSucc g cur) - blocks loop0 else {}"
  have r: "same_but_exits loop loop'" "set T' = set T \<union> (set (GetSucc g cur) \<inter> blocks loop0)"
    "\<exists>ns. Q' = Q @ ns \<and> T' = rev ns @ T \<and> set ns = set T' - set T" "exits_are loop' cur (?A \<union> (set (GetSucc g cur) - blocks loop0))"
    "\<forall>b B. b \<noteq> cur \<longrightarrow> exits_are loop' b B = exits_are loop b B"
  proof -
    have "set T \<subseteq> blocks loop" "exits_are loop cur ?A" using i unfolding bl exit_inv_def by blast+
    then show "same_but_exits loop loop'" "set T' = set T \<union> (set (GetSucc g cur) \<inter> blocks loop0)"
      "\<exists>ns. Q' = Q @ ns \<and> T' = rev ns @ T \<and> set ns = set T' - set T" "exits_are loop' cur (?A \<union> (set (GetSucc g cur) - blocks loop0))"
      "\<forall>b B. b \<noteq> cur \<longrightarrow> exits_are loop' b B = exits_are loop b B"
      using exit_succs_finds [OF s, of ?A] unfolding bl by blast+
  qed
  obtain ns where ns: "Q' = Q @ ns" "T' = rev ns @ T" "set ns = set T' - set T" using r(3) by blast
  have "exits_are loop' b (if b \<in> insert cur P then set (GetSucc g b) - blocks loop0 else {})" for b
    using r(4,5) i unfolding exit_inv_def by (cases "b = cur") (auto split: if_splits)
  moreover have "same_but_exits loop0 loop'" by (rule same_but_exits_trans [OF same r(1)])
  moreover have "set T' = set T \<longrightarrow> T' = T \<and> Q' = Q" using ns by auto
  moreover have "set Q' = set Q \<union> (set T' - set T)" using ns(1,3) by simp
  ultimately show ?thesis using i r(2) unfolding exit_inv_def by auto
qed

lemma exit_walk_finds:
  "exit_inv g loop0 T Q P loop \<Longrightarrow>
   (case exit_walk g info T Q loop of
      None \<Rightarrow> \<exists>b \<in> blocks loop0. returns g info b
    | Some loop' \<Rightarrow> \<exists>T' P'. exit_inv g loop0 T' [] P' loop' \<and> (\<forall>b \<in> P'. b \<in> P \<or> \<not> returns g info b))"
proof (induction "card (blocks loop0 - set T)" arbitrary: T Q P loop rule: less_induct)
  case less
  note outer = less.hyps
  from less.prems show ?case
  proof (induction Q arbitrary: P loop)
    case Nil
    then show ?case by (subst exit_walk.simps) auto
  next
    case (Cons cur Q)
    obtain T' Q' loop' where s: "exit_succs cur (GetSucc g cur) T Q loop = (T', Q', loop')" by (metis prod_cases3)
    note st = exit_inv_step [OF Cons.prems s]
    have e: "exit_walk g info T (cur # Q) loop = (if returns g info cur then None else exit_walk g info T' Q' loop')"
      by (subst exit_walk.simps) (simp add: s)
    have cur: "cur \<in> blocks loop0" using Cons.prems by (simp add: exit_inv_def)
    have IH: "case exit_walk g info T' Q' loop' of
        None \<Rightarrow> \<exists>b \<in> blocks loop0. returns g info b
      | Some loop' \<Rightarrow> \<exists>T' P'. exit_inv g loop0 T' [] P' loop' \<and> (\<forall>b \<in> P'. b \<in> insert cur P \<or> \<not> returns g info b)"
    proof (cases "set T' = set T")
      case True
      then show ?thesis using Cons.IH st by blast
    next
      case False
      then have "set T \<subset> set T'" using st by blast
      moreover have "set T' \<subseteq> blocks loop0" using st unfolding exit_inv_def by blast
      ultimately have "card (blocks loop0 - set T') < card (blocks loop0 - set T)" by (intro psubset_card_mono) auto
      then show ?thesis using outer st by blast
    qed
    show ?case
    proof (cases "returns g info cur")
      case False
      show ?thesis
      proof (cases "exit_walk g info T' Q' loop'")
        case (Some l)
        then obtain T1 P1 where "exit_inv g loop0 T1 [] P1 l" "\<forall>b \<in> P1. b \<in> insert cur P \<or> \<not> returns g info b" using IH by auto
        then have "\<exists>T' P'. exit_inv g loop0 T' [] P' l \<and> (\<forall>b \<in> P'. b \<in> P \<or> \<not> returns g info b)"
          using False by (intro exI [of _ T1] exI [of _ P1]) auto
        then show ?thesis using False Some unfolding e by simp
      qed (use IH False e in simp)
    qed (use e cur in auto)
  qed
qed

lemma ReplaceInloop_exits:
  assumes "exits_are loop key A" and "old \<in> A" and "v \<notin> A"
  shows "\<exists>loop'. ReplaceInloopBB2exitBBs key old v loop = Some loop' \<and> exits_are loop' key (insert v (A - {old})) \<and>
    same_but_exits loop loop' \<and> (\<forall>b B. b \<noteq> key \<longrightarrow> exits_are loop' b B = exits_are loop b B)"
proof -
  obtain vs where vs: "inloopBB2exitBBs loop key = Some vs" "distinct vs" "set vs = A" using assms(1,2) by (auto simp: exits_are_def split: option.splits)
  obtain xs ys where xs: "vs = xs @ old # ys" "old \<notin> set xs" using vs(3) assms(2) split_list_first by metis
  have "takeWhile (\<lambda>b. b \<noteq> old) vs = xs" "dropWhile (\<lambda>b. b \<noteq> old) vs = old # ys" unfolding xs(1) using xs(2)
    by (simp_all add: takeWhile_append dropWhile_append)
  then show ?thesis using vs xs assms(2,3) by (auto simp: ReplaceInloopBB2exitBBs_def exits_are_def same_but_exits_def)
qed

section \<open>InsertExitBB\<close>

text \<open>A loop as \<open>ProcessBB\<close> leaves it.\<close>

definition natural :: "cfg \<Rightarrow> loop_desc \<Rightarrow> bool" where
  "natural g l = (back_edge g (lhead l) (ltail l) \<and> blocks l = {x. in_loop g (lhead l) (ltail l) x})"

lemma natural_facts:
  assumes wf: "wf_cfg g" and pr: "pruned g" and l: "natural g l"
  shows "lhead l \<in> blocks l" "ltail l \<in> blocks l" "ltail l \<in> set (GetPred g (lhead l))"
    "b \<in> blocks l \<Longrightarrow> reachable g b \<and> b < bb_count g \<and> b \<noteq> commonExitBB g \<and> b \<noteq> commonEntryBB g"
    "b \<in> blocks l \<Longrightarrow> b \<noteq> lhead l \<Longrightarrow> p \<in> set (GetPred g b) \<Longrightarrow> p \<in> blocks l"
proof -
  have e: "back_edge g (lhead l) (ltail l)" and b: "blocks l = {x. in_loop g (lhead l) (ltail l) x}" using l by (simp_all add: natural_def)
  show "lhead l \<in> blocks l" "ltail l \<in> blocks l" unfolding b by (auto intro: in_loop.intros)
  show "ltail l \<in> set (GetPred g (lhead l))" using e by (simp add: back_edge_def)
  show "b \<in> blocks l \<Longrightarrow> b \<noteq> lhead l \<Longrightarrow> p \<in> set (GetPred g b) \<Longrightarrow> p \<in> blocks l" unfolding b by (auto intro: in_loop.Pred)
  show "reachable g b \<and> b < bb_count g \<and> b \<noteq> commonExitBB g \<and> b \<noteq> commonEntryBB g" if "b \<in> blocks l"
  proof -
    have d: "reachable g b" "dominates g (lhead l) b" using in_loop_dominated [OF wf pr e] that unfolding b by simp_all
    have "lhead l \<noteq> commonEntryBB g" using e pred_edge(3) [OF wf pr] by (auto simp: back_edge_def)
    then have "b \<noteq> commonEntryBB g" using d(2) dominates_entry_only by blast
    then show ?thesis using d(1) reachable_range [OF d(1) wf] by simp
  qed
qed

lemma InsertExitBB_finds:
  assumes wf: "wf_cfg g" and pr: "pruned g" and l: "natural g l" and m: "inloopBB2exitBBs l = (\<lambda>_. None)"
  shows "case InsertExitBB g info l of
      None \<Rightarrow> \<exists>b \<in> blocks l. returns g info b
    | Some (ok, l') \<Rightarrow> (\<forall>b \<in> blocks l. \<not> returns g info b) \<and> same_but_exits l l' \<and>
        (\<forall>b. exits_are l' b (if b \<in> blocks l then set (GetSucc g b) - blocks l else {})) \<and>
        (ok \<longleftrightarrow> (\<forall>b \<in> blocks l. \<forall>s \<in> set (GetSucc g b) - blocks l. set (GetPred g s) \<subseteq> blocks l))"
proof -
  note nf = natural_facts [OF wf pr l]
  have init: "exit_inv g l [] [lhead l] {} l" using m nf(1) by (simp add: exit_inv_def same_but_exits_refl exits_are_def)
  have r: "case exit_walk g info [] [lhead l] l of
      None \<Rightarrow> \<exists>b \<in> blocks l. returns g info b
    | Some loop' \<Rightarrow> \<exists>T' P'. exit_inv g l T' [] P' loop' \<and> (\<forall>b \<in> P'. b \<in> {} \<or> \<not> returns g info b)"
    by (rule exit_walk_finds [OF init])
  show ?thesis
  proof (cases "exit_walk g info [] [lhead l] l")
    case None
    then show ?thesis using r by (simp add: InsertExitBB_def m)
  next
    case (Some l')
    then obtain T P where i: "exit_inv g l T [] P l'" "\<forall>b \<in> P. \<not> returns g info b" using r by auto
    have PL: "blocks l \<subseteq> P"
    proof
      fix x assume "x \<in> blocks l"
      then have x: "in_loop g (lhead l) (ltail l) x" using l by (simp add: natural_def)
      show "x \<in> P"
      proof (rule loop_forward_induct [OF wf pr _ _ _ x])
        show "back_edge g (lhead l) (ltail l)" using l by (simp add: natural_def)
        show "lhead l \<in> P" using i(1) by (simp add: exit_inv_def)
        fix u v assume u: "u \<in> P" and v: "in_loop g (lhead l) (ltail l) v" "v \<in> set (GetSucc g u)"
        have "v \<in> blocks l" using l v(1) by (simp add: natural_def)
        then have "v \<in> set T" using i(1) u v(2) unfolding exit_inv_def by blast
        then show "v \<in> P" using i(1) unfolding exit_inv_def by auto
      qed
    qed
    then have P: "P = blocks l" using i(1) unfolding exit_inv_def by blast
    have ex: "exits_are l' b (if b \<in> blocks l then set (GetSucc g b) - blocks l else {})" for b
      using i(1) unfolding exit_inv_def P by blast
    have same: "same_but_exits l l'" using i(1) by (simp add: exit_inv_def)
    have n: "b < bb_count g" if "b \<in> blocks l" for b using nf(4) [OF that] by simp
    have ok: "(case inloopBB2exitBBs l' b of None \<Rightarrow> True | Some vs \<Rightarrow> \<forall>it \<in> set vs. \<forall>pred \<in> set (GetPred g it). Has l' pred) \<longleftrightarrow>
        (b \<in> blocks l \<longrightarrow> (\<forall>s \<in> set (GetSucc g b) - blocks l. set (GetPred g s) \<subseteq> blocks l))" for b
      using ex [of b] same_but_exitsD(1) [OF same] by (cases "b \<in> blocks l") (auto simp: exits_are_def Has_def split: option.splits)
    have "InsertExitBB g info l = Some (\<forall>b \<in> set [0..<bb_count g]. case inloopBB2exitBBs l' b of
        None \<Rightarrow> True | Some vs \<Rightarrow> \<forall>it \<in> set vs. \<forall>pred \<in> set (GetPred g it). Has l' pred, l')"
      using Some by (simp add: InsertExitBB_def m)
    moreover have "(\<forall>b \<in> set [0..<bb_count g]. b \<in> blocks l \<longrightarrow> X b) = (\<forall>b \<in> blocks l. X b)" for X
      using n by auto
    ultimately show ?thesis using i(2) same ex unfolding ok P by simp
  qed
qed

section \<open>Canonical loops\<close>

lemma ProcessPreheaderAndLatch_finds:
  assumes wf: "wf_cfg g" and pr: "pruned g" and l: "natural g l" and s: "ProcessPreheaderAndLatch g info l = Some (True, l')"
  shows "\<exists>ph. l' = l\<lparr>preheader := Some ph, latch := Some (ltail l)\<rparr> \<and> ph \<notin> blocks l \<and>
    (set (GetPred g (lhead l)) = {ph, ltail l} \<or>
     GetPred g (lhead l) = [ltail l] \<and> ph = commonEntryBB g \<and> lhead l \<in> set (GetSucc g ph)) \<and> \<not> attr_IsTry info (ltail l)"
proof -
  note nf = natural_facts [OF wf pr l]
  consider (one) p0 where "GetPred g (lhead l) = [p0]" | (two) p0 p1 where "GetPred g (lhead l) = [p0, p1]"
    | (no) "\<forall>p0. GetPred g (lhead l) \<noteq> [p0]" "\<forall>p0 p1. GetPred g (lhead l) \<noteq> [p0, p1]" by blast
  then show ?thesis
  proof cases
    case one
    then have p0: "p0 = ltail l" using nf(3) by simp
    have "commonEntryBB g \<notin> blocks l" using nf(4) by blast
    then show ?thesis using s one p0 unfolding ProcessPreheaderAndLatch_def
      by (auto simp: Let_def split: list.splits if_splits)
  next
    case two
    then have t: "ltail l \<in> {p0, p1}" using nf(3) by simp
    show ?thesis
    proof (cases "Has l p0")
      case True
      then have "\<not> Has l p1" using s two by (auto simp: ProcessPreheaderAndLatch_def Let_def Has_def split: if_splits)
      then have "p0 = ltail l" using t nf(2) by (auto simp: Has_def)
      then show ?thesis using True \<open>\<not> Has l p1\<close> s two
        by (intro exI [of _ p1]) (auto simp: ProcessPreheaderAndLatch_def Let_def Has_def split: if_splits)
    next
      case False
      then have "p1 = ltail l" using t nf(2) by (auto simp: Has_def)
      then show ?thesis using False s two
        by (intro exI [of _ p0]) (auto simp: ProcessPreheaderAndLatch_def Let_def Has_def split: if_splits)
    qed
  next
    case no
    then show ?thesis using s by (auto simp: ProcessPreheaderAndLatch_def split: list.splits)
  qed
qed

text \<open>What one pass of the last loop of the phase leaves.\<close>

definition canonical :: "cfg \<Rightarrow> bb_info \<Rightarrow> loop_desc \<Rightarrow> bool" where
  "canonical g info l = (\<not> hasTryBB l \<and> \<not> hasIgotoBB l \<and>
     (\<exists>ph. preheader l = Some ph \<and> latch l = Some (ltail l) \<and> ph \<notin> blocks l \<and>
        (set (GetPred g (lhead l)) = {ph, ltail l} \<or>
         GetPred g (lhead l) = [ltail l] \<and> ph = commonEntryBB g \<and> lhead l \<in> set (GetSucc g ph))) \<and>
     (\<forall>b \<in> blocks l. \<not> returns g info b) \<and>
     (\<forall>b \<in> blocks l. \<forall>s \<in> set (GetSucc g b) - blocks l. set (GetPred g s) \<subseteq> blocks l) \<and>
     (\<forall>b. exits_are l b (if b \<in> blocks l then set (GetSucc g b) - blocks l else {})))"

definition same_loop :: "loop_desc \<Rightarrow> loop_desc \<Rightarrow> bool" where
  "same_loop l l' = (lhead l' = lhead l \<and> ltail l' = ltail l \<and> loopBBs l' = loopBBs l \<and>
     lparent l' = lparent l \<and> nestDepth l' = nestDepth l)"

lemma marked_loop:
  assumes "SetTryBB g info l = Some l1" and "SetIGotoBB info l1 = Some l2"
  shows "same_loop l l2" "unfinished l \<Longrightarrow> unfinished l2"
  using assms by (auto simp: same_loop_def SetIGotoBB_def SetTryBB_def Let_def bind_eq_Some_conv split: if_splits)

lemma those_list_all2: "those (map f xs) = Some ys \<longleftrightarrow> list_all2 (\<lambda>x y. f x = Some y) xs ys"
proof (induction xs arbitrary: ys)
  case (Cons x xs)
  then show ?case by (cases ys) (auto split: option.splits)
qed auto

lemma same_but_exits_loop: "same_but_exits l l' \<Longrightarrow> same_loop l l'"
  unfolding same_but_exits_def same_loop_def by (metis loop_desc.ext_inject loop_desc.surjective loop_desc.update_convs(6))

lemma ProcessPreheaderAndLatch_keeps:
  "ProcessPreheaderAndLatch g info l = Some (ok, l') \<Longrightarrow>
   same_loop l l' \<and> inloopBB2exitBBs l' = inloopBB2exitBBs l \<and> (isCanonicalLoop l' \<longrightarrow> isCanonicalLoop l)"
  by (auto simp: ProcessPreheaderAndLatch_def same_loop_def Let_def split: list.splits if_splits)

lemma canonical_step_finds:
  assumes wf: "wf_cfg g" and pr: "pruned g" and l: "natural g l" and f: "unfinished l" and s: "canonical_step g info l = Some l'"
  shows "same_loop l l'" and "isCanonicalLoop l' \<Longrightarrow> canonical g info l'"
proof -
  obtain ok l1 where i: "InsertExitBB g info l = Some (ok, l1)" using s by (auto simp: canonical_step_def split: Option.bind_splits)
  have r: "\<forall>b \<in> blocks l. \<not> returns g info b" "same_but_exits l l1"
    "\<forall>b. exits_are l1 b (if b \<in> blocks l then set (GetSucc g b) - blocks l else {})"
    "ok \<longleftrightarrow> (\<forall>b \<in> blocks l. \<forall>s \<in> set (GetSucc g b) - blocks l. set (GetPred g s) \<subseteq> blocks l)"
    using InsertExitBB_finds [OF wf pr l, of info] f i by simp_all
  note same = same_but_exitsD [OF r(2)]
  have sl: "same_loop l l1" by (rule same_but_exits_loop [OF r(2)])
  have l1: "natural g l1" using l by (simp add: natural_def same)
  consider (out) "l' = l1" | (no) "ProcessPreheaderAndLatch g info l1 = Some (False, l')"
    | (yes) l2 where "ok" "\<not> hasTryBB l1" "\<not> hasIgotoBB l1" "ProcessPreheaderAndLatch g info l1 = Some (True, l2)"
        "l' = l2\<lparr>isCanonicalLoop := True\<rparr>"
  proof (cases "ok \<and> \<not> hasTryBB l1 \<and> \<not> hasIgotoBB l1")
    case True
    obtain ok' l2 where p: "ProcessPreheaderAndLatch g info l1 = Some (ok', l2)"
      "l' = (if \<not> ok' then l2 else l2\<lparr>isCanonicalLoop := True\<rparr>)"
      using s True by (auto simp: canonical_step_def i bind_eq_Some_conv)
    show ?thesis
    proof (cases ok')
      case True
      then show ?thesis using \<open>ok \<and> \<not> hasTryBB l1 \<and> \<not> hasIgotoBB l1\<close> p by (intro yes) simp_all
    qed (use p no in simp)
  next
    case False
    have "l' = l1" using s False by (simp add: canonical_step_def i split: if_splits)
    then show ?thesis by (rule out)
  qed
  then have "same_loop l l' \<and> (isCanonicalLoop l' \<longrightarrow> canonical g info l')"
  proof cases
    case out
    then show ?thesis using sl same(6) f by simp
  next
    case no
    then show ?thesis using ProcessPreheaderAndLatch_keeps [OF no] sl same(6) f by (simp add: same_loop_def)
  next
    case yes
    obtain ph where ph: "l2 = l1\<lparr>preheader := Some ph, latch := Some (ltail l1)\<rparr>" "ph \<notin> blocks l1"
      "set (GetPred g (lhead l1)) = {ph, ltail l1} \<or>
       GetPred g (lhead l1) = [ltail l1] \<and> ph = commonEntryBB g \<and> lhead l1 \<in> set (GetSucc g ph)"
      using ProcessPreheaderAndLatch_finds [OF wf pr l1 yes(4)] by blast
    have e: "exits_are l' b A = exits_are l1 b A" for b A using yes(5) ph(1) by (simp add: exits_are_def)
    have l': "loopBBs l' = loopBBs l" "lhead l' = lhead l" "ltail l' = ltail l" "preheader l' = Some ph" "latch l' = Some (ltail l)"
      "\<not> hasTryBB l'" "\<not> hasIgotoBB l'" using yes(2,3,5) ph(1) same by simp_all
    have "\<forall>b. exits_are l' b (if b \<in> blocks l' then set (GetSucc g b) - blocks l' else {})" unfolding e l' by (rule r(3))
    moreover have "ph \<notin> blocks l" "set (GetPred g (lhead l)) = {ph, ltail l} \<or>
        GetPred g (lhead l) = [ltail l] \<and> ph = commonEntryBB g \<and> lhead l \<in> set (GetSucc g ph)" using ph(2,3) by (simp_all add: same)
    ultimately have "canonical g info l'" using r(1,4) yes(1) l' unfolding canonical_def l' by blast
    then show ?thesis using sl yes(5) ph(1) by (simp add: same_loop_def)
  qed
  then show "same_loop l l'" "isCanonicalLoop l' \<Longrightarrow> canonical g info l'" by simp_all
qed

lemma canonical_loops_list:
  "canonical_loops g info ls = Some ls' \<longleftrightarrow> list_all2 (\<lambda>l l'. canonical_step g info l = Some l') ls ls'"
proof (induction ls arbitrary: ls')
  case (Cons l ls)
  then show ?case by (cases ls') (auto simp: bind_eq_Some_conv)
qed auto

lemma MELoopAnalysis_finds:
  assumes clean: "clean_cfg g" and d: "MEDominance g = Some d" and r: "MELoopAnalysis g info d = Some (ls', lp)"
  shows "\<exists>ls. identify g d = Some (ls, lp) \<and> loops_found g ls lp \<and>
    list_all2 (\<lambda>l l'. same_loop l l' \<and> (isCanonicalLoop l' \<longrightarrow> canonical g info l')) ls ls'"
proof -
  have wf: "wf_cfg g" "pruned g" using clean by (simp_all add: clean_cfg_def)
  obtain ls where ls: "identify g d = Some (ls, lp)" "loops_found g ls lp"
  proof -
    obtain ls lp' where i: "identify g d = Some (ls, lp')" "loops_found g ls lp'" using identify_found [OF clean d] by blast
    then have "lp' = lp" using r unfolding MELoopAnalysis_def by (auto simp: bind_eq_Some_conv)
    then show ?thesis using i that by simp
  qed
  then obtain ls1 ls2 where c: "those (map (SetTryBB g info) ls) = Some ls1" "those (map (SetIGotoBB info) ls1) = Some ls2"
    "canonical_loops g info ls2 = Some ls'"
    using r unfolding MELoopAnalysis_def by (auto simp: bind_eq_Some_conv)
  note steps = c(1) [unfolded those_list_all2] c(2) [unfolded those_list_all2] c(3) [unfolded canonical_loops_list]
  have "same_loop (ls ! i) (ls' ! i) \<and> (isCanonicalLoop (ls' ! i) \<longrightarrow> canonical g info (ls' ! i))" if i: "i < length ls" for i
  proof -
    have len: "length ls1 = length ls" "length ls2 = length ls"
      using steps(1,2) [THEN list_all2_lengthD] by simp_all
    have a: "SetTryBB g info (ls ! i) = Some (ls1 ! i)" "SetIGotoBB info (ls1 ! i) = Some (ls2 ! i)"
      "canonical_step g info (ls2 ! i) = Some (ls' ! i)"
      using list_all2_nthD [OF steps(1) i] list_all2_nthD [OF steps(2), of i] list_all2_nthD [OF steps(3), of i] i len by simp_all
    have "natural g (ls ! i)" "unfinished (ls ! i)" using ls(2) nth_mem [OF i] unfolding loops_found_def natural_def by auto
    then have "natural g (ls2 ! i)" "unfinished (ls2 ! i)" using marked_loop [OF a(1,2)] by (simp_all add: natural_def same_loop_def)
    from canonical_step_finds [OF wf this a(3)] show ?thesis using marked_loop(1) [OF a(1,2)] by (simp add: same_loop_def)
  qed
  moreover have "length ls' = length ls" using steps [THEN list_all2_lengthD] by simp
  ultimately have "list_all2 (\<lambda>l l'. same_loop l l' \<and> (isCanonicalLoop l' \<longrightarrow> canonical g info l')) ls ls'"
    by (simp add: list_all2_conv_all_nth)
  then show ?thesis using ls by blast
qed

lemma MarkBB_marks:
  "MarkBB g ls attr b = (attr b \<or> bbVec g ! b \<and> (\<exists>l \<in> set ls. b \<in> set (loopBBs l)))"
proof -
  have "fold (\<lambda>b attr. if \<not> bbVec g ! b then attr else attr(b := True)) bs attr b = (attr b \<or> bbVec g ! b \<and> b \<in> set bs)" for bs attr
    by (induction bs arbitrary: attr) auto
  then show ?thesis unfolding MarkBB_def by (induction ls arbitrary: attr) auto
qed

section \<open>The theorems\<close>

text \<open>
  C15. \<open>InsertExitBB\<close> visits every block of a loop as \<open>ProcessBB\<close> leaves it, and ends. It is fatal only when a
  block of the loop returns; otherwise it records for every block of the loop its successors outside, once
  each, changes nothing else, and answers whether the exit blocks can be reached from the loop only.
\<close>

theorem InsertExitBB_correct:
  assumes "clean_cfg g" and "back_edge g (lhead l) (ltail l)" and "set (loopBBs l) = {x. in_loop g (lhead l) (ltail l) x}"
    and "inloopBB2exitBBs l = (\<lambda>_. None)"
  shows "case InsertExitBB g info l of
      None \<Rightarrow> \<exists>b \<in> set (loopBBs l). returns g info b
    | Some (ok, l') \<Rightarrow> (\<forall>b \<in> set (loopBBs l). \<not> returns g info b) \<and> l' = l\<lparr>inloopBB2exitBBs := inloopBB2exitBBs l'\<rparr> \<and>
        (\<forall>b. case inloopBB2exitBBs l' b of
            None \<Rightarrow> b \<in> set (loopBBs l) \<longrightarrow> set (GetSucc g b) \<subseteq> set (loopBBs l)
          | Some vs \<Rightarrow> b \<in> set (loopBBs l) \<and> distinct vs \<and> vs \<noteq> [] \<and> set vs = set (GetSucc g b) - set (loopBBs l)) \<and>
        (ok \<longleftrightarrow> (\<forall>b \<in> set (loopBBs l). \<forall>s \<in> set (GetSucc g b) - set (loopBBs l). set (GetPred g s) \<subseteq> set (loopBBs l)))"
proof -
  have wf: "wf_cfg g" "pruned g" using assms(1) by (simp_all add: clean_cfg_def)
  have l: "natural g l" using assms(2,3) by (simp add: natural_def)
  show ?thesis
  proof (cases "InsertExitBB g info l")
    case None
    then show ?thesis using InsertExitBB_finds [OF wf l assms(4), of info] by simp
  next
    case (Some r)
    obtain ok l' where r: "r = (ok, l')" by (cases r)
    have f: "\<forall>b \<in> blocks l. \<not> returns g info b" "same_but_exits l l'"
      "\<And>b. exits_are l' b (if b \<in> blocks l then set (GetSucc g b) - blocks l else {})"
      "ok \<longleftrightarrow> (\<forall>b \<in> blocks l. \<forall>s \<in> set (GetSucc g b) - blocks l. set (GetPred g s) \<subseteq> blocks l)"
      using InsertExitBB_finds [OF wf l assms(4), of info] Some r by simp_all
    have "case inloopBB2exitBBs l' b of
            None \<Rightarrow> b \<in> blocks l \<longrightarrow> set (GetSucc g b) \<subseteq> blocks l
          | Some vs \<Rightarrow> b \<in> blocks l \<and> distinct vs \<and> vs \<noteq> [] \<and> set vs = set (GetSucc g b) - blocks l" for b
      using f(3) [of b] by (auto simp: exits_are_def split: option.splits if_splits)
    then show ?thesis using f(1,2,4) Some r unfolding same_but_exits_def by simp
  qed
qed

text \<open>
  C11. What a canonical loop is at the end of the phase: it has the blocks of its natural loop, is free of try
  blocks and indirect jumps, its latch is its tail, its preheader lies outside and is the only other
  predecessor of the head, every edge into the loop comes from the preheader or from the common entry and
  enters at the head, no block of it returns, and its exit blocks are entered from the loop only.
\<close>

theorem canonical_loop:
  assumes "clean_cfg g" and "MEDominance g = Some d" and "MELoopAnalysis g info d = Some (ls, lp)"
    and "l \<in> set ls" and "isCanonicalLoop l"
  shows "\<not> hasTryBB l \<and> \<not> hasIgotoBB l \<and> set (loopBBs l) = {x. in_loop g (lhead l) (ltail l) x} \<and>
    (\<exists>ph. preheader l = Some ph \<and> latch l = Some (ltail l) \<and> ph \<notin> set (loopBBs l) \<and>
      set (GetPred g (lhead l)) \<subseteq> {ph, ltail l} \<and> lhead l \<in> set (GetSucc g ph) \<and>
      (\<forall>u v. v \<in> set (GetSucc g u) \<and> u < bb_count g \<and> u \<notin> set (loopBBs l) \<and> v \<in> set (loopBBs l) \<longrightarrow>
         v = lhead l \<and> (u = ph \<or> u = commonEntryBB g))) \<and>
    (\<forall>b \<in> set (loopBBs l). \<not> returns g info b) \<and>
    (\<forall>u v. u \<in> set (loopBBs l) \<and> v \<in> set (GetSucc g u) \<and> v \<notin> set (loopBBs l) \<longrightarrow> set (GetPred g v) \<subseteq> set (loopBBs l))"
proof -
  have wf: "wf_cfg g" "pruned g" using assms(1) by (simp_all add: clean_cfg_def)
  obtain ls0 where f: "loops_found g ls0 lp"
    and a: "list_all2 (\<lambda>l l'. same_loop l l' \<and> (isCanonicalLoop l' \<longrightarrow> canonical g info l')) ls0 ls"
    using MELoopAnalysis_finds [OF assms(1-3)] by blast
  obtain l0 where l0: "l0 \<in> set ls0" "same_loop l0 l" and c: "canonical g info l"
  proof -
    obtain j where j: "j < length ls" "ls ! j = l" using assms(4) by (auto simp: in_set_conv_nth)
    then have "same_loop (ls0 ! j) l \<and> canonical g info l" "j < length ls0"
      using list_all2_nthD2 [OF a j(1)] list_all2_lengthD [OF a] assms(5) by auto
    then show ?thesis using that nth_mem by blast
  qed
  have n: "natural g l" using f l0 unfolding loops_found_def natural_def same_loop_def by auto
  note nf = natural_facts [OF wf n]
  obtain ph where ph: "preheader l = Some ph" "latch l = Some (ltail l)" "ph \<notin> blocks l"
    "set (GetPred g (lhead l)) = {ph, ltail l} \<or>
     GetPred g (lhead l) = [ltail l] \<and> ph = commonEntryBB g \<and> lhead l \<in> set (GetSucc g ph)"
    using c unfolding canonical_def by blast
  have head: "lhead l < bb_count g" "lhead l \<noteq> commonExitBB g" using nf(4) [OF nf(1)] by simp_all
  have hd: "lhead l \<in> set (GetSucc g ph)" using ph(4) wf_cfgD(4) [OF wf(1) head, of ph] by auto
  have preds: "set (GetPred g (lhead l)) \<subseteq> {ph, ltail l}" using ph(4) by auto
  have enter: "v = lhead l \<and> (u = ph \<or> u = commonEntryBB g)"
    if e: "v \<in> set (GetSucc g u)" "u < bb_count g" "u \<notin> blocks l" "v \<in> blocks l" for u v
  proof (cases "u = commonEntryBB g")
    case True
    have "cfg_path g ([commonEntryBB g] @ [v]) v" using e(1) True by (intro cfg_path.Step [OF cfg_path.Start]) simp
    moreover have "dominates g (lhead l) v" using in_loop_dominated [OF wf] n e(4) unfolding natural_def by blast
    ultimately have "lhead l \<in> set ([commonEntryBB g] @ [v])" unfolding dominates_def by blast
    then show ?thesis using nf(4) [OF nf(1)] True by auto
  next
    case False
    then have p: "u \<in> set (GetPred g v)" using wf_cfgD(3) [OF wf(1) e(2,1)] by simp
    then have "v = lhead l" using nf(5) [OF e(4)] e(3) by blast
    then show ?thesis using p ph(4) nf(2) e(3) by auto
  qed
  have parts: "\<not> hasTryBB l" "\<not> hasIgotoBB l" "\<forall>b \<in> blocks l. \<not> returns g info b"
    "\<forall>b \<in> blocks l. \<forall>s \<in> set (GetSucc g b) - blocks l. set (GetPred g s) \<subseteq> blocks l"
    using c unfolding canonical_def by simp_all
  have "blocks l = {x. in_loop g (lhead l) (ltail l) x}" using n by (simp add: natural_def)
  then show ?thesis by (intro conjI exI [of _ ph] allI impI parts(1-3) ph(1-3) hd preds) (use enter parts(4) in blast)+
qed

section \<open>Samples\<close>

definition plain_info :: bb_info where
  "plain_info = \<lparr>GetKind = (\<lambda>_. kBBFallthru), ends_in_return = (\<lambda>_. False), attr_IsTry = (\<lambda>_. False),
     attr_WontExit = (\<lambda>_. False), GetBBLabel = id, AddrTakenLabels = (\<lambda>_. False)\<rparr>"

lemma nest_inner_blocks: "{x. in_loop nest_cfg 4 5 x} = {4, 5}"
proof -
  have "in_loop nest_cfg 4 5 x \<Longrightarrow> x \<in> {4, 5}" for x
    by (induction rule: in_loop.induct) (auto simp: nest_cfg_def)
  then show ?thesis using in_loop.Head [of nest_cfg 4 5] in_loop.Tail [of nest_cfg 4 5] by blast
qed

theorem InsertExitBB_correct_witness:
  "case InsertExitBB nest_cfg plain_info ((LoopDesc 4 5)\<lparr>loopBBs := [4, 5]\<rparr>) of
     None \<Rightarrow> False
   | Some (ok, l') \<Rightarrow> ok \<and> inloopBB2exitBBs l' 4 = None \<and> inloopBB2exitBBs l' 5 = Some [6]"
proof -
  let ?l = "(LoopDesc 4 5)\<lparr>loopBBs := [4, 5]\<rparr>"
  have l: "lhead ?l = 4" "ltail ?l = 5" "loopBBs ?l = [4, 5]" "inloopBB2exitBBs ?l = (\<lambda>_. None)" by (simp_all add: LoopDesc_def)
  have s: "GetSucc nest_cfg 4 = [5]" "GetSucc nest_cfg 5 = [4, 6]" "GetPred nest_cfg 6 = [5]" by (simp_all add: nest_cfg_def)
  have r: "\<not> returns nest_cfg plain_info b" for b by (simp add: returns_def plain_info_def)
  have one: "vs = [6]" if "distinct vs" "vs \<noteq> []" "set vs = {4, 6} - {4, 5}" for vs :: "bb list"
    using that by (cases vs) (auto simp: subset_singleton_iff split: if_splits)
  have "set (loopBBs ?l) = {x. in_loop nest_cfg (lhead ?l) (ltail ?l) x}" unfolding l nest_inner_blocks by simp
  note th = InsertExitBB_correct [OF nest_cfg_clean _ this l(4), of plain_info, unfolded l, OF nest_back_edges(2)]
  obtain ok l' where f: "InsertExitBB nest_cfg plain_info ?l = Some (ok, l')" using th r by (auto split: option.splits)
  note e = th [unfolded f option.case prod.case, THEN conjunct2, THEN conjunct2, THEN conjunct1, rule_format]
  have ok: "ok \<longleftrightarrow> (\<forall>b \<in> set [4, 5]. \<forall>s \<in> set (GetSucc nest_cfg b) - set [4, 5]. set (GetPred nest_cfg s) \<subseteq> set [4, 5])"
    using th [unfolded f option.case prod.case] by blast
  have "inloopBB2exitBBs l' 4 = None" using e [of 4] s by (auto split: option.splits)
  moreover have "inloopBB2exitBBs l' 5 = Some [6]" using e [of 5] s one by (auto split: option.splits)
  ultimately show ?thesis using f ok s by auto
qed

text \<open>One block that jumps to itself, between the entry and the exit block.\<close>

definition self_cfg :: cfg where
  "self_cfg = \<lparr>bbVec = replicate 4 True, GetSucc = (\<lambda>b. [[2], [], [2, 3], []] ! b),
     GetPred = (\<lambda>b. [[], [3], [2], [2]] ! b), commonEntryBB = 0, commonExitBB = 1, is_exit = (\<lambda>b. b = 3)\<rparr>"

lemma self_cfg_wf: "wf_cfg self_cfg" "wf_cfg (rev_cfg self_cfg)"
  by code_simp+

lemma self_cfg_clean: "clean_cfg self_cfg"
proof -
  have "wf_exits self_cfg" by (rule wf_exitsI [OF self_cfg_wf(2)]) (simp_all add: self_cfg_def)
  moreover have "pruned self_cfg"
  proof (rule pruned_order [OF self_cfg_wf(1)])
    show "GenPostOrderID (bb_count self_cfg + 1) self_cfg = Some ([2, -1, 1, 0], [0, 2, 3])" by code_simp
    show "\<forall>b < bb_count self_cfg. if b = commonExitBB self_cfg then GetSucc self_cfg b = []
        else bbVec self_cfg ! b \<and> b \<in> set [0, 2, 3]" by code_simp
  qed
  moreover have "pruned (rev_cfg self_cfg)"
  proof (rule pruned_order [OF self_cfg_wf(2)])
    show "GenPostOrderID (bb_count (rev_cfg self_cfg) + 1) (rev_cfg self_cfg) = Some ([-1, 2, 0, 1], [1, 3, 2])" by code_simp
    show "\<forall>b < bb_count (rev_cfg self_cfg). if b = commonExitBB (rev_cfg self_cfg) then GetSucc (rev_cfg self_cfg) b = []
        else bbVec (rev_cfg self_cfg) ! b \<and> b \<in> set [1, 3, 2]" by code_simp
  qed
  ultimately show ?thesis using self_cfg_wf(1) by (simp add: clean_cfg_def)
qed

lemma self_back_edge: "back_edge self_cfg h t \<longleftrightarrow> h = 2 \<and> t = 2"
proof
  assume e: "back_edge self_cfg h t"
  then have t: "reachable self_cfg h" "t \<in> set (GetPred self_cfg h)" "dominates self_cfg h t" by (simp_all add: back_edge_def)
  have "h < 4 \<and> h \<noteq> 1" using reachable_range [OF t(1) self_cfg_wf(1)] by (simp add: self_cfg_def)
  then have "h \<in> {0, 2, 3}" by auto
  then have ht: "h \<in> {2, 3} \<and> t = 2" using t(2) by (auto simp: self_cfg_def)
  have "cfg_path self_cfg [0] 0" using cfg_path.Start [of self_cfg] by (simp add: self_cfg_def)
  then have "cfg_path self_cfg ([0] @ [2]) 2" by (rule cfg_path.Step) (simp add: self_cfg_def)
  then show "h = 2 \<and> t = 2" using t(3) ht unfolding dominates_def by fastforce
next
  assume "h = 2 \<and> t = 2"
  moreover have "reachable self_cfg 2" using reachable.Edge [OF reachable.Entry, of 2 self_cfg] by (simp add: self_cfg_def)
  ultimately show "back_edge self_cfg h t" by (simp add: back_edge_def) (simp add: self_cfg_def)
qed

lemma self_natural:
  assumes "natural self_cfg l"
  shows "lhead l = 2" "ltail l = 2" "blocks l = {2}"
proof -
  show ht: "lhead l = 2" "ltail l = 2" using assms self_back_edge unfolding natural_def by simp_all
  have "in_loop self_cfg 2 2 x \<Longrightarrow> x = 2" for x by (induction rule: in_loop.induct) (auto simp: self_cfg_def)
  then show "blocks l = {2}" using assms in_loop.Head [of self_cfg 2 2] unfolding natural_def ht by auto
qed

lemma self_step:
  assumes l: "natural self_cfg l" "unfinished l" "\<not> hasTryBB l" "\<not> hasIgotoBB l"
  shows "\<exists>l'. canonical_step self_cfg plain_info l = Some l' \<and> isCanonicalLoop l'"
proof -
  note ht = self_natural(1,2) [OF l(1)] and b = self_natural(3) [OF l(1)]
  have s: "GetSucc self_cfg 2 = [2, 3]" "GetPred self_cfg 3 = [2]" "GetPred self_cfg 2 = [2]" "GetSucc self_cfg 0 = [2]"
    "commonEntryBB self_cfg = 0" by (simp_all add: self_cfg_def)
  have r: "\<not> returns self_cfg plain_info b" for b by (simp add: returns_def plain_info_def)
  have wf: "wf_cfg self_cfg" "pruned self_cfg" using self_cfg_clean by (simp_all add: clean_cfg_def)
  obtain l1 where i: "InsertExitBB self_cfg plain_info l = Some (True, l1)" "same_but_exits l l1"
    using InsertExitBB_finds [OF wf l(1), of plain_info] l(2) r unfolding b by (auto simp: s split: option.splits)
  note same = same_but_exitsD [OF i(2)]
  have "ProcessPreheaderAndLatch self_cfg plain_info l1 = Some (True, l1\<lparr>preheader := Some 0, latch := Some 2\<rparr>)"
    by (simp add: ProcessPreheaderAndLatch_def same ht s) (simp add: plain_info_def)
  then show ?thesis using i(1) l(3,4) by (simp add: canonical_step_def same)
qed

theorem canonical_loop_witness:
  "\<exists>d ls lp l ph. MEDominance self_cfg = Some d \<and> MELoopAnalysis self_cfg plain_info d = Some (ls, lp) \<and> l \<in> set ls \<and>
    isCanonicalLoop l \<and> preheader l = Some ph \<and> latch l = Some (ltail l) \<and> ph \<notin> set (loopBBs l)"
proof -
  obtain d ls lp where d: "MEDominance self_cfg = Some d" and ls: "identify self_cfg d = Some (ls, lp)" and f: "loops_found self_cfg ls lp"
    using MEDominance_runs [OF self_cfg_clean] identify_found [OF self_cfg_clean] by blast
  have nl: "natural self_cfg l" "fresh l" if "l \<in> set ls" for l using f that unfolding loops_found_def natural_def by auto
  have mark: "SetTryBB self_cfg plain_info l = Some l" "SetIGotoBB plain_info l = Some l" if l: "l \<in> set ls" for l
  proof -
    have h: "lhead l = 2" "blocks l = {2}" using self_natural [OF nl(1) [OF l]] by simp_all
    have "loop_has_try self_cfg plain_info bs = Some False" if "set bs \<subseteq> {2}" for bs
      using that by (induction bs) (auto simp: self_cfg_def plain_info_def)
    then show "SetTryBB self_cfg plain_info l = Some l" "SetIGotoBB plain_info l = Some l"
      using h nl(2) [OF l] by (simp_all add: SetTryBB_def SetIGotoBB_def Let_def plain_info_def)
  qed
  have "\<exists>l'. canonical_step self_cfg plain_info l = Some l' \<and> isCanonicalLoop l'" if l: "l \<in> set ls" for l
    using self_step [OF nl(1) [OF l]] nl(2) [OF l] by simp
  then obtain f' where f': "\<And>l. l \<in> set ls \<Longrightarrow> canonical_step self_cfg plain_info l = Some (f' l) \<and> isCanonicalLoop (f' l)"
    by metis
  have "those (map (SetTryBB self_cfg plain_info) ls) = Some ls" "those (map (SetIGotoBB plain_info) ls) = Some ls"
    unfolding those_list_all2 using mark by (simp_all add: list_all2_same)
  moreover have "canonical_loops self_cfg plain_info ls = Some (map f' ls)"
    unfolding canonical_loops_list using f' by (simp add: list_all2_map2 list_all2_same)
  ultimately have r: "MELoopAnalysis self_cfg plain_info d = Some (map f' ls, lp)" using ls by (simp add: MELoopAnalysis_def)
  have "(2, 2) \<in> (\<lambda>l. (lhead l, ltail l)) ` set ls" using f self_back_edge [of 2 2] unfolding loops_found_def by auto
  then obtain l where "l \<in> set ls" by auto
  then have c: "f' l \<in> set (map f' ls)" "isCanonicalLoop (f' l)" using f' by simp_all
  obtain ph where "preheader (f' l) = Some ph" "latch (f' l) = Some (ltail (f' l))" "ph \<notin> set (loopBBs (f' l))"
    using canonical_loop [OF self_cfg_clean d r c] by (elim conjE exE)
  then show ?thesis using d r c by (intro exI conjI)
qed

text \<open>
  The kind of the preheader is only looked at when it is the first predecessor of the head: a block with
  two successors is refused there and accepted as the second one.
\<close>

lemma preheader_order:
  assumes "Has l la" and "\<not> Has l ph" and "\<not> attr_IsTry info la" and "GetKind info ph = kBBCondGoto"
    and "GetPred g (lhead l) = [ph, la]" and "GetPred g' (lhead l) = [la, ph]"
  shows "ProcessPreheaderAndLatch g info l = Some (False, l\<lparr>preheader := Some ph, isCanonicalLoop := False\<rparr>)"
    "ProcessPreheaderAndLatch g' info l = Some (True, l\<lparr>latch := Some la, preheader := Some ph\<rparr>)"
  using assms by (simp_all add: ProcessPreheaderAndLatch_def Has_def Let_def)

text \<open>
  Two back edges to a head that the common entry enters: each loop takes the latch of the other for its
  preheader.
\<close>

lemma latch_as_preheader:
  assumes "GetPred g (lhead l) = [la, la']" and "Has l la" and "\<not> Has l la'" and "\<not> attr_IsTry info la" and "back_edge g (lhead l) la'"
  shows "ProcessPreheaderAndLatch g info l = Some (True, l\<lparr>latch := Some la, preheader := Some la'\<rparr>) \<and> dominates g (lhead l) la'"
  using assms by (simp add: ProcessPreheaderAndLatch_def Has_def Let_def back_edge_def)

end
