(* ===== verification/Spec2Isabelle.thy ===== *)
theory Spec2Isabelle
  imports FoldFuel FoldFindings SwitchSound MuidSound NameSound LebSound BlockNode StmtFoldSound CandCiorSound
    LoweredForm FrontierSound DomPreorder DomAnalysis LoopExit
begin

text \<open>
  Maple IR: folding, lowering, dominators, loops, names.

  The repository is the OpenArkCompiler. Its front ends (src/mplfe) produce Maple IR; the passes of
  src/mapleall (mpl2mpl, maple_me, maple_be) fold, lower and analyse it; maple_be emits code. This
  development models parts of that path whose correctness is not visible from the text of the code,
  together with the tables and containers they rest on. All paths below are under src/mapleall.

  Data. \<open>PrimTypes\<close> holds the primitive types with the property table of maple_ir/include/prim_types.def
  and the classification functions of maple_ir/src/mir_type.cpp; \<open>MirConst\<close> the integer constants
  (\<open>MIRIntConst\<close>, maple_ir/src/mir_const.cpp); \<open>IRExpr\<close> the expression nodes of
  maple_ir/include/mir_nodes.h with a value semantics; \<open>Stmt\<close> the statement nodes with a big-step
  semantics of structured code and a small-step semantics of branches, both with the meaning of
  expressions as a parameter. A C++ integer is a word of its width; signed and unsigned views of it are
  explicit. A variable or pseudo register is a cell of an environment. A value is kept in the canonical
  form of its type, as in registers.

  Expressions have two readings. \<open>eval\<close> (\<open>IRExpr\<close>) asks every operand for a value and is the measure of
  the folder; \<open>seval\<close> (\<open>ShortCircuit\<close>) is the language's own, where \<open>cand\<close> and \<open>cior\<close> evaluate the second
  operand only when the first does not decide. \<open>LowerFunc\<close>, which removes these operators, is proved
  correct from \<open>seval\<close> runs of the source to runs of the code, where both readings agree.

  Constant folding (mpl2mpl/src/constantfold.cpp). \<open>FoldConst\<close> models the folding of operators on constants,
  \<open>FoldExpr\<close> the class \<open>ConstantFold\<close> on trees: a folded operand is a pair of an expression and a pending
  addend, as in the source. \<open>StmtFold\<close> models \<open>Simplify\<close> and the functions for statements, \<open>BlockNode\<close> the
  loop of \<open>SimplifyBlock\<close> on the linked statements of a block. \<open>FoldOps\<close>, \<open>FoldSteps\<close>, \<open>FoldBinarySound\<close>
  and \<open>FoldSound\<close> show that a replacement is well typed, of the same width and of the same value;
  \<open>fold_safe\<close> collects the side conditions, \<open>FoldFindings\<close> shows what happens without them; \<open>plain\<close> is a
  fragment of the language where they always hold. A sum of \<open>int64\<close> addends and the negation of an
  \<open>int64\<close> wrap around in the model; their overflow is undefined in C++ and is recorded as a finding.
  \<open>FoldFuel\<close> bounds the re-dispatch of \<open>FoldBinary\<close> by the number of bxor nodes and shows that the
  recursion of the code ends: the value is independent of what a used up fuel would give and is the
  only solution of the recursion equation. \<open>StmtFoldSound\<close> lifts the result to blocks and composes it
  with lowering. Simplifying a block fails when a statement directly behind a replaced one is deleted,
  which leaves the block linked wrongly, and in Java modules when an empty block takes the place of an
  \<open>if\<close>; \<open>tidy\<close> is a condition on blocks that excludes the first outside Java modules, and elsewhere the
  properties ask for a result.

  Lowering (maple_ir/src/mir_lower.cpp, maple_be/src/be/switch_lowerer.cpp). \<open>MirLower\<close> is the lowering
  of if, while, dowhile and doloop, \<open>CandCior\<close> the lowering of short-circuit operators, \<open>SwitchLower\<close> the
  lowering of switch with its clusters, items and search tree. A null pointer that is followed is \<open>None\<close>;
  \<open>null_free_block\<close> is the exact condition under which the lowering of a block follows none. Fresh labels and registers are threaded counters. \<open>MirLowerSound\<close>, \<open>EmbeddedSound\<close>, \<open>CandCiorSound\<close> and
  \<open>SwitchSound\<close> prove simulation: the branches run to the outcome and store of the source.
  \<open>LoweredForm\<close> states what lowered code no longer contains. The recursion of \<open>BuildCodeForSwitchItems\<close>
  has the number of items as fuel, which \<open>SwitchSound\<close> shows to be enough.

  Dominators (maple_me/src/dominance.cpp). \<open>Dominance\<close>, \<open>DomFrontier\<close> and \<open>PostDom\<close> model class \<open>Dominance\<close>
  function by function; a block is its id and the pointer vectors are maps. \<open>DomOrder\<close> shows what the
  depth first walk numbers, \<open>DomTree\<close> relates the map of immediate dominators to sets of ancestors,
  \<open>DomSound\<close> follows the rounds of the algorithm of Cooper, Harvey and Kennedy against the textbook
  iteration on sets, \<open>FrontierSound\<close> and \<open>DomPreorder\<close> treat what is derived from the tree. \<open>PostDomSound\<close>
  shows that the second copy of the algorithm is the first on the reversed graph. The locale
  \<open>dominance_analysis\<close> in \<open>DomAnalysis\<close> is the contract both copies keep. With \<open>n\<close> blocks the fuel is \<open>n + 1\<close>
  for walks, \<open>2 * n + 1\<close> for \<open>Intersect\<close> and \<open>n * n + 2\<close> for the rounds; the theorems show that it is enough
  and that no null pointer is followed in well formed graphs, where a block that is reached is taken to be
  registered in \<open>bbVec\<close>. \<open>DomPhase\<close> composes them as the phase
  (maple_me/src/me_dominance.cpp), \<open>DomPhaseSound\<close> shows that it has a result on every \<open>clean_cfg\<close>.

  Loops (maple_me/src/me_loop_analysis.cpp). \<open>LoopAnalysis\<close> models \<open>LoopDesc\<close>, \<open>IdentifyLoops\<close> and the phase
  \<open>MELoopAnalysis\<close>, a client of the dominance phase; a pointer to a \<open>LoopDesc\<close> is its index in \<open>meLoops\<close>, and
  what is read of blocks beside the graph is \<open>bb_info\<close>. \<open>LoopSound\<close> has the invariant of the loops found so
  far along the walk of the dominator tree, \<open>LoopNest\<close> the natural loops and their nesting (exactly as the comments have it where no two loops share
  a head, \<open>single_latch\<close>, and what the code does otherwise), \<open>LoopExit\<close> the
  exits, the preheader and what a canonical loop is. The two work lists have no fuel: that they end is
  part of what is shown.

  Names (maple_util/src/muid.cpp, maple_util/src/namemangler.cpp). \<open>Muid\<close> is the streaming MD5 digest and
  the identifier class made of it; \<open>Md5\<close> is the message digest written from RFC 1321 on its own, with the RFC's example as a
  test, and \<open>MuidSound\<close> shows that the two agree.
  \<open>Mangler\<close> and \<open>LebCodec\<close> model name mangling, the UTF-8 and UTF-16 conversions and LEB128; the locale
  \<open>stream_codec\<close> is the interface of an encoding that can be read off a stream. \<open>MangleSound\<close>, \<open>NameSound\<close>
  and \<open>LebSound\<close> hold the round trips, the sizes and the buffer bounds.

  Containers (maple_util/include/ptr_list_ref.h). \<open>PtrList\<close> is the intrusive list on a heap of links,
  \<open>PtrListSound\<close> relates every operation to the list of nodes it holds; the locales \<open>node_sequence\<close> and
  \<open>splice_sequence\<close> are what blocks of statements use of it.

  This root theory holds the properties of constant operands; each other property stands in the
  theory of its component. Fuel never hides a failure: every property about a result states that the
  result exists.

  Not modelled. Floating point, string, address and aggregate constants, and the folding of select, iread,
  array, retype and floating point nodes: their values depend on the host's floating point or on
  memory, which the model has no cells for. Statements with memory, calls and exceptions. Lowering of
  arrays and the debug dumps. The mangled forms of \<open>NativeJavaName\<close> are modelled, the rest of the
  command line and file handling is I/O. The front ends, the optimiser passes of maple_me other than
  dominators and loops, maple_ipa, maple_phase, maple_driver and the code generator maple_be/src/cg are not
  modelled: they work on data (SSA, alias sets, machine operands, liveness) that this development does
  not build, and each would need a development of its own. Vendored code under third_party and the
  runtime libraries are outside.
\<close>

section \<open>Constant operands\<close>

text \<open>
  C26. Folding a binary operator on two integer constants computes what the operator means: where
  the node has a value, \<open>FoldIntConstBinaryMIRConst\<close> succeeds with the constant of that value.
\<close>

theorem const_binary_correct:
  assumes "wt (EBinary op p (EConst t0 c0) (EConst t1 c1))"
    and "eval \<rho> (EBinary op p (EConst t0 c0) (EConst t1 c1)) = Some v"
  shows "FoldIntConstBinaryMIRConst op p c0 c1 = Some \<lparr>ic_type = p, ic_value = v\<rparr>"
  using assms by (rule FoldIntConstBinaryMIRConst_correct)

lemma const_binary_correct_witness:
  "FoldIntConstBinaryMIRConst OP_div PTY_i32 \<lparr>ic_type = PTY_i32, ic_value = - 7\<rparr> \<lparr>ic_type = PTY_i32, ic_value = 2\<rparr>
     = Some \<lparr>ic_type = PTY_i32, ic_value = - 3\<rparr>"
  by (rule const_binary_correct [where \<rho> = "\<lambda>_. 0" and ?t0.0 = PTY_i32 and ?t1.0 = PTY_i32]; code_simp)

text \<open>
  C27. Folding a comparison of two integer constants agrees with the comparison at the operand
  type, signed or unsigned, on 64, 32 or fewer bits, \<open>cmp\<close> included.
\<close>

theorem const_comparison_correct:
  assumes "wt (ECompare op p q (EConst t0 c0) (EConst t1 c1))"
    and "eval \<rho> (ECompare op p q (EConst t0 c0) (EConst t1 c1)) = Some v"
  shows "FoldIntConstComparisonMIRConst op p q c0 c1 = Some \<lparr>ic_type = p, ic_value = v\<rparr>"
  using assms by (rule FoldIntConstComparisonMIRConst_correct)

lemma const_comparison_correct_witness:
  "FoldIntConstComparisonMIRConst OP_lt PTY_u1 PTY_u32 \<lparr>ic_type = PTY_i32, ic_value = - 1\<rparr>
     \<lparr>ic_type = PTY_u32, ic_value = 1\<rparr> = Some \<lparr>ic_type = PTY_u1, ic_value = 0\<rparr>"
  by (rule const_comparison_correct [where \<rho> = "\<lambda>_. 0" and ?t0.0 = PTY_i32 and ?t1.0 = PTY_u32]; code_simp)

text \<open>
  C29. Folding a unary operator on an integer constant computes what the operator means.
\<close>

theorem const_unary_correct:
  assumes "wt (EUnary op p (EConst t c))" and "eval \<rho> (EUnary op p (EConst t c)) = Some v"
  shows "FoldIntConstUnary op p c = Some (EConst p \<lparr>ic_type = p, ic_value = v\<rparr>)"
  using assms by (rule FoldIntConstUnary_correct)

lemma const_unary_correct_witness:
  "FoldIntConstUnary OP_abs PTY_i32 \<lparr>ic_type = PTY_i32, ic_value = - 9\<rparr>
     = Some (EConst PTY_i32 \<lparr>ic_type = PTY_i32, ic_value = 9\<rparr>)"
  by (rule const_unary_correct [where \<rho> = "\<lambda>_. 0" and t = PTY_i32]; code_simp)

text \<open>
  C28. A conversion of an integer constant (truncation, sign or zero extension, to and from
  \<open>u1\<close>) gives the constant of the converted value; the code never declines to fold it.
\<close>

theorem const_cvt_correct:
  assumes "wt (ETypeCvt OP_cvt p q (EConst t c))" and "eval \<rho> (ETypeCvt OP_cvt p q (EConst t c)) = Some v"
  shows "FoldTypeCvtMIRConst c q p = Some (Some \<lparr>ic_type = p, ic_value = v\<rparr>)"
  using assms by (rule FoldTypeCvtMIRConst_correct)

lemma const_cvt_correct_witness:
  "FoldTypeCvtMIRConst \<lparr>ic_type = PTY_i8, ic_value = - 1\<rparr> PTY_i8 PTY_u32
     = Some (Some \<lparr>ic_type = PTY_u32, ic_value = 4294967295\<rparr>)"
  by (rule const_cvt_correct [where \<rho> = "\<lambda>_. 0" and t = PTY_i8]; code_simp)

end
